(* ===== verification/Prelude.thy ===== *)
theory Prelude
  imports Main "HOL-Library.Word" "HOL-Library.Char_ord" "HOL-Library.List_Lexorder"
    "HOL-Library.Sublist" "HOL-Library.Multiset"
begin

text \<open>
  Shared vocabulary of the development: Rust's \<open>Result\<close> as a sum whose left side
  names the \<open>bail!\<close>, \<open>?\<close> or panic that ended the computation; checked 64-bit
  arithmetic; \<open>str::split\<close>, \<open>rsplit_once\<close> and \<open>join\<close>; and the sorting and
  deduplication of \<open>Vec\<close>. The lemmas here carry the proofs of the component theories.
\<close>

named_theorems result_simps \<open>equations that resolve a monadic step\<close>
named_theorems path_simps \<open>components of the paths the program builds\<close>
named_theorems sql_simps \<open>definitions of the SQL statements\<close>


section \<open>Errors and results\<close>

text \<open>
  One constructor per way a function of the program fails. The texts of the messages are
  not part of the behaviour; what they identify (the path, the hash, the sequence) is kept
  where a caller depends on it.
\<close>

datatype io_kind = NotFound | AlreadyExists | NotADirectory | IsADirectory | DirectoryNotEmpty
  | TooManyLinks | PermissionDenied | OtherIo

datatype path_error = InvalidBlobHash | NonUtf8Path | InvalidRelativePath | InvalidCatalogPath
  | NotAbsolute | UnsupportedComponent | SliceOutOfRange | MissingParent | MissingFileName
  | EscapedRoot

datatype config_error = PathOverlap | DatabaseInsideTree | DatabaseInsideMissingStore
  | NotARealDirectory | NotARegularFile | HashDigitsRange | ZeroChunkSize

datatype store_error = ReadFailed | WriteFailed | SizeChanged | SourceChanged | SourceModified
  | UnexpectedSize | NotABlobFile

datatype catalog_error = SchemaVersion int | NotWalMode | SqlError | ConstraintViolation
  | UnexpectedType | SizeOutOfRange | NegativeSize | HashDisagreement | SizeDisagreement
  | RowCount nat

datatype writer_error = SessionActive | NoActiveSession | WriterTerminated
  | ShutdownWithActiveSession | BatchFailed | CommitFailed | CheckpointFailed | ImportDuringGc

datatype gc_error = MissingIdentity | ChangedAfterPreflight | NoLongerRegular | RollbackFailed

datatype tree_error = HashSuffixCollision | UserSymlinkBlocker | NonSymlinkBlocker
  | SymlinkBlocker | ParentNotDirectory

datatype ingest_error = WorkerFailed | UnaccountedWork | QueueClosed | CoordinatorPanicked

datatype error = PathError path_error | ConfigError config_error | StoreError store_error
  | CatalogError catalog_error | WriterError writer_error | GcError gc_error
  | TreeError tree_error | IngestError ingest_error | Io io_kind
  | CounterOverflow | CounterUnderflow | TelemetryFailed

type_synonym 'a result = "error + 'a"

definition bind_result :: "'a result \<Rightarrow> ('a \<Rightarrow> 'b result) \<Rightarrow> 'b result" where
  "bind_result r f = (case r of Inl e \<Rightarrow> Inl e | Inr x \<Rightarrow> f x)"

definition is_ok :: "'a result \<Rightarrow> bool" where
  "is_ok r = (case r of Inl _ \<Rightarrow> False | Inr _ \<Rightarrow> True)"

definition ok_or :: "error \<Rightarrow> 'a option \<Rightarrow> 'a result" where
  "ok_or e m = (case m of None \<Rightarrow> Inl e | Some x \<Rightarrow> Inr x)"

definition require :: "bool \<Rightarrow> error \<Rightarrow> unit result" where
  "require b e = (if b then Inr () else Inl e)"

lemma bind_result_simps [simp, result_simps]:
  "bind_result (Inl e) f = Inl e"
  "bind_result (Inr x) f = f x"
  by (simp_all add: bind_result_def)

lemma is_ok_simps [simp]: "is_ok (Inl e) = False" "is_ok (Inr x) = True"
  by (simp_all add: is_ok_def)

lemma ok_or_simps [simp]: "ok_or e None = Inl e" "ok_or e (Some x) = Inr x"
  by (simp_all add: ok_or_def)

lemma is_ok_iff: "is_ok r \<longleftrightarrow> (\<exists>x. r = Inr x)"
  by (cases r) auto

lemma bind_result_InrE:
  assumes "bind_result r f = Inr y"
  obtains x where "r = Inr x" "f x = Inr y"
  using assms by (cases r) auto

lemma bind_result_eq_Inr [result_simps]:
  "bind_result r f = Inr y \<longleftrightarrow> (\<exists>x. r = Inr x \<and> f x = Inr y)"
  by (cases r) auto

lemma bind_result_eq_Inl [result_simps]:
  "bind_result r f = Inl e \<longleftrightarrow> (r = Inl e \<or> (\<exists>x. r = Inr x \<and> f x = Inl e))"
  by (cases r) auto

lemma ok_or_eq_Inr [result_simps]: "ok_or e m = Inr x \<longleftrightarrow> m = Some x"
  by (cases m) auto

lemma require_eq_Inr [result_simps]: "require b e = Inr u \<longleftrightarrow> b"
  by (simp add: require_def)

lemma require_simps [simp]: "require True e = Inr ()" "require False e = Inl e"
  by (simp_all add: require_def)

lemma bind_result_cong [fundef_cong]:
  "r = r' \<Longrightarrow> (\<And>x. r' = Inr x \<Longrightarrow> f x = g x) \<Longrightarrow> bind_result r f = bind_result r' g"
  by (cases r') auto

lemma bind_result_assoc: "bind_result (bind_result r f) g = bind_result r (\<lambda>x. bind_result (f x) g)"
  by (cases r) auto

text \<open>A step that changes a state and may fail, followed by another: the changes made before an error stay.\<close>

definition then_step :: "'s \<times> unit result \<Rightarrow> ('s \<Rightarrow> 's \<times> 'a result) \<Rightarrow> 's \<times> 'a result" where
  "then_step r k = (case r of (s, Inl e) \<Rightarrow> (s, Inl e) | (s, Inr _) \<Rightarrow> k s)"

lemma then_step_simps [simp]: "then_step (s, Inl e) k = (s, Inl e)" "then_step (s, Inr u) k = k s"
  by (simp_all add: then_step_def)

lemma then_step_Inr: "then_step r k = (s', Inr u) \<longleftrightarrow> (\<exists>s. r = (s, Inr ()) \<and> k s = (s', Inr u))"
  by (auto simp: then_step_def split: prod.splits sum.splits)

text \<open>\<open>for x in xs { acc = step(acc, x)? }\<close>: the loop that stops at the first error.\<close>

fun fold_result :: "('s \<Rightarrow> 'a \<Rightarrow> 's result) \<Rightarrow> 's \<Rightarrow> 'a list \<Rightarrow> 's result" where
  "fold_result f s [] = Inr s"
| "fold_result f s (x # xs) = bind_result (f s x) (\<lambda>s'. fold_result f s' xs)"

lemma fold_result_append:
  "fold_result f s (xs @ ys) = bind_result (fold_result f s xs) (\<lambda>s'. fold_result f s' ys)"
  by (induction xs arbitrary: s) (auto simp: bind_result_assoc)

lemma fold_result_invariant:
  assumes "fold_result f s xs = Inr s'" and "P s"
    and "\<And>t x t'. x \<in> set xs \<Longrightarrow> P t \<Longrightarrow> f t x = Inr t' \<Longrightarrow> P t'"
  shows "P s'"
  using assms
proof (induction xs arbitrary: s)
  case (Cons x xs)
  then obtain s1 where s1: "f s x = Inr s1" "fold_result f s1 xs = Inr s'"
    by (auto elim: bind_result_InrE)
  have "P s1" using Cons.prems(2,3) s1(1) by auto
  then show ?case using Cons.IH[OF s1(2)] Cons.prems(3) by auto
qed auto

lemma fold_result_cong [fundef_cong]:
  assumes "s = t" "xs = ys" "\<And>u x. x \<in> set ys \<Longrightarrow> f u x = g u x"
  shows "fold_result f s xs = fold_result g t ys"
  unfolding assms(1,2) using assms(3)
  by (induction ys arbitrary: t) (auto intro!: bind_result_cong)

text \<open>\<open>iter().map(f).collect::<Result<Vec<_>>>()\<close>.\<close>

fun map_result :: "('a \<Rightarrow> 'b result) \<Rightarrow> 'a list \<Rightarrow> 'b list result" where
  "map_result f [] = Inr []"
| "map_result f (x # xs) = bind_result (f x) (\<lambda>y. bind_result (map_result f xs) (\<lambda>ys. Inr (y # ys)))"

lemma map_result_Inr_iff: "map_result f xs = Inr ys \<longleftrightarrow> map f xs = map Inr ys"
  by (induction xs arbitrary: ys) (auto simp: bind_result_eq_Inr Cons_eq_map_conv)

lemma map_result_pure [simp]: "map_result (\<lambda>x. Inr (g x)) xs = Inr (map g xs)"
  by (induction xs) auto


section \<open>Sixty-four bit arithmetic\<close>

type_synonym u64 = "64 word"

text \<open>\<open>u64::checked_add\<close>, and \<open>checked_add(..).ok_or_else(|| eyre!(..))\<close>.\<close>

definition checked_add :: "u64 \<Rightarrow> u64 \<Rightarrow> u64 option" where
  "checked_add a b = (if unat a + unat b < 2 ^ 64 then Some (a + b) else None)"

definition add_or_fail :: "u64 \<Rightarrow> u64 \<Rightarrow> u64 result" where
  "add_or_fail a b = ok_or CounterOverflow (checked_add a b)"

lemma checked_add_Some_iff:
  "checked_add a b = Some c \<longleftrightarrow> unat a + unat b < 2 ^ 64 \<and> c = a + b"
  by (auto simp: checked_add_def)

lemma checked_add_unat: "checked_add a b = Some c \<Longrightarrow> unat c = unat a + unat b"
  by (auto simp: checked_add_def unat_word_ariths split: if_splits)

lemma add_or_fail_unat: "add_or_fail a b = Inr c \<Longrightarrow> unat c = unat a + unat b"
  by (simp add: add_or_fail_def ok_or_eq_Inr checked_add_unat)

lemma add_or_fail_Inr: "unat a + unat b < 2 ^ 64 \<Longrightarrow> add_or_fail a b = Inr (a + b)"
  by (simp add: add_or_fail_def checked_add_def)

lemma unat_add_bounded: "unat a + unat b < 2 ^ 64 \<Longrightarrow> unat (a + b :: u64) = unat a + unat b"
  by (simp add: unat_word_ariths)

text \<open>
  An \<open>i64\<close> is an \<open>int\<close> in the range SQLite stores; \<open>u64::try_into::<i64>\<close> fails
  above it.
\<close>

definition i64_max :: int where "i64_max = 2 ^ 63 - 1"

definition i64_range :: "int \<Rightarrow> bool" where
  "i64_range v \<longleftrightarrow> - (2 ^ 63) \<le> v \<and> v \<le> i64_max"

text \<open>\<open>usize\<close> counters of collections; \<open>usize\<close> is 64 bits on the supported targets.\<close>

definition u64_of_len :: "nat \<Rightarrow> u64 result" where
  "u64_of_len n = (if n < 2 ^ 64 then Inr (of_nat n) else Inl CounterOverflow)"

lemma unat_of_nat_u64: "n < 2 ^ 64 \<Longrightarrow> unat (of_nat n :: u64) = n"
  by (simp add: unat_of_nat take_bit_nat_eq_self)

lemma u64_of_len_unat: "u64_of_len n = Inr c \<Longrightarrow> unat c = n"
  by (auto simp: u64_of_len_def unat_of_nat_u64 split: if_splits)


section \<open>Strings\<close>

text \<open>
  A \<open>String\<close>, \<open>OsStr\<close> or \<open>Path\<close> is its sequence of bytes; a \<open>char\<close> of HOL is one
  byte. \<open>split_on\<close> is \<open>str::split\<close> at one ASCII character: it never returns the empty
  list, and \<open>"".split('/')\<close> is \<open>[""]\<close>.
\<close>

fun split_on :: "char \<Rightarrow> string \<Rightarrow> string list" where
  "split_on c [] = [[]]"
| "split_on c (x # xs) =
     (if x = c then [] # split_on c xs
      else (case split_on c xs of [] \<Rightarrow> [[x]] | y # ys \<Rightarrow> (x # y) # ys))"

fun join_with :: "char \<Rightarrow> string list \<Rightarrow> string" where
  "join_with c [] = []"
| "join_with c [p] = p"
| "join_with c (p # q # ps) = p @ c # join_with c (q # ps)"

lemma split_on_ne [simp]: "split_on c s \<noteq> []"
  by (cases s) (auto split: list.splits)

lemma split_on_free: "c \<notin> set s \<Longrightarrow> split_on c s = [s]"
  by (induction s) auto

lemma split_on_append:
  "c \<notin> set s \<Longrightarrow> split_on c (s @ c # t) = s # split_on c t"
  by (induction s) auto

lemma set_split_on: "p \<in> set (split_on c s) \<Longrightarrow> c \<notin> set p \<and> set p \<subseteq> set s"
proof (induction s arbitrary: p)
  case (Cons x xs)
  obtain y ys where y: "split_on c xs = y # ys"
    using split_on_ne by (meson neq_Nil_conv)
  show ?case
    using Cons.prems Cons.IH[of p] Cons.IH[of y] by (auto simp: y split: if_splits)
qed auto

lemma join_split [simp]: "join_with c (split_on c s) = s"
proof (induction s)
  case (Cons x xs)
  obtain y ys where y: "split_on c xs = y # ys"
    using split_on_ne by (meson neq_Nil_conv)
  show ?case
    using Cons.IH by (cases ys) (auto simp: y)
qed auto

lemma split_join:
  "ps \<noteq> [] \<Longrightarrow> (\<And>p. p \<in> set ps \<Longrightarrow> c \<notin> set p) \<Longrightarrow> split_on c (join_with c ps) = ps"
  by (induction c ps rule: join_with.induct) (auto simp: split_on_free split_on_append)

lemma split_on_eq_iff:
  "split_on c s = ps \<longleftrightarrow> ps \<noteq> [] \<and> (\<forall>p\<in>set ps. c \<notin> set p) \<and> s = join_with c ps"
  by (metis join_split set_split_on split_join split_on_ne)

lemma join_with_append:
  "ps \<noteq> [] \<Longrightarrow> qs \<noteq> [] \<Longrightarrow> join_with c (ps @ qs) = join_with c ps @ c # join_with c qs"
proof (induction c ps rule: join_with.induct)
  case (2 c p)
  then show ?case by (cases qs) auto
qed auto

lemma split_on_append_gen:
  "split_on c (s @ c # t) = split_on c s @ split_on c t"
proof -
  have "split_on c s \<noteq> []" "split_on c t \<noteq> []" by simp_all
  then have "join_with c (split_on c s @ split_on c t) = s @ c # t"
    by (simp add: join_with_append)
  moreover have "\<forall>p\<in>set (split_on c s @ split_on c t). c \<notin> set p"
    using set_split_on by auto
  ultimately show ?thesis
    by (intro iffD2[OF split_on_eq_iff]) auto
qed

text \<open>\<open>str::rsplit_once\<close>: split at the last occurrence.\<close>

fun rsplit_once :: "char \<Rightarrow> string \<Rightarrow> (string \<times> string) option" where
  "rsplit_once c [] = None"
| "rsplit_once c (x # xs) =
     (case rsplit_once c xs of
        Some (l, r) \<Rightarrow> Some (x # l, r)
      | None \<Rightarrow> if x = c then Some ([], xs) else None)"

lemma rsplit_once_None: "rsplit_once c s = None \<longleftrightarrow> c \<notin> set s"
  by (induction s) (auto split: option.splits)

lemma rsplit_once_Some: "rsplit_once c s = Some (l, r) \<longleftrightarrow> s = l @ c # r \<and> c \<notin> set r"
proof (induction s arbitrary: l)
  case (Cons x xs)
  show ?case
  proof (cases "rsplit_once c xs")
    case None
    then have "c \<notin> set xs" by (simp add: rsplit_once_None)
    then show ?thesis using None by (cases l) auto
  next
    case (Some p)
    then obtain l' r' where p: "rsplit_once c xs = Some (l', r')" by (cases p) auto
    then have "c \<in> set xs" using rsplit_once_None[of c xs] by auto
    then show ?thesis using Cons.IH p by (cases l) auto
  qed
qed auto

end
