(* ===== verification/Utf8.thy ===== *)
theory Utf8
  imports Prelude
begin

text \<open>
  \<open>std::str::from_utf8\<close> and \<open>str::chars\<close>, as far as the program uses them: path
  components and catalog texts must be valid UTF-8, and findings render the invalid bytes
  of a path one by one.
\<close>

section \<open>Validating and decoding one character\<close>

abbreviation byte :: "char \<Rightarrow> nat" where
  "byte c \<equiv> of_char c"

definition is_cont :: "char \<Rightarrow> bool" where
  "is_cont c \<longleftrightarrow> 128 \<le> byte c \<and> byte c \<le> 191"

definition second_ok3 :: "char \<Rightarrow> char \<Rightarrow> bool" where
  "second_ok3 a b \<longleftrightarrow>
     (byte a = 224 \<and> 160 \<le> byte b \<and> byte b \<le> 191) \<or>
     (225 \<le> byte a \<and> byte a \<le> 236 \<and> is_cont b) \<or>
     (byte a = 237 \<and> 128 \<le> byte b \<and> byte b \<le> 159) \<or>
     (238 \<le> byte a \<and> byte a \<le> 239 \<and> is_cont b)"

definition second_ok4 :: "char \<Rightarrow> char \<Rightarrow> bool" where
  "second_ok4 a b \<longleftrightarrow>
     (byte a = 240 \<and> 144 \<le> byte b \<and> byte b \<le> 191) \<or>
     (241 \<le> byte a \<and> byte a \<le> 243 \<and> is_cont b) \<or>
     (byte a = 244 \<and> 128 \<le> byte b \<and> byte b \<le> 143)"

text \<open>
  One step of the decoder on a non-empty input: \<open>Inr n\<close> when the first \<open>n\<close> bytes are
  one character, \<open>Inl (Some n)\<close> for an invalid sequence of \<open>n\<close> bytes
  (\<open>Utf8Error::error_len\<close>), \<open>Inl None\<close> when the input ends inside a sequence.
\<close>

fun utf8_step :: "string \<Rightarrow> nat option + nat" where
  "utf8_step [] = Inl None"
| "utf8_step (a # s) =
     (if byte a < 128 then Inr 1
      else if 194 \<le> byte a \<and> byte a \<le> 223 then
        (case s of [] \<Rightarrow> Inl None
         | b # _ \<Rightarrow> if is_cont b then Inr 2 else Inl (Some 1))
      else if 224 \<le> byte a \<and> byte a \<le> 239 then
        (case s of [] \<Rightarrow> Inl None
         | b # s1 \<Rightarrow> if \<not> second_ok3 a b then Inl (Some 1)
             else (case s1 of [] \<Rightarrow> Inl None
                   | c # _ \<Rightarrow> if is_cont c then Inr 3 else Inl (Some 2)))
      else if 240 \<le> byte a \<and> byte a \<le> 244 then
        (case s of [] \<Rightarrow> Inl None
         | b # s1 \<Rightarrow> if \<not> second_ok4 a b then Inl (Some 1)
             else (case s1 of [] \<Rightarrow> Inl None
                   | c # s2 \<Rightarrow> if \<not> is_cont c then Inl (Some 2)
                       else (case s2 of [] \<Rightarrow> Inl None
                             | d # _ \<Rightarrow> if is_cont d then Inr 4 else Inl (Some 3))))
      else Inl (Some 1))"

lemma utf8_step_bounds:
  "utf8_step s = Inr n \<Longrightarrow> 0 < n \<and> n \<le> length s"
  "utf8_step s = Inl (Some m) \<Longrightarrow> 0 < m \<and> m \<le> length s"
  by (cases s; auto split: if_splits list.splits)+

text \<open>
  \<open>from_utf8\<close>: \<open>None\<close> for a valid text, otherwise \<open>valid_up_to\<close> and \<open>error_len\<close>.
\<close>

function from_utf8 :: "string \<Rightarrow> (nat \<times> nat option) option" where
  "from_utf8 s =
     (if s = [] then None
      else (case utf8_step s of
              Inl e \<Rightarrow> Some (0, e)
            | Inr n \<Rightarrow> map_option (\<lambda>(v, e). (n + v, e)) (from_utf8 (drop n s))))"
  by pat_completeness auto
termination
  by (relation "measure length") (auto dest!: utf8_step_bounds)

declare from_utf8.simps [simp del]

definition valid_utf8 :: "string \<Rightarrow> bool" where
  "valid_utf8 s \<longleftrightarrow> from_utf8 s = None"

lemma valid_utf8_Nil [simp]: "valid_utf8 []"
  by (simp add: valid_utf8_def from_utf8.simps)

lemma valid_utf8_ascii_Cons [simp]: "byte a < 128 \<Longrightarrow> valid_utf8 (a # s) = valid_utf8 s"
  by (simp add: valid_utf8_def from_utf8.simps[of "a # s"])

lemma utf8_step_append: "utf8_step s = Inr n \<Longrightarrow> utf8_step (s @ t) = Inr n"
  by (cases s) (auto split: if_splits list.splits)

lemma from_utf8_append:
  "from_utf8 s = None \<Longrightarrow>
   from_utf8 (s @ t) = map_option (\<lambda>(v, e). (length s + v, e)) (from_utf8 t)"
proof (induction s rule: from_utf8.induct)
  case (1 s)
  show ?case
  proof (cases "s = []")
    case True
    then show ?thesis by (auto simp: option.map_id0[unfolded id_def])
  next
    case False
    with 1(2) obtain n where n: "utf8_step s = Inr n" "from_utf8 (drop n s) = None"
      by (subst (asm) from_utf8.simps) (auto split: sum.splits)
    have le: "n \<le> length s" using utf8_step_bounds(1)[OF n(1)] by simp
    have "from_utf8 (s @ t) = map_option (\<lambda>(v, e). (n + v, e)) (from_utf8 (drop n s @ t))"
      using False n(1) le by (subst from_utf8.simps) (simp add: utf8_step_append)
    also have "\<dots> = map_option (\<lambda>(v, e). (length s + v, e)) (from_utf8 t)"
      using 1(1)[OF False n(1) n(2)] le
      by (simp add: option.map_comp comp_def case_prod_unfold)
    finally show ?thesis .
  qed
qed

lemma valid_utf8_append [simp]: "valid_utf8 s \<Longrightarrow> valid_utf8 (s @ t) = valid_utf8 t"
  by (simp add: valid_utf8_def from_utf8_append)

lemma from_utf8_valid_prefix:
  "from_utf8 s = Some (v, e) \<Longrightarrow>
     v < length s \<and> from_utf8 (take v s) = None \<and> utf8_step (drop v s) = Inl e"
proof (induction s arbitrary: v rule: from_utf8.induct)
  case (1 s)
  then have ne: "s \<noteq> []" by (auto simp: from_utf8.simps)
  show ?case
  proof (cases "utf8_step s")
    case (Inl x)
    then show ?thesis using 1(2) ne by (subst (asm) from_utf8.simps) (auto simp: from_utf8.simps)
  next
    case (Inr n)
    have n: "0 < n" "n \<le> length s" using utf8_step_bounds(1)[OF Inr] by auto
    from 1(2) ne Inr obtain v' where v': "from_utf8 (drop n s) = Some (v', e)" "v = n + v'"
      by (subst (asm) from_utf8.simps) auto
    note IH = 1(1)[OF ne Inr v'(1)]
    have "from_utf8 (take n s) = None"
    proof -
      have "utf8_step (take n s) = Inr n"
        using Inr n by (cases s) (auto split: if_splits list.splits)
      then show ?thesis using n by (subst from_utf8.simps) (auto simp: from_utf8.simps)
    qed
    then show ?thesis using IH v' n
      by (auto simp: take_add from_utf8_append add.commute)
  qed
qed

end
