(* ===== verification/Paths.thy ===== *)
theory Paths
  imports Utf8
begin

text \<open>
  \<^verbatim>\<open>paths.rs\<close>: the validated names of the program (blob hashes, catalog-relative paths),
  the layout of the store, the output names of the browse tree and the lexical handling of
  symbolic links. A \<open>Path\<close> is its text; \<open>components\<close> is \<open>Path::components\<close> on Unix,
  and the derived operations of \<open>std::path\<close> are built from it as the standard library
  builds them.
\<close>

type_synonym path = string

section \<open>The part of std::path the program uses\<close>

datatype component = RootDir | CurDir | ParentDir | Normal string

definition is_absolute :: "path \<Rightarrow> bool" where
  "is_absolute p \<longleftrightarrow> (case p of [] \<Rightarrow> False | c # _ \<Rightarrow> c = CHR ''/'')"

definition part_component :: "string \<Rightarrow> component list" where
  "part_component s =
     (if s = [] \<or> s = ''.'' then [] else if s = ''..'' then [ParentDir] else [Normal s])"

text \<open>A leading \<open>.\<close> of a relative path is the only one that is kept.\<close>

definition components :: "path \<Rightarrow> component list" where
  "components p =
     (if is_absolute p then RootDir # concat (map part_component (split_on CHR ''/'' p))
      else (case split_on CHR ''/'' p of
              [] \<Rightarrow> []
            | s # ss \<Rightarrow> (if s = ''.'' then [CurDir] else part_component s)
                         @ concat (map part_component ss)))"

definition component_text :: "component \<Rightarrow> string" where
  "component_text c = (case c of RootDir \<Rightarrow> ''/'' | CurDir \<Rightarrow> ''.'' | ParentDir \<Rightarrow> ''..'' | Normal s \<Rightarrow> s)"

text \<open>\<open>Path::join\<close> and \<open>PathBuf::push\<close>: an absolute argument replaces the receiver.\<close>

definition path_join :: "path \<Rightarrow> path \<Rightarrow> path" where
  "path_join a b =
     (if is_absolute b then b
      else if a = [] \<or> last a = CHR ''/'' then a @ b
      else a @ CHR ''/'' # b)"

definition collect_path :: "string list \<Rightarrow> path" where
  "collect_path ps = foldl path_join [] ps"

definition path_eq :: "path \<Rightarrow> path \<Rightarrow> bool" where
  "path_eq a b \<longleftrightarrow> components a = components b"

definition starts_with :: "path \<Rightarrow> path \<Rightarrow> bool" where
  "starts_with p q \<longleftrightarrow> prefix (components q) (components p)"

definition render :: "component list \<Rightarrow> path" where
  "render cs = foldl path_join [] (map component_text cs)"

text \<open>\<open>Path::parent\<close> and \<open>Path::file_name\<close>.\<close>

definition path_parent :: "path \<Rightarrow> path option" where
  "path_parent p =
     (let cs = components p in
      if cs = [] \<or> last cs = RootDir then None else Some (render (butlast cs)))"

definition file_name :: "path \<Rightarrow> string option" where
  "file_name p =
     (let cs = components p in
      if cs = [] then None else case last cs of Normal s \<Rightarrow> Some s | _ \<Rightarrow> None)"

text \<open>\<open>Path::strip_prefix\<close>, on components.\<close>

definition strip_prefix :: "path \<Rightarrow> path \<Rightarrow> path option" where
  "strip_prefix p q =
     (if starts_with p q then Some (render (drop (length (components q)) (components p))) else None)"


section \<open>Blob hashes\<close>

datatype blob_hash = BlobHash (as_str: string)

definition is_lower_hex :: "char \<Rightarrow> bool" where
  "is_lower_hex c \<longleftrightarrow> (48 \<le> byte c \<and> byte c \<le> 57) \<or> (97 \<le> byte c \<and> byte c \<le> 102)"

definition blob_hash_new :: "string \<Rightarrow> blob_hash result" where
  "blob_hash_new s =
     (if length s = 64 \<and> list_all is_lower_hex s then Inr (BlobHash s)
      else Inl (PathError InvalidBlobHash))"

text \<open>The invariant of the type: every \<open>BlobHash\<close> the program holds came from \<open>new\<close>.\<close>

definition hash_ok :: "blob_hash \<Rightarrow> bool" where
  "hash_ok h \<longleftrightarrow> length (as_str h) = 64 \<and> list_all is_lower_hex (as_str h)"

instantiation blob_hash :: linorder
begin

definition less_eq_blob_hash :: "blob_hash \<Rightarrow> blob_hash \<Rightarrow> bool" where
  "less_eq_blob_hash a b \<longleftrightarrow> as_str a \<le> as_str b"

definition less_blob_hash :: "blob_hash \<Rightarrow> blob_hash \<Rightarrow> bool" where
  "less_blob_hash a b \<longleftrightarrow> as_str a < as_str b"

instance
  by standard (auto simp: less_eq_blob_hash_def less_blob_hash_def intro: blob_hash.expand)

end


section \<open>The store layout\<close>

record store_root =
  store_path :: path

definition blobs_dir :: "store_root \<Rightarrow> path" where
  "blobs_dir r = path_join (store_path r) ''blobs''"

definition staging_dir :: "store_root \<Rightarrow> path" where
  "staging_dir r = path_join (store_path r) ''staging''"

definition default_db_path :: "store_root \<Rightarrow> path" where
  "default_db_path r = path_join (store_path r) ''catalog.sqlite''"

definition shard1 :: "blob_hash \<Rightarrow> string" where "shard1 h = take 2 (as_str h)"
definition shard2 :: "blob_hash \<Rightarrow> string" where "shard2 h = take 2 (drop 2 (as_str h))"

definition blob_path :: "store_root \<Rightarrow> blob_hash \<Rightarrow> path" where
  "blob_path r h =
     path_join (path_join (path_join (blobs_dir r) (shard1 h)) (shard2 h)) (as_str h)"

definition staging_path :: "store_root \<Rightarrow> string \<Rightarrow> path" where
  "staging_path r name = path_join (staging_dir r) name"


section \<open>Source-relative paths\<close>

datatype source_relative_path = SourceRelativePath (rel_str: string)

definition os_str_to_utf8 :: "string \<Rightarrow> string result" where
  "os_str_to_utf8 s = (if valid_utf8 s then Inr s else Inl (PathError NonUtf8Path))"

definition path_to_utf8 :: "path \<Rightarrow> string result" where
  "path_to_utf8 p = (if valid_utf8 p then Inr p else Inl (PathError NonUtf8Path))"

definition rel_part_step :: "string list \<Rightarrow> component \<Rightarrow> string list result" where
  "rel_part_step parts c =
     (case c of
        Normal v \<Rightarrow> bind_result (os_str_to_utf8 v) (\<lambda>t. Inr (parts @ [t]))
      | CurDir \<Rightarrow> Inr parts
      | _ \<Rightarrow> Inl (PathError InvalidRelativePath))"

definition from_path :: "path \<Rightarrow> source_relative_path result" where
  "from_path p =
     (if p = [] \<or> is_absolute p then Inl (PathError InvalidRelativePath)
      else bind_result (fold_result rel_part_step [] (components p))
        (\<lambda>parts. if parts = [] then Inl (PathError InvalidRelativePath)
                  else Inr (SourceRelativePath (join_with CHR ''/'' parts))))"

definition from_catalog_text :: "string \<Rightarrow> source_relative_path result" where
  "from_catalog_text v =
     (if v = [] \<or> is_absolute v \<or> prefix ''//'' v \<or> CHR 0x5C \<in> set v
         \<or> list_ex (\<lambda>p. p = [] \<or> p = ''.'' \<or> p = ''..'') (split_on CHR ''/'' v)
      then Inl (PathError InvalidCatalogPath)
      else Inr (SourceRelativePath v))"


section \<open>Names in the browse tree\<close>

definition suffix_filename_with_hash :: "string \<Rightarrow> blob_hash \<Rightarrow> nat \<Rightarrow> string result" where
  "suffix_filename_with_hash filename h digits =
     (if length (as_str h) < digits then Inl (PathError SliceOutOfRange)
      else let pre = take digits (as_str h) in
        (case rsplit_once CHR ''.'' filename of
           Some (stem, extension) \<Rightarrow>
             if stem \<noteq> [] then Inr (stem @ ''_'' @ pre @ ''.'' @ extension)
             else Inr (filename @ ''_'' @ pre)
         | None \<Rightarrow> Inr (filename @ ''_'' @ pre)))"

definition output_relative_path :: "source_relative_path \<Rightarrow> blob_hash \<Rightarrow> nat \<Rightarrow> path result" where
  "output_relative_path rel h digits =
     (let parts = split_on CHR ''/'' (rel_str rel) in
      bind_result (suffix_filename_with_hash (last parts) h digits)
        (\<lambda>suffixed. Inr (path_join (collect_path (butlast parts)) suffixed)))"


section \<open>Symbolic links, lexically\<close>

definition plain_part_step :: "string list \<Rightarrow> component \<Rightarrow> string list result" where
  "plain_part_step parts c =
     (case c of
        RootDir \<Rightarrow> Inr parts
      | Normal v \<Rightarrow> bind_result (os_str_to_utf8 v) (\<lambda>t. Inr (parts @ [t]))
      | CurDir \<Rightarrow> Inr parts
      | ParentDir \<Rightarrow> Inl (PathError UnsupportedComponent))"

definition path_components_without_root :: "path \<Rightarrow> string list result" where
  "path_components_without_root p = fold_result plain_part_step [] (components p)"

definition common_length :: "string list \<Rightarrow> string list \<Rightarrow> nat" where
  "common_length xs ys = length (takeWhile (\<lambda>(l, r). l = r) (zip xs ys))"

definition relative_symlink_target :: "path \<Rightarrow> path \<Rightarrow> path result" where
  "relative_symlink_target from_parent to_file =
     (if \<not> is_absolute from_parent \<or> \<not> is_absolute to_file then Inl (PathError NotAbsolute)
      else bind_result (path_components_without_root from_parent) (\<lambda>from.
           bind_result (path_components_without_root to_file) (\<lambda>to.
             let common = common_length from to;
                 result = collect_path (replicate (length from - common) ''..'' @ drop common to)
             in Inr (if result = [] then ''.'' else result))))"

definition lex_step :: "bool \<Rightarrow> string list \<Rightarrow> component \<Rightarrow> string list result" where
  "lex_step absolute parts c =
     (case c of
        RootDir \<Rightarrow> Inr parts
      | CurDir \<Rightarrow> Inr parts
      | Normal v \<Rightarrow> bind_result (os_str_to_utf8 v) (\<lambda>t. Inr (parts @ [t]))
      | ParentDir \<Rightarrow>
          if parts \<noteq> [] \<and> last parts \<noteq> ''..'' then Inr (butlast parts)
          else if \<not> absolute then Inr (parts @ [''..'']) else Inr parts)"

definition lexical_normalize :: "path \<Rightarrow> path result" where
  "lexical_normalize p =
     bind_result (fold_result (lex_step (is_absolute p)) [] (components p))
       (\<lambda>parts. Inr (foldl path_join (if is_absolute p then ''/'' else []) parts))"

definition normalized_symlink_target :: "path \<Rightarrow> path \<Rightarrow> path result" where
  "normalized_symlink_target symlink_parent target_text =
     lexical_normalize (path_join (if is_absolute target_text then [] else symlink_parent) target_text)"

definition points_inside_blobs :: "path \<Rightarrow> path \<Rightarrow> store_root \<Rightarrow> bool result" where
  "points_inside_blobs symlink_parent target_text r =
     bind_result (normalized_symlink_target symlink_parent target_text)
       (\<lambda>p. Inr (starts_with p (blobs_dir r)))"


section \<open>Overlap of the configured paths\<close>

definition paths_overlap :: "path \<Rightarrow> path \<Rightarrow> bool" where
  "paths_overlap l r \<longleftrightarrow> starts_with l r \<or> starts_with r l"

text \<open>\<open>store_exists\<close> is what \<open>store_root.path().exists()\<close> answers.\<close>

definition validate_no_overlaps :: "path \<Rightarrow> store_root \<Rightarrow> path \<Rightarrow> bool \<Rightarrow> bool \<Rightarrow> unit result" where
  "validate_no_overlaps source r db db_was_explicit store_exists =
     (if paths_overlap source (store_path r) then Inl (ConfigError PathOverlap)
      else if starts_with db source then Inl (ConfigError DatabaseInsideTree)
      else if db_was_explicit \<and> \<not> store_exists \<and> starts_with db (store_path r)
        then Inl (ConfigError DatabaseInsideMissingStore)
      else Inr ())"

definition validate_build_tree_no_overlaps :: "store_root \<Rightarrow> path \<Rightarrow> path \<Rightarrow> bool \<Rightarrow> unit result" where
  "validate_build_tree_no_overlaps r browse_tree db db_was_explicit =
     (if paths_overlap (store_path r) browse_tree then Inl (ConfigError PathOverlap)
      else if db_was_explicit \<and> starts_with db browse_tree then Inl (ConfigError DatabaseInsideTree)
      else Inr ())"

text \<open>\<open>parent_dir\<close>: a bare relative name lives in \<open>.\<close>.\<close>

definition parent_dir :: "path \<Rightarrow> path option" where
  "parent_dir p = map_option (\<lambda>parent. if parent = [] then ''.'' else parent) (path_parent p)"


section \<open>Components of canonical paths\<close>

definition name_ok :: "string \<Rightarrow> bool" where
  "name_ok s \<longleftrightarrow> s \<noteq> [] \<and> CHR ''/'' \<notin> set s \<and> s \<noteq> ''.'' \<and> s \<noteq> ''..''"

definition abs_path :: "string list \<Rightarrow> path" where
  "abs_path ns = CHR ''/'' # join_with CHR ''/'' ns"

definition path_names :: "path \<Rightarrow> string list" where
  "path_names p = List.map_filter (\<lambda>c. case c of Normal s \<Rightarrow> Some s | _ \<Rightarrow> None) (components p)"

definition canonical :: "path \<Rightarrow> bool" where
  "canonical p \<longleftrightarrow> list_all name_ok (path_names p) \<and> p = abs_path (path_names p)"

lemma is_absolute_simps [simp]:
  "\<not> is_absolute []" "is_absolute (c # s) = (c = CHR ''/'')"
  by (simp_all add: is_absolute_def)

lemma is_absolute_abs_path [simp]: "is_absolute (abs_path ns)"
  by (simp add: abs_path_def)

lemma name_okD: "name_ok s \<Longrightarrow> s \<noteq> []" "name_ok s \<Longrightarrow> CHR ''/'' \<notin> set s"
  by (simp_all add: name_ok_def)

lemma part_component_name [simp]: "name_ok s \<Longrightarrow> part_component s = [Normal s]"
  by (simp add: part_component_def name_ok_def)

lemma part_component_nil [simp]: "part_component [] = []"
  by (simp add: part_component_def)

lemma concat_part_component_names:
  "list_all name_ok ns \<Longrightarrow> concat (map part_component ns) = map Normal ns"
  by (induction ns) auto

lemma not_absolute_name [simp]: "name_ok s \<Longrightarrow> \<not> is_absolute s"
  by (cases s) (auto simp: name_ok_def)

lemma components_abs_path [path_simps]:
  assumes "list_all name_ok ns"
  shows "components (abs_path ns) = RootDir # map Normal ns"
proof -
  have "split_on CHR ''/'' (join_with CHR ''/'' ns) = (if ns = [] then [[]] else ns)"
    using assms by (auto simp: list_all_iff name_ok_def intro: split_join)
  then show ?thesis
    using assms by (auto simp: components_def abs_path_def concat_part_component_names)
qed

lemma path_names_abs_path [simp]: "list_all name_ok ns \<Longrightarrow> path_names (abs_path ns) = ns"
  by (simp add: path_names_def components_abs_path map_filter_def comp_def)

lemma canonical_abs_path [simp]: "list_all name_ok ns \<Longrightarrow> canonical (abs_path ns)"
  by (simp add: canonical_def)

lemma canonicalE:
  assumes "canonical p"
  obtains ns where "list_all name_ok ns" "p = abs_path ns"
  using assms by (auto simp: canonical_def)

lemma join_with_ne: "ns \<noteq> [] \<Longrightarrow> list_all name_ok ns \<Longrightarrow>
  join_with CHR ''/'' ns \<noteq> [] \<and> last (join_with CHR ''/'' ns) \<noteq> CHR ''/''"
proof (induction "CHR ''/''" ns rule: join_with.induct)
  case (2 p)
  then show ?case by (simp add: name_ok_def) (metis last_in_set)
qed auto

lemma path_join_abs_path [path_simps]:
  assumes "list_all name_ok ns" "name_ok n"
  shows "path_join (abs_path ns) n = abs_path (ns @ [n])"
proof (cases "ns = []")
  case True
  then show ?thesis using assms(2) by (simp add: path_join_def abs_path_def)
next
  case False
  then show ?thesis using assms join_with_ne[OF False assms(1)]
    by (simp add: path_join_def abs_path_def join_with_append)
qed

lemma foldl_join_abs: "list_all name_ok (ms @ ns) \<Longrightarrow> foldl path_join (abs_path ms) ns = abs_path (ms @ ns)"
  by (induction ns arbitrary: ms) (simp_all add: path_join_abs_path)

lemma path_parent_abs:
  assumes "list_all name_ok (ns @ [n])"
  shows "path_parent (abs_path (ns @ [n])) = Some (abs_path ns)"
proof -
  have "render (RootDir # map Normal ns) = abs_path ns"
    using foldl_join_abs[of "[]" ns] assms by (simp add: render_def component_text_def comp_def path_join_def abs_path_def is_absolute_def)
  then show ?thesis using assms by (simp add: path_parent_def components_abs_path)
qed

lemma starts_with_abs_path:
  "list_all name_ok ms \<Longrightarrow> list_all name_ok ns \<Longrightarrow>
   starts_with (abs_path ms) (abs_path ns) \<longleftrightarrow> prefix ns ms"
  by (auto simp: starts_with_def components_abs_path inj_map_eq_map inj_def
      intro!: map_mono_prefix dest!: prefix_map_rightE)

lemma prefix_of_map_Normal: "prefix (RootDir # map Normal ns) (RootDir # map Normal ms) = prefix ns ms"
  by (auto simp: inj_map_eq_map inj_def intro!: map_mono_prefix dest!: prefix_map_rightE)

subsection \<open>Relative texts\<close>

text \<open>A relative path built by \<open>push\<close>: names, possibly after a run of \<open>..\<close>.\<close>

definition seg_ok :: "string \<Rightarrow> bool" where
  "seg_ok s \<longleftrightarrow> s \<noteq> [] \<and> CHR ''/'' \<notin> set s \<and> s \<noteq> ''.''"

definition seg_component :: "string \<Rightarrow> component" where
  "seg_component s = (if s = ''..'' then ParentDir else Normal s)"

lemma name_ok_seg_ok: "name_ok s \<Longrightarrow> seg_ok s"
  by (simp add: name_ok_def seg_ok_def)

lemma seg_ok_dotdot [simp]: "seg_ok ''..''"
  by (simp add: seg_ok_def)

lemma not_absolute_seg [simp]: "seg_ok s \<Longrightarrow> \<not> is_absolute s"
  by (cases s) (auto simp: seg_ok_def)

lemma seg_last: "seg_ok p \<Longrightarrow> p \<noteq> [] \<and> last p \<noteq> CHR ''/''"
  by (simp add: seg_ok_def) (metis last_in_set)

lemma join_segs_ne: "ns \<noteq> [] \<Longrightarrow> list_all seg_ok ns \<Longrightarrow>
  join_with CHR ''/'' ns \<noteq> [] \<and> last (join_with CHR ''/'' ns) \<noteq> CHR ''/''"
  by (induction "CHR ''/''" ns rule: join_with.induct) (auto dest: seg_last)

lemma foldl_path_join:
  assumes "a \<noteq> []" "last a \<noteq> CHR ''/''" "list_all seg_ok ns"
  shows "foldl path_join a ns = a @ concat (map (\<lambda>n. CHR ''/'' # n) ns)"
  using assms
proof (induction ns arbitrary: a)
  case (Cons n ns)
  have "path_join a n = a @ CHR ''/'' # n"
    using Cons.prems by (simp add: path_join_def)
  moreover have "last (a @ CHR ''/'' # n) \<noteq> CHR ''/''"
    using Cons.prems(3) seg_last[of n] by auto
  ultimately show ?case
    using Cons.IH[of "a @ CHR ''/'' # n"] Cons.prems(3) by simp
qed simp

lemma join_with_concat:
  "join_with c (n # ns) = n @ concat (map (\<lambda>m. c # m) ns)"
  by (induction ns arbitrary: n) auto

lemma collect_path_segs [path_simps]:
  assumes "list_all seg_ok ns"
  shows "collect_path ns = join_with CHR ''/'' ns"
proof (cases ns)
  case (Cons n ms)
  then have n: "seg_ok n" "list_all seg_ok ms" using assms by auto
  then have "path_join [] n = n" by (simp add: path_join_def)
  then show ?thesis
    using Cons n foldl_path_join[of n ms] seg_last[of n] join_with_concat[of "CHR ''/''" n ms]
    by (simp add: collect_path_def)
qed (simp add: collect_path_def)

lemma part_component_seg: "seg_ok s \<Longrightarrow> part_component s = [seg_component s]"
  by (auto simp: part_component_def seg_ok_def seg_component_def)

lemma concat_part_component_segs:
  "list_all seg_ok ns \<Longrightarrow> concat (map part_component ns) = map seg_component ns"
  by (induction ns) (auto simp: part_component_seg)

lemma split_join_segs:
  "list_all seg_ok ns \<Longrightarrow> ns \<noteq> [] \<Longrightarrow> split_on CHR ''/'' (join_with CHR ''/'' ns) = ns"
  by (auto simp: list_all_iff seg_ok_def intro: split_join)

lemma not_absolute_join_segs:
  assumes "list_all seg_ok ns"
  shows "\<not> is_absolute (join_with CHR ''/'' ns)"
proof (cases ns)
  case (Cons m ms)
  then show ?thesis using assms by (cases m) (auto simp: join_with_concat seg_ok_def)
qed simp

lemma components_segs:
  assumes "list_all seg_ok ns" "ns \<noteq> []"
  shows "components (join_with CHR ''/'' ns) = map seg_component ns"
proof -
  obtain m ms where ns: "ns = m # ms" using assms(2) by (cases ns) auto
  show ?thesis
    using assms split_join_segs[OF assms] not_absolute_join_segs[OF assms(1)]
    by (simp add: components_def ns concat_part_component_segs part_component_seg)
      (auto simp: seg_ok_def)
qed

lemma components_join_segs:
  assumes "list_all name_ok ms" "list_all seg_ok ns" "ns \<noteq> []"
  shows "components (path_join (abs_path ms) (join_with CHR ''/'' ns))
           = RootDir # map Normal ms @ map seg_component ns"
proof -
  let ?t = "join_with CHR ''/'' ns"
  have rel: "\<not> is_absolute ?t" by (rule not_absolute_join_segs[OF assms(2)])
  have split: "split_on CHR ''/'' ?t = ns" by (rule split_join_segs[OF assms(2,3)])
  show ?thesis
  proof (cases "ms = []")
    case True
    then show ?thesis using rel split assms(2)
      by (simp add: path_join_def abs_path_def components_def concat_part_component_segs)
  next
    case False
    have j: "path_join (abs_path ms) ?t = (CHR ''/'' # join_with CHR ''/'' ms) @ CHR ''/'' # ?t"
      using rel join_with_ne[OF False assms(1)] by (simp add: path_join_def abs_path_def)
    have "split_on CHR ''/'' (join_with CHR ''/'' ms) = ms"
      using False assms(1) by (auto simp: list_all_iff name_ok_def intro: split_join)
    then show ?thesis
      using split assms(1,2)
      by (simp only: j components_def split_on_append_gen)
        (simp add: concat_part_component_segs concat_part_component_names)
  qed
qed


section \<open>The lexical loops on canonical paths\<close>

lemma fold_plain_names:
  "list_all valid_utf8 ns \<Longrightarrow> fold_result plain_part_step acc (map Normal ns) = Inr (acc @ ns)"
  by (induction ns arbitrary: acc) (auto simp: plain_part_step_def os_str_to_utf8_def)

lemma path_components_without_root_abs:
  assumes "list_all name_ok ns" "list_all valid_utf8 ns"
  shows "path_components_without_root (abs_path ns) = Inr ns"
  using assms by (simp add: path_components_without_root_def components_abs_path
      plain_part_step_def[of _ RootDir] fold_plain_names)

lemma fold_lex_names:
  "list_all valid_utf8 ns \<Longrightarrow> fold_result (lex_step a) acc (map Normal ns) = Inr (acc @ ns)"
  by (induction ns arbitrary: acc) (auto simp: lex_step_def os_str_to_utf8_def)

lemma fold_lex_parents:
  "list_all name_ok acc \<Longrightarrow>
   fold_result (lex_step True) acc (replicate k ParentDir) = Inr (take (length acc - k) acc)"
proof (induction k arbitrary: acc)
  case (Suc k)
  show ?case
  proof (cases "acc = []")
    case True
    then show ?thesis using Suc by (simp add: lex_step_def)
  next
    case False
    then have "last acc \<in> set acc" by simp
    then have "last acc \<noteq> ''..''" using Suc.prems by (auto simp: list_all_iff name_ok_def)
    moreover have "list_all name_ok (butlast acc)"
      using Suc.prems by (auto simp: list_all_iff dest: in_set_butlastD)
    ultimately show ?thesis
      using Suc.IH[of "butlast acc"] False
      by (simp add: lex_step_def butlast_conv_take take_take min_def)
  qed
qed (simp add: min_def)

lemma foldl_path_join_root:
  assumes "list_all name_ok ns"
  shows "foldl path_join ''/'' ns = abs_path ns"
proof -
  have "foldl path_join (abs_path ms) ns = abs_path (ms @ ns)" if "list_all name_ok ms" for ms
    using assms that
  proof (induction ns arbitrary: ms)
    case (Cons n ns)
    then show ?case using Cons.IH[of "ms @ [n]"] by (simp add: path_join_abs_path)
  qed simp
  from this[of "[]"] show ?thesis by (simp add: abs_path_def)
qed

lemma common_length_take:
  "take (common_length xs ys) xs = take (common_length xs ys) ys \<and>
   common_length xs ys \<le> length xs \<and> common_length xs ys \<le> length ys"
proof (induction xs arbitrary: ys)
  case (Cons x xs)
  show ?case
  proof (cases ys)
    case (Cons y ys')
    then show ?thesis using Cons.IH[of ys'] by (auto simp: common_length_def)
  qed (simp add: common_length_def)
qed (simp add: common_length_def)

lemma list_all_take: "list_all P xs \<Longrightarrow> list_all P (take n xs)"
  by (auto simp: list_all_iff dest: in_set_takeD)

lemma list_all_drop: "list_all P xs \<Longrightarrow> list_all P (drop n xs)"
  by (auto simp: list_all_iff dest: in_set_dropD)

lemma map_seg_component_names: "list_all name_ok ns \<Longrightarrow> map seg_component ns = map Normal ns"
  by (induction ns) (auto simp: seg_component_def name_ok_def)

text \<open>
  The normal form of a relative link: from the parent \<open>from\<close>, up past what is not
  shared, then down.
\<close>

lemma normalize_up_down:
  assumes "list_all name_ok fs" "list_all name_ok down"
    and "list_all valid_utf8 fs" "list_all valid_utf8 down" "k \<le> length fs"
  shows "fold_result (lex_step True) [] (RootDir # map Normal fs @ replicate k ParentDir @ map Normal down)
          = Inr (take (length fs - k) fs @ down)"
  using assms
  by (simp add: fold_result_append fold_lex_names fold_lex_parents lex_step_def[of _ _ RootDir])

definition link_segs :: "string list \<Rightarrow> string list \<Rightarrow> string list" where
  "link_segs fs ts = replicate (length fs - common_length fs ts) ''..'' @ drop (common_length fs ts) ts"

definition link_text :: "string list \<Rightarrow> string list \<Rightarrow> string" where
  "link_text fs ts = (if link_segs fs ts = [] then ''.'' else join_with CHR ''/'' (link_segs fs ts))"

lemma link_segs_ok: "list_all name_ok ts \<Longrightarrow> list_all seg_ok (link_segs fs ts)"
  by (auto simp: link_segs_def list_all_iff dest: in_set_dropD intro: name_ok_seg_ok)

lemma not_absolute_link_text: "list_all name_ok ts \<Longrightarrow> \<not> is_absolute (link_text fs ts)"
  using not_absolute_join_segs[OF link_segs_ok] by (simp add: link_text_def)

lemma relative_symlink_target_abs:
  assumes "list_all name_ok fs" "list_all name_ok ts" "list_all valid_utf8 fs" "list_all valid_utf8 ts"
  shows "relative_symlink_target (abs_path fs) (abs_path ts) = Inr (link_text fs ts)"
proof -
  have "collect_path (link_segs fs ts) = [] \<longleftrightarrow> link_segs fs ts = []"
    using link_segs_ok[OF assms(2)] join_segs_ne[of "link_segs fs ts"] by (auto simp: collect_path_segs)
  then show ?thesis
    using assms collect_path_segs[OF link_segs_ok[OF assms(2)], of fs]
    by (simp add: relative_symlink_target_def path_components_without_root_abs Let_def
        link_text_def flip: link_segs_def)
qed

lemma components_dot:
  assumes "list_all name_ok fs"
  shows "components (path_join (abs_path fs) ''.'') = RootDir # map Normal fs"
proof (cases "fs = []")
  case False
  then have "path_join (abs_path fs) ''.'' = (CHR ''/'' # join_with CHR ''/'' fs) @ CHR ''/'' # ''.''"
    using join_with_ne[OF False assms] by (simp add: path_join_def abs_path_def)
  moreover have "split_on CHR ''/'' (join_with CHR ''/'' fs) = fs"
    using False assms by (auto simp: list_all_iff name_ok_def intro: split_join)
  ultimately show ?thesis
    using assms by (simp only: components_def split_on_append_gen)
      (simp add: concat_part_component_names part_component_def)
qed (simp add: path_join_def abs_path_def components_def part_component_def)

lemma components_link_text:
  assumes "list_all name_ok fs" "list_all name_ok ts"
  shows "components (path_join (abs_path fs) (link_text fs ts)) =
    RootDir # map Normal fs @ replicate (length fs - common_length fs ts) ParentDir
      @ map Normal (drop (common_length fs ts) ts)"
proof (cases "link_segs fs ts = []")
  case True
  then show ?thesis using components_dot[OF assms(1)] by (simp add: link_text_def link_segs_def)
next
  case False
  then show ?thesis
    using components_join_segs[OF assms(1) link_segs_ok[OF assms(2)] False] assms(2)
    by (simp add: link_text_def)
      (simp add: link_segs_def map_seg_component_names list_all_drop seg_component_def)
qed

lemma normalize_link_text:
  assumes "list_all name_ok fs" "list_all name_ok ts" "list_all valid_utf8 fs" "list_all valid_utf8 ts"
  shows "normalized_symlink_target (abs_path fs) (link_text fs ts) = Inr (abs_path ts)"
proof -
  have rel: "\<not> is_absolute (link_text fs ts)" by (rule not_absolute_link_text[OF assms(2)])
  then have ab: "is_absolute (path_join (abs_path fs) (link_text fs ts))"
    by (simp add: path_join_def abs_path_def)
  have "fold_result (lex_step True) [] (components (path_join (abs_path fs) (link_text fs ts)))
      = Inr (take (common_length fs ts) fs @ drop (common_length fs ts) ts)"
    unfolding components_link_text[OF assms(1,2)]
    using normalize_up_down[OF assms(1) list_all_drop[OF assms(2)] assms(3) list_all_drop[OF assms(4)]]
      common_length_take[of fs ts] by simp
  also have "\<dots> = Inr ts" using common_length_take[of fs ts] by simp
  finally show ?thesis
    using foldl_path_join_root[OF assms(2)] ab rel
    by (simp add: normalized_symlink_target_def lexical_normalize_def)
qed

text \<open>
  C38 (roundtrip). The link text the browse tree writes resolves back to the blob it was made
  for: for a canonical directory and a canonical target, both of valid UTF-8 names,
  \<open>relative_symlink_target\<close> succeeds and \<open>normalized_symlink_target\<close>, reading the
  text at that directory, gives exactly the target.
\<close>

theorem relative_symlink_roundtrip:
  assumes "canonical d" "canonical t"
    and "list_all valid_utf8 (path_names d)" "list_all valid_utf8 (path_names t)"
  shows "\<exists>text. relative_symlink_target d t = Inr text \<and> normalized_symlink_target d text = Inr t"
proof -
  obtain fs where fs: "list_all name_ok fs" "d = abs_path fs" using assms(1) by (rule canonicalE)
  obtain ts where ts: "list_all name_ok ts" "t = abs_path ts" using assms(2) by (rule canonicalE)
  have "list_all valid_utf8 fs" "list_all valid_utf8 ts" using assms(3,4) fs ts by simp_all
  then show ?thesis
    using relative_symlink_target_abs normalize_link_text fs ts by blast
qed

theorem relative_symlink_roundtrip_witness:
  "\<exists>text. relative_symlink_target ''/tree/a'' ''/store/blobs/ab'' = Inr text \<and>
          normalized_symlink_target ''/tree/a'' text = Inr ''/store/blobs/ab''"
  by (rule relative_symlink_roundtrip; code_simp)


section \<open>The store layout on canonical roots\<close>

lemma hex_name_ok: "s \<noteq> [] \<Longrightarrow> list_all is_lower_hex s \<Longrightarrow> name_ok s"
  by (auto simp: name_ok_def list_all_iff is_lower_hex_def)

lemma hex_valid_utf8: "list_all is_lower_hex s \<Longrightarrow> valid_utf8 s"
  by (induction s) (auto simp: is_lower_hex_def)

lemma hash_okD:
  assumes "hash_ok h"
  shows "length (as_str h) = 64" "list_all is_lower_hex (as_str h)" "name_ok (as_str h)"
    "name_ok (shard1 h)" "name_ok (shard2 h)"
proof -
  show l: "length (as_str h) = 64" and x: "list_all is_lower_hex (as_str h)"
    using assms by (auto simp: hash_ok_def)
  show "name_ok (as_str h)" using l x by (intro hex_name_ok) auto
  show "name_ok (shard1 h)"
    unfolding shard1_def using l x by (intro hex_name_ok list_all_take) auto
  show "name_ok (shard2 h)"
    unfolding shard2_def using l x by (intro hex_name_ok list_all_take list_all_drop) auto
qed

lemma name_ok_layout [simp]: "name_ok ''blobs''" "name_ok ''staging''" "name_ok ''catalog.sqlite''"
  by (simp_all add: name_ok_def)

lemma blobs_dir_abs [path_simps]:
  "list_all name_ok ns \<Longrightarrow> store_path r = abs_path ns \<Longrightarrow> blobs_dir r = abs_path (ns @ [''blobs''])"
  by (simp add: blobs_dir_def path_join_abs_path)

lemma blob_path_abs [path_simps]:
  assumes "list_all name_ok ns" "store_path r = abs_path ns" "hash_ok h"
  shows "blob_path r h = abs_path (ns @ [''blobs'', shard1 h, shard2 h, as_str h])"
  using assms hash_okD[OF assms(3)]
  by (simp add: blob_path_def blobs_dir_abs path_join_abs_path)

text \<open>
  In a store with a canonical root the path of a blob is canonical, lies
  under the blobs directory, and determines the hash: two blobs never share a file.
\<close>

theorem blob_path_injective:
  assumes "canonical (store_path r)" "hash_ok h" "hash_ok h'"
  shows "canonical (blob_path r h) \<and> starts_with (blob_path r h) (blobs_dir r)
    \<and> (blob_path r h = blob_path r h' \<longrightarrow> h = h')"
proof -
  obtain ns where ns: "list_all name_ok ns" "store_path r = abs_path ns"
    using assms(1) by (rule canonicalE)
  let ?l = "\<lambda>h. ns @ [''blobs'', shard1 h, shard2 h, as_str h]"
  have ok: "list_all name_ok (?l h)" "list_all name_ok (?l h')"
    using ns(1) hash_okD[OF assms(2)] hash_okD[OF assms(3)] by simp_all
  have p: "blob_path r h = abs_path (?l h)" "blob_path r h' = abs_path (?l h')"
    using blob_path_abs[OF ns] assms(2,3) by blast+
  have "?l h = ?l h' \<longrightarrow> h = h'" by (auto intro: blob_hash.expand)
  moreover have "abs_path (?l h) = abs_path (?l h') \<longrightarrow> ?l h = ?l h'"
    using path_names_abs_path ok by metis
  ultimately show ?thesis
    unfolding p using ok starts_with_abs_path[OF ok(1)] ns by (auto simp: blobs_dir_abs)
qed

definition sample_hash :: "char \<Rightarrow> blob_hash" where
  "sample_hash c = BlobHash (replicate 64 c)"

lemma hash_ok_sample [simp]: "is_lower_hex c \<Longrightarrow> hash_ok (sample_hash c)"
  by (simp add: sample_hash_def hash_ok_def list_all_length)

lemma is_lower_hex_ab [simp]: "is_lower_hex CHR ''a''" "is_lower_hex CHR ''b''"
  by (simp_all add: is_lower_hex_def)

theorem blob_path_injective_witness:
  "canonical (blob_path \<lparr>store_path = ''/store''\<rparr> (sample_hash CHR ''a''))
   \<and> starts_with (blob_path \<lparr>store_path = ''/store''\<rparr> (sample_hash CHR ''a''))
        (blobs_dir \<lparr>store_path = ''/store''\<rparr>)
   \<and> blob_path \<lparr>store_path = ''/store''\<rparr> (sample_hash CHR ''a'')
       \<noteq> blob_path \<lparr>store_path = ''/store''\<rparr> (sample_hash CHR ''b'')"
proof -
  have "canonical (store_path \<lparr>store_path = ''/store''\<rparr>)" by code_simp
  moreover have "sample_hash CHR ''a'' \<noteq> sample_hash CHR ''b''" by (simp add: sample_hash_def)
  ultimately show ?thesis
    using blob_path_injective[of "\<lparr>store_path = ''/store''\<rparr>" "sample_hash CHR ''a''" "sample_hash CHR ''b''"] by auto
qed


section \<open>Links of the browse tree\<close>

text \<open>
  The link the browse tree makes for a blob is recognised as its own: read
  back at any directory, \<open>points_inside_blobs\<close> answers \<open>true\<close> for the text that
  \<open>relative_symlink_target\<close> produces for a blob of the store.
\<close>

theorem tree_link_points_inside_blobs:
  assumes "canonical d" "canonical (store_path r)" "hash_ok h"
    and "list_all valid_utf8 (path_names d)" "list_all valid_utf8 (path_names (store_path r))"
  shows "\<exists>text. relative_symlink_target d (blob_path r h) = Inr text \<and> points_inside_blobs d text r = Inr True"
proof -
  obtain fs where fs: "list_all name_ok fs" "d = abs_path fs" using assms(1) by (rule canonicalE)
  obtain ns where ns: "list_all name_ok ns" "store_path r = abs_path ns" using assms(2) by (rule canonicalE)
  let ?ts = "ns @ [''blobs'', shard1 h, shard2 h, as_str h]"
  have ts: "list_all name_ok ?ts" using ns(1) hash_okD[OF assms(3)] by simp
  have u: "list_all valid_utf8 fs" "list_all valid_utf8 ?ts"
    using assms(4,5) fs ns hash_okD[OF assms(3)] hex_valid_utf8
    by (simp_all add: shard1_def shard2_def list_all_take list_all_drop)
  have "starts_with (abs_path ?ts) (blobs_dir r)"
    using starts_with_abs_path[OF ts] ns by (simp add: blobs_dir_abs)
  then show ?thesis
    using relative_symlink_target_abs[OF fs(1) ts u] normalize_link_text[OF fs(1) ts u]
      blob_path_abs[OF ns assms(3)] fs(2)
    by (simp add: points_inside_blobs_def)
qed

theorem tree_link_points_inside_blobs_witness:
  "\<exists>text. relative_symlink_target ''/tree/album'' (blob_path \<lparr>store_path = ''/store''\<rparr> (sample_hash CHR ''a''))
             = Inr text
         \<and> points_inside_blobs ''/tree/album'' text \<lparr>store_path = ''/store''\<rparr> = Inr True"
proof (rule tree_link_points_inside_blobs)
  show "canonical (store_path \<lparr>store_path = ''/store''\<rparr>)" by code_simp
  show "canonical ''/tree/album''" by code_simp
  show "list_all valid_utf8 (path_names ''/tree/album'')" by code_simp
  show "list_all valid_utf8 (path_names (store_path \<lparr>store_path = ''/store''\<rparr>))" by code_simp
qed simp


section \<open>Normalising absolute paths\<close>

lemma part_component_Normal:
  "Normal v \<in> set (part_component s) \<Longrightarrow> v = s \<and> s \<noteq> [] \<and> s \<noteq> ''.'' \<and> s \<noteq> ''..''"
  by (auto simp: part_component_def split: if_splits)

lemma components_Normal_ok:
  assumes "Normal v \<in> set (components p)"
  shows "name_ok v"
proof -
  have part: "name_ok v" if "Normal v \<in> set (part_component s)" "s \<in> set (split_on CHR ''/'' p)" for s
    using part_component_Normal[OF that(1)] set_split_on[OF that(2)] by (auto simp: name_ok_def)
  show ?thesis
  proof (cases "is_absolute p")
    case True
    then show ?thesis using assms part by (auto simp: components_def)
  next
    case False
    obtain s ss where split: "split_on CHR ''/'' p = s # ss" using split_on_ne by (meson neq_Nil_conv)
    show ?thesis using assms part False
      by (auto simp: components_def split split: if_splits)
  qed
qed

lemma lex_step_names:
  assumes "list_all name_ok parts" "list_all valid_utf8 parts"
    and "\<And>v. c = Normal v \<Longrightarrow> name_ok v" "lex_step True parts c = Inr parts'"
  shows "list_all name_ok parts' \<and> list_all valid_utf8 parts'"
  using assms
  by (cases c) (auto simp: lex_step_def os_str_to_utf8_def list_all_iff split: if_splits
      dest: in_set_butlastD)

lemma fold_lex_step_names:
  assumes "fold_result (lex_step True) parts cs = Inr parts'"
    and "list_all name_ok parts" "list_all valid_utf8 parts" "\<And>v. Normal v \<in> set cs \<Longrightarrow> name_ok v"
  shows "list_all name_ok parts' \<and> list_all valid_utf8 parts'"
  using fold_result_invariant[OF assms(1), of "\<lambda>q. list_all name_ok q \<and> list_all valid_utf8 q"]
    assms(2-4) lex_step_names by metis

text \<open>
  Lexical normalisation of an absolute path succeeds with a canonical path
  (no empty, \<open>.\<close> or \<open>..\<close> component is left, so \<open>points_inside_blobs\<close> compares plain
  names) and is idempotent.
\<close>

theorem lexical_normalize_canonical:
  assumes "is_absolute p" "lexical_normalize p = Inr q"
  shows "canonical q \<and> lexical_normalize q = Inr q"
proof -
  obtain parts where parts: "fold_result (lex_step True) [] (components p) = Inr parts"
      "q = foldl path_join ''/'' parts"
    using assms by (auto simp: lexical_normalize_def elim!: bind_result_InrE)
  have ok: "list_all name_ok parts" "list_all valid_utf8 parts"
    using fold_lex_step_names[OF parts(1)] components_Normal_ok by auto
  have q: "q = abs_path parts" using parts(2) foldl_path_join_root[OF ok(1)] by simp
  have "fold_result (lex_step True) [] (components q) = Inr parts"
    using ok q by (simp add: components_abs_path lex_step_def[of _ _ RootDir] fold_lex_names)
  then show ?thesis
    using q ok foldl_path_join_root[OF ok(1)] by (simp add: lexical_normalize_def)
qed

theorem lexical_normalize_canonical_witness:
  "canonical ''/a/c'' \<and> lexical_normalize ''/a/c'' = Inr ''/a/c''"
proof (rule lexical_normalize_canonical)
  show "is_absolute ''/a/./b/..//c''" by simp
  show "lexical_normalize ''/a/./b/..//c'' = Inr ''/a/c''" by code_simp
qed


section \<open>Source-relative paths and their catalog text\<close>

lemma fold_rel_parts:
  assumes "fold_result rel_part_step acc cs = Inr parts"
    and "list_all name_ok acc" "\<And>v. Normal v \<in> set cs \<Longrightarrow> name_ok v"
  shows "list_all name_ok parts"
proof (rule fold_result_invariant[where P = "list_all name_ok", OF assms(1,2)])
  fix t x t'
  assume "x \<in> set cs" "list_all name_ok t" "rel_part_step t x = Inr t'"
  then show "list_all name_ok t'"
    using assms(3) by (cases x rule: component.exhaust) (auto simp: rel_part_step_def os_str_to_utf8_def split: if_splits)
qed

lemma from_pathE:
  assumes "from_path p = Inr s"
  obtains parts where "parts \<noteq> []" "list_all name_ok parts" "rel_str s = join_with CHR ''/'' parts"
proof -
  obtain parts where parts: "fold_result rel_part_step [] (components p) = Inr parts" "parts \<noteq> []"
      "s = SourceRelativePath (join_with CHR ''/'' parts)"
    using assms by (auto simp: from_path_def split: if_splits elim!: bind_result_InrE)
  then show ?thesis
    using that fold_rel_parts[OF parts(1)] components_Normal_ok by auto
qed

definition rel_ok :: "source_relative_path \<Rightarrow> bool" where
  "rel_ok s \<longleftrightarrow> list_all name_ok (split_on CHR ''/'' (rel_str s))"

lemma name_ok_split:
  "list_all name_ok (split_on CHR ''/'' v) \<longleftrightarrow>
   \<not> list_ex (\<lambda>p. p = [] \<or> p = ''.'' \<or> p = ''..'') (split_on CHR ''/'' v)"
  using set_split_on[of _ "CHR ''/''" v] by (auto simp: list_all_iff list_ex_iff name_ok_def)

lemma split_leading_slash: "is_absolute v \<Longrightarrow> [] \<in> set (split_on CHR ''/'' v)"
  by (cases v) auto

lemma from_catalog_text_iff:
  "from_catalog_text v = Inr s \<longleftrightarrow>
     s = SourceRelativePath v \<and> CHR 0x5C \<notin> set v \<and> list_all name_ok (split_on CHR ''/'' v)"
proof -
  have "\<not> is_absolute v \<and> \<not> prefix ''//'' v \<and> v \<noteq> []" if "list_all name_ok (split_on CHR ''/'' v)"
  proof -
    have "[] \<notin> set (split_on CHR ''/'' v)"
      using that by (auto simp: list_all_iff name_ok_def)
    then have "\<not> is_absolute v" "v \<noteq> []"
      using split_leading_slash[of v] by auto
    then show ?thesis by (cases v) auto
  qed
  then show ?thesis
    unfolding from_catalog_text_def by (auto simp: name_ok_split split: if_splits)
qed

lemma from_path_rel_ok: "from_path p = Inr s \<Longrightarrow> rel_ok s"
  by (erule from_pathE) (auto simp: rel_ok_def list_all_iff name_ok_def split_join)

text \<open>
  C40 (roundtrip). What \<open>import\<close> stores under a source path is accepted back by the readers
  of the catalog (\<open>build-tree\<close>, \<open>audit\<close>, \<open>gc\<close>) exactly when the name has no
  backslash: every other condition of \<open>from_catalog_text\<close> is guaranteed by \<open>from_path\<close>,
  and the backslash is not.
\<close>

theorem from_path_catalog_roundtrip:
  assumes "from_path p = Inr s"
  shows "from_catalog_text (rel_str s) = Inr s \<longleftrightarrow> CHR 0x5C \<notin> set (rel_str s)"
  using from_path_rel_ok[OF assms] by (cases s) (auto simp: from_catalog_text_iff rel_ok_def)

theorem from_path_catalog_roundtrip_witness:
  "from_catalog_text (rel_str (SourceRelativePath [CHR ''a'', CHR 0x5C, CHR ''b'']))
     = Inr (SourceRelativePath [CHR ''a'', CHR 0x5C, CHR ''b''])
   \<longleftrightarrow> CHR 0x5C \<notin> set (rel_str (SourceRelativePath [CHR ''a'', CHR 0x5C, CHR ''b'']))"
  by (rule from_path_catalog_roundtrip[of "[CHR ''a'', CHR 0x5C, CHR ''b'']"]) code_simp


lemma from_catalog_text_rel_ok: "from_catalog_text v = Inr s \<Longrightarrow> rel_ok s \<and> rel_str s = v"
  by (auto simp: from_catalog_text_iff rel_ok_def)


section \<open>Output names do not collide\<close>

lemma hex_no_dot: "list_all is_lower_hex s \<Longrightarrow> CHR ''.'' \<notin> set s"
  by (auto simp: list_all_iff is_lower_hex_def)

lemma suffix_cases:
  assumes "suffix_filename_with_hash f h d = Inr s"
  obtains (ext) stem ext where "f = stem @ ''.'' @ ext" "stem \<noteq> []" "CHR ''.'' \<notin> set ext"
      "s = stem @ ''_'' @ take d (as_str h) @ ''.'' @ ext" "d \<le> length (as_str h)"
    | (plain) "CHR ''.'' \<notin> set (tl f)" "s = f @ ''_'' @ take d (as_str h)" "d \<le> length (as_str h)"
proof -
  have d: "d \<le> length (as_str h)"
    using assms by (auto simp: suffix_filename_with_hash_def split: if_splits)
  show ?thesis
  proof (cases "\<exists>l r. rsplit_once CHR ''.'' f = Some (l, r) \<and> l \<noteq> []")
    case True
    then obtain l r where lr: "rsplit_once CHR ''.'' f = Some (l, r)" "l \<noteq> []" by blast
    then have "f = l @ ''.'' @ r" "CHR ''.'' \<notin> set r" by (simp_all add: rsplit_once_Some)
    moreover have "s = l @ ''_'' @ take d (as_str h) @ ''.'' @ r"
      using assms lr d by (simp add: suffix_filename_with_hash_def Let_def)
    ultimately show ?thesis using lr(2) d ext by blast
  next
    case False
    have "CHR ''.'' \<notin> set (tl f)"
    proof (cases "rsplit_once CHR ''.'' f")
      case None
      then show ?thesis using rsplit_once_None[of "CHR ''.''" f] by (cases f) auto
    next
      case (Some a)
      then obtain r where "rsplit_once CHR ''.'' f = Some ([], r)" using False by (cases a) auto
      then show ?thesis by (simp add: rsplit_once_Some)
    qed
    moreover have "s = f @ ''_'' @ take d (as_str h)"
      using assms False d by (auto simp: suffix_filename_with_hash_def Let_def split: option.splits)
    ultimately show ?thesis using d plain by blast
  qed
qed

lemma last_dot_unique:
  assumes "a @ CHR ''.'' # b = c @ CHR ''.'' # d" "CHR ''.'' \<notin> set b" "CHR ''.'' \<notin> set d"
  shows "a = c \<and> b = d"
proof -
  have "rsplit_once CHR ''.'' (a @ CHR ''.'' # b) = Some (a, b)"
    "rsplit_once CHR ''.'' (c @ CHR ''.'' # d) = Some (c, d)"
    using assms(2,3) by (simp_all add: rsplit_once_Some)
  then show ?thesis using assms(1) by (metis option.inject prod.inject)
qed

lemma suffixed_plain_no_dot:
  assumes "CHR ''.'' \<notin> set (tl f)" "list_all is_lower_hex x"
    "f @ ''_'' @ x = stem @ CHR ''.'' # r"
  shows "stem = []"
proof (rule ccontr)
  assume "stem \<noteq> []"
  then obtain c t where "stem = c # t" by (cases stem) auto
  then have "CHR ''.'' \<in> set (tl (f @ ''_'' @ x))" using assms(3) by simp
  then show False using assms(1) hex_no_dot[OF assms(2)] by (cases f) auto
qed

lemma suffix_filename_inj:
  assumes "suffix_filename_with_hash f h d = Inr s" "suffix_filename_with_hash f' h' d = Inr s"
    and "hash_ok h" "hash_ok h'"
  shows "f = f' \<and> take d (as_str h) = take d (as_str h')"
proof -
  have x: "list_all is_lower_hex (take d (as_str h))" "list_all is_lower_hex (take d (as_str h'))"
    using hash_okD(2)[OF assms(3)] hash_okD(2)[OF assms(4)] by (auto intro: list_all_take)
  have len: "length (take d (as_str h)) = length (take d (as_str h'))"
    using hash_okD(1)[OF assms(3)] hash_okD(1)[OF assms(4)] by simp
  show ?thesis
    using assms(1)
  proof (cases rule: suffix_cases)
    case (ext stem ext)
    note e = this
    show ?thesis using assms(2)
    proof (cases rule: suffix_cases)
      case (ext stem' ext')
      have "(stem @ ''_'' @ take d (as_str h)) @ CHR ''.'' # e = (stem' @ ''_'' @ take d (as_str h')) @ CHR ''.'' # ext'"
        if "e = ext" for e using that e ext by simp
      then have "stem @ ''_'' @ take d (as_str h) = stem' @ ''_'' @ take d (as_str h') \<and> ext = ext'"
        using last_dot_unique e(3) ext(3) by metis
      then show ?thesis using e ext len by (simp add: append_eq_append_conv)
    next
      case plain
      then show ?thesis
        using suffixed_plain_no_dot[OF plain(1) x(2), of "stem @ ''_'' @ take d (as_str h)" ext] e by simp
    qed
  next
    case plain
    note pl = this
    show ?thesis using assms(2)
    proof (cases rule: suffix_cases)
      case (ext stem' ext')
      then show ?thesis
        using suffixed_plain_no_dot[OF pl(1) x(1), of "stem' @ ''_'' @ take d (as_str h')" ext'] pl by simp
    next
      case plain
      then show ?thesis using pl len by (simp add: append_eq_append_conv)
    qed
  qed
qed


lemma suffix_name_ok:
  assumes "suffix_filename_with_hash f h d = Inr s" "name_ok f" "hash_ok h"
  shows "name_ok s"
proof -
  have "list_all is_lower_hex (take d (as_str h))" using hash_okD(2)[OF assms(3)] by (rule list_all_take)
  then have "CHR ''/'' \<notin> set (take d (as_str h))" by (auto simp: list_all_iff is_lower_hex_def)
  with assms(1,2) show ?thesis
    by (cases rule: suffix_cases) (auto simp: name_ok_def append_eq_Cons_conv)
qed

lemma rel_ok_parts:
  assumes "rel_ok rel"
  shows "name_ok (last (split_on CHR ''/'' (rel_str rel)))"
    "list_all name_ok (butlast (split_on CHR ''/'' (rel_str rel)))"
  using assms by (auto simp: rel_ok_def list_all_iff dest: in_set_butlastD)

lemma collect_join_name:
  assumes "list_all name_ok ns" "name_ok n"
  shows "path_join (collect_path ns) n = join_with CHR ''/'' (ns @ [n])"
proof -
  have "collect_path (ns @ [n]) = path_join (collect_path ns) n" by (simp add: collect_path_def)
  moreover have "list_all seg_ok (ns @ [n])"
    using assms by (auto simp: list_all_iff intro: name_ok_seg_ok)
  ultimately show ?thesis by (metis collect_path_segs)
qed

text \<open>The output of \<open>output_relative_path\<close> as a list of names.\<close>

lemma output_relative_pathE:
  assumes "output_relative_path rel h d = Inr out" "rel_ok rel" "hash_ok h"
  obtains s where "suffix_filename_with_hash (last (split_on CHR ''/'' (rel_str rel))) h d = Inr s"
    "list_all name_ok (butlast (split_on CHR ''/'' (rel_str rel)) @ [s])"
    "out = join_with CHR ''/'' (butlast (split_on CHR ''/'' (rel_str rel)) @ [s])"
proof -
  obtain s where s: "suffix_filename_with_hash (last (split_on CHR ''/'' (rel_str rel))) h d = Inr s"
      "out = path_join (collect_path (butlast (split_on CHR ''/'' (rel_str rel)))) s"
    using assms(1) by (auto simp: output_relative_path_def Let_def elim!: bind_result_InrE)
  have "name_ok s" using suffix_name_ok[OF s(1) rel_ok_parts(1)[OF assms(2)] assms(3)] .
  then show ?thesis
    using that s collect_join_name[OF rel_ok_parts(2)[OF assms(2)]] rel_ok_parts(2)[OF assms(2)] by simp
qed

text \<open>
  C39 (functional). Two catalog entries get the same name in the browse tree only if they have
  the same relative path and hashes with the same first \<open>digits\<close> digits: the suffix never
  makes two different source paths collide, so the only collision \<open>build-tree\<close> can meet is
  the one its error message describes, and with all 64 digits there is none.
\<close>

theorem output_relative_path_inj:
  assumes "rel_ok rel" "rel_ok rel'" "hash_ok h" "hash_ok h'"
    and "output_relative_path rel h d = Inr out" "output_relative_path rel' h' d = Inr out"
  shows "rel = rel' \<and> take d (as_str h) = take d (as_str h') \<and> (d = 64 \<longrightarrow> h = h')"
proof -
  let ?sp = "split_on CHR ''/''"
  obtain s where s: "suffix_filename_with_hash (last (?sp (rel_str rel))) h d = Inr s"
      "list_all name_ok (butlast (?sp (rel_str rel)) @ [s])"
      "out = join_with CHR ''/'' (butlast (?sp (rel_str rel)) @ [s])"
    using assms by (meson output_relative_pathE)
  obtain s' where s': "suffix_filename_with_hash (last (?sp (rel_str rel'))) h' d = Inr s'"
      "list_all name_ok (butlast (?sp (rel_str rel')) @ [s'])"
      "out = join_with CHR ''/'' (butlast (?sp (rel_str rel')) @ [s'])"
    using assms by (meson output_relative_pathE)
  have "butlast (?sp (rel_str rel)) @ [s] = butlast (?sp (rel_str rel')) @ [s']"
    using path_names_abs_path[OF s(2)] path_names_abs_path[OF s'(2)] s(3) s'(3)
    by (simp add: abs_path_def)
  then have eq: "butlast (?sp (rel_str rel)) = butlast (?sp (rel_str rel'))" "s = s'" by simp_all
  then have l: "last (?sp (rel_str rel)) = last (?sp (rel_str rel'))"
    and h: "take d (as_str h) = take d (as_str h')"
    using suffix_filename_inj s(1) s'(1) assms(3,4) by blast+
  have "?sp (rel_str rel) = ?sp (rel_str rel')"
    using eq(1) l by (metis append_butlast_last_id split_on_ne)
  then have "rel_str rel = rel_str rel'" by (metis join_split)
  then show ?thesis
    using h hash_okD(1)[OF assms(3)] hash_okD(1)[OF assms(4)]
    by (auto intro: source_relative_path.expand blob_hash.expand)
qed

theorem output_relative_path_inj_witness:
  "output_relative_path (SourceRelativePath ''album/a.jpg'') (sample_hash CHR ''a'') 6 = Inr ''album/a_aaaaaa.jpg''
   \<and> SourceRelativePath ''album/a.jpg'' = SourceRelativePath ''album/a.jpg''"
proof -
  have r: "rel_ok (SourceRelativePath ''album/a.jpg'')" by code_simp
  have o: "output_relative_path (SourceRelativePath ''album/a.jpg'') (sample_hash CHR ''a'') 6
      = Inr ''album/a_aaaaaa.jpg''" by code_simp
  have h: "hash_ok (sample_hash CHR ''a'')" by simp
  show ?thesis using o output_relative_path_inj[OF r r h h o o] by blast
qed


section \<open>Disjoint trees\<close>

text \<open>
  A configuration that passes \<open>validate_no_overlaps\<close> keeps the trees apart:
  no path lies both in the source directory and in the store, and the database is not in
  the source, so an import never reads what it writes.
\<close>

theorem no_overlap_disjoint:
  assumes "validate_no_overlaps source r db explicit exists = Inr ()"
  shows "\<not> (starts_with p source \<and> starts_with p (store_path r)) \<and> \<not> starts_with db source"
  using assms prefix_same_cases[of "components source" "components p" "components (store_path r)"]
  by (auto simp: validate_no_overlaps_def paths_overlap_def starts_with_def split: if_splits)

theorem no_overlap_disjoint_witness:
  "\<not> (starts_with ''/photos/a.jpg'' ''/photos'' \<and> starts_with ''/photos/a.jpg'' (store_path \<lparr>store_path = ''/store''\<rparr>))
   \<and> \<not> starts_with ''/store/catalog.sqlite'' ''/photos''"
  by (rule no_overlap_disjoint[of _ _ _ False False]) code_simp

end
