(* ===== verification/Hashing.thy ===== *)
theory Hashing
  imports Paths
begin

text \<open>
  \<^verbatim>\<open>hashing.rs\<close>: streaming a reader through BLAKE3, with and without a copy. The
  \<open>blake3\<close> crate is a parameter: its incremental state with \<open>update\<close> and the hex text
  of \<open>finalize\<close>. A \<open>Read\<close> is a transition function that fills at most the buffer, a
  \<open>Write\<close> one that takes a whole chunk, and a chunk observer a state with a verdict. The
  loops may not end (a reader can be endless), so they are partial functions into
  \<open>option\<close>; the theorems show that they return.
\<close>

section \<open>Parameters\<close>

record 'h blake3 =
  b3_new :: 'h
  b3_update :: "'h \<Rightarrow> string \<Rightarrow> 'h"
  b3_hex :: "'h \<Rightarrow> string"

text \<open>What the crate documents: updates concatenate, and the digest is 64 lowercase hex digits.\<close>

definition blake3_laws :: "'h blake3 \<Rightarrow> bool" where
  "blake3_laws b \<longleftrightarrow>
     (\<forall>s. b3_update b s [] = s) \<and>
     (\<forall>s x y. b3_update b (b3_update b s x) y = b3_update b s (x @ y)) \<and>
     (\<forall>s. length (b3_hex b s) = 64 \<and> list_all is_lower_hex (b3_hex b s))"

definition digest :: "'h blake3 \<Rightarrow> string \<Rightarrow> blob_hash" where
  "digest b content = BlobHash (b3_hex b (b3_update b (b3_new b) content))"

type_synonym 'r read_fn = "'r \<Rightarrow> nat \<Rightarrow> io_kind + (string \<times> 'r)"
type_synonym 'w write_fn = "'w \<Rightarrow> string \<Rightarrow> 'w \<times> bool"
type_synonym 'o observer = "'o \<Rightarrow> u64 \<Rightarrow> 'o \<times> unit result"


section \<open>BlobHasher\<close>

record hash_result =
  hr_hash :: blob_hash
  hr_size :: u64

record 'h blob_hasher =
  bh_state :: 'h
  bh_size :: u64

definition hasher_new :: "'h blake3 \<Rightarrow> 'h blob_hasher" where
  "hasher_new b = \<lparr>bh_state = b3_new b, bh_size = 0\<rparr>"

definition hasher_update :: "'h blake3 \<Rightarrow> 'h blob_hasher \<Rightarrow> string \<Rightarrow> 'h blob_hasher result" where
  "hasher_update b hs bytes =
     bind_result (u64_of_len (length bytes)) (\<lambda>n.
     bind_result (add_or_fail (bh_size hs) n) (\<lambda>size.
       Inr \<lparr>bh_state = b3_update b (bh_state hs) bytes, bh_size = size\<rparr>))"

definition hasher_finish :: "'h blake3 \<Rightarrow> 'h blob_hasher \<Rightarrow> hash_result result" where
  "hasher_finish b hs =
     bind_result (blob_hash_new (b3_hex b (bh_state hs)))
       (\<lambda>h. Inr \<lparr>hr_hash = h, hr_size = bh_size hs\<rparr>)"


section \<open>The two loops\<close>

partial_function (option) hash_loop ::
  "'h blake3 \<Rightarrow> 'r read_fn \<Rightarrow> nat \<Rightarrow> 'o observer \<Rightarrow> 'r \<Rightarrow> 'h blob_hasher \<Rightarrow> 'o
     \<Rightarrow> ('o \<times> hash_result result) option" where
  "hash_loop b rd chunk obs r hs ob =
     (case rd r chunk of
        Inl _ \<Rightarrow> Some (ob, Inl (StoreError ReadFailed))
      | Inr (bytes, r') \<Rightarrow>
          if bytes = [] then Some (ob, hasher_finish b hs)
          else (case hasher_update b hs bytes of
                  Inl e \<Rightarrow> Some (ob, Inl e)
                | Inr hs' \<Rightarrow>
                    (case obs ob (of_nat (length bytes)) of
                       (ob', Inl e) \<Rightarrow> Some (ob', Inl e)
                     | (ob', Inr _) \<Rightarrow> hash_loop b rd chunk obs r' hs' ob')))"

definition hash_reader_with_chunk_observer ::
  "'h blake3 \<Rightarrow> 'r read_fn \<Rightarrow> 'r \<Rightarrow> nat \<Rightarrow> 'o observer \<Rightarrow> 'o \<Rightarrow> ('o \<times> hash_result result) option" where
  "hash_reader_with_chunk_observer b rd r chunk obs ob = hash_loop b rd chunk obs r (hasher_new b) ob"

partial_function (option) copy_loop ::
  "'h blake3 \<Rightarrow> 'r read_fn \<Rightarrow> 'w write_fn \<Rightarrow> nat \<Rightarrow> 'o observer \<Rightarrow> 'r \<Rightarrow> 'w \<Rightarrow> 'h blob_hasher \<Rightarrow> 'o
     \<Rightarrow> ('w \<times> 'o \<times> hash_result result) option" where
  "copy_loop b rd wr chunk obs r w hs ob =
     (case rd r chunk of
        Inl _ \<Rightarrow> Some (w, ob, Inl (StoreError ReadFailed))
      | Inr (bytes, r') \<Rightarrow>
          if bytes = [] then Some (w, ob, hasher_finish b hs)
          else (case hasher_update b hs bytes of
                  Inl e \<Rightarrow> Some (w, ob, Inl e)
                | Inr hs' \<Rightarrow>
                    (case wr w bytes of
                       (w', written) \<Rightarrow>
                         if \<not> written then Some (w', ob, Inl (StoreError WriteFailed))
                         else (case obs ob (of_nat (length bytes)) of
                                 (ob', Inl e) \<Rightarrow> Some (w', ob', Inl e)
                               | (ob', Inr _) \<Rightarrow> copy_loop b rd wr chunk obs r' w' hs' ob'))))"

definition hash_reader_to_writer_with_chunk_observer ::
  "'h blake3 \<Rightarrow> 'r read_fn \<Rightarrow> 'w write_fn \<Rightarrow> 'r \<Rightarrow> 'w \<Rightarrow> nat \<Rightarrow> 'o observer \<Rightarrow> 'o
     \<Rightarrow> ('w \<times> 'o \<times> hash_result result) option" where
  "hash_reader_to_writer_with_chunk_observer b rd wr r w chunk obs ob =
     copy_loop b rd wr chunk obs r w (hasher_new b) ob"


section \<open>Readers with finite content\<close>

text \<open>
  \<open>delivers rd n r content\<close>: from state \<open>r\<close>, reads with a buffer of \<open>n\<close> bytes return
  non-empty pieces that make up \<open>content\<close> and then the end of the stream. How the bytes are
  cut is up to the reader.
\<close>

inductive delivers :: "'r read_fn \<Rightarrow> nat \<Rightarrow> 'r \<Rightarrow> string \<Rightarrow> bool" for rd n where
  eof: "rd r n = Inr ([], r') \<Longrightarrow> delivers rd n r []"
| piece: "rd r n = Inr (bytes, r') \<Longrightarrow> bytes \<noteq> [] \<Longrightarrow> delivers rd n r' rest \<Longrightarrow>
     delivers rd n r (bytes @ rest)"

text \<open>A regular file: its state is what is left of the content.\<close>

definition file_read :: "string read_fn" where
  "file_read rest n = Inr (take n rest, drop n rest)"

lemma file_delivers: "0 < n \<Longrightarrow> delivers file_read n content content"
proof (induction content rule: length_induct)
  case (1 xs)
  show ?case
  proof (cases xs)
    case Nil
    then show ?thesis by (auto intro: delivers.eof simp: file_read_def)
  next
    case (Cons y ys)
    then have "delivers file_read n (drop n xs) (drop n xs)" using 1 by auto
    then have "delivers file_read n xs (take n xs @ drop n xs)"
      using Cons 1(2) by (intro delivers.piece) (auto simp: file_read_def)
    then show ?thesis by simp
  qed
qed

text \<open>An observer that never asks to stop.\<close>

definition permits :: "'o observer \<Rightarrow> bool" where
  "permits obs \<longleftrightarrow> (\<forall>ob n. snd (obs ob n) = Inr ())"

lemma hasher_update_ok:
  assumes "blake3_laws b" "unat (bh_size hs) + length bytes < 2 ^ 64"
  shows "\<exists>hs'. hasher_update b hs bytes = Inr hs'
    \<and> bh_state hs' = b3_update b (bh_state hs) bytes \<and> unat (bh_size hs') = unat (bh_size hs) + length bytes"
proof -
  have l: "length bytes < 2 ^ 64" using assms(2) by simp
  then have "unat (of_nat (length bytes) :: u64) = length bytes" by (rule unat_of_nat_u64)
  then show ?thesis
    using assms(2) l by (simp add: hasher_update_def u64_of_len_def add_or_fail_Inr unat_add_bounded)
qed

lemma hasher_finish_ok:
  assumes "blake3_laws b" "bh_state hs = b3_update b (b3_new b) content" "unat (bh_size hs) = length content"
  shows "hasher_finish b hs = Inr \<lparr>hr_hash = digest b content, hr_size = of_nat (length content)\<rparr>"
proof -
  have "bh_size hs = of_nat (length content)" using assms(3) by (metis of_nat_unat ucast_id)
  then show ?thesis
    using assms by (simp add: hasher_finish_def blob_hash_new_def blake3_laws_def digest_def)
qed

lemma hash_loop_content:
  assumes "delivers rd n r rest" "blake3_laws b" "permits obs"
    and "bh_state hs = b3_update b (b3_new b) done" "unat (bh_size hs) = length done"
    and "length done + length rest < 2 ^ 64"
  shows "\<exists>ob'. hash_loop b rd n obs r hs ob =
     Some (ob', Inr \<lparr>hr_hash = digest b (done @ rest), hr_size = of_nat (length done + length rest)\<rparr>)"
  using assms
proof (induction arbitrary: hs ob "done" rule: delivers.induct)
  case (eof r r')
  then show ?case
    using hasher_finish_ok[OF eof.prems(1,3,4)] by (subst hash_loop.simps) simp
next
  case (piece r bytes r' rest)
  obtain hs' where hs': "hasher_update b hs bytes = Inr hs'"
      "bh_state hs' = b3_update b (b3_new b) (done @ bytes)" "unat (bh_size hs') = length (done @ bytes)"
    using hasher_update_ok[OF piece.prems(1), of hs bytes] piece.prems
    by (auto simp: blake3_laws_def)
  obtain ob' where ob': "obs ob (of_nat (length bytes)) = (ob', Inr ())"
    using piece.prems(2) by (metis permits_def prod.collapse)
  show ?case
    using piece.IH[OF piece.prems(1,2) hs'(2,3), of ob'] piece.prems(5) piece.hyps hs'(1) ob'
    by (subst hash_loop.simps) (simp add: add.assoc)
qed

text \<open>Whatever the observer does, a result is the digest of what the reader delivers.\<close>

lemma hash_loop_sound:
  assumes "delivers rd n r rest" "blake3_laws b"
    and "bh_state hs = b3_update b (b3_new b) done" "unat (bh_size hs) = length done"
    and "hash_loop b rd n obs r hs ob = Some (ob', Inr hr)"
  shows "hr_hash hr = digest b (done @ rest) \<and> unat (hr_size hr) = length (done @ rest)"
  using assms
proof (induction arbitrary: hs ob "done" rule: delivers.induct)
  case (eof r r')
  have "hasher_finish b hs = Inr hr" using eof.prems(4) eof.hyps by (subst (asm) hash_loop.simps) simp
  then show ?case using eof.prems(1,2,3)
    by (auto simp: hasher_finish_def bind_result_eq_Inr blob_hash_new_def digest_def split: if_splits)
next
  case (piece r bytes r' rest)
  have "\<exists>hs' ob1. hasher_update b hs bytes = Inr hs' \<and> hash_loop b rd n obs r' hs' ob1 = Some (ob', Inr hr)"
    using piece.prems(4) piece.hyps by (subst (asm) hash_loop.simps) (auto split: sum.splits prod.splits)
  then obtain hs' ob1 where hs': "hasher_update b hs bytes = Inr hs'" "hash_loop b rd n obs r' hs' ob1 = Some (ob', Inr hr)" by blast
  have st: "bh_state hs' = b3_update b (b3_new b) (done @ bytes)"
    using hs'(1) piece.prems(1,2) by (auto simp: hasher_update_def bind_result_eq_Inr blake3_laws_def)
  obtain c where c: "u64_of_len (length bytes) = Inr c" "add_or_fail (bh_size hs) c = Inr (bh_size hs')"
    using hs'(1) by (auto simp: hasher_update_def bind_result_eq_Inr)
  have "unat (bh_size hs') = length (done @ bytes)"
    using add_or_fail_unat[OF c(2)] u64_of_len_unat[OF c(1)] piece.prems(3) by simp
  then show ?case using piece.IH[OF piece.prems(1) st _ hs'(2)] by simp
qed

lemma hash_reader_sound:
  assumes "delivers rd n r content" "blake3_laws b" "hash_reader_with_chunk_observer b rd r n obs ob = Some (ob', Inr hr)"
  shows "hr_hash hr = digest b content \<and> unat (hr_size hr) = length content"
  using hash_loop_sound[OF assms(1,2), of "hasher_new b" "[]"] assms(2,3)
  by (simp add: hash_reader_with_chunk_observer_def hasher_new_def blake3_laws_def)

lemma hash_reader_content:
  assumes "delivers rd n r content" "blake3_laws b" "permits obs" "length content < 2 ^ 64"
  shows "\<exists>ob'. hash_reader_with_chunk_observer b rd r n obs ob =
    Some (ob', Inr \<lparr>hr_hash = digest b content, hr_size = of_nat (length content)\<rparr>)"
  using hash_loop_content[OF assms(1-3), of "hasher_new b" "[]" ob] assms(2,4)
  by (simp add: hash_reader_with_chunk_observer_def hasher_new_def blake3_laws_def)

text \<open>
  C35 (functional). Hashing terminates and depends on the content only: for every reader that
  delivers a finite content below the 64-bit limit, however it cuts the bytes and whatever
  the buffer size, \<open>hash_reader_with_chunk_observer\<close> returns the BLAKE3 digest of the
  content and its length.
\<close>

theorem hash_reader_correct:
  assumes "delivers rd n r content" "blake3_laws b" "permits obs" "length content < 2 ^ 64"
  shows "\<exists>ob'. hash_reader_with_chunk_observer b rd r n obs ob =
    Some (ob', Inr \<lparr>hr_hash = digest b content, hr_size = of_nat (length content)\<rparr>)"
  by (rule hash_reader_content[OF assms])

text \<open>A concrete stand-in for the crate: the length of the input, as hex digits.\<close>

definition toy_blake3 :: "string blake3" where
  "toy_blake3 = \<lparr>b3_new = [], b3_update = (\<lambda>s x. s @ x),
     b3_hex = (\<lambda>s. replicate 64 (if even (length s) then CHR ''a'' else CHR ''b''))\<rparr>"

lemma toy_blake3_laws: "blake3_laws toy_blake3"
  by (simp add: blake3_laws_def toy_blake3_def list_all_length)

definition silent :: "unit observer" where
  "silent ob n = ((), Inr ())"

lemma permits_silent: "permits silent"
  by (simp add: permits_def silent_def)

theorem hash_reader_correct_witness:
  "\<exists>ob'. hash_reader_with_chunk_observer toy_blake3 file_read ''abcdefgh'' 3 silent () =
     Some (ob', Inr \<lparr>hr_hash = digest toy_blake3 ''abcdefgh'', hr_size = of_nat (length ''abcdefgh'')\<rparr>)"
  by (rule hash_reader_correct[OF file_delivers toy_blake3_laws permits_silent]) simp_all

text \<open>A writer that takes every chunk.\<close>

definition append_write :: "string write_fn" where
  "append_write w x = (w @ x, True)"

lemma copy_loop_content:
  assumes "delivers rd n r rest" "blake3_laws b" "permits obs"
    and "bh_state hs = b3_update b (b3_new b) done" "unat (bh_size hs) = length done"
    and "length done + length rest < 2 ^ 64"
  shows "\<exists>ob'. copy_loop b rd append_write n obs r w hs ob =
     Some (w @ rest, ob', Inr \<lparr>hr_hash = digest b (done @ rest), hr_size = of_nat (length done + length rest)\<rparr>)"
  using assms
proof (induction arbitrary: hs ob w "done" rule: delivers.induct)
  case (eof r r')
  then show ?case
    using hasher_finish_ok[OF eof.prems(1,3,4)] by (subst copy_loop.simps) simp
next
  case (piece r bytes r' rest)
  obtain hs' where hs': "hasher_update b hs bytes = Inr hs'"
      "bh_state hs' = b3_update b (b3_new b) (done @ bytes)" "unat (bh_size hs') = length (done @ bytes)"
    using hasher_update_ok[OF piece.prems(1), of hs bytes] piece.prems
    by (auto simp: blake3_laws_def)
  obtain ob' where ob': "obs ob (of_nat (length bytes)) = (ob', Inr ())"
    using piece.prems(2) by (metis permits_def prod.collapse)
  show ?case
    using piece.IH[OF piece.prems(1,2) hs'(2,3), of "w @ bytes" ob'] piece.prems(5) piece.hyps hs'(1) ob'
    by (subst copy_loop.simps) (simp add: add.assoc append_write_def[of w bytes])
qed

text \<open>
  C36 (functional). The single copy-and-hash pass writes exactly the bytes it hashed: on a
  writer that accepts every chunk, \<open>hash_reader_to_writer_with_chunk_observer\<close> returns
  the digest and length of the content and the writer holds that content.
\<close>

theorem copy_reader_correct:
  assumes "delivers rd n r content" "blake3_laws b" "permits obs" "length content < 2 ^ 64"
  shows "\<exists>ob'. hash_reader_to_writer_with_chunk_observer b rd append_write r [] n obs ob =
    Some (content, ob', Inr \<lparr>hr_hash = digest b content, hr_size = of_nat (length content)\<rparr>)"
  using copy_loop_content[OF assms(1-3), of "hasher_new b" "[]" "[]" ob] assms(2,4)
  by (simp add: hash_reader_to_writer_with_chunk_observer_def hasher_new_def blake3_laws_def)

theorem copy_reader_correct_witness:
  "\<exists>ob'. hash_reader_to_writer_with_chunk_observer toy_blake3 file_read append_write ''abcdefgh'' [] 3 silent () =
     Some (''abcdefgh'', ob', Inr \<lparr>hr_hash = digest toy_blake3 ''abcdefgh'', hr_size = of_nat (length ''abcdefgh'')\<rparr>)"
  by (rule copy_reader_correct[OF file_delivers toy_blake3_laws permits_silent]) simp_all

end
