(* ===== verification/Integrity.thy ===== *)
theory Integrity
  imports Paths "HOL-Library.Product_Lexorder"
begin

text \<open>
  \<^verbatim>\<open>integrity.rs\<close>: findings, their order and deduplication, and the one-line rendering of
  raw path bytes. \<open>derive(Ord)\<close> on the struct is the lexicographic order of its fields.
\<close>

section \<open>Findings\<close>

datatype integrity_finding =
  IntegrityFinding (category: string) (sort_identity: string) (identity: string) (details: string)

definition finding_tuple :: "integrity_finding \<Rightarrow> string \<times> string \<times> string \<times> string" where
  "finding_tuple f = (category f, sort_identity f, identity f, details f)"

lemma finding_tuple_inj: "finding_tuple f = finding_tuple g \<Longrightarrow> f = g"
  by (cases f; cases g) (simp add: finding_tuple_def)

instantiation integrity_finding :: linorder
begin

definition less_eq_integrity_finding :: "integrity_finding \<Rightarrow> integrity_finding \<Rightarrow> bool" where
  "less_eq_integrity_finding a b \<longleftrightarrow> finding_tuple a \<le> finding_tuple b"

definition less_integrity_finding :: "integrity_finding \<Rightarrow> integrity_finding \<Rightarrow> bool" where
  "less_integrity_finding a b \<longleftrightarrow> finding_tuple a < finding_tuple b"

instance
  by standard (auto simp: less_eq_integrity_finding_def less_integrity_finding_def intro: finding_tuple_inj)

end

definition finding_key :: "integrity_finding \<Rightarrow> string \<times> string" where
  "finding_key f = (category f, sort_identity f)"

definition finding_new :: "string \<Rightarrow> string \<Rightarrow> string \<Rightarrow> integrity_finding" where
  "finding_new cat ident det = IntegrityFinding cat ident ident det"

definition push_finding :: "integrity_finding list \<Rightarrow> integrity_finding \<Rightarrow> integrity_finding list" where
  "push_finding fs f = fs @ [f]"


section \<open>Sorting and deduplication\<close>

text \<open>\<open>Vec::dedup_by\<close>: an element is dropped when it is in the bucket of the last one kept.\<close>

fun dedup_by :: "('a \<Rightarrow> 'a \<Rightarrow> bool) \<Rightarrow> 'a list \<Rightarrow> 'a list" where
  "dedup_by same [] = []"
| "dedup_by same [x] = [x]"
| "dedup_by same (x # y # ys) =
     (if same y x then dedup_by same (x # ys) else x # dedup_by same (y # ys))"

definition same_finding :: "integrity_finding \<Rightarrow> integrity_finding \<Rightarrow> bool" where
  "same_finding l r \<longleftrightarrow> category l = category r \<and> sort_identity l = sort_identity r"

definition sort_and_deduplicate :: "integrity_finding list \<Rightarrow> integrity_finding list" where
  "sort_and_deduplicate fs = dedup_by same_finding (sort fs)"

lemma set_dedup_by_subset: "set (dedup_by same xs) \<subseteq> set xs"
  by (induction same xs rule: dedup_by.induct) auto

lemma dedup_by_hd: "xs \<noteq> [] \<Longrightarrow> \<exists>ys. dedup_by same xs = hd xs # ys"
  by (induction same xs rule: dedup_by.induct) auto

lemma dedup_by_Nil_iff [simp]: "dedup_by same xs = [] \<longleftrightarrow> xs = []"
  using dedup_by_hd[of xs same] by (cases xs) auto

lemma sorted_dedup_by: "sorted xs \<Longrightarrow> sorted (dedup_by same (xs :: 'a :: linorder list))"
proof (induction same xs rule: dedup_by.induct)
  case (3 same x y ys)
  then show ?case using set_dedup_by_subset[of same "y # ys"] by auto
qed auto

text \<open>Deduplication by a key that is monotone in the order keeps one element per key.\<close>

lemma dedup_by_key:
  assumes mono: "\<And>a b. a \<le> b \<Longrightarrow> key a \<le> (key b :: 'k :: linorder)"
    and "sorted (xs :: 'a :: linorder list)"
  shows "distinct (map key (dedup_by (\<lambda>a b. key a = key b) xs)) \<and>
         key ` set (dedup_by (\<lambda>a b. key a = key b) xs) = key ` set xs"
  using assms(2)
proof (induction "\<lambda>a b. key a = key b" xs rule: dedup_by.induct)
  case (3 x y ys)
  show ?case
  proof (cases "key y = key x")
    case True
    then show ?thesis using 3(1)[OF True] 3(3) by auto
  next
    case False
    note IH = 3(2)[OF False]
    have "key x \<noteq> key z" if "z \<in> set (y # ys)" for z
    proof -
      have "x \<le> y" "y \<le> z" using 3(3) that by auto
      then have "key x \<le> key y" "key y \<le> key z" using mono by blast+
      then show ?thesis using False by auto
    qed
    then have "key x \<notin> key ` set (y # ys)" by auto
    then show ?thesis using False IH 3(3) by auto
  qed
qed auto

lemma finding_key_mono: "a \<le> b \<Longrightarrow> finding_key a \<le> finding_key b"
  by (auto simp: less_eq_integrity_finding_def finding_tuple_def finding_key_def less_eq_prod_def)

lemma same_finding_key: "same_finding = (\<lambda>l r. finding_key l = finding_key r)"
  by (auto simp: same_finding_def finding_key_def fun_eq_iff)

text \<open>
  The findings of a report are sorted, name each problem once (one entry per
  category and identity), lose no problem, and are all findings that were reported; in
  particular a report is clean exactly when nothing was found.
\<close>

theorem sort_and_deduplicate_spec:
  "sorted (sort_and_deduplicate fs) \<and> distinct (map finding_key (sort_and_deduplicate fs))
   \<and> finding_key ` set (sort_and_deduplicate fs) = finding_key ` set fs
   \<and> set (sort_and_deduplicate fs) \<subseteq> set fs
   \<and> (sort_and_deduplicate fs = [] \<longleftrightarrow> fs = [])"
proof -
  have "sorted (sort_and_deduplicate fs)"
    by (simp add: sort_and_deduplicate_def sorted_dedup_by)
  moreover have "distinct (map finding_key (sort_and_deduplicate fs)) \<and>
      finding_key ` set (sort_and_deduplicate fs) = finding_key ` set fs"
    using dedup_by_key[of finding_key "sort fs", OF finding_key_mono]
    by (simp add: sort_and_deduplicate_def same_finding_key)
  moreover have "set (sort_and_deduplicate fs) \<subseteq> set fs"
    using set_dedup_by_subset[of same_finding "sort fs"] by (simp add: sort_and_deduplicate_def)
  moreover have "sort_and_deduplicate fs = [] \<longleftrightarrow> fs = []"
    by (simp add: sort_and_deduplicate_def) (metis set_empty set_sort)
  ultimately show ?thesis by blast
qed

lemma sort_and_deduplicate_Nil [simp]: "sort_and_deduplicate fs = [] \<longleftrightarrow> fs = []"
  by (simp add: sort_and_deduplicate_def) (metis set_empty set_sort)


section \<open>Rendering raw bytes on one line\<close>

definition hex_digit :: "nat \<Rightarrow> char" where
  "hex_digit n = (if n < 10 then char_of (48 + n) else char_of (87 + n))"

text \<open>\<open>write!(output, "\\x{byte:02x}")\<close>.\<close>

definition hex_escape :: "char \<Rightarrow> string" where
  "hex_escape c = [CHR 0x5C, CHR ''x'', hex_digit (byte c div 16), hex_digit (byte c mod 16)]"

text \<open>The scalar value of one encoded character.\<close>

definition scalar :: "string \<Rightarrow> nat" where
  "scalar s =
     (case s of
        [a] \<Rightarrow> byte a
      | [a, b] \<Rightarrow> (byte a - 192) * 64 + (byte b - 128)
      | [a, b, c] \<Rightarrow> (byte a - 224) * 4096 + (byte b - 128) * 64 + (byte c - 128)
      | [a, b, c, d] \<Rightarrow> (byte a - 240) * 262144 + (byte b - 128) * 4096 + (byte c - 128) * 64 + (byte d - 128)
      | _ \<Rightarrow> 0)"

definition is_control :: "nat \<Rightarrow> bool" where
  "is_control v \<longleftrightarrow> v \<le> 31 \<or> (127 \<le> v \<and> v \<le> 159)"

definition is_whitespace :: "nat \<Rightarrow> bool" where
  "is_whitespace v \<longleftrightarrow> (9 \<le> v \<and> v \<le> 13) \<or> v = 32 \<or> v = 133 \<or> v = 160 \<or> v = 5760
     \<or> (8192 \<le> v \<and> v \<le> 8202) \<or> v = 8232 \<or> v = 8233 \<or> v = 8239 \<or> v = 8287 \<or> v = 12288"

text \<open>\<open>push_valid_text\<close> on a valid text, one character at a time.\<close>

function push_valid_text :: "string \<Rightarrow> string \<Rightarrow> string" where
  "push_valid_text out s =
     (case utf8_step s of
        Inl _ \<Rightarrow> out
      | Inr n \<Rightarrow>
          let character = take n s;
              piece = (if is_control (scalar character) \<or> is_whitespace (scalar character)
                       then concat (map hex_escape character) else character)
          in push_valid_text (out @ piece) (drop n s))"
  by pat_completeness auto
termination
proof (relation "measure (\<lambda>(out, s). length s)")
  fix s :: string and n :: nat
  assume "utf8_step s = Inr n"
  then show "((out @ p, drop n s), (out, s)) \<in> measure (\<lambda>(out, s). length s)" for out p
    using utf8_step_bounds(1) by fastforce
qed auto

function escape_loop :: "string \<Rightarrow> string \<Rightarrow> string" where
  "escape_loop out remaining =
     (if remaining = [] then out
      else (case from_utf8 remaining of
              None \<Rightarrow> push_valid_text out remaining
            | Some (valid_up_to, error_len) \<Rightarrow>
                let out1 = push_valid_text out (take valid_up_to remaining);
                    invalid_len = max 1 (case error_len of Some n \<Rightarrow> n
                                         | None \<Rightarrow> length remaining - valid_up_to);
                    bad = take invalid_len (drop valid_up_to remaining)
                in escape_loop (out1 @ concat (map hex_escape bad))
                     (drop (valid_up_to + invalid_len) remaining)))"
  by pat_completeness auto
termination
proof (relation "measure (\<lambda>(out, s). length s)")
  fix r :: string and v k m :: nat
  assume "r \<noteq> []" "k = max 1 m"
  then have "0 < v + k" "0 < length r" by auto
  then show "((o1, drop (v + k) r), (out, r)) \<in> measure (\<lambda>(out, s). length s)" for out o1
    by simp
qed auto

definition escape_bytes :: "string \<Rightarrow> string" where
  "escape_bytes bytes = escape_loop [] bytes"

definition escape_path :: "path \<Rightarrow> string" where
  "escape_path p = escape_bytes p"

definition finding_for_path :: "string \<Rightarrow> path \<Rightarrow> string \<Rightarrow> integrity_finding" where
  "finding_for_path cat p det = IntegrityFinding cat p (escape_path p) det"

declare push_valid_text.simps [simp del] escape_loop.simps [simp del]

text \<open>A byte that neither ends a line nor hides: no ASCII control character, no space.\<close>

definition printable :: "char \<Rightarrow> bool" where
  "printable c \<longleftrightarrow> 32 < byte c \<and> byte c \<noteq> 127"

lemma hex_digit_range: "n < 16 \<Longrightarrow> printable (hex_digit n) \<and> byte (hex_digit n) < 128"
  by (auto simp: printable_def hex_digit_def)

lemma hex_escape_printable:
  "list_all printable (hex_escape c)" "list_all (\<lambda>d. byte d < 128) (hex_escape c)"
proof -
  have "byte c < 16 * 16" using nat_of_char_less_256[of c] by simp
  then have "byte c div 16 < 16" "byte c mod 16 < 16" by (simp_all add: less_mult_imp_div_less)
  then show "list_all printable (hex_escape c)" "list_all (\<lambda>d. byte d < 128) (hex_escape c)"
    using hex_digit_range by (auto simp: hex_escape_def printable_def)
qed

lemma valid_utf8_ascii: "list_all (\<lambda>d. byte d < 128) s \<Longrightarrow> valid_utf8 s"
  by (induction s) auto

lemma hex_escapes:
  "list_all printable (concat (map hex_escape cs))" "valid_utf8 (concat (map hex_escape cs))"
proof -
  have "list_all (\<lambda>d. byte d < 128) (concat (map hex_escape cs))"
    using hex_escape_printable(2) by (induction cs) auto
  then show "valid_utf8 (concat (map hex_escape cs))" by (rule valid_utf8_ascii)
  show "list_all printable (concat (map hex_escape cs))"
    using hex_escape_printable(1) by (induction cs) auto
qed

lemma utf8_step_take: "utf8_step s = Inr n \<Longrightarrow> utf8_step (take n s) = Inr n"
  by (cases s) (auto split: if_splits list.splits)

lemma utf8_step_valid: "utf8_step s = Inr n \<Longrightarrow> valid_utf8 (take n s)"
  using utf8_step_take[of s n] utf8_step_bounds(1)[of s n]
  by (auto simp: valid_utf8_def from_utf8.simps[of "take n s"] from_utf8.simps[of "[]"])

lemma second_ok_cont: "second_ok3 a b \<Longrightarrow> is_cont b" "second_ok4 a b \<Longrightarrow> is_cont b"
  by (auto simp: second_ok3_def second_ok4_def is_cont_def)

lemma utf8_step_conts: "utf8_step (a # t) = Inr n \<Longrightarrow> list_all is_cont (take (n - 1) t)"
  by (auto split: if_splits list.splits dest: second_ok_cont)

lemma is_cont_printable: "is_cont c \<Longrightarrow> printable c"
  by (simp add: is_cont_def printable_def)

text \<open>A character that is not escaped is one printable byte or a multi-byte sequence.\<close>

lemma plain_character_printable:
  assumes "utf8_step s = Inr n" "\<not> is_control (scalar (take n s))" "\<not> is_whitespace (scalar (take n s))"
  shows "list_all printable (take n s)"
proof (cases s)
  case Nil
  then show ?thesis using assms by simp
next
  case (Cons a t)
  show ?thesis
  proof (cases "byte a < 128")
    case True
    then have "take n s = [a]" using assms(1) Cons by auto
    then have "\<not> is_control (byte a)" "\<not> is_whitespace (byte a)"
      using assms(2,3) by (simp_all add: scalar_def)
    then have "printable a" unfolding printable_def is_control_def is_whitespace_def by linarith
    then show ?thesis using \<open>take n s = [a]\<close> by simp
  next
    case False
    then have "printable a" by (simp add: printable_def)
    moreover have "list_all printable (take (n - 1) t)"
      using utf8_step_conts assms(1) Cons is_cont_printable by (auto simp: list_all_iff)
    ultimately show ?thesis using Cons by (cases n) auto
  qed
qed

definition one_line :: "string \<Rightarrow> bool" where
  "one_line s \<longleftrightarrow> valid_utf8 s \<and> list_all printable s"

lemma one_line_append: "one_line s \<Longrightarrow> one_line t \<Longrightarrow> one_line (s @ t)"
  by (simp add: one_line_def)

lemma push_valid_text_one_line: "one_line out \<Longrightarrow> one_line (push_valid_text out s)"
proof (induction out s rule: push_valid_text.induct)
  case (1 out s)
  show ?case
  proof (cases "utf8_step s")
    case (Inl e)
    then show ?thesis using 1 by (simp add: push_valid_text.simps[of out s])
  next
    case (Inr n)
    let ?c = "take n s"
    let ?p = "if is_control (scalar ?c) \<or> is_whitespace (scalar ?c) then concat (map hex_escape ?c) else ?c"
    have "one_line ?p"
      using hex_escapes plain_character_printable[OF Inr] utf8_step_valid[OF Inr] by (auto simp: one_line_def)
    then have "one_line (push_valid_text (out @ ?p) (drop n s))"
      by (intro 1(1)[OF Inr refl refl] one_line_append 1(2))
    then show ?thesis using Inr by (simp add: push_valid_text.simps[of out s] Let_def)
  qed
qed

lemma escape_loop_one_line: "one_line out \<Longrightarrow> one_line (escape_loop out r)"
proof (induction out r rule: escape_loop.induct)
  case (1 out r)
  show ?case
  proof (cases "r = [] \<or> from_utf8 r = None")
    case True
    then show ?thesis using 1(2) push_valid_text_one_line by (auto simp: escape_loop.simps[of out r])
  next
    case False
    then obtain v e where e: "from_utf8 r = Some (v, e)" and ne: "r \<noteq> []" by auto
    let ?k = "max 1 (case e of Some n \<Rightarrow> n | None \<Rightarrow> length r - v)"
    let ?o = "push_valid_text out (take v r) @ concat (map hex_escape (take ?k (drop v r)))"
    have "one_line ?o"
      using hex_escapes push_valid_text_one_line[OF 1(2)]
      by (intro one_line_append) (auto simp: one_line_def)
    then have "one_line (escape_loop ?o (drop (v + ?k) r))"
      by (intro 1(1)[OF ne e refl refl refl refl])
    then show ?thesis using ne e by (simp add: escape_loop.simps[of out r] Let_def)
  qed
qed

text \<open>
  The rendering of any path, whatever its bytes, is valid UTF-8 with no space and
  no ASCII control character: an entry of a report never spans two lines.
\<close>

theorem escape_path_one_line: "one_line (escape_path p)"
  unfolding escape_path_def escape_bytes_def
  by (rule escape_loop_one_line) (simp add: one_line_def)

end
