(* ===== verification/Database.thy ===== *)
theory Database
  imports Integrity
begin

text \<open>
  The catalog database as SQLite holds it, and the SQL statements of
  \<^verbatim>\<open>catalog/sql/*.sql\<close> as functions on it. A cell keeps SQLite's storage class, because
  the program reads back whatever class is stored: the types of the schema are affinities, not
  guarantees. \<open>\<^verbatim>\<open>foreign_keys\<close>\<close> is on, as \<^verbatim>\<open>writable_pragmas.sql\<close> sets it.
\<close>

section \<open>Values and rows\<close>

datatype sqlval = SNull | SInteger int | SReal | SText string | SBlob string

text \<open>
  The schema stores an integral real as an INTEGER, so a cell of class REAL never equals an
  integer parameter and its value is not kept.
\<close>

record blob_row =
  b_rowid :: int
  b_hash :: sqlval
  b_size :: sqlval
  b_created :: sqlval
  b_deleted :: sqlval

record source_row =
  s_id :: int
  s_root :: sqlval
  s_rel :: sqlval
  s_hash :: sqlval
  s_size :: sqlval
  s_modified :: sqlval
  s_first :: sqlval
  s_last :: sqlval
  s_count :: sqlval

record column_shape =
  col_name :: string
  declared_type :: string
  not_null :: bool
  primary_key :: int

text \<open>What SQLite reports of the schema: \<open>sqlite_schema\<close> and the introspection pragmas.\<close>

record schema =
  schema_objects :: "(string \<times> string \<times> string option) list"
  table_info :: "string \<Rightarrow> column_shape list"
  foreign_key_list :: "string \<Rightarrow> string list list"
  index_info :: "string \<Rightarrow> string list list"
  index_list :: "string \<Rightarrow> string list list"

record database =
  user_version :: int
  journal_mode :: string
  integrity_messages :: "string list"
  db_schema :: schema
  blobs :: "blob_row list"
  source_files :: "source_row list"


section \<open>SQL expressions\<close>

text \<open>\<open>a = b\<close> in a WHERE clause: never true when a side is NULL.\<close>

definition sql_eq :: "sqlval \<Rightarrow> sqlval \<Rightarrow> bool" where
  "sql_eq a b \<longleftrightarrow> a = b \<and> a \<noteq> SNull \<and> a \<noteq> SReal"

definition sql_opt :: "int option \<Rightarrow> sqlval" where
  "sql_opt m = (case m of None \<Rightarrow> SNull | Some v \<Rightarrow> SInteger v)"

text \<open>\<open>length(text)\<close>: characters before the first NUL.\<close>

definition sql_length :: "string \<Rightarrow> nat" where
  "sql_length s = length (filter (\<lambda>c. \<not> is_cont c) (takeWhile (\<lambda>c. byte c \<noteq> 0) s))"

fun leading_digits :: "string \<Rightarrow> int \<Rightarrow> int \<times> string" where
  "leading_digits [] acc = (acc, [])"
| "leading_digits (c # s) acc =
     (if 48 \<le> byte c \<and> byte c \<le> 57 then leading_digits s (10 * acc + int (byte c - 48)) else (acc, c # s))"

text \<open>The numeric value SQLite gives a text operand: its longest numeric prefix.\<close>

definition sql_number :: "string \<Rightarrow> sqlval" where
  "sql_number t =
     (let t1 = dropWhile (\<lambda>c. byte c = 32 \<or> (9 \<le> byte c \<and> byte c \<le> 13)) t;
          neg = (t1 \<noteq> [] \<and> hd t1 = CHR ''-'');
          t2 = (if t1 \<noteq> [] \<and> hd t1 \<in> {CHR ''-'', CHR ''+''} then tl t1 else t1);
          (n, rest) = leading_digits t2 0
      in if rest \<noteq> [] \<and> hd rest \<in> {CHR ''.'', CHR ''e'', CHR ''E''} then SReal
         else SInteger (if neg then - n else n))"

text \<open>\<open>seen_count + 1\<close>: an integer overflow makes SQLite compute in floating point.\<close>

definition sql_increment :: "sqlval \<Rightarrow> sqlval" where
  "sql_increment v =
     (let w = (case v of SText t \<Rightarrow> sql_number t | SBlob t \<Rightarrow> sql_number t | _ \<Rightarrow> v)
      in case w of SInteger n \<Rightarrow> if n < i64_max then SInteger (n + 1) else SReal
                 | _ \<Rightarrow> w)"

definition blob_matches :: "string \<Rightarrow> int \<Rightarrow> blob_row \<Rightarrow> bool" where
  "blob_matches h sz b \<longleftrightarrow> sql_eq (b_hash b) (SText h) \<and> sql_eq (b_size b) (SInteger sz)"

definition source_matches :: "string \<Rightarrow> string \<Rightarrow> source_row \<Rightarrow> bool" where
  "source_matches root rel s \<longleftrightarrow> sql_eq (s_root s) (SText root) \<and> sql_eq (s_rel s) (SText rel)"

text \<open>\<open>EXISTS (SELECT 1 FROM source_files WHERE source_files.blob_hash = blobs.hash)\<close>.\<close>

definition referenced_in :: "database \<Rightarrow> sqlval \<Rightarrow> bool" where
  "referenced_in db h = list_ex (\<lambda>s. sql_eq (s_hash s) h) (source_files db)"


section \<open>Statements\<close>

definition update_where :: "('a \<Rightarrow> bool) \<Rightarrow> ('a \<Rightarrow> 'a) \<Rightarrow> 'a list \<Rightarrow> 'a list" where
  "update_where p f rows = map (\<lambda>r. if p r then f r else r) rows"

definition matching :: "('a \<Rightarrow> bool) \<Rightarrow> 'a list \<Rightarrow> nat" where
  "matching p rows = length (filter p rows)"

definition next_id :: "int list \<Rightarrow> int" where
  "next_id ids = fold max ids 0 + 1"

text \<open>\<^verbatim>\<open>insert_blob.sql\<close>: OR IGNORE skips a row that breaks the key or the CHECK.\<close>

definition insert_blob_sql :: "string \<Rightarrow> int \<Rightarrow> int \<Rightarrow> database \<Rightarrow> database \<times> nat" where
  "insert_blob_sql h sz created db =
     (if sql_length h \<noteq> 64 \<or> list_ex (\<lambda>b. sql_eq (b_hash b) (SText h)) (blobs db) then (db, 0)
      else (db\<lparr>blobs := blobs db @ [\<lparr>b_rowid = next_id (map b_rowid (blobs db)), b_hash = SText h,
              b_size = SInteger sz, b_created = SInteger created, b_deleted = SNull\<rparr>]\<rparr>, 1))"

text \<open>\<^verbatim>\<open>select_blob_size.sql\<close> with \<open>row.get::<i64>\<close>.\<close>

definition select_blob_size_sql :: "string \<Rightarrow> database \<Rightarrow> int result" where
  "select_blob_size_sql h db =
     (case find (\<lambda>b. sql_eq (b_hash b) (SText h)) (blobs db) of
        None \<Rightarrow> Inl (CatalogError SqlError)
      | Some b \<Rightarrow> (case b_size b of SInteger v \<Rightarrow> Inr v | _ \<Rightarrow> Inl (CatalogError UnexpectedType)))"

text \<open>\<^verbatim>\<open>resurrect_imported_blob.sql\<close> and \<^verbatim>\<open>resurrect_known_source_blob.sql\<close>.\<close>

definition resurrect_blob_sql :: "string \<Rightarrow> int \<Rightarrow> database \<Rightarrow> database \<times> nat" where
  "resurrect_blob_sql h sz db =
     (db\<lparr>blobs := update_where (blob_matches h sz) (b_deleted_update (\<lambda>_. SNull)) (blobs db)\<rparr>,
      matching (blob_matches h sz) (blobs db))"

definition select_source_file_id_sql :: "string \<Rightarrow> string \<Rightarrow> database \<Rightarrow> int option" where
  "select_source_file_id_sql root rel db =
     map_option s_id (find (source_matches root rel) (source_files db))"

text \<open>
  \<^verbatim>\<open>upsert_source_file.sql\<close>: the CHECKs, NOT NULL and the immediate foreign key make the
  statement fail; a conflict on the identity turns the insert into an update.
\<close>

definition source_checks :: "string \<Rightarrow> string \<Rightarrow> bool" where
  "source_checks root rel \<longleftrightarrow>
     0 < sql_length root \<and> 0 < sql_length rel \<and> hd rel \<noteq> CHR ''/''"

definition upsert_row :: "string \<Rightarrow> int \<Rightarrow> int option \<Rightarrow> int \<Rightarrow> source_row \<Rightarrow> source_row" where
  "upsert_row h sz modified seen s =
     s\<lparr>s_hash := SText h, s_size := SInteger sz, s_modified := sql_opt modified,
       s_last := SInteger seen, s_count := sql_increment (s_count s)\<rparr>"

definition upsert_source_file_sql ::
    "string \<Rightarrow> string \<Rightarrow> string \<Rightarrow> int \<Rightarrow> int option \<Rightarrow> int \<Rightarrow> database \<Rightarrow> (database \<times> nat) result" where
  "upsert_source_file_sql root rel h sz modified seen db =
     (let existing = filter (source_matches root rel) (source_files db);
          rows = (if existing = []
                  then source_files db @ [\<lparr>s_id = next_id (map s_id (source_files db)), s_root = SText root,
                         s_rel = SText rel, s_hash = SText h, s_size = SInteger sz,
                         s_modified = sql_opt modified, s_first = SInteger seen, s_last = SInteger seen,
                         s_count = SInteger 1\<rparr>]
                  else update_where (source_matches root rel) (upsert_row h sz modified seen) (source_files db))
      in if \<not> source_checks root rel \<or> \<not> list_ex (\<lambda>b. sql_eq (b_hash b) (SText h)) (blobs db)
            \<or> list_ex (\<lambda>s. s_count s = SNull) existing
         then Inl (CatalogError ConstraintViolation)
         else Inr (db\<lparr>source_files := rows\<rparr>, 1))"

text \<open>\<^verbatim>\<open>observe_known_source_file.sql\<close>.\<close>

definition observed_matches :: "string \<Rightarrow> string \<Rightarrow> string \<Rightarrow> int \<Rightarrow> source_row \<Rightarrow> bool" where
  "observed_matches root rel h sz s \<longleftrightarrow>
     source_matches root rel s \<and> sql_eq (s_hash s) (SText h) \<and> sql_eq (s_size s) (SInteger sz)"

definition observe_row :: "int option \<Rightarrow> int \<Rightarrow> source_row \<Rightarrow> source_row" where
  "observe_row modified seen s =
     s\<lparr>s_modified := sql_opt modified, s_last := SInteger seen, s_count := sql_increment (s_count s)\<rparr>"

definition observe_known_source_file_sql ::
    "string \<Rightarrow> string \<Rightarrow> string \<Rightarrow> int \<Rightarrow> int option \<Rightarrow> int \<Rightarrow> database \<Rightarrow> (database \<times> nat) result" where
  "observe_known_source_file_sql root rel h sz modified seen db =
     (let existing = filter (observed_matches root rel h sz) (source_files db)
      in if list_ex (\<lambda>s. s_count s = SNull) existing then Inl (CatalogError ConstraintViolation)
         else Inr (db\<lparr>source_files := update_where (observed_matches root rel h sz)
                       (observe_row modified seen) (source_files db)\<rparr>, length existing))"

text \<open>\<^verbatim>\<open>select_known_source_file.sql\<close>: the join of a source row with its blob row.\<close>

definition select_known_source_file_sql ::
    "string \<Rightarrow> string \<Rightarrow> database \<Rightarrow> (source_row \<times> blob_row) option" where
  "select_known_source_file_sql root rel db =
     find (\<lambda>_. True)
       [(s, b). s \<leftarrow> source_files db, b \<leftarrow> blobs db,
                source_matches root rel s \<and> sql_eq (b_hash b) (s_hash s)]"

text \<open>The statements of garbage collection, with the number of rows they affect.\<close>

definition gc_mark_where :: "database \<Rightarrow> string \<Rightarrow> int \<Rightarrow> blob_row \<Rightarrow> bool" where
  "gc_mark_where db h sz b \<longleftrightarrow>
     blob_matches h sz b \<and> b_deleted b = SNull \<and> \<not> referenced_in db (b_hash b)"

definition gc_mark_sql :: "string \<Rightarrow> int \<Rightarrow> int \<Rightarrow> database \<Rightarrow> database \<times> nat" where
  "gc_mark_sql h sz now db =
     (db\<lparr>blobs := update_where (gc_mark_where db h sz) (b_deleted_update (\<lambda>_. SInteger now)) (blobs db)\<rparr>,
      matching (gc_mark_where db h sz) (blobs db))"

definition gc_resurrect_where :: "database \<Rightarrow> string \<Rightarrow> int \<Rightarrow> blob_row \<Rightarrow> bool" where
  "gc_resurrect_where db h sz b \<longleftrightarrow>
     blob_matches h sz b \<and> b_deleted b \<noteq> SNull \<and> referenced_in db (b_hash b)"

definition gc_resurrect_sql :: "string \<Rightarrow> int \<Rightarrow> database \<Rightarrow> database \<times> nat" where
  "gc_resurrect_sql h sz db =
     (db\<lparr>blobs := update_where (gc_resurrect_where db h sz) (b_deleted_update (\<lambda>_. SNull)) (blobs db)\<rparr>,
      matching (gc_resurrect_where db h sz) (blobs db))"

definition gc_sweep_where :: "database \<Rightarrow> string \<Rightarrow> int \<Rightarrow> blob_row \<Rightarrow> bool" where
  "gc_sweep_where db h sz b \<longleftrightarrow>
     blob_matches h sz b \<and> b_deleted b \<noteq> SNull \<and> \<not> referenced_in db (b_hash b)"

definition gc_sweep_sql :: "string \<Rightarrow> int \<Rightarrow> database \<Rightarrow> database \<times> nat" where
  "gc_sweep_sql h sz db =
     (db\<lparr>blobs := filter (\<lambda>b. \<not> gc_sweep_where db h sz b) (blobs db)\<rparr>,
      matching (gc_sweep_where db h sz) (blobs db))"


section \<open>The constraints of the schema\<close>

text \<open>
  \<open>db_ok\<close>: primary keys, the unique identity of a source row and the foreign key hold, as
  SQLite enforces them. A NULL hash is not excluded by \<open>TEXT PRIMARY KEY\<close>.
\<close>

definition key_hashes :: "database \<Rightarrow> sqlval list" where
  "key_hashes db = filter (\<lambda>v. v \<noteq> SNull) (map b_hash (blobs db))"

definition source_identity :: "source_row \<Rightarrow> sqlval \<times> sqlval" where
  "source_identity s = (s_root s, s_rel s)"

definition db_ok :: "database \<Rightarrow> bool" where
  "db_ok db \<longleftrightarrow>
     distinct (map b_rowid (blobs db)) \<and> distinct (key_hashes db) \<and>
     distinct (map s_id (source_files db)) \<and> distinct (map source_identity (source_files db)) \<and>
     list_all (\<lambda>s. s_hash s = SNull \<or> s_hash s \<in> set (map b_hash (blobs db))) (source_files db)"


section \<open>Every statement keeps the constraints\<close>

lemma map_update_where:
  "(\<And>r. g (f r) = g r) \<Longrightarrow> map g (update_where p f rows) = map g rows"
  by (simp add: update_where_def)

lemma length_update_where [simp]: "length (update_where p f rows) = length rows"
  by (simp add: update_where_def)

lemma set_update_where:
  "x \<in> set (update_where p f rows) \<longleftrightarrow> (\<exists>r\<in>set rows. x = (if p r then f r else r))"
  by (auto simp: update_where_def)

lemma update_where_none: "matching p rows = 0 \<Longrightarrow> update_where p f rows = rows"
  by (auto simp: matching_def update_where_def filter_empty_conv intro!: map_idI)

lemma next_id_fresh: "i \<in> set ids \<Longrightarrow> i < next_id ids"
proof -
  have "acc \<le> fold max ids acc \<and> (\<forall>i\<in>set ids. i \<le> fold max ids acc)" for acc :: int
  proof (induction ids arbitrary: acc)
    case (Cons a ids)
    show ?case using Cons[of "max a acc"] by (simp add: max.boundedE)
  qed auto
  then show "i \<in> set ids \<Longrightarrow> i < next_id ids" by (force simp: next_id_def)
qed

lemma next_id_notin: "next_id ids \<notin> set ids"
  using next_id_fresh by (metis less_irrefl)

lemma sql_eq_SText [simp]: "sql_eq v (SText t) \<longleftrightarrow> v = SText t" "sql_eq (SText t) v \<longleftrightarrow> v = SText t"
  by (auto simp: sql_eq_def)

lemma sql_eq_SInteger [simp]:
  "sql_eq v (SInteger n) \<longleftrightarrow> v = SInteger n" "sql_eq (SInteger n) v \<longleftrightarrow> v = SInteger n"
  by (auto simp: sql_eq_def)

lemma sql_eq_SNull [simp]: "\<not> sql_eq v SNull" "\<not> sql_eq SNull v"
  by (auto simp: sql_eq_def)

lemma row_field_updates [simp]:
  "b_rowid (b_deleted_update f b) = b_rowid b" "b_hash (b_deleted_update f b) = b_hash b"
  "b_size (b_deleted_update f b) = b_size b" "b_created (b_deleted_update f b) = b_created b"
  by (cases b; simp)+

lemma source_row_updates [simp]:
  "s_id (upsert_row h sz m t s) = s_id s" "source_identity (upsert_row h sz m t s) = source_identity s"
  "s_hash (upsert_row h sz m t s) = SText h"
  "s_id (observe_row m t s) = s_id s" "source_identity (observe_row m t s) = source_identity s"
  "s_hash (observe_row m t s) = s_hash s"
  by (simp_all add: upsert_row_def observe_row_def source_identity_def)

lemmas statement_defs = insert_blob_sql_def resurrect_blob_sql_def gc_mark_sql_def
  gc_resurrect_sql_def gc_sweep_sql_def

lemma db_ok_blobs_update:
  assumes "db_ok db" "\<And>b. b_rowid (f b) = b_rowid b" "\<And>b. b_hash (f b) = b_hash b"
  shows "db_ok (db\<lparr>blobs := update_where p f (blobs db)\<rparr>)"
proof -
  have "map b_rowid (update_where p f (blobs db)) = map b_rowid (blobs db)"
    "map b_hash (update_where p f (blobs db)) = map b_hash (blobs db)"
    using assms by (simp_all add: map_update_where)
  then show ?thesis using assms(1) by (simp add: db_ok_def key_hashes_def del: set_map)
qed

lemma db_ok_gc_sweep:
  assumes "db_ok db"
  shows "db_ok (fst (gc_sweep_sql h sz db))"
proof -
  have keep: "s_hash s \<in> b_hash ` set (filter (\<lambda>b. \<not> gc_sweep_where db h sz b) (blobs db))"
    if s: "s \<in> set (source_files db)" "s_hash s \<noteq> SNull" for s
  proof -
    have "s_hash s \<in> b_hash ` set (blobs db)" using assms s by (auto simp: db_ok_def list_all_iff)
    then obtain b where b: "b \<in> set (blobs db)" "s_hash s = b_hash b" by auto
    have "\<not> gc_sweep_where db h sz b"
      using s(1) b(2) by (auto simp: gc_sweep_where_def blob_matches_def referenced_in_def list_ex_iff)
    then show ?thesis using b by auto
  qed
  have d: "distinct (map g (filter Q xs))" if "distinct (map g xs)" for g :: "blob_row \<Rightarrow> int" and Q xs
    using that by (metis distinct_map_filter)
  have "filter (\<lambda>v. v \<noteq> SNull) (map b_hash (filter Q xs)) = map b_hash (filter Q (filter (\<lambda>b. b_hash b \<noteq> SNull) xs))"
    for Q and xs :: "blob_row list" by (induction xs) auto
  moreover have "distinct (map b_hash (filter (\<lambda>b. b_hash b \<noteq> SNull) (blobs db)))"
    using assms by (simp add: db_ok_def key_hashes_def filter_map comp_def)
  ultimately have "distinct (key_hashes (fst (gc_sweep_sql h sz db)))"
    unfolding key_hashes_def gc_sweep_sql_def by (simp add: distinct_map_filter del: filter_filter)
  then show ?thesis using assms keep d by (auto simp: db_ok_def gc_sweep_sql_def list_all_iff)
qed

lemma db_ok_insert_blob:
  assumes "db_ok db"
  shows "db_ok (fst (insert_blob_sql h sz t db))"
proof (cases "sql_length h \<noteq> 64 \<or> list_ex (\<lambda>b. sql_eq (b_hash b) (SText h)) (blobs db)")
  case False
  then have "SText h \<notin> b_hash ` set (blobs db)" by (auto simp: list_ex_iff)
  then show ?thesis using assms False next_id_notin[of "map b_rowid (blobs db)"]
    by (auto simp: db_ok_def insert_blob_sql_def key_hashes_def list_all_iff)
qed (use assms in \<open>simp add: insert_blob_sql_def\<close>)

lemma db_ok_gc_statements:
  assumes "db_ok db"
  shows "db_ok (fst (gc_mark_sql h sz t db))" "db_ok (fst (gc_resurrect_sql h sz db))"
    "db_ok (fst (resurrect_blob_sql h sz db))"
  using assms by (simp_all add: statement_defs db_ok_blobs_update)

lemma db_ok_observe:
  assumes "db_ok db" "observe_known_source_file_sql root rel h sz m t db = Inr (db', n)"
  shows "db_ok db'"
proof -
  let ?r = "update_where (observed_matches root rel h sz) (observe_row m t) (source_files db)"
  have "db' = db\<lparr>source_files := ?r\<rparr>"
    using assms(2) by (auto simp: observe_known_source_file_sql_def Let_def split: if_splits)
  moreover have "map s_id ?r = map s_id (source_files db)"
    "map source_identity ?r = map source_identity (source_files db)" "map s_hash ?r = map s_hash (source_files db)"
    by (simp_all add: map_update_where)
  moreover have "list_all (P \<circ> s_hash) ?r = list_all (P \<circ> s_hash) (source_files db)" for P
    using calculation(4) by (metis list.pred_map)
  from this[of "\<lambda>v. v = SNull \<or> v \<in> set (map b_hash (blobs db))"]
  have "list_all (\<lambda>s. s_hash s = SNull \<or> s_hash s \<in> set (map b_hash (blobs db))) ?r"
    using assms(1) by (simp add: db_ok_def comp_def del: set_map)
  ultimately show ?thesis using assms(1) by (simp add: db_ok_def key_hashes_def del: set_map)
qed

lemma db_ok_upsert:
  assumes "db_ok db" "upsert_source_file_sql root rel h sz m t db = Inr (db', n)"
  shows "db_ok db' \<and> n = 1"
proof -
  have "list_ex (\<lambda>b. b_hash b = SText h) (blobs db)"
    using assms(2) by (simp add: upsert_source_file_sql_def Let_def split: if_splits)
  then have parent: "SText h \<in> b_hash ` set (blobs db)" by (force simp: list_ex_iff)
  show ?thesis
  proof (cases "filter (source_matches root rel) (source_files db) = []")
    case True
    then have "(SText root, SText rel) \<notin> source_identity ` set (source_files db)"
      by (auto simp: filter_empty_conv source_matches_def source_identity_def)
    then show ?thesis using assms True parent next_id_notin[of "map s_id (source_files db)"]
      by (auto simp: upsert_source_file_sql_def Let_def db_ok_def key_hashes_def list_all_iff
          source_identity_def[of "source_row_ext _ _ _ _ _ _ _ _ _ _"] split: if_splits)
  next
    case False
    let ?r = "update_where (source_matches root rel) (upsert_row h sz m t) (source_files db)"
    have "db' = db\<lparr>source_files := ?r\<rparr>" "n = 1"
      using assms(2) False by (auto simp: upsert_source_file_sql_def Let_def split: if_splits)
    moreover have "map s_id ?r = map s_id (source_files db)"
      "map source_identity ?r = map source_identity (source_files db)"
      by (simp_all add: map_update_where)
    moreover have "list_all (\<lambda>s. s_hash s = SNull \<or> s_hash s \<in> set (map b_hash (blobs db))) ?r"
      using assms(1) parent unfolding db_ok_def list_all_iff set_map Ball_def set_update_where
      by (metis source_row_updates(3))
    ultimately show ?thesis using assms(1) by (simp add: db_ok_def key_hashes_def del: set_map)
  qed
qed

text \<open>With the primary key in force a statement that names a hash affects at most one row.\<close>

lemma blob_row_unique:
  assumes "db_ok db" "b \<in> set (blobs db)" "b' \<in> set (blobs db)" "b_hash b = SText h" "b_hash b' = SText h"
  shows "b = b'"
proof -
  have "inj_on b_hash (set (filter (\<lambda>b. b_hash b \<noteq> SNull) (blobs db)))"
    using assms(1) by (simp add: db_ok_def key_hashes_def filter_map comp_def distinct_map)
  then show ?thesis using assms(2-5) by (auto simp: inj_on_def)
qed

lemma distinct_blobs: "db_ok db \<Longrightarrow> distinct (blobs db)"
  by (auto simp: db_ok_def distinct_map)

lemma matching_le_1:
  assumes "db_ok db" "\<And>b. p b \<Longrightarrow> b_hash b = SText h"
  shows "matching p (blobs db) \<le> 1"
proof -
  have "card (set (filter p (blobs db))) \<le> 1"
    using blob_row_unique[OF assms(1)] assms(2) by (auto simp: card_le_Suc0_iff_eq)
  then show ?thesis
    using distinct_blobs[OF assms(1)] by (simp add: matching_def distinct_card[symmetric])
qed

lemma matching_1D:
  assumes "db_ok db" "\<And>b. p b \<Longrightarrow> b_hash b = SText h" "matching p (blobs db) = 1"
  obtains b where "b \<in> set (blobs db)" "p b" "b_hash b = SText h"
proof -
  have "filter p (blobs db) \<noteq> []" using assms(3) by (auto simp: matching_def)
  then obtain b where "b \<in> set (blobs db)" "p b" by (auto simp: filter_empty_conv)
  then show ?thesis using that assms(2) by blast
qed

lemma source_row_unique:
  assumes "db_ok db" "s \<in> set (source_files db)" "s' \<in> set (source_files db)"
    "source_matches root rel s" "source_matches root rel s'"
  shows "s = s'"
proof -
  have "inj_on source_identity (set (source_files db))"
    using assms(1) by (simp add: db_ok_def distinct_map)
  then show ?thesis using assms(2-5) by (auto simp: inj_on_def source_identity_def source_matches_def)
qed

end
