(* ===== verification/Catalog.thy ===== *)
theory Catalog
  imports Database "HOL-Library.AList"
begin

text \<open>
  \<^verbatim>\<open>catalog.rs\<close>: the transactions that record an import or a repeat observation, the reads of
  known sources and live entries, schema version checks, the staged statements of garbage
  collection, and the inspection of a catalog that audit and garbage collection share.
\<close>

section \<open>Records\<close>

record catalog_blob =
  cb_hash :: blob_hash
  cb_size :: u64
  marked_at_ms :: "int option"
  referenced :: bool

record catalog_audit_snapshot =
  blob_rows_seen :: u64
  gc_candidates :: u64
  valid_blobs :: "(blob_hash \<times> catalog_blob) list"
  snap_findings :: "integrity_finding list"

record blob_record =
  br_hash :: blob_hash
  br_size :: u64
  br_created :: int

record source_observation =
  so_root :: string
  so_rel :: source_relative_path
  so_hash :: blob_hash
  so_size :: u64
  so_modified :: "int option"
  so_observed :: int

record known_source =
  ks_hash :: blob_hash
  ks_source_size :: u64
  ks_modified :: "int option"
  ks_blob_size :: u64
  ks_deleted :: "int option"

record live_entry =
  le_rel :: source_relative_path
  le_hash :: blob_hash
  le_size :: u64

datatype blob_outcome = BlobInserted | BlobAlreadyPresent
datatype source_outcome = SourceInserted | SourceUpdated

definition ascii_lower :: "char \<Rightarrow> char" where
  "ascii_lower c = (if 65 \<le> byte c \<and> byte c \<le> 90 then char_of (byte c + 32) else c)"

definition current_schema_version :: int where "current_schema_version = 1"


section \<open>Reading a cell\<close>

text \<open>\<open>row.get::<i64>\<close>, \<open>row.get::<Option<i64>>\<close> and \<open>row.get::<String>\<close>.\<close>

definition get_i64 :: "sqlval \<Rightarrow> int result" where
  "get_i64 v = (case v of SInteger n \<Rightarrow> Inr n | _ \<Rightarrow> Inl (CatalogError UnexpectedType))"

definition get_opt_i64 :: "sqlval \<Rightarrow> int option result" where
  "get_opt_i64 v = (case v of SNull \<Rightarrow> Inr None | SInteger n \<Rightarrow> Inr (Some n)
                    | _ \<Rightarrow> Inl (CatalogError UnexpectedType))"

definition get_string :: "sqlval \<Rightarrow> string result" where
  "get_string v = (case v of SText t \<Rightarrow> if valid_utf8 t then Inr t else Inl (CatalogError UnexpectedType)
                   | _ \<Rightarrow> Inl (CatalogError UnexpectedType))"

definition u64_of_i64 :: "int \<Rightarrow> u64 result" where
  "u64_of_i64 n = (if 0 \<le> n then Inr (of_int n) else Inl (CatalogError NegativeSize))"

definition sqlite_u64 :: "u64 \<Rightarrow> int result" where
  "sqlite_u64 v = (if uint v \<le> i64_max then Inr (uint v) else Inl (CatalogError SizeOutOfRange))"


section \<open>Recording an import\<close>

definition validate_imported_record :: "blob_record \<Rightarrow> source_observation \<Rightarrow> unit result" where
  "validate_imported_record blob obs =
     (if br_hash blob \<noteq> so_hash obs then Inl (CatalogError HashDisagreement)
      else if br_size blob \<noteq> so_size obs then Inl (CatalogError SizeDisagreement)
      else bind_result (sqlite_u64 (br_size blob)) (\<lambda>_.
           bind_result (sqlite_u64 (so_size obs)) (\<lambda>_. Inr ())))"

definition record_imported_file_in_transaction ::
    "database \<Rightarrow> blob_record \<Rightarrow> source_observation \<Rightarrow> (database \<times> blob_outcome \<times> source_outcome) result" where
  "record_imported_file_in_transaction db blob obs =
     bind_result (validate_imported_record blob obs) (\<lambda>_.
     bind_result (sqlite_u64 (br_size blob)) (\<lambda>expected_size.
     let (db1, inserted_blobs) = insert_blob_sql (as_str (br_hash blob)) expected_size (br_created blob) db;
         blob_outcome = (if inserted_blobs = 1 then BlobInserted else BlobAlreadyPresent)
     in bind_result (select_blob_size_sql (as_str (br_hash blob)) db1) (\<lambda>existing_size.
        if existing_size \<noteq> expected_size then Inl (CatalogError SizeDisagreement)
        else let (db2, resurrected) = resurrect_blob_sql (as_str (br_hash blob)) expected_size db1
        in if resurrected \<noteq> 1 then Inl (CatalogError (RowCount resurrected))
        else let existing_source = select_source_file_id_sql (so_root obs) (rel_str (so_rel obs)) db2;
                 source_outcome = (if existing_source \<noteq> None then SourceUpdated else SourceInserted)
        in bind_result (sqlite_u64 (so_size obs)) (\<lambda>source_size.
           bind_result (upsert_source_file_sql (so_root obs) (rel_str (so_rel obs)) (as_str (so_hash obs))
                          source_size (so_modified obs) (so_observed obs) db2) (\<lambda>(db3, source_rows).
           if source_rows \<noteq> 1 then Inl (CatalogError (RowCount source_rows))
           else Inr (db3, blob_outcome, source_outcome))))))"

definition observe_known_source_file_in_transaction ::
    "database \<Rightarrow> source_observation \<Rightarrow> u64 \<Rightarrow> database result" where
  "observe_known_source_file_in_transaction db obs expected_blob_size_bytes =
     (if so_size obs \<noteq> expected_blob_size_bytes then Inl (CatalogError SizeDisagreement)
      else bind_result (sqlite_u64 (so_size obs)) (\<lambda>source_size.
           bind_result (sqlite_u64 expected_blob_size_bytes) (\<lambda>expected_blob_size.
           bind_result (observe_known_source_file_sql (so_root obs) (rel_str (so_rel obs)) (as_str (so_hash obs))
                          source_size (so_modified obs) (so_observed obs) db) (\<lambda>(db1, source_rows).
           if source_rows \<noteq> 1 then Inl (CatalogError (RowCount source_rows))
           else let (db2, blob_rows) = resurrect_blob_sql (as_str (so_hash obs)) expected_blob_size db1
                in if blob_rows \<noteq> 1 then Inl (CatalogError (RowCount blob_rows)) else Inr db2))))"

definition known_source_file ::
    "database \<Rightarrow> string \<Rightarrow> source_relative_path \<Rightarrow> known_source option result" where
  "known_source_file db root rel =
     (case select_known_source_file_sql root (rel_str rel) db of
        None \<Rightarrow> Inr None
      | Some (s, b) \<Rightarrow>
          bind_result (get_string (s_hash s)) (\<lambda>h.
          bind_result (get_i64 (s_size s)) (\<lambda>ssz.
          bind_result (get_opt_i64 (s_modified s)) (\<lambda>modified.
          bind_result (get_i64 (b_size b)) (\<lambda>bsz.
          bind_result (get_opt_i64 (b_deleted b)) (\<lambda>deleted.
          bind_result (u64_of_i64 ssz) (\<lambda>source_size.
          bind_result (u64_of_i64 bsz) (\<lambda>blob_size.
          bind_result (blob_hash_new h) (\<lambda>hash.
          Inr (Some \<lparr>ks_hash = hash, ks_source_size = source_size, ks_modified = modified,
                     ks_blob_size = blob_size, ks_deleted = deleted\<rparr>))))))))))"

definition source_observation_outcome ::
    "database \<Rightarrow> string \<Rightarrow> source_relative_path \<Rightarrow> source_outcome" where
  "source_observation_outcome db root rel =
     (if select_source_file_id_sql root (rel_str rel) db \<noteq> None then SourceUpdated else SourceInserted)"

text \<open>
  \<^verbatim>\<open>select_live_materialization_entries.sql\<close>: the live rows of the join, one per pair of
  relative path and hash, in the order of the pair. SQLite orders NULL, numbers, text, blobs.
\<close>

definition sql_order :: "sqlval \<Rightarrow> nat \<times> int \<times> string" where
  "sql_order v = (case v of SNull \<Rightarrow> (0, 0, []) | SInteger n \<Rightarrow> (1, n, []) | SReal \<Rightarrow> (1, 0, [])
                  | SText t \<Rightarrow> (2, 0, t) | SBlob t \<Rightarrow> (3, 0, t))"

definition live_join :: "database \<Rightarrow> (sqlval \<times> sqlval \<times> sqlval) list" where
  "live_join db = [(s_rel s, s_hash s, b_size b). s \<leftarrow> source_files db, b \<leftarrow> blobs db,
                     sql_eq (b_hash b) (s_hash s) \<and> b_deleted b = SNull]"

definition select_live_sql :: "database \<Rightarrow> (sqlval \<times> sqlval \<times> sqlval) list" where
  "select_live_sql db =
     dedup_by (\<lambda>(r, h, _) (r', h', _). r = r' \<and> h = h')
       (sort_key (\<lambda>(r, h, _). (sql_order r, sql_order h)) (live_join db))"

definition live_materialization_entries :: "database \<Rightarrow> live_entry list result" where
  "live_materialization_entries db =
     map_result (\<lambda>(r, h, sz).
       bind_result (get_string r) (\<lambda>relative_path.
       bind_result (get_string h) (\<lambda>blob_hash.
       bind_result (get_i64 sz) (\<lambda>size_bytes.
       bind_result (u64_of_i64 size_bytes) (\<lambda>blob_size_bytes.
       bind_result (from_catalog_text relative_path) (\<lambda>rel.
       bind_result (blob_hash_new blob_hash) (\<lambda>hash.
       Inr \<lparr>le_rel = rel, le_hash = hash, le_size = blob_size_bytes\<rparr>))))))) (select_live_sql db)"

text \<open>Version checks of the four ways to open a catalog.\<close>

definition require_current_schema :: "database \<Rightarrow> unit result" where
  "require_current_schema db =
     (if user_version db \<noteq> current_schema_version
      then Inl (CatalogError (SchemaVersion (user_version db))) else Inr ())"

definition open_for_materialization :: "database \<Rightarrow> database result" where
  "open_for_materialization db =
     (if user_version db = 0 then Inl (CatalogError (SchemaVersion 0))
      else if user_version db > current_schema_version then Inl (CatalogError (SchemaVersion (user_version db)))
      else if user_version db \<noteq> current_schema_version then Inl (CatalogError (SchemaVersion (user_version db)))
      else Inr db)"

definition open_if_exists :: "database option \<Rightarrow> database option result" where
  "open_if_exists file =
     (case file of
        None \<Rightarrow> Inr None
      | Some db \<Rightarrow>
          if user_version db > current_schema_version then Inl (CatalogError (SchemaVersion (user_version db)))
          else if user_version db = 0 then Inr None
          else Inr (Some db))"


section \<open>Staged statements of garbage collection\<close>

definition require_one_gc_row :: "nat \<Rightarrow> unit result" where
  "require_one_gc_row affected = (if affected \<noteq> 1 then Inl (CatalogError (RowCount affected)) else Inr ())"

text \<open>\<open>call\<close> is whether SQLite executes the statement.\<close>

definition stage_gc_mark :: "bool \<Rightarrow> unit result \<Rightarrow> catalog_blob \<Rightarrow> int \<Rightarrow> database \<Rightarrow> database result" where
  "stage_gc_mark active call blob now db =
     (if \<not> active then Inl (WriterError NoActiveSession)
      else bind_result (sqlite_u64 (cb_size blob)) (\<lambda>sz. bind_result call (\<lambda>_.
           let (db', affected) = gc_mark_sql (as_str (cb_hash blob)) sz now db
           in bind_result (require_one_gc_row affected) (\<lambda>_. Inr db'))))"

definition stage_gc_resurrect :: "bool \<Rightarrow> unit result \<Rightarrow> catalog_blob \<Rightarrow> database \<Rightarrow> database result" where
  "stage_gc_resurrect active call blob db =
     (if \<not> active then Inl (WriterError NoActiveSession)
      else bind_result (sqlite_u64 (cb_size blob)) (\<lambda>sz. bind_result call (\<lambda>_.
           let (db', affected) = gc_resurrect_sql (as_str (cb_hash blob)) sz db
           in bind_result (require_one_gc_row affected) (\<lambda>_. Inr db'))))"

definition stage_gc_sweep :: "bool \<Rightarrow> unit result \<Rightarrow> catalog_blob \<Rightarrow> database \<Rightarrow> database result" where
  "stage_gc_sweep active call blob db =
     (if \<not> active then Inl (WriterError NoActiveSession)
      else bind_result (sqlite_u64 (cb_size blob)) (\<lambda>sz. bind_result call (\<lambda>_.
           let (db', affected) = gc_sweep_sql (as_str (cb_hash blob)) sz db
           in bind_result (require_one_gc_row affected) (\<lambda>_. Inr db'))))"


section \<open>Opening a catalog for writing\<close>

text \<open>
  \<open>migrate\<close> runs \<^verbatim>\<open>schema_v1.sql\<close> in a transaction: it creates the tables and sets the
  version. What SQLite makes of a schema when it runs the script is a parameter; \<open>None\<close> is a
  CREATE that fails because an object of the name is already there.
\<close>

definition migrate :: "(schema \<Rightarrow> schema option) \<Rightarrow> database \<Rightarrow> database result" where
  "migrate schema_v1 db =
     (if user_version db > current_schema_version then Inl (CatalogError (SchemaVersion (user_version db)))
      else if user_version db = current_schema_version then Inr db
      else (case schema_v1 (db_schema db) of
              None \<Rightarrow> Inl (CatalogError SqlError)
            | Some sch \<Rightarrow> Inr (db\<lparr>user_version := 1, db_schema := sch, blobs := [], source_files := []\<rparr>)))"

definition open_writable_catalog :: "(schema \<Rightarrow> schema option) \<Rightarrow> database \<Rightarrow> database result" where
  "open_writable_catalog schema_v1 db =
     bind_result (migrate schema_v1 (db\<lparr>journal_mode := ''wal''\<rparr>)) (\<lambda>db1.
     bind_result (require_current_schema db1) (\<lambda>_. Inr db1))"

definition eq_ignore_ascii_case :: "string \<Rightarrow> string \<Rightarrow> bool" where
  "eq_ignore_ascii_case a b \<longleftrightarrow> map ascii_lower a = map ascii_lower b"

text \<open>\<open>open_existing_gc_catalog\<close> never initialises or migrates: the catalog must be current and in WAL mode.\<close>

definition open_existing_gc_catalog :: "database \<Rightarrow> database result" where
  "open_existing_gc_catalog db =
     (if user_version db \<noteq> current_schema_version then Inl (CatalogError (SchemaVersion (user_version db)))
      else if \<not> eq_ignore_ascii_case (journal_mode db) ''wal'' then Inl (CatalogError NotWalMode)
      else Inr db)"



section \<open>The catalog as two keyed tables\<close>

text \<open>
  What the rest of the program relies on: the row of a hash and the row of a source identity.
  The effect of every transaction is stated on these two lookups.
\<close>

definition lookup_blob :: "database \<Rightarrow> string \<Rightarrow> blob_row option" where
  "lookup_blob db h = find (\<lambda>b. b_hash b = SText h) (blobs db)"

definition lookup_source :: "database \<Rightarrow> string \<Rightarrow> string \<Rightarrow> source_row option" where
  "lookup_source db root rel = find (source_matches root rel) (source_files db)"

lemma find_append: "find q (xs @ ys) = (case find q xs of None \<Rightarrow> find q ys | Some x \<Rightarrow> Some x)"
  by (induction xs) auto

lemma find_update_where:
  "(\<And>r. q (f r) = q r) \<Longrightarrow>
   find q (update_where p f rows) = map_option (\<lambda>r. if p r then f r else r) (find q rows)"
  by (induction rows) (auto simp: update_where_def)

lemma find_update_elsewhere:
  "(\<And>r. q (f r) = q r) \<Longrightarrow> (\<And>r. q r \<Longrightarrow> \<not> p r) \<Longrightarrow> find q (update_where p f rows) = find q rows"
  by (induction rows) (auto simp: update_where_def)

lemma find_SomeD: "find q xs = Some x \<Longrightarrow> x \<in> set xs \<and> q x"
  by (auto simp: find_Some_iff)

lemma find_None_ex: "find q xs = None \<longleftrightarrow> \<not> list_ex q xs"
  by (auto simp: find_None_iff list_ex_iff)

lemma lookup_blob_Some:
  "db_ok db \<Longrightarrow> lookup_blob db h = Some b \<longleftrightarrow> b \<in> set (blobs db) \<and> b_hash b = SText h"
proof
  assume ok: "db_ok db" and b: "b \<in> set (blobs db) \<and> b_hash b = SText h"
  then obtain c where c: "lookup_blob db h = Some c"
    by (cases "lookup_blob db h") (auto simp: lookup_blob_def find_None_iff)
  then have "c \<in> set (blobs db)" "b_hash c = SText h" by (auto simp: lookup_blob_def dest: find_SomeD)
  then show "lookup_blob db h = Some b" using blob_row_unique[OF ok] b c by metis
qed (auto simp: lookup_blob_def dest: find_SomeD)

lemma lookup_source_Some:
  "db_ok db \<Longrightarrow> lookup_source db root rel = Some s \<longleftrightarrow> s \<in> set (source_files db) \<and> source_matches root rel s"
proof
  assume ok: "db_ok db" and s: "s \<in> set (source_files db) \<and> source_matches root rel s"
  then obtain c where c: "lookup_source db root rel = Some c"
    by (cases "lookup_source db root rel") (auto simp: lookup_source_def find_None_iff)
  then have "c \<in> set (source_files db)" "source_matches root rel c"
    by (auto simp: lookup_source_def dest: find_SomeD)
  then show "lookup_source db root rel = Some s" using source_row_unique[OF ok] s c by metis
qed (auto simp: lookup_source_def dest: find_SomeD)

lemma lookup_blob_hash: "lookup_blob db h = Some b \<Longrightarrow> b_hash b = SText h"
  by (auto simp: lookup_blob_def dest: find_SomeD)

text \<open>A statement with a hash in its WHERE affects the row of that hash, if the row qualifies.\<close>

lemma matching_lookup:
  assumes ok: "db_ok db" and key: "\<And>b. p b \<Longrightarrow> b_hash b = SText h"
  shows "matching p (blobs db) = (case lookup_blob db h of Some b \<Rightarrow> if p b then 1 else 0 | None \<Rightarrow> 0)"
proof (cases "\<exists>b\<in>set (blobs db). p b")
  case True
  then obtain b where b: "b \<in> set (blobs db)" "p b" by auto
  then have "lookup_blob db h = Some b" using lookup_blob_Some[OF ok] key by blast
  moreover have "0 < matching p (blobs db)" using b by (auto simp: matching_def filter_empty_conv)
  ultimately show ?thesis using matching_le_1[OF ok, of p h] key b(2) by fastforce
next
  case False
  then have "matching p (blobs db) = 0" by (simp add: matching_def filter_empty_conv)
  then show ?thesis using False by (auto simp: lookup_blob_Some[OF ok] split: option.splits)
qed

lemma lookup_blob_update:
  "(\<And>b. b_hash (f b) = b_hash b) \<Longrightarrow>
   lookup_blob (db\<lparr>blobs := update_where p f (blobs db)\<rparr>) h =
   map_option (\<lambda>b. if p b then f b else b) (lookup_blob db h)"
  by (simp add: lookup_blob_def find_update_where)

lemma lookup_blob_elsewhere:
  assumes "\<And>b. p b \<Longrightarrow> b_hash b = SText h" "\<And>b. b_hash (f b) = b_hash b" "h' \<noteq> h"
  shows "lookup_blob (db\<lparr>blobs := update_where p f (blobs db)\<rparr>) h' = lookup_blob db h'"
  unfolding lookup_blob_def using assms by (auto intro!: find_update_elsewhere)

lemma lookup_blob_source_update [simp]: "lookup_blob (db\<lparr>source_files := rows\<rparr>) h = lookup_blob db h"
  by (simp add: lookup_blob_def)

lemma lookup_source_blob_update [simp]: "lookup_source (db\<lparr>blobs := rows\<rparr>) r p = lookup_source db r p"
  by (simp add: lookup_source_def)

lemma sqlite_u64_Inr: "sqlite_u64 v = Inr n \<longleftrightarrow> n = uint v \<and> uint v \<le> i64_max"
  by (auto simp: sqlite_u64_def)

lemma u64_of_i64_uint [simp]: "u64_of_i64 (uint v) = Inr v"
  by (simp add: u64_of_i64_def)


text \<open>
  The abstract catalog: a table of blobs by hash and a table of sources by identity, row ids
  and order forgotten, and what recording an import means on it.
\<close>

type_synonym blob_cells = "sqlval \<times> sqlval \<times> sqlval"
type_synonym source_cells = "sqlval \<times> sqlval \<times> sqlval \<times> sqlval \<times> sqlval \<times> sqlval"
type_synonym tables = "(string \<rightharpoonup> blob_cells) \<times> (string \<times> string \<rightharpoonup> source_cells)"

definition blob_cells :: "blob_row \<Rightarrow> blob_cells" where
  "blob_cells b = (b_size b, b_created b, b_deleted b)"

definition source_cells :: "source_row \<Rightarrow> source_cells" where
  "source_cells s = (s_hash s, s_size s, s_modified s, s_first s, s_last s, s_count s)"

definition abs_blobs :: "database \<Rightarrow> string \<rightharpoonup> blob_cells" where
  "abs_blobs db h = map_option blob_cells (lookup_blob db h)"

definition abs_sources :: "database \<Rightarrow> string \<times> string \<rightharpoonup> source_cells" where
  "abs_sources db = (\<lambda>(root, rel). map_option source_cells (lookup_source db root rel))"

definition abs_db :: "database \<Rightarrow> tables" where
  "abs_db db = (abs_blobs db, abs_sources db)"

definition spec_live_blob :: "blob_record \<Rightarrow> (string \<rightharpoonup> blob_cells) \<Rightarrow> (string \<rightharpoonup> blob_cells)" where
  "spec_live_blob blob B =
     B(as_str (br_hash blob) \<mapsto>
         (case B (as_str (br_hash blob)) of
            None \<Rightarrow> (SInteger (uint (br_size blob)), SInteger (br_created blob), SNull)
          | Some (sz, created, _) \<Rightarrow> (sz, created, SNull)))"

definition spec_seen :: "source_observation \<Rightarrow> (string \<times> string \<rightharpoonup> source_cells) \<Rightarrow> (string \<times> string \<rightharpoonup> source_cells)" where
  "spec_seen obs S =
     (let k = (so_root obs, rel_str (so_rel obs));
          h = SText (as_str (so_hash obs)); sz = SInteger (uint (so_size obs));
          m = sql_opt (so_modified obs); t = SInteger (so_observed obs)
      in S(k \<mapsto> (case S k of
                   None \<Rightarrow> (h, sz, m, t, t, SInteger 1)
                 | Some (_, _, _, first, _, n) \<Rightarrow> (h, sz, m, first, t, sql_increment n))))"

definition spec_record :: "blob_record \<Rightarrow> source_observation \<Rightarrow> tables \<Rightarrow> tables" where
  "spec_record blob obs = (\<lambda>(B, S). (spec_live_blob blob B, spec_seen obs S))"

lemma insert_blob_lookup:
  assumes "insert_blob_sql h sz t db = (db', n)" "sql_length h = 64"
  shows "lookup_source db' = lookup_source db"
    "lookup_blob db h \<noteq> None \<Longrightarrow> db' = db \<and> n = 0"
    "lookup_blob db h = None \<Longrightarrow> n = 1 \<and>
       lookup_blob db' h = Some \<lparr>b_rowid = next_id (map b_rowid (blobs db)), b_hash = SText h,
              b_size = SInteger sz, b_created = SInteger t, b_deleted = SNull\<rparr>"
    "h' \<noteq> h \<Longrightarrow> lookup_blob db' h' = lookup_blob db h'"
proof -
  have ex: "list_ex (\<lambda>b. sql_eq (b_hash b) (SText h)) (blobs db) \<longleftrightarrow> lookup_blob db h \<noteq> None"
    by (simp add: lookup_blob_def find_None_ex)
  show "lookup_source db' = lookup_source db" "lookup_blob db h \<noteq> None \<Longrightarrow> db' = db \<and> n = 0"
    using assms ex by (auto simp: insert_blob_sql_def fun_eq_iff split: if_splits)
  show "lookup_blob db h = None \<Longrightarrow> n = 1 \<and>
       lookup_blob db' h = Some \<lparr>b_rowid = next_id (map b_rowid (blobs db)), b_hash = SText h,
              b_size = SInteger sz, b_created = SInteger t, b_deleted = SNull\<rparr>"
    "h' \<noteq> h \<Longrightarrow> lookup_blob db' h' = lookup_blob db h'"
    using assms ex
    by (auto simp: insert_blob_sql_def lookup_blob_def find_append split: if_splits option.splits)
qed

lemma upsert_lookup:
  assumes "upsert_source_file_sql root rel h sz m t db = Inr (db', n)"
  shows "lookup_blob db' = lookup_blob db" "n = 1"
    "lookup_source db root rel = None \<Longrightarrow> \<exists>i. lookup_source db' root rel =
       Some \<lparr>s_id = i, s_root = SText root, s_rel = SText rel, s_hash = SText h, s_size = SInteger sz,
             s_modified = sql_opt m, s_first = SInteger t, s_last = SInteger t, s_count = SInteger 1\<rparr>"
    "lookup_source db root rel = Some s \<Longrightarrow> lookup_source db' root rel = Some (upsert_row h sz m t s)"
    "(root', rel') \<noteq> (root, rel) \<Longrightarrow> lookup_source db' root' rel' = lookup_source db root' rel'"
proof -
  have ex: "filter (source_matches root rel) (source_files db) = [] \<longleftrightarrow> lookup_source db root rel = None"
    by (auto simp: lookup_source_def find_None_iff filter_empty_conv)
  have keep: "source_matches a b (upsert_row h sz m t r) = source_matches a b r" for a b r
    by (simp add: source_matches_def upsert_row_def)
  show "lookup_blob db' = lookup_blob db" "n = 1"
    using assms by (auto simp: upsert_source_file_sql_def Let_def fun_eq_iff split: if_splits)
  show "\<exists>i. lookup_source db' root rel =
       Some \<lparr>s_id = i, s_root = SText root, s_rel = SText rel, s_hash = SText h, s_size = SInteger sz,
             s_modified = sql_opt m, s_first = SInteger t, s_last = SInteger t, s_count = SInteger 1\<rparr>"
    if "lookup_source db root rel = None"
    using assms that ex
    by (auto simp: upsert_source_file_sql_def Let_def lookup_source_def find_append source_matches_def split: if_splits)
  show "lookup_source db' root rel = Some (upsert_row h sz m t s)" if "lookup_source db root rel = Some s"
    using assms that ex keep find_SomeD[of "source_matches root rel" "source_files db" s]
    by (auto simp: upsert_source_file_sql_def Let_def lookup_source_def find_update_where split: if_splits)
  show "lookup_source db' root' rel' = lookup_source db root' rel'" if "(root', rel') \<noteq> (root, rel)"
  proof (cases "lookup_source db root rel")
    case None
    then show ?thesis using assms that ex
      by (auto simp: upsert_source_file_sql_def Let_def lookup_source_def find_append source_matches_def
          split: if_splits option.splits)
  next
    case (Some s)
    have "\<And>r. source_matches root' rel' r \<Longrightarrow> \<not> source_matches root rel r"
      using that by (auto simp: source_matches_def)
    then show ?thesis using assms Some ex keep
      by (auto simp: upsert_source_file_sql_def Let_def lookup_source_def find_update_elsewhere split: if_splits)
  qed
qed


lemma resurrect_blob_lookup:
  assumes "db_ok db" "resurrect_blob_sql h sz db = (db', n)"
  shows "db_ok db'" "lookup_source db' = lookup_source db"
    "h' \<noteq> h \<Longrightarrow> lookup_blob db' h' = lookup_blob db h'"
    "n = (case lookup_blob db h of Some b \<Rightarrow> if b_size b = SInteger sz then 1 else 0 | None \<Rightarrow> 0)"
    "lookup_blob db h = Some b \<Longrightarrow> b_size b = SInteger sz \<Longrightarrow> lookup_blob db' h = Some (b\<lparr>b_deleted := SNull\<rparr>)"
proof -
  show "db_ok db'" using db_ok_gc_statements(3)[OF assms(1), of h sz] assms(2) by simp
  show "lookup_source db' = lookup_source db"
    using assms(2) by (auto simp: resurrect_blob_sql_def fun_eq_iff)
  show "lookup_blob db' h' = lookup_blob db h'" if "h' \<noteq> h"
    using assms(2) that lookup_blob_elsewhere[of "blob_matches h sz" h]
    by (auto simp: resurrect_blob_sql_def blob_matches_def)
  show "n = (case lookup_blob db h of Some b \<Rightarrow> if b_size b = SInteger sz then 1 else 0 | None \<Rightarrow> 0)"
    using assms(2) matching_lookup[OF assms(1), of "blob_matches h sz" h]
    by (auto simp: resurrect_blob_sql_def blob_matches_def lookup_blob_hash split: option.splits)
  show "lookup_blob db' h = Some (b\<lparr>b_deleted := SNull\<rparr>)"
    if "lookup_blob db h = Some b" "b_size b = SInteger sz"
    using assms(2) that lookup_blob_hash[OF that(1)]
    by (auto simp: resurrect_blob_sql_def lookup_blob_update blob_matches_def)
qed

lemma select_blob_size_lookup:
  "select_blob_size_sql h db = Inr v \<longleftrightarrow> (\<exists>b. lookup_blob db h = Some b \<and> b_size b = SInteger v)"
  by (auto simp: select_blob_size_sql_def lookup_blob_def split: option.splits sqlval.splits)

lemma hash_ok_sql_length:
  assumes "hash_ok h"
  shows "sql_length (as_str h) = 64"
proof -
  have hex: "byte c \<noteq> 0 \<and> \<not> is_cont c" if "c \<in> set (as_str h)" for c
    using that hash_okD[OF assms] by (auto simp: list_all_iff is_lower_hex_def is_cont_def)
  then have "takeWhile (\<lambda>c. byte c \<noteq> 0) (as_str h) = as_str h" "filter (\<lambda>c. \<not> is_cont c) (as_str h) = as_str h"
    by (auto simp: takeWhile_eq_all_conv filter_id_conv)
  then show ?thesis using hash_okD(1)[OF assms] unfolding sql_length_def by (simp only:)
qed

lemma record_importedE:
  assumes "db_ok db" "hash_ok (br_hash blob)"
    "record_imported_file_in_transaction db blob obs = Inr (db', bo, so)"
  obtains db1 n1 db2 where
    "br_hash blob = so_hash obs" "br_size blob = so_size obs" "uint (br_size blob) \<le> i64_max"
    "insert_blob_sql (as_str (br_hash blob)) (uint (br_size blob)) (br_created blob) db = (db1, n1)"
    "bo = (if n1 = 1 then BlobInserted else BlobAlreadyPresent)"
    "select_blob_size_sql (as_str (br_hash blob)) db1 = Inr (uint (br_size blob))"
    "resurrect_blob_sql (as_str (br_hash blob)) (uint (br_size blob)) db1 = (db2, 1)"
    "so = source_observation_outcome db2 (so_root obs) (so_rel obs)"
    "upsert_source_file_sql (so_root obs) (rel_str (so_rel obs)) (as_str (so_hash obs))
       (uint (so_size obs)) (so_modified obs) (so_observed obs) db2 = Inr (db', 1)"
  using assms(3)
  unfolding record_imported_file_in_transaction_def validate_imported_record_def
  by (auto simp: bind_result_eq_Inr sqlite_u64_Inr Let_def source_observation_outcome_def
      split: prod.splits if_splits)


lemma record_imported_lookups:
  assumes "db_ok db" "hash_ok (br_hash blob)"
    "record_imported_file_in_transaction db blob obs = Inr (db', bo, so)"
  defines "h \<equiv> as_str (br_hash blob)" and "root \<equiv> so_root obs" and "rel \<equiv> rel_str (so_rel obs)"
  shows "db_ok db'"
    "\<And>h'. h' \<noteq> h \<Longrightarrow> lookup_blob db' h' = lookup_blob db h'"
    "\<And>a b. (a, b) \<noteq> (root, rel) \<Longrightarrow> lookup_source db' a b = lookup_source db a b"
    "case lookup_blob db h of
       None \<Rightarrow> bo = BlobInserted \<and> (\<exists>i. lookup_blob db' h = Some \<lparr>b_rowid = i, b_hash = SText h,
                 b_size = SInteger (uint (br_size blob)), b_created = SInteger (br_created blob), b_deleted = SNull\<rparr>)
     | Some b \<Rightarrow> bo = BlobAlreadyPresent \<and> b_size b = SInteger (uint (br_size blob)) \<and>
                 lookup_blob db' h = Some (b\<lparr>b_deleted := SNull\<rparr>)"
    "case lookup_source db root rel of
       None \<Rightarrow> so = SourceInserted \<and> (\<exists>i. lookup_source db' root rel =
                 Some \<lparr>s_id = i, s_root = SText root, s_rel = SText rel, s_hash = SText h,
                       s_size = SInteger (uint (so_size obs)), s_modified = sql_opt (so_modified obs),
                       s_first = SInteger (so_observed obs), s_last = SInteger (so_observed obs), s_count = SInteger 1\<rparr>)
     | Some s \<Rightarrow> so = SourceUpdated \<and> lookup_source db' root rel =
                 Some (upsert_row h (uint (so_size obs)) (so_modified obs) (so_observed obs) s)"
    "br_hash blob = so_hash obs" "br_size blob = so_size obs" "uint (so_size obs) \<le> i64_max"
proof -
  obtain db1 n1 db2 where st:
    "br_hash blob = so_hash obs" "br_size blob = so_size obs" "uint (br_size blob) \<le> i64_max"
    and ins: "insert_blob_sql h (uint (br_size blob)) (br_created blob) db = (db1, n1)"
    and bo: "bo = (if n1 = 1 then BlobInserted else BlobAlreadyPresent)"
    and sel: "select_blob_size_sql h db1 = Inr (uint (br_size blob))"
    and res: "resurrect_blob_sql h (uint (br_size blob)) db1 = (db2, 1)"
    and so: "so = source_observation_outcome db2 (so_root obs) (so_rel obs)"
    and up: "upsert_source_file_sql root rel h (uint (so_size obs)) (so_modified obs) (so_observed obs) db2 = Inr (db', 1)"
    using record_importedE[OF assms(1-3)] unfolding h_def root_def rel_def by metis
  have len: "sql_length h = 64" unfolding h_def by (rule hash_ok_sql_length[OF assms(2)])
  have ok1: "db_ok db1" using db_ok_insert_blob[OF assms(1), of h] ins by (metis fst_conv)
  note r = resurrect_blob_lookup[OF ok1 res] and i = insert_blob_lookup[OF ins len] and u = upsert_lookup[OF up]
  show "br_hash blob = so_hash obs" "br_size blob = so_size obs" "uint (so_size obs) \<le> i64_max" using st by simp_all
  show "db_ok db'" using db_ok_upsert[OF r(1) up] by simp
  show "\<And>h'. h' \<noteq> h \<Longrightarrow> lookup_blob db' h' = lookup_blob db h'" using r(3) i(4) u(1) by simp
  show "\<And>a b. (a, b) \<noteq> (root, rel) \<Longrightarrow> lookup_source db' a b = lookup_source db a b" using r(2) i(1) u(5) by simp
  show "case lookup_blob db h of
       None \<Rightarrow> bo = BlobInserted \<and> (\<exists>i. lookup_blob db' h = Some \<lparr>b_rowid = i, b_hash = SText h,
                 b_size = SInteger (uint (br_size blob)), b_created = SInteger (br_created blob), b_deleted = SNull\<rparr>)
     | Some b \<Rightarrow> bo = BlobAlreadyPresent \<and> b_size b = SInteger (uint (br_size blob)) \<and>
                 lookup_blob db' h = Some (b\<lparr>b_deleted := SNull\<rparr>)"
    using r(5) i(2,3) u(1) bo sel by (auto simp: select_blob_size_lookup split: option.splits)
  have "lookup_source db2 root rel = lookup_source db root rel" using r(2) i(1) by simp
  moreover have "so = (if lookup_source db2 root rel = None then SourceInserted else SourceUpdated)"
    unfolding so source_observation_outcome_def select_source_file_id_sql_def lookup_source_def root_def rel_def by simp
  ultimately show "case lookup_source db root rel of
       None \<Rightarrow> so = SourceInserted \<and> (\<exists>i. lookup_source db' root rel =
                 Some \<lparr>s_id = i, s_root = SText root, s_rel = SText rel, s_hash = SText h,
                       s_size = SInteger (uint (so_size obs)), s_modified = sql_opt (so_modified obs),
                       s_first = SInteger (so_observed obs), s_last = SInteger (so_observed obs), s_count = SInteger 1\<rparr>)
     | Some s \<Rightarrow> so = SourceUpdated \<and> lookup_source db' root rel =
                 Some (upsert_row h (uint (so_size obs)) (so_modified obs) (so_observed obs) s)"
    using u(3,4) by (auto split: option.splits)
qed

text \<open>
  C7 (refinement). A recorded import acts on the catalog as on two keyed tables: the blob of
  the imported hash is present, with its size and creation time kept if it was there, and
  no longer marked for deletion; the source identity points at it, keeping the first time it
  was seen and counting one more sight; no other entry of either table changes, and the
  constraints of the schema still hold. The outcome tells whether each entry is new.
\<close>

theorem record_imported_refines:
  assumes "db_ok db" "hash_ok (br_hash blob)"
    "record_imported_file_in_transaction db blob obs = Inr (db', bo, so)"
  shows "db_ok db' \<and> abs_db db' = spec_record blob obs (abs_db db)
    \<and> (bo = BlobInserted \<longleftrightarrow> abs_blobs db (as_str (br_hash blob)) = None)
    \<and> (so = SourceInserted \<longleftrightarrow> abs_sources db (so_root obs, rel_str (so_rel obs)) = None)"
proof -
  note l = record_imported_lookups[OF assms]
  have "abs_blobs db' x = spec_live_blob blob (abs_blobs db) x" for x
    using l(2)[of x] l(4)
    by (cases "x = as_str (br_hash blob)")
      (auto simp: abs_blobs_def spec_live_blob_def blob_cells_def split: option.splits)
  moreover have "abs_sources db' (a, b) = spec_seen obs (abs_sources db) (a, b)" for a b
    using l(3)[of a b] l(5) l(6)
    by (cases "(a, b) = (so_root obs, rel_str (so_rel obs))")
      (auto simp: abs_sources_def spec_seen_def source_cells_def upsert_row_def Let_def split: option.splits)
  ultimately have "abs_db db' = spec_record blob obs (abs_db db)"
    by (auto simp: abs_db_def spec_record_def fun_eq_iff)
  then show ?thesis using l(1,4,5) by (auto simp: abs_blobs_def abs_sources_def split: option.splits)
qed


text \<open>When a recording succeeds: the two halves agree and fit, and what is stored does not contradict them.\<close>

definition recordable :: "database \<Rightarrow> blob_record \<Rightarrow> source_observation \<Rightarrow> bool" where
  "recordable db blob obs \<longleftrightarrow>
     br_hash blob = so_hash obs \<and> br_size blob = so_size obs \<and> uint (br_size blob) \<le> i64_max \<and>
     source_checks (so_root obs) (rel_str (so_rel obs)) \<and>
     (case lookup_blob db (as_str (br_hash blob)) of None \<Rightarrow> True | Some b \<Rightarrow> b_size b = SInteger (uint (br_size blob))) \<and>
     (case lookup_source db (so_root obs) (rel_str (so_rel obs)) of None \<Rightarrow> True | Some s \<Rightarrow> s_count s \<noteq> SNull)"

lemma upsert_succeeds:
  assumes "db_ok db" "source_checks root rel" "lookup_blob db h \<noteq> None"
    "\<And>s. lookup_source db root rel = Some s \<Longrightarrow> s_count s \<noteq> SNull"
  shows "\<exists>db'. upsert_source_file_sql root rel h sz m t db = Inr (db', 1)"
proof -
  have "list_ex (\<lambda>b. sql_eq (b_hash b) (SText h)) (blobs db)"
    using assms(3) by (auto simp: lookup_blob_def find_None_ex)
  moreover have "\<not> list_ex (\<lambda>s. s_count s = SNull) (filter (source_matches root rel) (source_files db))"
    using assms(4) lookup_source_Some[OF assms(1)] by (auto simp: list_ex_iff)
  ultimately show ?thesis using assms(2) by (simp add: upsert_source_file_sql_def Let_def)
qed

lemma record_imported_succeeds:
  assumes "db_ok db" "hash_ok (br_hash blob)" "recordable db blob obs"
  shows "\<exists>db' bo so. record_imported_file_in_transaction db blob obs = Inr (db', bo, so)"
proof -
  let ?h = "as_str (br_hash blob)" and ?sz = "uint (br_size blob)"
  obtain db1 n1 where ins: "insert_blob_sql ?h ?sz (br_created blob) db = (db1, n1)" by fastforce
  note i = insert_blob_lookup[OF ins hash_ok_sql_length[OF assms(2)]]
  have ok1: "db_ok db1" using db_ok_insert_blob[OF assms(1), of ?h] ins by (metis fst_conv)
  obtain b where b: "lookup_blob db1 ?h = Some b" "b_size b = SInteger ?sz"
    using i(2,3) assms(3) by (cases "lookup_blob db ?h") (auto simp: recordable_def)
  obtain db2 n2 where res: "resurrect_blob_sql ?h ?sz db1 = (db2, n2)" by fastforce
  note r = resurrect_blob_lookup[OF ok1 res]
  have n2: "n2 = 1" using r(4) b by simp
  have "\<exists>db3. upsert_source_file_sql (so_root obs) (rel_str (so_rel obs)) ?h ?sz (so_modified obs) (so_observed obs) db2 = Inr (db3, 1)"
    using assms(3) r(1,2,5) i(1) b by (intro upsert_succeeds) (auto simp: recordable_def)
  then obtain db3 where up: "upsert_source_file_sql (so_root obs) (rel_str (so_rel obs)) ?h ?sz (so_modified obs) (so_observed obs) db2 = Inr (db3, 1)" by blast
  have sel: "select_blob_size_sql ?h db1 = Inr ?sz" using b by (simp add: select_blob_size_lookup)
  have eqs: "so_hash obs = br_hash blob" "so_size obs = br_size blob" "sqlite_u64 (br_size blob) = Inr ?sz"
    using assms(3) by (auto simp: recordable_def sqlite_u64_def)
  show ?thesis
    using ins res up by (simp add: record_imported_file_in_transaction_def validate_imported_record_def eqs sel n2)
qed

lemma find_only: "(\<And>x. x \<in> set xs \<Longrightarrow> x = y) \<Longrightarrow> y \<in> set xs \<Longrightarrow> find (\<lambda>_. True) xs = Some y"
proof (cases xs)
  case (Cons z zs)
  assume "\<And>x. x \<in> set xs \<Longrightarrow> x = y"
  from this[of z] have "z = y" by (simp only: Cons list.set_intros)
  then show ?thesis by (simp add: Cons)
qed simp

lemma select_known_lookup:
  assumes "db_ok db" "lookup_source db root rel = Some s" "s_hash s = SText h" "lookup_blob db h = Some b"
  shows "select_known_source_file_sql root rel db = Some (s, b)"
proof -
  let ?xs = "[(s, b). s \<leftarrow> source_files db, b \<leftarrow> blobs db, source_matches root rel s \<and> sql_eq (b_hash b) (s_hash s)]"
  have s: "s \<in> set (source_files db)" "source_matches root rel s"
    using assms(1,2) by (auto simp: lookup_source_Some)
  have b: "b \<in> set (blobs db)" "b_hash b = SText h" using assms(1,4) by (auto simp: lookup_blob_Some)
  have "x = (s, b)" if mem: "x \<in> set ?xs" for x
  proof -
    obtain s' b' where x: "x = (s', b')" "s' \<in> set (source_files db)" "b' \<in> set (blobs db)"
      "source_matches root rel s'" "sql_eq (b_hash b') (s_hash s')"
      using mem by (auto split: if_splits)
    have "s' = s" using source_row_unique[OF assms(1) x(2) s(1) x(4) s(2)] .
    moreover have "b' = b" using blob_row_unique[OF assms(1) x(3) b(1) _ b(2)] x(5) calculation assms(3) by simp
    ultimately show ?thesis using x(1) by simp
  qed
  moreover have "(s, b) \<in> set ?xs" using s b assms(3) by auto
  ultimately have "find (\<lambda>_. True) ?xs = Some (s, b)" by (intro find_only)
  then show ?thesis by (simp only: select_known_source_file_sql_def)
qed

lemma get_string_hash [simp]: "hash_ok h \<Longrightarrow> get_string (SText (as_str h)) = Inr (as_str h)"
  using hash_okD(2)[of h] by (simp add: get_string_def hex_valid_utf8)

lemma blob_hash_new_hash [simp]: "hash_ok h \<Longrightarrow> blob_hash_new (as_str h) = Inr h"
  by (simp add: blob_hash_new_def hash_ok_def)

lemma get_cells [simp]: "get_i64 (SInteger n) = Inr n" "get_opt_i64 (sql_opt m) = Inr m" "get_opt_i64 SNull = Inr None"
  by (simp_all add: get_i64_def get_opt_i64_def sql_opt_def split: option.splits)

text \<open>
  When the catalog's constraints hold and nothing stored contradicts it, an
  import can be recorded, and reading the source identity back gives exactly what was
  recorded: the hash, both sizes, the modification time, and a blob that is not marked.
\<close>

theorem record_then_known_source_file:
  assumes "db_ok db" "hash_ok (br_hash blob)" "recordable db blob obs"
  shows "\<exists>db' bo so. record_imported_file_in_transaction db blob obs = Inr (db', bo, so) \<and>
    known_source_file db' (so_root obs) (so_rel obs) =
      Inr (Some \<lparr>ks_hash = br_hash blob, ks_source_size = br_size blob, ks_modified = so_modified obs,
                 ks_blob_size = br_size blob, ks_deleted = None\<rparr>)"
proof -
  obtain db' bo so where r: "record_imported_file_in_transaction db blob obs = Inr (db', bo, so)"
    using record_imported_succeeds[OF assms] by blast
  note l = record_imported_lookups[OF assms(1,2) r]
  obtain b where b: "lookup_blob db' (as_str (br_hash blob)) = Some b"
    "b_size b = SInteger (uint (br_size blob))" "b_deleted b = SNull"
    using l(4) by (auto split: option.splits)
  obtain s where s: "lookup_source db' (so_root obs) (rel_str (so_rel obs)) = Some s"
    "s_hash s = SText (as_str (br_hash blob))" "s_size s = SInteger (uint (br_size blob))"
    "s_modified s = sql_opt (so_modified obs)"
    using l(5,7) by (auto simp: upsert_row_def split: option.splits)
  have "select_known_source_file_sql (so_root obs) (rel_str (so_rel obs)) db' = Some (s, b)"
    using select_known_lookup[OF l(1) s(1,2) b(1)] .
  then show ?thesis using r s b assms(2) by (simp add: known_source_file_def)
qed

text \<open>A small catalog on which the conditions hold.\<close>

definition empty_schema :: schema where
  "empty_schema = \<lparr>schema_objects = [], table_info = (\<lambda>_. []), foreign_key_list = (\<lambda>_. []),
     index_info = (\<lambda>_. []), index_list = (\<lambda>_. [])\<rparr>"

definition sample_db :: database where
  "sample_db = \<lparr>user_version = 1, journal_mode = ''wal'', integrity_messages = [''ok''], db_schema = empty_schema,
     blobs = [\<lparr>b_rowid = 1, b_hash = SText (as_str (sample_hash CHR ''a'')), b_size = SInteger 3,
               b_created = SInteger 10, b_deleted = SInteger 20\<rparr>],
     source_files = []\<rparr>"

definition sample_blob :: blob_record where
  "sample_blob = \<lparr>br_hash = sample_hash CHR ''a'', br_size = 3, br_created = 30\<rparr>"

definition sample_observation :: source_observation where
  "sample_observation = \<lparr>so_root = ''/src'', so_rel = SourceRelativePath ''x'', so_hash = sample_hash CHR ''a'',
     so_size = 3, so_modified = Some 5, so_observed = 40\<rparr>"

lemma sample_db_ok: "db_ok sample_db"
  by (simp add: sample_db_def db_ok_def key_hashes_def)

lemma sample_recordable: "hash_ok (br_hash sample_blob)" "recordable sample_db sample_blob sample_observation"
  by (simp_all add: sample_blob_def recordable_def sample_db_def sample_observation_def lookup_blob_def
      lookup_source_def source_checks_def sql_length_def is_cont_def i64_max_def)

theorem record_then_known_source_file_witness:
  "\<exists>db' bo so. record_imported_file_in_transaction sample_db sample_blob sample_observation = Inr (db', bo, so) \<and>
    known_source_file db' ''/src'' (SourceRelativePath ''x'') =
      Inr (Some \<lparr>ks_hash = sample_hash CHR ''a'', ks_source_size = 3, ks_modified = Some 5,
                 ks_blob_size = 3, ks_deleted = None\<rparr>)"
  using record_then_known_source_file[OF sample_db_ok sample_recordable]
  by (simp add: sample_blob_def sample_observation_def)


theorem record_imported_refines_witness:
  "\<exists>db' bo so. record_imported_file_in_transaction sample_db sample_blob sample_observation = Inr (db', bo, so)
    \<and> abs_db db' = spec_record sample_blob sample_observation (abs_db sample_db)"
  using record_imported_succeeds[OF sample_db_ok sample_recordable]
    record_imported_refines[OF sample_db_ok sample_recordable(1), of sample_observation] by blast


section \<open>Observing a known source\<close>

lemma observe_knownE:
  assumes "observe_known_source_file_in_transaction db obs expected = Inr db'"
  obtains db1 where "expected = so_size obs" "uint (so_size obs) \<le> i64_max"
    "observe_known_source_file_sql (so_root obs) (rel_str (so_rel obs)) (as_str (so_hash obs))
       (uint (so_size obs)) (so_modified obs) (so_observed obs) db = Inr (db1, 1)"
    "resurrect_blob_sql (as_str (so_hash obs)) (uint (so_size obs)) db1 = (db', 1)"
  using assms unfolding observe_known_source_file_in_transaction_def
  by (auto simp: bind_result_eq_Inr sqlite_u64_Inr Let_def split: prod.splits if_splits)

lemma observe_sql_lookup:
  assumes "db_ok db" "observe_known_source_file_sql root rel h sz m t db = Inr (db', 1)"
  shows "db_ok db'" "lookup_blob db' = lookup_blob db"
    "\<exists>s. lookup_source db root rel = Some s \<and> s_hash s = SText h \<and> s_size s = SInteger sz \<and> s_count s \<noteq> SNull
         \<and> lookup_source db' root rel = Some (observe_row m t s)"
    "(root', rel') \<noteq> (root, rel) \<Longrightarrow> lookup_source db' root' rel' = lookup_source db root' rel'"
proof -
  let ?p = "observed_matches root rel h sz"
  have st: "db' = db\<lparr>source_files := update_where ?p (observe_row m t) (source_files db)\<rparr>"
    "length (filter ?p (source_files db)) = 1" "\<not> list_ex (\<lambda>s. s_count s = SNull) (filter ?p (source_files db))"
    using assms(2) by (auto simp: observe_known_source_file_sql_def Let_def split: if_splits)
  have keep: "source_matches a b (observe_row m t r) = source_matches a b r" for a b r
    by (simp add: source_matches_def observe_row_def)
  show "db_ok db'" using db_ok_observe[OF assms] .
  show "lookup_blob db' = lookup_blob db" by (simp add: st fun_eq_iff)
  obtain s where s: "filter ?p (source_files db) = [s]" using st(2) by (auto simp: length_Suc_conv)
  then have "s \<in> set (source_files db)" "?p s" by (auto simp: filter_eq_Cons_iff)
  then have ls: "lookup_source db root rel = Some s" using lookup_source_Some[OF assms(1)]
    by (simp add: observed_matches_def)
  then show "\<exists>s. lookup_source db root rel = Some s \<and> s_hash s = SText h \<and> s_size s = SInteger sz \<and> s_count s \<noteq> SNull
         \<and> lookup_source db' root rel = Some (observe_row m t s)"
    using st(1,3) s \<open>?p s\<close> keep by (auto simp: lookup_source_def find_update_where observed_matches_def)
  have "\<And>r. source_matches root' rel' r \<Longrightarrow> \<not> ?p r" if "(root', rel') \<noteq> (root, rel)"
    using that by (auto simp: source_matches_def observed_matches_def)
  then show "lookup_source db' root' rel' = lookup_source db root' rel'" if "(root', rel') \<noteq> (root, rel)"
    using that keep by (auto simp: st(1) lookup_source_def intro!: find_update_elsewhere)
qed

lemma observe_known_lookups:
  assumes "db_ok db" "observe_known_source_file_in_transaction db obs expected = Inr db'"
  defines "h \<equiv> as_str (so_hash obs)" and "root \<equiv> so_root obs" and "rel \<equiv> rel_str (so_rel obs)"
  shows "db_ok db'"
    "\<And>h'. h' \<noteq> h \<Longrightarrow> lookup_blob db' h' = lookup_blob db h'"
    "\<And>a b. (a, b) \<noteq> (root, rel) \<Longrightarrow> lookup_source db' a b = lookup_source db a b"
    "\<exists>b. lookup_blob db h = Some b \<and> b_size b = SInteger (uint (so_size obs)) \<and>
         lookup_blob db' h = Some (b\<lparr>b_deleted := SNull\<rparr>)"
    "\<exists>s. lookup_source db root rel = Some s \<and> s_hash s = SText h \<and> s_size s = SInteger (uint (so_size obs))
         \<and> s_count s \<noteq> SNull \<and> lookup_source db' root rel = Some (observe_row (so_modified obs) (so_observed obs) s)"
    "uint (so_size obs) \<le> i64_max"
proof -
  obtain db1 where st: "uint (so_size obs) \<le> i64_max"
    and ob: "observe_known_source_file_sql root rel h (uint (so_size obs)) (so_modified obs) (so_observed obs) db = Inr (db1, 1)"
    and res: "resurrect_blob_sql h (uint (so_size obs)) db1 = (db', 1)"
    using observe_knownE[OF assms(2)] unfolding h_def root_def rel_def by metis
  note o = observe_sql_lookup[OF assms(1) ob]
  note r = resurrect_blob_lookup[OF o(1) res]
  show "db_ok db'" using r(1) .
  show "\<And>h'. h' \<noteq> h \<Longrightarrow> lookup_blob db' h' = lookup_blob db h'" using r(3) o(2) by simp
  show "\<And>a b. (a, b) \<noteq> (root, rel) \<Longrightarrow> lookup_source db' a b = lookup_source db a b" using r(2) o(4) by simp
  show "\<exists>b. lookup_blob db h = Some b \<and> b_size b = SInteger (uint (so_size obs)) \<and>
         lookup_blob db' h = Some (b\<lparr>b_deleted := SNull\<rparr>)"
    using r(4,5) o(2) by (auto split: option.splits if_splits)
  show "\<exists>s. lookup_source db root rel = Some s \<and> s_hash s = SText h \<and> s_size s = SInteger (uint (so_size obs))
         \<and> s_count s \<noteq> SNull \<and> lookup_source db' root rel = Some (observe_row (so_modified obs) (so_observed obs) s)"
    using o(3) r(2) by simp
  show "uint (so_size obs) \<le> i64_max" using st .
qed

text \<open>
  C34 (equivalence). The short cut for a source whose stored size and modification time still
  match is the full recording: whenever it succeeds, recording the same blob anew also succeeds,
  finds both entries present and leaves the same two tables.
\<close>

theorem observe_known_equals_record:
  assumes "db_ok db" "hash_ok (so_hash obs)" "source_checks (so_root obs) (rel_str (so_rel obs))"
    "observe_known_source_file_in_transaction db obs expected = Inr db'"
  shows "\<exists>db''. record_imported_file_in_transaction db
             \<lparr>br_hash = so_hash obs, br_size = so_size obs, br_created = so_observed obs\<rparr> obs
             = Inr (db'', BlobAlreadyPresent, SourceUpdated)
           \<and> abs_db db'' = abs_db db'"
proof -
  let ?blob = "\<lparr>br_hash = so_hash obs, br_size = so_size obs, br_created = so_observed obs\<rparr> :: blob_record"
  note o = observe_known_lookups[OF assms(1,4)]
  have "recordable db ?blob obs" using o(4,5,6) assms(3) by (auto simp: recordable_def)
  moreover have h: "hash_ok (br_hash ?blob)" using assms(2) by simp
  ultimately obtain db'' bo so where r: "record_imported_file_in_transaction db ?blob obs = Inr (db'', bo, so)"
    using record_imported_succeeds[OF assms(1)] by blast
  note l = record_imported_lookups[OF assms(1) h r]
  have "lookup_blob db'' x = lookup_blob db' x" for x
    using l(2)[of x] o(2)[of x] l(4) o(4) by (cases "x = as_str (so_hash obs)") auto
  moreover have "map_option source_cells (lookup_source db'' a b) = map_option source_cells (lookup_source db' a b)" for a b
    using l(3)[of a b] o(3)[of a b] l(5) o(5)
    by (cases "(a, b) = (so_root obs, rel_str (so_rel obs))")
      (auto simp: source_cells_def upsert_row_def observe_row_def)
  ultimately have "abs_db db'' = abs_db db'" by (simp add: abs_db_def abs_blobs_def abs_sources_def fun_eq_iff)
  then show ?thesis using r l(4,5) o(4,5) by auto
qed

definition sample_known_db :: database where
  "sample_known_db = sample_db\<lparr>source_files := [\<lparr>s_id = 7, s_root = SText ''/src'', s_rel = SText ''x'',
     s_hash = SText (as_str (sample_hash CHR ''a'')), s_size = SInteger 3, s_modified = SInteger 5,
     s_first = SInteger 11, s_last = SInteger 12, s_count = SInteger 2\<rparr>]\<rparr>"

lemma sample_known_db_ok: "db_ok sample_known_db"
  by (simp add: sample_known_db_def sample_db_def db_ok_def key_hashes_def)

lemma sample_observed:
  "\<exists>db'. observe_known_source_file_in_transaction sample_known_db sample_observation 3 = Inr db'"
  by (simp add: sample_known_db_def sample_db_def sample_observation_def observe_known_source_file_in_transaction_def
      sqlite_u64_def i64_max_def observe_known_source_file_sql_def observed_matches_def source_matches_def
      resurrect_blob_sql_def matching_def blob_matches_def)

theorem observe_known_equals_record_witness:
  "\<exists>db' db''. observe_known_source_file_in_transaction sample_known_db sample_observation 3 = Inr db' \<and>
     record_imported_file_in_transaction sample_known_db
       \<lparr>br_hash = sample_hash CHR ''a'', br_size = 3, br_created = 40\<rparr> sample_observation
       = Inr (db'', BlobAlreadyPresent, SourceUpdated) \<and> abs_db db'' = abs_db db'"
proof -
  obtain db' where d: "observe_known_source_file_in_transaction sample_known_db sample_observation 3 = Inr db'"
    using sample_observed by blast
  have h: "hash_ok (so_hash sample_observation)"
    "source_checks (so_root sample_observation) (rel_str (so_rel sample_observation))"
    by (simp_all add: sample_observation_def source_checks_def sql_length_def is_cont_def)
  show ?thesis
    using observe_known_equals_record[OF sample_known_db_ok h d] d by (auto simp: sample_observation_def)
qed

end
