(* ===== verification/Inspect.thy ===== *)
theory Inspect
  imports Catalog
begin

text \<open>
  \<open>inspect_catalog_connection\<close> and \<open>validate_schema\<close> of \<^verbatim>\<open>catalog.rs\<close>: the findings that a
  catalog's contents give, and the index of valid blobs that audit and garbage collection use.
\<close>

section \<open>Rendering\<close>

fun nat_digits :: "nat \<Rightarrow> string" where
  "nat_digits n = (if n < 10 then [char_of (48 + n)] else nat_digits (n div 10) @ [char_of (48 + n mod 10)])"

definition int_text :: "int \<Rightarrow> string" where
  "int_text n = (if n < 0 then CHR ''-'' # nat_digits (nat (- n)) else nat_digits (nat n))"

declare nat_digits.simps [simp del]

text \<open>\<open>str::chars\<close> as the list of encoded characters.\<close>

function chars :: "string \<Rightarrow> string list" where
  "chars s = (case utf8_step s of Inl _ \<Rightarrow> [] | Inr n \<Rightarrow> take n s # chars (drop n s))"
  by pat_completeness auto
termination
  by (relation "measure length") (auto dest!: utf8_step_bounds)

declare chars.simps [simp del]

definition bounded :: "string \<Rightarrow> string" where
  "bounded value = concat (take 256 (chars value))"

definition normalize_sql :: "string \<Rightarrow> string" where
  "normalize_sql sql = concat (filter (\<lambda>c. \<not> is_whitespace (scalar c)) (chars (map ascii_lower sql)))"

definition contains_text :: "string \<Rightarrow> string \<Rightarrow> bool" where
  "contains_text text needle \<longleftrightarrow> list_ex (\<lambda>s. prefix needle s) (suffixes text)"


section \<open>The schema\<close>

definition schema_finding :: "string \<Rightarrow> integrity_finding" where
  "schema_finding ident = finding_new ''CATALOG_INTEGRITY'' ident ''reason=schema-mismatch''"

definition expected_objects :: "(string \<times> string) list" where
  "expected_objects = [(''index'', ''idx_source_files_blob_hash''), (''table'', ''blobs''), (''table'', ''source_files'')]"

definition column :: "string \<Rightarrow> string \<Rightarrow> bool \<Rightarrow> int \<Rightarrow> column_shape" where
  "column n ty nn pk = \<lparr>col_name = n, declared_type = ty, not_null = nn, primary_key = pk\<rparr>"

definition expected_blobs :: "column_shape list" where
  "expected_blobs = [column ''hash'' ''TEXT'' False 1, column ''size_bytes'' ''INTEGER'' True 0,
     column ''created_at_ms'' ''INTEGER'' True 0, column ''deleted_at_ms'' ''INTEGER'' False 0]"

definition expected_sources :: "column_shape list" where
  "expected_sources = [column ''id'' ''INTEGER'' False 1, column ''source_root'' ''TEXT'' True 0,
     column ''relative_path'' ''TEXT'' True 0, column ''blob_hash'' ''TEXT'' True 0,
     column ''size_bytes'' ''INTEGER'' True 0, column ''modified_at_ms'' ''INTEGER'' False 0,
     column ''first_seen_at_ms'' ''INTEGER'' True 0, column ''last_seen_at_ms'' ''INTEGER'' True 0,
     column ''seen_count'' ''INTEGER'' True 0]"

definition validate_columns :: "schema \<Rightarrow> string \<Rightarrow> column_shape list \<Rightarrow> integrity_finding list" where
  "validate_columns sch table expected =
     (if table_info sch table \<noteq> expected then [schema_finding (table @ ''.columns'')] else [])"

text \<open>\<open>table_sql.get(name).map_or("", ..)\<close> after the inserts in row order: the last table of the name.\<close>

definition table_sql :: "schema \<Rightarrow> string \<Rightarrow> string" where
  "table_sql sch name =
     (case filter (\<lambda>(kind, n, _). kind = ''table'' \<and> n = name) (rev (schema_objects sch)) of
        [] \<Rightarrow> [] | (_, _, sql) # _ \<Rightarrow> (case sql of None \<Rightarrow> [] | Some t \<Rightarrow> t))"

definition validate_schema :: "schema \<Rightarrow> integrity_finding list" where
  "validate_schema sch =
     (let actual = dedup_by (=) (sort (map (\<lambda>(kind, name, _). (kind, name)) (schema_objects sch)));
          normalized_blobs = normalize_sql (table_sql sch ''blobs'');
          normalized_sources = normalize_sql (table_sql sch ''source_files'');
          indexes = index_list sch ''source_files'';
          has_required_index = list_ex (\<lambda>row. row = [''idx_source_files_blob_hash'', ''0'', ''c'']) indexes;
          has_unique_identity = list_ex (\<lambda>row. length row = 3 \<and> row ! 1 = ''1'' \<and> row ! 2 = ''u''
              \<and> index_info sch (row ! 0) = [[''source_root''], [''relative_path'']]) indexes
      in map (\<lambda>obj. schema_finding (snd obj)) (filter (\<lambda>obj. obj \<notin> set actual) expected_objects)
       @ map (\<lambda>obj. schema_finding (snd obj)) (filter (\<lambda>obj. obj \<notin> set expected_objects) actual)
       @ validate_columns sch ''blobs'' expected_blobs
       @ validate_columns sch ''source_files'' expected_sources
       @ (if \<not> contains_text normalized_blobs ''check(length(hash)=64)''
          then [schema_finding ''blobs.check.hash-length''] else [])
       @ (if \<not> contains_text normalized_sources ''check(length(source_root)>0)''
             \<or> \<not> contains_text normalized_sources ''length(relative_path)>0''
             \<or> \<not> contains_text normalized_sources (''substr(relative_path,1,1)!='' @ [CHR 0x27, CHR ''/''])
          then [schema_finding ''source_files.checks''] else [])
       @ (if foreign_key_list sch ''source_files'' \<noteq> [[''blobs'', ''blob_hash'', ''hash'', ''NO ACTION'', ''NO ACTION'']]
          then [schema_finding ''source_files.foreign-key''] else [])
       @ (if index_info sch ''idx_source_files_blob_hash'' \<noteq> [[''blob_hash'']]
          then [schema_finding ''idx_source_files_blob_hash.columns''] else [])
       @ (if \<not> has_required_index then [schema_finding ''idx_source_files_blob_hash''] else [])
       @ (if \<not> has_unique_identity then [schema_finding ''source_files.unique-identity''] else []))"


section \<open>Rows\<close>

definition cell_hash :: "sqlval \<Rightarrow> blob_hash option" where
  "cell_hash v = (case v of
     SText t \<Rightarrow> if valid_utf8 t then (case blob_hash_new t of Inr h \<Rightarrow> Some h | Inl _ \<Rightarrow> None) else None
   | _ \<Rightarrow> None)"

definition cell_size :: "sqlval \<Rightarrow> u64 option" where
  "cell_size v = (case v of SInteger n \<Rightarrow> if 0 \<le> n then Some (of_int n) else None | _ \<Rightarrow> None)"

definition cell_int :: "sqlval \<Rightarrow> int option" where
  "cell_int v = (case v of SInteger n \<Rightarrow> Some n | _ \<Rightarrow> None)"

definition reason :: "bool \<Rightarrow> string \<Rightarrow> string list" where
  "reason bad r = (if bad then [r] else [])"

definition reasons_text :: "string list \<Rightarrow> string" where
  "reasons_text rs = ''reason='' @ join_with CHR '','' rs"

text \<open>
  A row of \<^verbatim>\<open>audit_blobs.sql\<close>: a blob row and its computed reachability, which is always 0 or 1.
\<close>

definition reach_row :: "database \<Rightarrow> blob_row \<Rightarrow> blob_row \<times> sqlval" where
  "reach_row db b = (b, SInteger (if referenced_in db (b_hash b) then 1 else 0))"

definition select_blobs_sql :: "database \<Rightarrow> (blob_row \<times> sqlval) list" where
  "select_blobs_sql db =
     map (reach_row db) (sort_key (\<lambda>b. (sql_order (b_hash b), b_rowid b)) (blobs db))"

definition select_sources_sql :: "database \<Rightarrow> source_row list" where
  "select_sources_sql db = sort_key s_id (source_files db)"

definition blob_reasons :: "blob_row \<times> sqlval \<Rightarrow> string list" where
  "blob_reasons = (\<lambda>(b, reach).
       reason (cell_hash (b_hash b) = None) ''invalid-hash''
     @ reason (cell_size (b_size b) = None) ''invalid-size''
     @ reason (cell_int (b_created b) = None) ''invalid-created-at''
     @ reason (b_deleted b \<noteq> SNull \<and> cell_int (b_deleted b) = None) ''invalid-deleted-at''
     @ reason (reach \<notin> {SInteger 0, SInteger 1}) ''invalid-reachability'')"

definition catalog_blob_of :: "blob_row \<times> sqlval \<Rightarrow> (blob_hash \<times> catalog_blob) option" where
  "catalog_blob_of = (\<lambda>(b, reach).
     case (cell_hash (b_hash b), cell_size (b_size b)) of
       (Some h, Some sz) \<Rightarrow>
         Some (h, \<lparr>cb_hash = h, cb_size = sz, marked_at_ms = cell_int (b_deleted b), referenced = (reach = SInteger 1)\<rparr>)
     | _ \<Rightarrow> None)"

record inspect_state =
  is_rows :: u64
  is_gc :: u64
  is_valid :: "(blob_hash \<times> catalog_blob) list"
  is_findings :: "integrity_finding list"

definition inspect_blob_row :: "inspect_state \<Rightarrow> blob_row \<times> sqlval \<Rightarrow> inspect_state result" where
  "inspect_blob_row st row =
     bind_result (add_or_fail (is_rows st) 1) (\<lambda>rows_seen.
     bind_result (if cell_int (b_deleted (fst row)) \<noteq> None then add_or_fail (is_gc st) 1 else Inr (is_gc st)) (\<lambda>gc.
     let st1 = st\<lparr>is_rows := rows_seen, is_gc := gc\<rparr>; reasons = blob_reasons row
     in Inr (if reasons = []
             then (case catalog_blob_of row of
                     Some (h, cb) \<Rightarrow> st1\<lparr>is_valid := AList.update h cb (is_valid st1)\<rparr>
                   | None \<Rightarrow> st1)
             else st1\<lparr>is_findings := push_finding (is_findings st1)
                        (finding_new ''INVALID_BLOB_ROW'' (int_text (b_rowid (fst row))) (reasons_text reasons))\<rparr>)))"

definition source_reasons :: "(blob_hash \<times> catalog_blob) list \<Rightarrow> source_row \<Rightarrow> string list" where
  "source_reasons valid s =
     (let blob = cell_hash (s_hash s); sz = cell_size (s_size s);
          first = cell_int (s_first s); last = cell_int (s_last s)
      in reason (case s_root s of SText t \<Rightarrow> t = [] | _ \<Rightarrow> True) ''invalid-source-root''
       @ reason (case s_rel s of SText t \<Rightarrow> \<not> (valid_utf8 t \<and> is_ok (from_catalog_text t)) | _ \<Rightarrow> True)
           ''invalid-relative-path''
       @ reason (blob = None) ''invalid-blob-hash''
       @ reason (sz = None) ''invalid-size''
       @ reason (s_modified s \<noteq> SNull \<and> cell_int (s_modified s) = None) ''invalid-modified-at''
       @ reason (first = None) ''invalid-first-seen''
       @ reason (last = None) ''invalid-last-seen''
       @ reason (case (first, last) of (Some a, Some b) \<Rightarrow> a > b | _ \<Rightarrow> False) ''reversed-seen-times''
       @ reason (case cell_int (s_count s) of Some n \<Rightarrow> n \<le> 0 | None \<Rightarrow> True) ''invalid-seen-count''
       @ (case (blob, sz) of
            (Some h, Some src_size) \<Rightarrow>
              (case map_of valid h of
                 Some b \<Rightarrow> reason (cb_size b \<noteq> src_size) ''blob-size-disagreement''
               | None \<Rightarrow> [''missing-valid-blob''])
          | _ \<Rightarrow> []))"

definition inspect_source_row :: "(blob_hash \<times> catalog_blob) list \<Rightarrow> source_row \<Rightarrow> integrity_finding list" where
  "inspect_source_row valid s =
     (let reasons = source_reasons valid s
      in if reasons = [] then []
         else [finding_new ''INVALID_SOURCE_ROW'' (int_text (s_id s)) (reasons_text reasons)])"

text \<open>\<open>PRAGMA foreign_key_check\<close> for the one foreign key of the schema.\<close>

definition foreign_key_check :: "database \<Rightarrow> (string \<times> int option \<times> string \<times> int) list" where
  "foreign_key_check db =
     map (\<lambda>s. (''source_files'', Some (s_id s), ''blobs'', 0))
       (filter (\<lambda>s. s_hash s \<noteq> SNull \<and> \<not> list_ex (\<lambda>b. sql_eq (b_hash b) (s_hash s)) (blobs db)) (source_files db))"

definition integrity_findings :: "database \<Rightarrow> integrity_finding list" where
  "integrity_findings db =
     map (\<lambda>m. finding_new ''CATALOG_INTEGRITY'' ''integrity_check'' (''reason=integrity-check detail='' @ bounded m))
       (filter (\<lambda>m. m \<noteq> ''ok'') (integrity_messages db))
     @ map (\<lambda>(table, rowid, parent, fk). finding_new ''CATALOG_INTEGRITY''
           (table @ '':'' @ (case rowid of None \<Rightarrow> ''null'' | Some v \<Rightarrow> int_text v))
           (''reason=foreign-key parent='' @ parent @ '' fk='' @ int_text fk))
       (foreign_key_check db)"

definition inspect_catalog_connection :: "database \<Rightarrow> catalog_audit_snapshot result" where
  "inspect_catalog_connection db =
     bind_result (fold_result inspect_blob_row
         \<lparr>is_rows = 0, is_gc = 0, is_valid = [],
          is_findings = integrity_findings db @ validate_schema (db_schema db)\<rparr>
         (select_blobs_sql db)) (\<lambda>st.
     Inr \<lparr>blob_rows_seen = is_rows st, gc_candidates = is_gc st, valid_blobs = is_valid st,
          snap_findings = is_findings st @ concat (map (inspect_source_row (is_valid st)) (select_sources_sql db))\<rparr>)"

definition inspect_catalog_for_audit :: "database \<Rightarrow> catalog_audit_snapshot result" where
  "inspect_catalog_for_audit db =
     bind_result (require_current_schema db) (\<lambda>_. inspect_catalog_connection db)"



section \<open>What an inspection finds\<close>

definition row_finding :: "blob_row \<times> sqlval \<Rightarrow> integrity_finding list" where
  "row_finding row = (if blob_reasons row = [] then []
     else [finding_new ''INVALID_BLOB_ROW'' (int_text (b_rowid (fst row))) (reasons_text (blob_reasons row))])"

definition row_entry :: "blob_row \<times> sqlval \<Rightarrow> (blob_hash \<times> catalog_blob) option" where
  "row_entry row = (if blob_reasons row = [] then catalog_blob_of row else None)"

lemma inspect_blob_row_Inr:
  assumes "inspect_blob_row st row = Inr st'"
  shows "unat (is_rows st') = unat (is_rows st) + 1"
    "unat (is_gc st') = unat (is_gc st) + (if cell_int (b_deleted (fst row)) \<noteq> None then 1 else 0)"
    "is_findings st' = is_findings st @ row_finding row"
    "is_valid st' = (case row_entry row of Some (h, cb) \<Rightarrow> AList.update h cb (is_valid st) | None \<Rightarrow> is_valid st)"
proof -
  obtain n g where n: "add_or_fail (is_rows st) 1 = Inr n"
    and g: "(if cell_int (b_deleted (fst row)) \<noteq> None then add_or_fail (is_gc st) 1 else Inr (is_gc st)) = Inr g"
    using assms unfolding inspect_blob_row_def by (blast elim: bind_result_InrE)
  have st': "st' = (if blob_reasons row = []
       then (case catalog_blob_of row of
               Some (h, cb) \<Rightarrow> st\<lparr>is_rows := n, is_gc := g, is_valid := AList.update h cb (is_valid st)\<rparr>
             | None \<Rightarrow> st\<lparr>is_rows := n, is_gc := g\<rparr>)
       else st\<lparr>is_rows := n, is_gc := g, is_findings := is_findings st @ row_finding row\<rparr>)"
    using assms unfolding inspect_blob_row_def n g
    by (cases "blob_reasons row = []"; cases "catalog_blob_of row")
      (auto simp: Let_def push_finding_def row_finding_def)
  have f: "is_rows st' = n" "is_gc st' = g" "is_findings st' = is_findings st @ row_finding row"
    "is_valid st' = (case row_entry row of Some (h, cb) \<Rightarrow> AList.update h cb (is_valid st) | None \<Rightarrow> is_valid st)"
    unfolding st' by (auto simp: row_finding_def row_entry_def split: option.splits)
  show "unat (is_rows st') = unat (is_rows st) + 1" using f(1) add_or_fail_unat[OF n] by simp
  show "unat (is_gc st') = unat (is_gc st) + (if cell_int (b_deleted (fst row)) \<noteq> None then 1 else 0)"
    using f(2) g add_or_fail_unat[of "is_gc st" 1 g] by (auto split: if_splits)
  show "is_findings st' = is_findings st @ row_finding row"
    "is_valid st' = (case row_entry row of Some (h, cb) \<Rightarrow> AList.update h cb (is_valid st) | None \<Rightarrow> is_valid st)"
    using f(3,4) by blast+
qed

lemma inspect_rows_findings:
  "fold_result inspect_blob_row st rows = Inr st' \<Longrightarrow>
     is_findings st' = is_findings st @ concat (map row_finding rows) \<and>
     unat (is_rows st') = unat (is_rows st) + length rows \<and>
     unat (is_gc st') = unat (is_gc st) + length (filter (\<lambda>row. cell_int (b_deleted (fst row)) \<noteq> None) rows)"
proof (induction rows arbitrary: st)
  case (Cons row rows)
  then obtain st1 where st1: "inspect_blob_row st row = Inr st1" "fold_result inspect_blob_row st1 rows = Inr st'"
    by (auto elim: bind_result_InrE)
  show ?case using Cons.IH[OF st1(2)] inspect_blob_row_Inr(1-3)[OF st1(1)] by simp
qed auto

lemma inspect_rows_total:
  "unat (is_rows st) + length rows < 2 ^ 64 \<Longrightarrow> unat (is_gc st) + length rows < 2 ^ 64 \<Longrightarrow>
   \<exists>st'. fold_result inspect_blob_row st rows = Inr st'"
proof (induction rows arbitrary: st)
  case (Cons row rows)
  have "\<exists>st1. inspect_blob_row st row = Inr st1"
    using Cons.prems by (auto simp: inspect_blob_row_def Let_def add_or_fail_Inr bind_result_eq_Inr)
  then obtain st1 where st1: "inspect_blob_row st row = Inr st1" ..
  then show ?case
    using Cons.IH[of st1] Cons.prems inspect_blob_row_Inr(1,2)[OF st1] by (auto split: if_splits)
qed auto

lemma update_append_noop: "h \<notin> fst ` set xs \<Longrightarrow> AList.update h v xs = xs @ [(h, v)]"
  by (induction xs) auto

lemma inspect_rows_valid:
  assumes "fold_result inspect_blob_row st rows = Inr st'"
    "distinct (map fst (is_valid st))"
    "distinct (map fst (List.map_filter row_entry rows))"
    "fst ` set (is_valid st) \<inter> fst ` set (List.map_filter row_entry rows) = {}"
  shows "distinct (map fst (is_valid st')) \<and> set (is_valid st') = set (is_valid st) \<union> set (List.map_filter row_entry rows)"
  using assms
proof (induction rows arbitrary: st)
  case Nil
  then show ?case by (simp add: List.map_filter_def)
next
  case (Cons row rows)
  obtain st1 where st1: "inspect_blob_row st row = Inr st1" "fold_result inspect_blob_row st1 rows = Inr st'"
    using Cons.prems(1) by (auto elim: bind_result_InrE)
  show ?case
  proof (cases "row_entry row")
    case None
    then have "is_valid st1 = is_valid st" using inspect_blob_row_Inr(4)[OF st1(1)] by simp
    then show ?thesis using Cons.IH[OF st1(2)] Cons.prems None by (simp add: map_filter_simps)
  next
    case (Some e)
    obtain h cb where e: "e = (h, cb)" by (cases e)
    have fresh: "h \<notin> fst ` set (is_valid st)" using Cons.prems(4) Some e by (auto simp: map_filter_simps)
    have v: "is_valid st1 = is_valid st @ [(h, cb)]"
      using inspect_blob_row_Inr(4)[OF st1(1)] Some e update_append_noop[OF fresh] by simp
    show ?thesis using Cons.IH[OF st1(2)] Cons.prems Some e v fresh
      by (auto simp: map_filter_simps)
  qed
qed



section \<open>Consistent catalogs\<close>

text \<open>
  The declarative reading of a clean inspection: SQLite reports no damage, the schema is the
  program's, every cell has the class and range the program writes, times do not run
  backwards, and every source row names a blob row of its own size.
\<close>

definition blob_row_ok :: "blob_row \<Rightarrow> bool" where
  "blob_row_ok b \<longleftrightarrow> cell_hash (b_hash b) \<noteq> None \<and> cell_size (b_size b) \<noteq> None \<and> cell_int (b_created b) \<noteq> None
     \<and> (b_deleted b = SNull \<or> cell_int (b_deleted b) \<noteq> None)"

definition source_cells_ok :: "source_row \<Rightarrow> bool" where
  "source_cells_ok s \<longleftrightarrow>
     (case s_root s of SText t \<Rightarrow> t \<noteq> [] | _ \<Rightarrow> False) \<and>
     (case s_rel s of SText t \<Rightarrow> valid_utf8 t \<and> is_ok (from_catalog_text t) | _ \<Rightarrow> False) \<and>
     cell_hash (s_hash s) \<noteq> None \<and> cell_size (s_size s) \<noteq> None \<and>
     (s_modified s = SNull \<or> cell_int (s_modified s) \<noteq> None) \<and>
     (case (cell_int (s_first s), cell_int (s_last s)) of (Some a, Some b) \<Rightarrow> a \<le> b | _ \<Rightarrow> False) \<and>
     (case cell_int (s_count s) of Some n \<Rightarrow> 0 < n | None \<Rightarrow> False)"

definition has_blob_row :: "database \<Rightarrow> source_row \<Rightarrow> bool" where
  "has_blob_row db s \<longleftrightarrow> list_ex (\<lambda>b. b_hash b = s_hash s \<and> b_size b = s_size s) (blobs db)"

definition rows_consistent :: "database \<Rightarrow> bool" where
  "rows_consistent db \<longleftrightarrow> list_all blob_row_ok (blobs db) \<and>
     list_all (\<lambda>s. source_cells_ok s \<and> has_blob_row db s) (source_files db)"

definition catalog_consistent :: "database \<Rightarrow> bool" where
  "catalog_consistent db \<longleftrightarrow> list_all (\<lambda>m. m = ''ok'') (integrity_messages db) \<and>
     validate_schema (db_schema db) = [] \<and> rows_consistent db"

text \<open>SQLite integers have 64 bits; only sizes are compared after the conversion to \<open>u64\<close>.\<close>

definition fits_i64 :: "sqlval \<Rightarrow> bool" where
  "fits_i64 v = (case v of SInteger n \<Rightarrow> i64_range n | _ \<Rightarrow> True)"

definition sizes_fit :: "database \<Rightarrow> bool" where
  "sizes_fit db \<longleftrightarrow> list_all (\<lambda>b. fits_i64 (b_size b)) (blobs db) \<and> list_all (\<lambda>s. fits_i64 (s_size s)) (source_files db)"

lemma reason_Nil [simp]: "reason bad r = [] \<longleftrightarrow> \<not> bad"
  by (simp add: reason_def)

lemma cell_hash_Some: "cell_hash v = Some h \<longleftrightarrow> v = SText (as_str h) \<and> hash_ok h"
  by (cases h) (auto simp: cell_hash_def blob_hash_new_def hash_ok_def hex_valid_utf8
      split: sqlval.splits sum.splits if_splits)

lemma cell_int_Some: "cell_int v = Some n \<longleftrightarrow> v = SInteger n"
  by (auto simp: cell_int_def split: sqlval.splits)

lemma cell_size_Some: "fits_i64 v \<Longrightarrow> cell_size v = Some u \<longleftrightarrow> v = SInteger (uint u) \<and> uint u \<le> i64_max"
  by (auto simp: cell_size_def fits_i64_def i64_range_def i64_max_def uint_word_of_int_eq take_bit_int_eq_self
      split: sqlval.splits if_splits)

lemma blob_reasons_Nil: "blob_reasons (reach_row db b) = [] \<longleftrightarrow> blob_row_ok b"
  by (auto simp: blob_reasons_def blob_row_ok_def reach_row_def)

lemma row_entry_Some:
  "row_entry (reach_row db b) = Some (h, cb) \<longleftrightarrow>
     blob_row_ok b \<and> cell_hash (b_hash b) = Some h \<and>
     (\<exists>u. cell_size (b_size b) = Some u \<and>
        cb = \<lparr>cb_hash = h, cb_size = u, marked_at_ms = cell_int (b_deleted b), referenced = referenced_in db (b_hash b)\<rparr>)"
  by (auto simp: row_entry_def blob_reasons_Nil)
    (auto simp: catalog_blob_of_def blob_row_ok_def reach_row_def split: option.splits if_splits)

text \<open>The entry an inspection indexes under a hash.\<close>

definition blob_entry :: "database \<Rightarrow> blob_hash \<Rightarrow> catalog_blob option" where
  "blob_entry db h =
     (case lookup_blob db (as_str h) of
        None \<Rightarrow> None
      | Some b \<Rightarrow> if blob_row_ok b
                  then map_option (\<lambda>u. \<lparr>cb_hash = h, cb_size = u, marked_at_ms = cell_int (b_deleted b),
                         referenced = referenced_in db (b_hash b)\<rparr>) (cell_size (b_size b))
                  else None)"

lemma blob_entry_Some:
  assumes "db_ok db"
  shows "(\<exists>row\<in>set (select_blobs_sql db). row_entry row = Some (h, cb)) \<longleftrightarrow> hash_ok h \<and> blob_entry db h = Some cb"
proof -
  have "(\<exists>row\<in>set (select_blobs_sql db). row_entry row = Some (h, cb)) \<longleftrightarrow>
     (\<exists>b. lookup_blob db (as_str h) = Some b \<and> blob_row_ok b \<and> hash_ok h \<and>
        (\<exists>u. cell_size (b_size b) = Some u \<and>
        cb = \<lparr>cb_hash = h, cb_size = u, marked_at_ms = cell_int (b_deleted b), referenced = referenced_in db (b_hash b)\<rparr>))"
    by (auto simp: select_blobs_sql_def row_entry_Some cell_hash_Some lookup_blob_Some[OF assms])
  also have "\<dots> \<longleftrightarrow> hash_ok h \<and> blob_entry db h = Some cb"
    unfolding blob_entry_def by (cases "lookup_blob db (as_str h)") auto
  finally show ?thesis .
qed


lemma set_map_filter: "set (List.map_filter f xs) = {y. \<exists>x\<in>set xs. f x = Some y}"
  by (induction xs) (auto simp: map_filter_simps split: option.splits)

lemma distinct_row_entries:
  assumes "db_ok db"
  shows "distinct (map fst (List.map_filter row_entry (select_blobs_sql db)))"
proof -
  let ?bs = "sort_key (\<lambda>b. (sql_order (b_hash b), b_rowid b)) (blobs db)"
  have "distinct (map fst (List.map_filter row_entry (map (reach_row db) bs)))"
    if "distinct bs" "set bs \<subseteq> set (blobs db)" for bs
    using that
  proof (induction bs)
    case (Cons b bs)
    have "cell_hash (b_hash b') \<noteq> Some h" if "cell_hash (b_hash b) = Some h" "b' \<in> set bs" for h b'
      using that Cons.prems blob_row_unique[OF assms, of b b' "as_str h"] by (auto simp: cell_hash_Some)
    then show ?case using Cons
      by (auto simp: map_filter_simps set_map_filter row_entry_Some split: option.splits)
  qed (simp add: map_filter_simps)
  from this[of ?bs] show ?thesis using distinct_blobs[OF assms] by (simp add: select_blobs_sql_def)
qed

lemma option_eqI: "(\<And>v. a = Some v \<longleftrightarrow> b = Some v) \<Longrightarrow> a = b"
  by (metis not_None_eq)

lemma map_of_set_eq:
  assumes "distinct (map fst xs)"
  shows "map_of xs k = Some v \<longleftrightarrow> (k, v) \<in> set xs"
  using assms by simp

text \<open>The whole inspection: it always returns, counts every row and indexes every valid blob.\<close>

lemma inspect_catalog_spec:
  assumes "db_ok db" "length (blobs db) < 2 ^ 64"
  obtains snap where "inspect_catalog_connection db = Inr snap"
    "unat (blob_rows_seen snap) = length (blobs db)"
    "distinct (map fst (valid_blobs snap))"
    "\<And>h. map_of (valid_blobs snap) h = (if hash_ok h then blob_entry db h else None)"
    "snap_findings snap = integrity_findings db @ validate_schema (db_schema db)
       @ concat (map row_finding (select_blobs_sql db))
       @ concat (map (inspect_source_row (valid_blobs snap)) (select_sources_sql db))"
proof -
  let ?st = "\<lparr>is_rows = 0, is_gc = 0, is_valid = [],
          is_findings = integrity_findings db @ validate_schema (db_schema db)\<rparr> :: inspect_state"
  have len: "length (select_blobs_sql db) = length (blobs db)" by (simp add: select_blobs_sql_def)
  obtain st where st: "fold_result inspect_blob_row ?st (select_blobs_sql db) = Inr st"
    using inspect_rows_total[of ?st "select_blobs_sql db"] assms(2) len by auto
  note f = inspect_rows_findings[OF st]
  have v: "distinct (map fst (is_valid st))" "set (is_valid st) = set (List.map_filter row_entry (select_blobs_sql db))"
    using inspect_rows_valid[OF st] distinct_row_entries[OF assms(1)] by auto
  have m: "map_of (is_valid st) h = (if hash_ok h then blob_entry db h else None)" for h
  proof (rule option_eqI)
    fix cb
    have "map_of (is_valid st) h = Some cb \<longleftrightarrow> (h, cb) \<in> set (is_valid st)" using v(1) by (rule map_of_set_eq)
    also have "\<dots> \<longleftrightarrow> hash_ok h \<and> blob_entry db h = Some cb"
      unfolding v(2) set_map_filter using blob_entry_Some[OF assms(1), of h cb] by simp
    finally show "map_of (is_valid st) h = Some cb \<longleftrightarrow> (if hash_ok h then blob_entry db h else None) = Some cb"
      by simp
  qed
  show ?thesis
    by (rule that[of "\<lparr>blob_rows_seen = is_rows st, gc_candidates = is_gc st, valid_blobs = is_valid st,
          snap_findings = is_findings st @ concat (map (inspect_source_row (is_valid st)) (select_sources_sql db))\<rparr>"])
      (simp_all add: inspect_catalog_connection_def st f v m len)
qed


lemma integrity_findings_Nil:
  "integrity_findings db = [] \<longleftrightarrow>
     list_all (\<lambda>m. m = ''ok'') (integrity_messages db) \<and> foreign_key_check db = []"
  by (auto simp: integrity_findings_def list_all_iff filter_empty_conv)

lemma row_findings_Nil:
  "concat (map row_finding (select_blobs_sql db)) = [] \<longleftrightarrow> list_all blob_row_ok (blobs db)"
  by (auto simp: select_blobs_sql_def row_finding_def blob_reasons_Nil list_all_iff)

lemma source_reasons_Nil:
  "source_reasons valid s = [] \<longleftrightarrow> source_cells_ok s \<and>
     (\<exists>h u cb. cell_hash (s_hash s) = Some h \<and> cell_size (s_size s) = Some u \<and> map_of valid h = Some cb \<and> cb_size cb = u)"
  by (auto simp: source_reasons_def source_cells_ok_def Let_def split: option.splits sqlval.splits)

lemma source_findings_Nil:
  "concat (map (inspect_source_row valid) (select_sources_sql db)) = [] \<longleftrightarrow>
     list_all (\<lambda>s. source_reasons valid s = []) (source_files db)"
  by (auto simp: inspect_source_row_def Let_def select_sources_sql_def list_all_iff)

lemma has_blob_row_entry:
  assumes "db_ok db" "sizes_fit db" "list_all blob_row_ok (blobs db)" "s \<in> set (source_files db)"
    "cell_hash (s_hash s) = Some h" "cell_size (s_size s) = Some u"
  shows "has_blob_row db s \<longleftrightarrow> (\<exists>cb. blob_entry db h = Some cb \<and> cb_size cb = u)"
proof -
  have h: "s_hash s = SText (as_str h)" using assms(5) by (simp add: cell_hash_Some)
  have u: "s_size s = SInteger (uint u)" "uint u \<le> i64_max"
    using assms(2,4,6) cell_size_Some by (auto simp: sizes_fit_def list_all_iff)
  have "has_blob_row db s \<longleftrightarrow> (\<exists>b. lookup_blob db (as_str h) = Some b \<and> b_size b = SInteger (uint u))"
    using lookup_blob_Some[OF assms(1)] by (auto simp: has_blob_row_def list_ex_iff h u)
  also have "\<dots> \<longleftrightarrow> (\<exists>b. lookup_blob db (as_str h) = Some b \<and> blob_row_ok b \<and> cell_size (b_size b) = Some u)"
  proof -
    have "b_size b = SInteger (uint u) \<longleftrightarrow> blob_row_ok b \<and> cell_size (b_size b) = Some u"
      if "lookup_blob db (as_str h) = Some b" for b
      using that lookup_blob_Some[OF assms(1), of "as_str h" b] assms(2,3) cell_size_Some[of "b_size b" u] u(2)
      by (auto simp: sizes_fit_def list_all_iff)
    then show ?thesis by blast
  qed
  also have "\<dots> \<longleftrightarrow> (\<exists>cb. blob_entry db h = Some cb \<and> cb_size cb = u)"
    by (auto simp: blob_entry_def split: option.splits)
  finally show ?thesis .
qed

lemma inspection_consistent:
  assumes "db_ok db" "sizes_fit db" "length (blobs db) < 2 ^ 64"
  shows "\<exists>snap. inspect_catalog_connection db = Inr snap
    \<and> (snap_findings snap = [] \<longleftrightarrow> catalog_consistent db)
    \<and> (\<forall>h. map_of (valid_blobs snap) h = (if hash_ok h then blob_entry db h else None))
    \<and> distinct (map fst (valid_blobs snap)) \<and> unat (blob_rows_seen snap) = length (blobs db)"
proof -
  obtain snap where snap: "inspect_catalog_connection db = Inr snap"
    "unat (blob_rows_seen snap) = length (blobs db)" "distinct (map fst (valid_blobs snap))"
    and m: "\<And>h. map_of (valid_blobs snap) h = (if hash_ok h then blob_entry db h else None)"
    and f: "snap_findings snap = integrity_findings db @ validate_schema (db_schema db)
       @ concat (map row_finding (select_blobs_sql db))
       @ concat (map (inspect_source_row (valid_blobs snap)) (select_sources_sql db))"
    using inspect_catalog_spec[OF assms(1,3)] by blast
  have src: "source_reasons (valid_blobs snap) s = [] \<longleftrightarrow> source_cells_ok s \<and> has_blob_row db s"
    if "list_all blob_row_ok (blobs db)" "s \<in> set (source_files db)" for s
    using has_blob_row_entry[OF assms(1,2) that] unfolding source_reasons_Nil m
    by (auto simp: source_cells_ok_def cell_hash_Some)
  have fk: "foreign_key_check db = []" if "rows_consistent db"
    using that by (force simp: rows_consistent_def foreign_key_check_def filter_empty_conv list_all_iff
        has_blob_row_def list_ex_iff source_cells_ok_def cell_hash_Some)
  have "snap_findings snap = [] \<longleftrightarrow> catalog_consistent db"
    using src fk unfolding f append_is_Nil_conv integrity_findings_Nil row_findings_Nil source_findings_Nil
      catalog_consistent_def rows_consistent_def by (auto simp: list_all_iff)
  then show ?thesis using snap m by blast
qed

text \<open>
  C10 (functional). An inspection returns for every catalog of fewer than \<open>2 ^ 64\<close> blob rows, and
  reports no finding exactly when the catalog is consistent. It indexes exactly the blobs whose
  rows are well formed, each with its size, its mark and whether a source row refers to it.
\<close>

theorem inspection_clean_iff_consistent:
  assumes "db_ok db" "sizes_fit db" "length (blobs db) < 2 ^ 64"
  shows "\<exists>snap. inspect_catalog_connection db = Inr snap
    \<and> (snap_findings snap = [] \<longleftrightarrow> catalog_consistent db)
    \<and> (\<forall>h. map_of (valid_blobs snap) h = (if hash_ok h then blob_entry db h else None))
    \<and> distinct (map fst (valid_blobs snap)) \<and> unat (blob_rows_seen snap) = length (blobs db)"
  by (rule inspection_consistent[OF assms])


section \<open>Recording an import keeps a catalog consistent\<close>

definition is_text :: "sqlval \<Rightarrow> bool" where
  "is_text v = (case v of SText _ \<Rightarrow> True | _ \<Rightarrow> False)"

lemma is_text_iff: "is_text v \<longleftrightarrow> (\<exists>t. v = SText t)"
  by (auto simp: is_text_def split: sqlval.splits)

lemma is_text_SText [simp]: "is_text (SText t)"
  by (simp add: is_text_def)

definition text_keys :: "database \<Rightarrow> bool" where
  "text_keys db \<longleftrightarrow> list_all (\<lambda>b. is_text (b_hash b)) (blobs db) \<and>
     list_all (\<lambda>s. is_text (s_root s) \<and> is_text (s_rel s)) (source_files db)"

lemma text_keysD:
  assumes "text_keys db"
  shows "b \<in> set (blobs db) \<Longrightarrow> \<exists>t. b_hash b = SText t"
    "s \<in> set (source_files db) \<Longrightarrow> \<exists>r p. s_root s = SText r \<and> s_rel s = SText p"
  using assms by (auto simp: text_keys_def list_all_iff is_text_iff)

lemma source_cells_text: "source_cells_ok s \<Longrightarrow> is_text (s_root s) \<and> is_text (s_rel s)"
  by (auto simp: source_cells_ok_def is_text_def split: sqlval.splits)

lemma blob_row_text: "blob_row_ok b \<Longrightarrow> is_text (b_hash b)"
  by (auto simp: blob_row_ok_def cell_hash_Some)

lemma rows_consistent_lookup:
  assumes "db_ok db"
  shows "rows_consistent db \<longleftrightarrow> text_keys db \<and> (\<forall>h b. lookup_blob db h = Some b \<longrightarrow> blob_row_ok b) \<and>
    (\<forall>r p s. lookup_source db r p = Some s \<longrightarrow> source_cells_ok s \<and>
       (\<exists>h b. s_hash s = SText h \<and> lookup_blob db h = Some b \<and> b_size b = s_size s))"
    (is "?L \<longleftrightarrow> ?T \<and> ?B \<and> ?S")
proof
  assume L: ?L
  then have b: "blob_row_ok b" if "b \<in> set (blobs db)" for b using that by (simp add: rows_consistent_def list_all_iff)
  from L have s: "source_cells_ok s" "has_blob_row db s" if "s \<in> set (source_files db)" for s
    using that by (simp_all add: rows_consistent_def list_all_iff)
  have ?T using b s(1) source_cells_text blob_row_text by (simp add: text_keys_def list_all_iff)
  moreover have ?B using b lookup_blob_Some[OF assms] by blast
  moreover have "source_cells_ok s \<and> (\<exists>h b. s_hash s = SText h \<and> lookup_blob db h = Some b \<and> b_size b = s_size s)"
    if "lookup_source db r p = Some s" for r p s
  proof -
    have mem: "s \<in> set (source_files db)" using that lookup_source_Some[OF assms] by blast
    obtain x where x: "x \<in> set (blobs db)" "b_hash x = s_hash s" "b_size x = s_size s"
      using s(2)[OF mem] by (auto simp: has_blob_row_def list_ex_iff)
    moreover obtain t where "s_hash s = SText t" using b[OF x(1)] x(2) by (auto simp: blob_row_ok_def cell_hash_Some)
    ultimately show ?thesis using s(1)[OF mem] lookup_blob_Some[OF assms, of t x] by auto
  qed
  ultimately show "?T \<and> ?B \<and> ?S" by blast
next
  assume R: "?T \<and> ?B \<and> ?S"
  have "blob_row_ok b" if "b \<in> set (blobs db)" for b
    using that text_keysD(1)[of db b] R lookup_blob_Some[OF assms] by blast
  moreover have "source_cells_ok s \<and> has_blob_row db s" if mem: "s \<in> set (source_files db)" for s
  proof -
    obtain r p where "s_root s = SText r" "s_rel s = SText p" using text_keysD(2)[of db s] R mem by blast
    then have "lookup_source db r p = Some s"
      using mem lookup_source_Some[OF assms, of r p s] by (simp add: source_matches_def)
    then obtain h b where "source_cells_ok s" "s_hash s = SText h" "lookup_blob db h = Some b" "b_size b = s_size s"
      using R by blast
    then show ?thesis using lookup_blob_Some[OF assms, of h b] by (auto simp: has_blob_row_def list_ex_iff)
  qed
  ultimately show ?L by (simp add: rows_consistent_def list_all_iff)
qed

lemma record_imported_frame:
  assumes "db_ok db" "hash_ok (br_hash blob)"
    "record_imported_file_in_transaction db blob obs = Inr (db', bo, so)"
  shows "text_keys db \<Longrightarrow> text_keys db'" "integrity_messages db' = integrity_messages db"
    "db_schema db' = db_schema db" "user_version db' = user_version db"
proof -
  obtain db1 n1 db2 where st:
    "insert_blob_sql (as_str (br_hash blob)) (uint (br_size blob)) (br_created blob) db = (db1, n1)"
    "resurrect_blob_sql (as_str (br_hash blob)) (uint (br_size blob)) db1 = (db2, 1)"
    "upsert_source_file_sql (so_root obs) (rel_str (so_rel obs)) (as_str (so_hash obs))
       (uint (so_size obs)) (so_modified obs) (so_observed obs) db2 = Inr (db', 1)"
    by (rule record_importedE[OF assms])
  have 1: "text_keys db \<Longrightarrow> text_keys db1" "integrity_messages db1 = integrity_messages db"
    "db_schema db1 = db_schema db" "user_version db1 = user_version db"
    using st(1) by (auto simp: insert_blob_sql_def text_keys_def split: if_splits)
  have 2: "text_keys db1 \<Longrightarrow> text_keys db2" "integrity_messages db2 = integrity_messages db1"
    "db_schema db2 = db_schema db1" "user_version db2 = user_version db1"
    using st(2) by (auto simp: resurrect_blob_sql_def text_keys_def list_all_iff set_update_where)
  have 3: "text_keys db2 \<Longrightarrow> text_keys db'" "integrity_messages db' = integrity_messages db2"
    "db_schema db' = db_schema db2" "user_version db' = user_version db2"
    using st(3) by (auto simp: upsert_source_file_sql_def Let_def text_keys_def list_all_iff set_update_where
        upsert_row_def split: if_splits)
  show "text_keys db \<Longrightarrow> text_keys db'" "integrity_messages db' = integrity_messages db"
    "db_schema db' = db_schema db" "user_version db' = user_version db" using 1 2 3 by simp_all
qed


definition observable :: "database \<Rightarrow> source_observation \<Rightarrow> bool" where
  "observable db obs \<longleftrightarrow> so_root obs \<noteq> [] \<and> valid_utf8 (rel_str (so_rel obs)) \<and> is_ok (from_catalog_text (rel_str (so_rel obs))) \<and>
     (case lookup_source db (so_root obs) (rel_str (so_rel obs)) of
        None \<Rightarrow> True
      | Some s \<Rightarrow> (case cell_int (s_first s) of Some a \<Rightarrow> a \<le> so_observed obs | None \<Rightarrow> False) \<and>
                  (case cell_int (s_count s) of Some n \<Rightarrow> n < i64_max | None \<Rightarrow> False))"

lemma cell_hash_ok: "hash_ok h \<Longrightarrow> cell_hash (SText (as_str h)) = Some h"
  by (simp add: cell_hash_Some)

lemma cell_simps [simp]: "cell_int (SInteger n) = Some n" "cell_size (SInteger (uint u)) = Some u" "cell_int SNull = None"
  by (simp_all add: cell_int_def cell_size_def)

lemma sql_opt_cell: "sql_opt m = SNull \<or> (\<exists>n. cell_int (sql_opt m) = Some n)"
  by (cases m) (simp_all add: sql_opt_def)

lemma blob_row_ok_unmark: "blob_row_ok b \<Longrightarrow> blob_row_ok (b\<lparr>b_deleted := SNull\<rparr>)"
  by (simp add: blob_row_ok_def)

lemma source_cells_ok_upsert:
  assumes "source_cells_ok s" "hash_ok h" "cell_int (s_first s) = Some a" "a \<le> t"
    "cell_int (s_count s) = Some n" "n < i64_max"
  shows "source_cells_ok (upsert_row (as_str h) (uint (u :: u64)) m t s)"
  using assms sql_opt_cell[of m]
  by (auto simp: source_cells_ok_def upsert_row_def cell_hash_ok cell_int_Some sql_increment_def)

lemma record_imported_consistent:
  assumes "db_ok db" "rows_consistent db" "hash_ok (br_hash blob)" "observable db obs"
    "record_imported_file_in_transaction db blob obs = Inr (db', bo, so)"
  shows "rows_consistent db'"
proof -
  note l = record_imported_lookups[OF assms(1,3,5)]
  let ?h = "as_str (br_hash blob)" and ?root = "so_root obs" and ?rel = "rel_str (so_rel obs)"
  note c = assms(2)[unfolded rows_consistent_lookup[OF assms(1)]]
  have B: "blob_row_ok b" if "lookup_blob db' x = Some b" for x b
  proof (cases "x = ?h")
    case True
    then show ?thesis using that l(4) c assms(3) blob_row_ok_unmark
      by (auto simp: blob_row_ok_def cell_hash_ok split: option.splits)
  qed (use that l(2) c in auto)
  have keep: "\<exists>b'. lookup_blob db' x = Some b' \<and> b_size b' = b_size b" if "lookup_blob db x = Some b" for x b
    using that l(2)[of x] l(4) by (cases "x = ?h") auto
  have new: "\<exists>b. lookup_blob db' ?h = Some b \<and> b_size b = SInteger (uint (so_size obs))"
    using l(4) l(7) by (auto split: option.splits)
  have S: "source_cells_ok s \<and> (\<exists>h b. s_hash s = SText h \<and> lookup_blob db' h = Some b \<and> b_size b = s_size s)"
    if s: "lookup_source db' r p = Some s" for r p s
  proof (cases "(r, p) = (?root, ?rel)")
    case False
    then obtain h b where "source_cells_ok s" "s_hash s = SText h" "lookup_blob db h = Some b" "b_size b = s_size s"
      using s l(3) c by metis
    then show ?thesis using keep by metis
  next
    case True
    show ?thesis
    proof (cases "lookup_source db ?root ?rel")
      case None
      then show ?thesis using l(5) s True new assms(3,4) sql_opt_cell[of "so_modified obs"]
        by (auto simp: source_cells_ok_def observable_def cell_hash_ok)
    next
      case (Some s0)
      have s': "s = upsert_row ?h (uint (so_size obs)) (so_modified obs) (so_observed obs) s0"
        using l(5) s True Some by simp
      have "source_cells_ok s"
        unfolding s' using c Some assms(3,4)
        by (auto simp: observable_def intro!: source_cells_ok_upsert split: option.splits)
      then show ?thesis using new s' by (auto simp: upsert_row_def)
    qed
  qed
  show ?thesis
    unfolding rows_consistent_lookup[OF l(1)] using B S c record_imported_frame(1)[OF assms(1,3,5)] by blast
qed

lemma upsert_cells:
  assumes "source_cells_ok (upsert_row h sz m t s)"
  shows "\<exists>a. cell_int (s_first s) = Some a \<and> a \<le> t" "source_cells_ok s \<Longrightarrow> \<exists>n. cell_int (s_count s) = Some n \<and> n < i64_max"
  using assms by (auto simp: source_cells_ok_def upsert_row_def sql_increment_def cell_int_def Let_def split: option.splits sqlval.splits if_splits)

lemma consistent_observable:
  assumes "db_ok db" "rows_consistent db" "hash_ok (br_hash blob)" "rows_consistent db'"
    "record_imported_file_in_transaction db blob obs = Inr (db', bo, so)"
  shows "observable db obs"
proof -
  note l = record_imported_lookups[OF assms(1,3,5)]
  obtain s where s: "lookup_source db' (so_root obs) (rel_str (so_rel obs)) = Some s" using l(5) by (auto split: option.splits)
  have ok: "source_cells_ok s" using assms(4) s unfolding rows_consistent_lookup[OF l(1)] by blast
  have key: "s_root s = SText (so_root obs)" "s_rel s = SText (rel_str (so_rel obs))"
    using lookup_source_Some[OF l(1)] s by (auto simp: source_matches_def)
  show ?thesis
  proof (cases "lookup_source db (so_root obs) (rel_str (so_rel obs))")
    case None
    then show ?thesis using ok key by (simp add: observable_def source_cells_ok_def)
  next
    case (Some s0)
    then have u: "source_cells_ok (upsert_row (as_str (br_hash blob)) (uint (so_size obs)) (so_modified obs) (so_observed obs) s0)"
      using l(5) s ok by simp
    have "source_cells_ok s0" using assms(2) Some unfolding rows_consistent_lookup[OF assms(1)] by blast
    then show ?thesis using upsert_cells[OF u] Some ok key by (auto simp: observable_def source_cells_ok_def)
  qed
qed

text \<open>
  C11 (invariant). When recording an import on a consistent catalog succeeds, the catalog is still
  consistent, so that an inspection has nothing to report and neither audit nor garbage collection
  is blocked, exactly if the observation is \<open>observable\<close>: its root is not empty, its path is one
  that \<open>from_catalog_text\<close> accepts, and, for a source that was recorded before, the clock is not
  behind the time it was first seen and its counter has room. The code checks none of these, so
  that an import after the clock went back, or of a path with a backslash, makes the catalog
  inconsistent.
\<close>

theorem record_imported_consistent_iff:
  assumes "db_ok db" "catalog_consistent db" "hash_ok (br_hash blob)"
    "record_imported_file_in_transaction db blob obs = Inr (db', bo, so)"
  shows "catalog_consistent db' \<longleftrightarrow> observable db obs"
  using record_imported_consistent[OF assms(1) _ assms(3) _ assms(4)] consistent_observable[OF assms(1) _ assms(3) _ assms(4)]
    record_imported_frame(2,3)[OF assms(1,3,4)] assms(2)
  by (auto simp: catalog_consistent_def)


text \<open>A schema of the shape of \<^verbatim>\<open>schema_v1.sql\<close>, with the texts of its CHECK clauses.\<close>

definition blobs_sql :: string where
  "blobs_sql = ''create table blobs(hash text '' @ ''check(length(hash)=64)'' @ '')''"

definition source_files_sql :: string where
  "source_files_sql = ''create table source_files(source_root text '' @ ''check(length(source_root)>0)'' @
     '', relative_path text check('' @ ''length(relative_path)>0'' @ '' and ''
     @ (''substr(relative_path,1,1)!='' @ [CHR 0x27, CHR ''/'']) @ [CHR 0x27] @ ''))''"

definition sample_schema :: schema where
  "sample_schema = \<lparr>
     schema_objects = [(''index'', ''idx_source_files_blob_hash'', Some ''CREATE INDEX idx_source_files_blob_hash ON source_files(blob_hash)''),
                       (''table'', ''blobs'', Some blobs_sql), (''table'', ''source_files'', Some source_files_sql)],
     table_info = (\<lambda>t. if t = ''blobs'' then expected_blobs else if t = ''source_files'' then expected_sources else []),
     foreign_key_list = (\<lambda>t. if t = ''source_files'' then [[''blobs'', ''blob_hash'', ''hash'', ''NO ACTION'', ''NO ACTION'']] else []),
     index_info = (\<lambda>i. if i = ''idx_source_files_blob_hash'' then [[''blob_hash'']]
                   else if i = ''sqlite_autoindex_source_files_1'' then [[''source_root''], [''relative_path'']] else []),
     index_list = (\<lambda>t. if t = ''source_files'' then [[''idx_source_files_blob_hash'', ''0'', ''c''],
                        [''sqlite_autoindex_source_files_1'', ''1'', ''u'']] else [])\<rparr>"

definition is_ascii :: "string \<Rightarrow> bool" where
  "is_ascii s = list_all (\<lambda>c. byte c < 128) s"

definition normal_ascii :: "string \<Rightarrow> string" where
  "normal_ascii s = filter (\<lambda>c. \<not> is_whitespace (byte c)) (map ascii_lower s)"

lemma chars_ascii: "is_ascii s \<Longrightarrow> chars s = map (\<lambda>c. [c]) s"
  by (induction s) (simp_all add: chars.simps[of "[]"] chars.simps[of "_ # _"] is_ascii_def)

lemma ascii_lower_ascii: "byte c < 128 \<Longrightarrow> byte (ascii_lower c) < 128"
  by (auto simp: ascii_lower_def)

lemma normalize_ascii: "is_ascii s \<Longrightarrow> normalize_sql s = normal_ascii s"
proof -
  assume "is_ascii s"
  then have "is_ascii (map ascii_lower s)" using ascii_lower_ascii by (auto simp: is_ascii_def list_all_iff)
  moreover have "concat (filter (\<lambda>c. \<not> is_whitespace (scalar c)) (map (\<lambda>c. [c]) t)) = filter (\<lambda>c. \<not> is_whitespace (byte c)) t" for t
    by (induction t) (auto simp: scalar_def)
  ultimately show ?thesis unfolding normalize_sql_def normal_ascii_def by (simp only: chars_ascii)
qed

lemma normal_ascii_append: "normal_ascii (s @ t) = normal_ascii s @ normal_ascii t"
  by (simp add: normal_ascii_def)

lemma contains_middle:
  assumes "text = s @ t @ u"
  shows "contains_text text t"
  unfolding contains_text_def list_ex_iff
proof (rule bexI)
  show "prefix t (t @ u)" by simp
  show "t @ u \<in> set (suffixes text)" using assms by (simp only: in_set_suffixes suffixI)
qed

lemma is_ascii_append: "is_ascii (s @ t) \<longleftrightarrow> is_ascii s \<and> is_ascii t"
  by (simp add: is_ascii_def)

lemma sql_ascii: "is_ascii blobs_sql" "is_ascii source_files_sql"
  unfolding blobs_sql_def source_files_sql_def is_ascii_append by (simp_all add: is_ascii_def)

lemmas normal_evals = normal_ascii_def ascii_lower_def is_whitespace_def

lemma blobs_sql_check: "contains_text (normal_ascii blobs_sql) ''check(length(hash)=64)''"
proof -
  have n: "normal_ascii ''check(length(hash)=64)'' = ''check(length(hash)=64)''" by (simp add: normal_evals)
  show ?thesis unfolding blobs_sql_def normal_ascii_append n by (rule contains_middle[OF refl])
qed

lemma source_files_sql_checks:
  "contains_text (normal_ascii source_files_sql) ''check(length(source_root)>0)''"
  "contains_text (normal_ascii source_files_sql) ''length(relative_path)>0''"
  "contains_text (normal_ascii source_files_sql) (''substr(relative_path,1,1)!='' @ [CHR 0x27, CHR ''/''])"
proof -
  have n1: "normal_ascii ''check(length(source_root)>0)'' = ''check(length(source_root)>0)''"
    by (simp add: normal_evals)
  have n2: "normal_ascii ''length(relative_path)>0'' = ''length(relative_path)>0''"
    by (simp add: normal_evals)
  have n3: "normal_ascii (''substr(relative_path,1,1)!='' @ [CHR 0x27, CHR ''/'']) = ''substr(relative_path,1,1)!='' @ [CHR 0x27, CHR ''/'']"
    by (simp add: normal_evals)
  have split: "normal_ascii (a @ b @ c @ d @ e @ f @ g @ h) =
      normal_ascii a @ normal_ascii b @ normal_ascii c @ normal_ascii d @ normal_ascii e @ normal_ascii f
      @ normal_ascii g @ normal_ascii h" for a b c d e f g h
    by (simp only: normal_ascii_append)
  show "contains_text (normal_ascii source_files_sql) ''check(length(source_root)>0)''"
    unfolding source_files_sql_def split n1 by (rule contains_middle[OF refl])
  show "contains_text (normal_ascii source_files_sql) ''length(relative_path)>0''"
    unfolding source_files_sql_def split n2 by (rule contains_middle[of _ "_ @ _ @ _"]) (simp only: append_assoc)
  show "contains_text (normal_ascii source_files_sql) (''substr(relative_path,1,1)!='' @ [CHR 0x27, CHR ''/''])"
    unfolding source_files_sql_def split n3 by (rule contains_middle[of _ "_ @ _ @ _ @ _ @ _"]) (simp only: append_assoc)
qed


lemma sample_schema_valid: "validate_schema sample_schema = []"
proof -
  have t: "table_sql sample_schema ''blobs'' = blobs_sql" "table_sql sample_schema ''source_files'' = source_files_sql"
    by (simp_all add: table_sql_def sample_schema_def)
  have o: "dedup_by (=) (sort (map (\<lambda>(kind, name, _). (kind, name)) (schema_objects sample_schema))) = expected_objects"
    by (simp add: sample_schema_def expected_objects_def less_eq_prod_def less_prod_def)
  show ?thesis
    unfolding validate_schema_def Let_def t o normalize_ascii[OF sql_ascii(1)] normalize_ascii[OF sql_ascii(2)]
    using blobs_sql_check source_files_sql_checks
    by (simp add: sample_schema_def validate_columns_def)
qed

text \<open>A consistent catalog: one source row and its blob, which is marked.\<close>

definition sample_catalog :: database where
  "sample_catalog = sample_known_db\<lparr>db_schema := sample_schema\<rparr>"

lemma sample_catalog_ok: "db_ok sample_catalog" "sizes_fit sample_catalog"
  by (simp_all add: sample_catalog_def sample_known_db_def sample_db_def db_ok_def key_hashes_def sizes_fit_def
      fits_i64_def i64_range_def i64_max_def)

lemma sample_catalog_consistent: "catalog_consistent sample_catalog"
  by (simp add: catalog_consistent_def sample_schema_valid sample_catalog_def sample_known_db_def sample_db_def
      rows_consistent_def blob_row_ok_def source_cells_ok_def has_blob_row_def cell_hash_ok from_catalog_text_def
      cell_size_def)


theorem inspection_clean_iff_consistent_witness:
  "\<exists>snap. inspect_catalog_connection sample_catalog = Inr snap \<and> snap_findings snap = [] \<and>
     map_of (valid_blobs snap) (sample_hash CHR ''a'') =
       Some \<lparr>cb_hash = sample_hash CHR ''a'', cb_size = 3, marked_at_ms = Some 20, referenced = True\<rparr>"
proof -
  have "length (blobs sample_catalog) < 2 ^ 64" by (simp add: sample_catalog_def sample_known_db_def sample_db_def)
  from inspection_clean_iff_consistent[OF sample_catalog_ok this] obtain snap where
    snap: "inspect_catalog_connection sample_catalog = Inr snap" "snap_findings snap = []"
      "map_of (valid_blobs snap) (sample_hash CHR ''a'') = blob_entry sample_catalog (sample_hash CHR ''a'')"
    using sample_catalog_consistent by (metis (full_types) hash_ok_sample is_lower_hex_ab(1))
  have "blob_entry sample_catalog (sample_hash CHR ''a'') =
      Some \<lparr>cb_hash = sample_hash CHR ''a'', cb_size = 3, marked_at_ms = Some 20, referenced = True\<rparr>"
    by (simp add: blob_entry_def lookup_blob_def sample_catalog_def sample_known_db_def sample_db_def blob_row_ok_def
        cell_hash_ok cell_size_def referenced_in_def)
  then show ?thesis using snap by simp
qed

lemma sample_observable: "observable sample_catalog sample_observation"
  by (simp add: observable_def sample_observation_def sample_catalog_def sample_known_db_def sample_db_def
      from_catalog_text_def lookup_source_def source_matches_def i64_max_def)

lemma sample_catalog_recordable: "recordable sample_catalog sample_blob sample_observation"
  by (simp add: sample_blob_def recordable_def sample_catalog_def sample_known_db_def sample_db_def sample_observation_def
      lookup_blob_def lookup_source_def source_matches_def source_checks_def sql_length_def is_cont_def i64_max_def)

text \<open>The same observation made by a clock that is behind the time the source was first seen.\<close>

definition early_observation :: source_observation where
  "early_observation = sample_observation\<lparr>so_observed := -1\<rparr>"

lemma early_not_observable: "\<not> observable sample_catalog early_observation"
  by (simp add: observable_def early_observation_def sample_observation_def sample_catalog_def sample_known_db_def sample_db_def
      lookup_source_def source_matches_def)

theorem record_imported_consistent_iff_witness:
  "(\<exists>db' bo so. record_imported_file_in_transaction sample_catalog sample_blob sample_observation = Inr (db', bo, so) \<and> catalog_consistent db')
   \<and> (\<exists>db' bo so. record_imported_file_in_transaction sample_catalog sample_blob early_observation = Inr (db', bo, so) \<and> \<not> catalog_consistent db')"
proof -
  have r: "recordable sample_catalog sample_blob early_observation" using sample_catalog_recordable by (auto simp: early_observation_def recordable_def)
  show ?thesis
    using record_imported_succeeds[OF sample_catalog_ok(1) sample_recordable(1)] sample_catalog_recordable r sample_observable early_not_observable
      record_imported_consistent_iff[OF sample_catalog_ok(1) sample_catalog_consistent sample_recordable(1)]
    by meson
qed

end
