(* ===== verification/Filesystem.thy ===== *)
theory Filesystem
  imports Paths "HOL-Library.AList"
begin

text \<open>
  The part of \<open>std::fs\<close> the program uses, on a finite tree: names with symbolic links in
  intermediate position resolved as the kernel does, regular files as inodes so that a hard
  link shares content and identity, directories whose enumeration order is arbitrary (the order
  of the list), and a table of faults that can make any call fail.
\<close>

section \<open>State\<close>

datatype node = FFile nat | FDir | FSymlink path | FOther

record file_data =
  fd_content :: string
  fd_mtime :: "int option"
  fd_readonly :: bool

datatype fs_op = OpLstat | OpOpen | OpHandleStat | OpReadDir | OpMkdir | OpCreate | OpLink
  | OpUnlink | OpRmdir | OpSync | OpChmod | OpSymlink | OpRename

record fs =
  nodes :: "(string list \<times> node) list"
  inodes :: "nat \<Rightarrow> file_data"
  next_inode :: nat
  fs_device :: u64
  faults :: "fs_op \<Rightarrow> path \<Rightarrow> io_kind option"

type_synonym 'a io = "io_kind + 'a"

datatype entry_kind = KFile | KDirectory | KSymlink | KOther

record metadata =
  md_kind :: entry_kind
  md_len :: u64
  md_dev :: u64
  md_ino :: nat
  md_mtime :: "int option"

definition node_at :: "fs \<Rightarrow> string list \<Rightarrow> node option" where
  "node_at f p = (if p = [] then Some FDir else map_of (nodes f) p)"

definition io_bind :: "'a io \<Rightarrow> ('a \<Rightarrow> 'b io) \<Rightarrow> 'b io" where
  "io_bind r k = (case r of Inl e \<Rightarrow> Inl e | Inr x \<Rightarrow> k x)"

definition fault_free :: "fs_op \<Rightarrow> path \<Rightarrow> fs \<Rightarrow> unit io" where
  "fault_free op p f = (case faults f op p of Some e \<Rightarrow> Inl e | None \<Rightarrow> Inr ())"

text \<open>\<open>?\<close> on a \<open>std::io::Result\<close>.\<close>

definition of_io :: "'a io \<Rightarrow> 'a result" where
  "of_io r = (case r of Inl e \<Rightarrow> Inl (Io e) | Inr x \<Rightarrow> Inr x)"

lemma io_simps [simp]:
  "io_bind (Inl e) k = Inl e" "io_bind (Inr x) k = k x" "of_io (Inl e) = Inl (Io e)" "of_io (Inr x) = Inr x"
  by (simp_all add: io_bind_def of_io_def)

lemma io_bind_Inr: "io_bind r k = Inr y \<longleftrightarrow> (\<exists>x. r = Inr x \<and> k x = Inr y)"
  by (cases r) auto

lemma of_io_Inr: "of_io r = Inr y \<longleftrightarrow> r = Inr y"
  by (cases r) auto


section \<open>Path resolution\<close>

text \<open>At most forty links are followed, as on Linux.\<close>

function resolve :: "fs \<Rightarrow> nat \<Rightarrow> bool \<Rightarrow> string list \<Rightarrow> component list \<Rightarrow> string list io" where
  "resolve f links follow base [] = Inr base"
| "resolve f links follow base (RootDir # cs) = resolve f links follow [] cs"
| "resolve f links follow base (CurDir # cs) = resolve f links follow base cs"
| "resolve f links follow base (ParentDir # cs) = resolve f links follow (butlast base) cs"
| "resolve f links follow base (Normal n # cs) =
     (case node_at f (base @ [n]) of
        None \<Rightarrow> if cs = [] then Inr (base @ [n]) else Inl NotFound
      | Some FDir \<Rightarrow> resolve f links follow (base @ [n]) cs
      | Some (FSymlink t) \<Rightarrow>
          if cs = [] \<and> \<not> follow then Inr (base @ [n])
          else if links = 0 then Inl TooManyLinks
          else resolve f (links - 1) follow base (components t @ cs)
      | Some _ \<Rightarrow> if cs = [] then Inr (base @ [n]) else Inl NotADirectory)"
  by pat_completeness auto
termination
  by (relation "measures [\<lambda>(f, links, follow, base, cs). links, \<lambda>(f, links, follow, base, cs). length cs]") auto

definition locate :: "bool \<Rightarrow> path \<Rightarrow> fs \<Rightarrow> string list io" where
  "locate follow p f = resolve f 40 follow [] (components p)"

text \<open>Every proper prefix of the name is a real directory: resolution is then literal.\<close>

definition real_parents :: "fs \<Rightarrow> string list \<Rightarrow> bool" where
  "real_parents f ns \<longleftrightarrow> (\<forall>i<length ns. node_at f (take i ns) = Some FDir)"

lemma node_at_root [simp]: "node_at f [] = Some FDir"
  by (simp add: node_at_def)

lemma resolve_real:
  assumes "\<forall>i<length (base @ ns). node_at f (take i (base @ ns)) = Some FDir"
    "\<not> follow \<or> (\<forall>t. node_at f (base @ ns) \<noteq> Some (FSymlink t))"
  shows "resolve f links follow base (map Normal ns) = Inr (base @ ns)"
  using assms
proof (induction ns arbitrary: base)
  case (Cons n ns)
  show ?case
  proof (cases "ns = []")
    case True
    then show ?thesis using Cons.prems(2) by (auto split: option.splits node.splits)
  next
    case False
    have "node_at f (base @ [n]) = Some FDir"
      using Cons.prems(1)[rule_format, of "length base + 1"] False by simp
    then show ?thesis using Cons.IH[of "base @ [n]"] Cons.prems False by simp
  qed
qed simp

lemma locate_real:
  assumes "list_all name_ok ns" "real_parents f ns" "\<not> follow \<or> (\<forall>t. node_at f ns \<noteq> Some (FSymlink t))"
  shows "locate follow (abs_path ns) f = Inr ns"
  using resolve_real[of "[]" ns f follow 40] assms
  by (simp add: locate_def components_abs_path real_parents_def)


section \<open>Calls\<close>

definition metadata_of :: "fs \<Rightarrow> node \<Rightarrow> metadata" where
  "metadata_of f n = (case n of
     FFile i \<Rightarrow> \<lparr>md_kind = KFile, md_len = of_nat (length (fd_content (inodes f i))), md_dev = fs_device f,
                 md_ino = i + 1, md_mtime = fd_mtime (inodes f i)\<rparr>
   | FDir \<Rightarrow> \<lparr>md_kind = KDirectory, md_len = 0, md_dev = fs_device f, md_ino = 0, md_mtime = None\<rparr>
   | FSymlink t \<Rightarrow> \<lparr>md_kind = KSymlink, md_len = of_nat (length t), md_dev = fs_device f, md_ino = 0, md_mtime = None\<rparr>
   | FOther \<Rightarrow> \<lparr>md_kind = KOther, md_len = 0, md_dev = fs_device f, md_ino = 0, md_mtime = None\<rparr>)"

text \<open>\<open>fs::symlink_metadata\<close>.\<close>

definition symlink_metadata :: "path \<Rightarrow> fs \<Rightarrow> metadata io" where
  "symlink_metadata p f =
     io_bind (fault_free OpLstat p f) (\<lambda>_.
     io_bind (locate False p f) (\<lambda>ns.
     case node_at f ns of None \<Rightarrow> Inl NotFound | Some n \<Rightarrow> Inr (metadata_of f n)))"

text \<open>\<open>open\<close> with \<open>O_NOFOLLOW\<close>: a handle is the opened node; a link in final position is \<open>ELOOP\<close>.\<close>

definition open_no_follow :: "path \<Rightarrow> fs \<Rightarrow> node io" where
  "open_no_follow p f =
     io_bind (fault_free OpOpen p f) (\<lambda>_.
     io_bind (locate False p f) (\<lambda>ns.
     case node_at f ns of None \<Rightarrow> Inl NotFound | Some (FSymlink _) \<Rightarrow> Inl TooManyLinks | Some n \<Rightarrow> Inr n))"

definition handle_metadata :: "path \<Rightarrow> node \<Rightarrow> fs \<Rightarrow> metadata io" where
  "handle_metadata p h f = io_bind (fault_free OpHandleStat p f) (\<lambda>_. Inr (metadata_of f h))"

definition open_directory_no_follow :: "path \<Rightarrow> fs \<Rightarrow> unit io" where
  "open_directory_no_follow p f =
     io_bind (open_no_follow p f) (\<lambda>n. if n = FDir then Inr () else Inl NotADirectory)"

definition children :: "string list \<Rightarrow> fs \<Rightarrow> string list" where
  "children d f = map (\<lambda>(p, _). last p) (filter (\<lambda>(p, _). p \<noteq> [] \<and> butlast p = d) (nodes f))"

definition read_dir :: "path \<Rightarrow> fs \<Rightarrow> string list io" where
  "read_dir p f =
     io_bind (fault_free OpReadDir p f) (\<lambda>_.
     io_bind (locate True p f) (\<lambda>ns.
     case node_at f ns of None \<Rightarrow> Inl NotFound | Some FDir \<Rightarrow> Inr (children ns f) | Some _ \<Rightarrow> Inl NotADirectory))"

definition set_node :: "string list \<Rightarrow> node \<Rightarrow> fs \<Rightarrow> fs" where
  "set_node ns n f = f\<lparr>nodes := AList.update ns n (nodes f)\<rparr>"

definition clear_node :: "string list \<Rightarrow> fs \<Rightarrow> fs" where
  "clear_node ns f = f\<lparr>nodes := AList.delete ns (nodes f)\<rparr>"

text \<open>The parent of a new name must be a directory; a name that exists is \<open>EEXIST\<close>.\<close>

definition new_name :: "path \<Rightarrow> fs \<Rightarrow> string list io" where
  "new_name p f =
     io_bind (locate False p f) (\<lambda>ns.
     if node_at f ns \<noteq> None then Inl AlreadyExists
     else if node_at f (butlast ns) \<noteq> Some FDir then Inl NotFound else Inr ns)"

definition create_dir :: "path \<Rightarrow> fs \<Rightarrow> fs io" where
  "create_dir p f = io_bind (fault_free OpMkdir p f) (\<lambda>_. io_bind (new_name p f) (\<lambda>ns. Inr (set_node ns FDir f)))"

definition create_new :: "path \<Rightarrow> fs \<Rightarrow> (fs \<times> nat) io" where
  "create_new p f =
     io_bind (fault_free OpCreate p f) (\<lambda>_.
     io_bind (new_name p f) (\<lambda>ns.
     let i = next_inode f
     in Inr ((set_node ns (FFile i) f)\<lparr>next_inode := i + 1,
               inodes := (inodes f)(i := \<lparr>fd_content = [], fd_mtime = None, fd_readonly = False\<rparr>)\<rparr>, i)))"

definition write_inode :: "nat \<Rightarrow> string \<Rightarrow> fs \<Rightarrow> fs" where
  "write_inode i c f = f\<lparr>inodes := (inodes f)(i := (inodes f i)\<lparr>fd_content := c\<rparr>)\<rparr>"

definition set_readonly_blob :: "path \<Rightarrow> nat \<Rightarrow> fs \<Rightarrow> fs io" where
  "set_readonly_blob p i f =
     io_bind (fault_free OpChmod p f) (\<lambda>_.
     Inr (f\<lparr>inodes := (inodes f)(i := (inodes f i)\<lparr>fd_readonly := True\<rparr>)\<rparr>))"

definition hard_link :: "path \<Rightarrow> path \<Rightarrow> fs \<Rightarrow> fs io" where
  "hard_link p q f =
     io_bind (fault_free OpLink q f) (\<lambda>_.
     io_bind (locate False p f) (\<lambda>ns.
     case node_at f ns of
       None \<Rightarrow> Inl NotFound
     | Some FDir \<Rightarrow> Inl PermissionDenied
     | Some n \<Rightarrow> io_bind (new_name q f) (\<lambda>ms. Inr (set_node ms n f))))"

definition symlink :: "path \<Rightarrow> path \<Rightarrow> fs \<Rightarrow> fs io" where
  "symlink t p f = io_bind (fault_free OpSymlink p f) (\<lambda>_. io_bind (new_name p f) (\<lambda>ns. Inr (set_node ns (FSymlink t) f)))"

definition remove_file :: "path \<Rightarrow> fs \<Rightarrow> fs io" where
  "remove_file p f =
     io_bind (fault_free OpUnlink p f) (\<lambda>_.
     io_bind (locate False p f) (\<lambda>ns.
     case node_at f ns of None \<Rightarrow> Inl NotFound | Some FDir \<Rightarrow> Inl IsADirectory | Some _ \<Rightarrow> Inr (clear_node ns f)))"

definition remove_dir :: "path \<Rightarrow> fs \<Rightarrow> fs io" where
  "remove_dir p f =
     io_bind (fault_free OpRmdir p f) (\<lambda>_.
     io_bind (locate False p f) (\<lambda>ns.
     case node_at f ns of
       None \<Rightarrow> Inl NotFound
     | Some FDir \<Rightarrow> if ns = [] then Inl OtherIo else if children ns f \<noteq> [] then Inl DirectoryNotEmpty else Inr (clear_node ns f)
     | Some _ \<Rightarrow> Inl NotADirectory))"

definition read_link :: "path \<Rightarrow> fs \<Rightarrow> path io" where
  "read_link p f =
     io_bind (locate False p f) (\<lambda>ns.
     case node_at f ns of None \<Rightarrow> Inl NotFound | Some (FSymlink t) \<Rightarrow> Inr t | Some _ \<Rightarrow> Inl OtherIo)"

text \<open>\<open>fs::rename\<close> of a name that is not a directory: it replaces a name that is not one either.\<close>

definition rename :: "path \<Rightarrow> path \<Rightarrow> fs \<Rightarrow> fs io" where
  "rename p q f =
     io_bind (fault_free OpRename q f) (\<lambda>_.
     io_bind (locate False p f) (\<lambda>ns.
     io_bind (locate False q f) (\<lambda>ms.
     case node_at f ns of
       None \<Rightarrow> Inl NotFound
     | Some FDir \<Rightarrow> Inl OtherIo
     | Some n \<Rightarrow>
         if node_at f ms = Some FDir then Inl IsADirectory
         else if node_at f (butlast ms) \<noteq> Some FDir then Inl NotFound
         else Inr (if ns = ms then f else set_node ms n (clear_node ns f)))))"

text \<open>\<open>Path::exists\<close>: follows links; any error counts as absent.\<close>

definition path_exists :: "path \<Rightarrow> fs \<Rightarrow> bool" where
  "path_exists p f = (case locate True p f of Inl _ \<Rightarrow> False | Inr ns \<Rightarrow> node_at f ns \<noteq> None)"

text \<open>\<open>File::open(path)?.sync_all()\<close>: opening follows links; only the call can fail.\<close>

definition sync_directory :: "path \<Rightarrow> fs \<Rightarrow> unit io" where
  "sync_directory p f =
     io_bind (fault_free OpOpen p f) (\<lambda>_.
     io_bind (locate True p f) (\<lambda>ns.
     if node_at f ns = None then Inl NotFound else fault_free OpSync p f))"

text \<open>No call changes the name of a file it is not given.\<close>

lemma node_at_set [simp]: "ns \<noteq> [] \<Longrightarrow> node_at (set_node ns n f) ms = (if ms = ns then Some n else node_at f ms)"
  by (auto simp: node_at_def set_node_def update_conv')

lemma node_at_clear [simp]: "ns \<noteq> [] \<Longrightarrow> node_at (clear_node ns f) ms = (if ms = ns then None else node_at f ms)"
  by (auto simp: node_at_def clear_node_def delete_conv')

lemma set_node_other [simp]: "inodes (set_node ns n f) = inodes f" "faults (set_node ns n f) = faults f"
  "fs_device (set_node ns n f) = fs_device f" "next_inode (set_node ns n f) = next_inode f"
  by (simp_all add: set_node_def)

lemma clear_node_other [simp]: "inodes (clear_node ns f) = inodes f" "faults (clear_node ns f) = faults f"
  "fs_device (clear_node ns f) = fs_device f" "next_inode (clear_node ns f) = next_inode f"
  by (simp_all add: clear_node_def)

lemma node_at_inodes [simp]: "node_at (f\<lparr>inodes := g\<rparr>) ms = node_at f ms" "node_at (f\<lparr>next_inode := k\<rparr>) ms = node_at f ms"
  by (simp_all add: node_at_def)

lemma node_at_write [simp]: "node_at (write_inode i c f) ms = node_at f ms"
  by (simp add: write_inode_def)

text \<open>Calls on a name whose parents are real directories.\<close>

lemma symlink_metadata_real:
  assumes "list_all name_ok ns" "real_parents f ns" "faults f OpLstat (abs_path ns) = None"
  shows "symlink_metadata (abs_path ns) f = (case node_at f ns of None \<Rightarrow> Inl NotFound | Some n \<Rightarrow> Inr (metadata_of f n))"
  using assms locate_real[of ns f False] by (simp add: symlink_metadata_def fault_free_def)

lemma symlink_metadata_Inr:
  assumes "list_all name_ok ns" "real_parents f ns" "symlink_metadata (abs_path ns) f = Inr m"
  shows "\<exists>n. node_at f ns = Some n \<and> m = metadata_of f n"
  using assms locate_real[of ns f False] by (auto simp: symlink_metadata_def io_bind_Inr split: option.splits)

lemma open_no_follow_Inr:
  assumes "list_all name_ok ns" "real_parents f ns" "open_no_follow (abs_path ns) f = Inr h"
  shows "node_at f ns = Some h \<and> (\<forall>t. h \<noteq> FSymlink t)"
  using assms locate_real[of ns f False] by (auto simp: open_no_follow_def io_bind_Inr split: option.splits node.splits)

lemma remove_file_Inr:
  assumes "list_all name_ok ns" "real_parents f ns" "remove_file (abs_path ns) f = Inr f'"
  shows "f' = clear_node ns f \<and> node_at f ns \<noteq> None \<and> node_at f ns \<noteq> Some FDir"
  using assms locate_real[of ns f False]
  by (auto simp: remove_file_def io_bind_Inr split: option.splits node.splits)

lemma new_name_Inr:
  assumes "list_all name_ok ns" "real_parents f ns"
  shows "new_name (abs_path ns) f = Inr ms \<longleftrightarrow> ms = ns \<and> node_at f ns = None"
proof (cases "ns = []")
  case False
  then have "node_at f (butlast ns) = Some FDir"
    using assms(2) by (simp add: real_parents_def butlast_conv_take)
  then show ?thesis using locate_real[OF assms, of False] by (auto simp: new_name_def)
qed (use locate_real[OF assms, of False] in \<open>simp add: new_name_def\<close>)

lemma md_kind_file [simp]: "md_kind (metadata_of f n) = KFile \<longleftrightarrow> (\<exists>i. n = FFile i)"
  by (cases n) (simp_all add: metadata_of_def)

lemma md_kind_dir [simp]: "md_kind (metadata_of f n) = KDirectory \<longleftrightarrow> n = FDir"
  by (cases n) (simp_all add: metadata_of_def)

lemma md_kind_symlink [simp]: "md_kind (metadata_of f n) = KSymlink \<longleftrightarrow> (\<exists>t. n = FSymlink t)"
  by (cases n) (simp_all add: metadata_of_def)

end
