(* ===== verification/Store.thy ===== *)
theory Store
  imports Filesystem Hashing Integrity
begin

text \<open>
  \<^verbatim>\<open>store.rs\<close>: the content-addressed store. A source is copied into a private staging file while
  it is hashed, the staging file is made read-only and hard-linked to the name of its hash, and
  the link never replaces a name that exists. The other half inspects the tree, opens and
  removes blobs for garbage collection, and purges staging.
\<close>

section \<open>Types\<close>

datatype store_outcome = Created | Reused

record stored_blob =
  sb_hash :: blob_hash
  sb_size :: u64
  sb_outcome :: store_outcome

datatype blob_presence = Missing | Present

datatype cas_metadata_check = CasPresent | CasMissing | CasSizeMismatch | CasInvalid

record cas_inspection =
  ci_valid :: "blob_hash list"
  ci_findings :: "integrity_finding list"
  ci_complete :: bool

record blob_identity =
  id_len :: u64
  id_device :: u64
  id_inode :: nat

definition identity_of :: "metadata \<Rightarrow> blob_identity" where
  "identity_of m = \<lparr>id_len = md_len m, id_device = md_dev m, id_inode = md_ino m\<rparr>"

text \<open>How the operating system serves reads of an open file and writes to a new one.\<close>

record ('r) file_io =
  open_read :: "string \<Rightarrow> 'r"
  read_chunk :: "'r read_fn"
  write_chunk :: "string write_fn"


section \<open>Directories\<close>

definition ensure_directory :: "path \<Rightarrow> fs \<Rightarrow> fs \<times> unit result" where
  "ensure_directory current f =
     (let (f1, made) =
        (case symlink_metadata current f of
           Inr m \<Rightarrow> (f, if md_kind m \<noteq> KDirectory then Inl (ConfigError NotARealDirectory) else Inr ())
         | Inl e \<Rightarrow>
             if e \<noteq> NotFound then (f, Inl (Io e))
             else (case create_dir current f of
                     Inr f' \<Rightarrow> (f', Inr ())
                   | Inl e' \<Rightarrow> (f, if e' \<noteq> AlreadyExists then Inl (Io e') else Inr ())))
      in (f1, bind_result made (\<lambda>_. of_io (open_directory_no_follow current f1))))"

fun ensure_each :: "path \<Rightarrow> string list \<Rightarrow> fs \<Rightarrow> fs \<times> unit result" where
  "ensure_each current [] f = (f, Inr ())"
| "ensure_each current (c # cs) f =
     (case ensure_directory (path_join current c) f of
        (f', Inl e) \<Rightarrow> (f', Inl e)
      | (f', Inr _) \<Rightarrow> ensure_each (path_join current c) cs f')"

definition ensure_blob_parent :: "store_root \<Rightarrow> blob_hash option \<Rightarrow> fs \<Rightarrow> fs \<times> unit result" where
  "ensure_blob_parent root hash f =
     ensure_each (store_path root) (''blobs'' # (case hash of None \<Rightarrow> [] | Some h \<Rightarrow> [shard1 h, shard2 h])) f"

text \<open>The result says whether there is a staging directory; a directory just made stays when opening it fails.\<close>

definition open_validated_staging_directory :: "store_root \<Rightarrow> bool \<Rightarrow> fs \<Rightarrow> fs \<times> bool result" where
  "open_validated_staging_directory root create f =
     (let dir = staging_dir root;
          open_it = (\<lambda>f1. (f1, bind_result (of_io (open_directory_no_follow dir f1)) (\<lambda>_. Inr True)))
      in case symlink_metadata dir f of
           Inr m \<Rightarrow> if md_kind m \<noteq> KDirectory then (f, Inl (ConfigError NotARealDirectory)) else open_it f
         | Inl e \<Rightarrow>
             if e \<noteq> NotFound then (f, Inl (Io e))
             else if create then (case create_dir dir f of Inl e' \<Rightarrow> (f, Inl (Io e')) | Inr f1 \<Rightarrow> open_it f1)
             else (f, Inr False))"

text \<open>
  Purging works on the directory that was opened, whatever its name becomes: the model walks the
  names below it. A name that is gone meanwhile counts as removed.
\<close>

definition ignore_missing :: "fs \<Rightarrow> fs io \<Rightarrow> fs result" where
  "ignore_missing f r = (case r of Inr f' \<Rightarrow> Inr f' | Inl e \<Rightarrow> if e = NotFound then Inr f else Inl (Io e))"

definition purge_directory_entry :: "(path \<Rightarrow> fs \<Rightarrow> (fs \<times> unit result) option) \<Rightarrow> path \<Rightarrow> fs \<Rightarrow> (fs \<times> unit result) option" where
  "purge_directory_entry purge p f =
     (case symlink_metadata p f of
        Inl e \<Rightarrow> Some (f, if e = NotFound then Inr () else Inl (Io e))
      | Inr m \<Rightarrow>
          (let unlinkat = (\<lambda>g r. case ignore_missing g r of Inl e \<Rightarrow> (g, Inl e) | Inr g' \<Rightarrow> (g', Inr ()))
           in if md_kind m \<noteq> KDirectory then Some (unlinkat f (remove_file p f))
              else (case open_directory_no_follow p f of
                      Inl e \<Rightarrow> Some (if e = NotFound then unlinkat f (remove_dir p f) else (f, Inl (Io e)))
                    | Inr _ \<Rightarrow>
                        map_option (\<lambda>(g, res). case res of Inl e \<Rightarrow> (g, Inl e) | Inr _ \<Rightarrow> unlinkat g (remove_dir p g))
                          (purge p f))))"

fun purge_each :: "(path \<Rightarrow> fs \<Rightarrow> (fs \<times> unit result) option) \<Rightarrow> path \<Rightarrow> string list \<Rightarrow> fs \<Rightarrow> (fs \<times> unit result) option" where
  "purge_each purge dir [] f = Some (f, Inr ())"
| "purge_each purge dir (x # xs) f =
     (case purge_directory_entry purge (path_join dir x) f of
        None \<Rightarrow> None
      | Some (f', Inl e) \<Rightarrow> Some (f', Inl e)
      | Some (f', Inr _) \<Rightarrow> purge_each purge dir xs f')"

primrec purge_directory_entries :: "nat \<Rightarrow> path \<Rightarrow> fs \<Rightarrow> (fs \<times> unit result) option" where
  "purge_directory_entries 0 dir f = None"
| "purge_directory_entries (Suc n) dir f =
     (case read_dir dir f of
        Inl e \<Rightarrow> Some (f, Inl (Io e))
      | Inr names \<Rightarrow> purge_each (purge_directory_entries n) dir names f)"

definition max_depth :: "fs \<Rightarrow> nat" where
  "max_depth f = fold (\<lambda>(p, _) m. max (length p) m) (nodes f) 0"

definition purge_existing_staging :: "store_root \<Rightarrow> fs \<Rightarrow> (fs \<times> unit result) option" where
  "purge_existing_staging root f =
     (case open_validated_staging_directory root False f of
        (f1, Inl e) \<Rightarrow> Some (f1, Inl e)
      | (f1, Inr False) \<Rightarrow> Some (f1, Inr ())
      | (f1, Inr True) \<Rightarrow> purge_directory_entries (Suc (Suc (max_depth f1))) (staging_dir root) f1)"

definition prepare_staging_for_import :: "store_root \<Rightarrow> fs \<Rightarrow> (fs \<times> unit result) option" where
  "prepare_staging_for_import root f =
     (case open_validated_staging_directory root True f of
        (f1, Inl e) \<Rightarrow> Some (f1, Inl e)
      | (f1, Inr _) \<Rightarrow>
          (case purge_existing_staging root f1 of
             None \<Rightarrow> None
           | Some (f2, Inl e) \<Rightarrow> Some (f2, Inl e)
           | Some (f2, Inr _) \<Rightarrow> Some (ensure_blob_parent root None f2)))"


section \<open>Verifying an existing blob\<close>

definition verify_opened_blob :: "path \<Rightarrow> node \<Rightarrow> u64 \<Rightarrow> fs \<Rightarrow> unit result" where
  "verify_opened_blob p h expected_size f =
     bind_result (of_io (handle_metadata p h f)) (\<lambda>m.
     if md_kind m \<noteq> KFile then Inl (StoreError NotABlobFile)
     else if md_len m \<noteq> expected_size then Inl (StoreError UnexpectedSize) else Inr ())"

definition verify_existing_blob :: "path \<Rightarrow> u64 \<Rightarrow> fs \<Rightarrow> unit result" where
  "verify_existing_blob p expected_size f =
     bind_result (of_io (open_no_follow p f)) (\<lambda>h. verify_opened_blob p h expected_size f)"

definition verify_and_make_existing_blob_readonly :: "path \<Rightarrow> u64 \<Rightarrow> fs \<Rightarrow> fs result" where
  "verify_and_make_existing_blob_readonly p expected_size f =
     bind_result (of_io (open_no_follow p f)) (\<lambda>h.
     bind_result (verify_opened_blob p h expected_size f) (\<lambda>_.
     case h of FFile i \<Rightarrow> of_io (set_readonly_blob p i f) | _ \<Rightarrow> Inl (StoreError NotABlobFile)))"

definition check_blob_presence :: "store_root \<Rightarrow> blob_hash \<Rightarrow> u64 \<Rightarrow> fs \<Rightarrow> blob_presence result" where
  "check_blob_presence root h size_bytes f =
     (case verify_existing_blob (blob_path root h) size_bytes f of
        Inr _ \<Rightarrow> Inr Present
      | Inl e \<Rightarrow> if e = Io NotFound then Inr Missing else Inl e)"

definition check_blob_metadata :: "store_root \<Rightarrow> blob_hash \<Rightarrow> u64 \<Rightarrow> fs \<Rightarrow> cas_metadata_check result" where
  "check_blob_metadata root h expected_size f =
     (case open_no_follow (blob_path root h) f of
        Inl e \<Rightarrow> if e = NotFound then Inr CasMissing else Inl (Io e)
      | Inr node \<Rightarrow>
          bind_result (of_io (handle_metadata (blob_path root h) node f)) (\<lambda>m.
          if md_kind m \<noteq> KFile then Inr CasInvalid
          else Inr (if md_len m = expected_size then CasPresent else CasSizeMismatch)))"


section \<open>Ingesting a file\<close>

definition remove_staging_best_effort :: "path \<Rightarrow> fs \<Rightarrow> fs" where
  "remove_staging_best_effort p f = (case remove_file p f of Inr f' \<Rightarrow> f' | Inl _ \<Rightarrow> f)"

text \<open>From the end of the copy to the installed blob. Every failure removes the staging name.\<close>

definition install_staged ::
    "store_root \<Rightarrow> path \<Rightarrow> path \<Rightarrow> nat \<Rightarrow> node \<Rightarrow> metadata \<Rightarrow> u64 \<Rightarrow> hash_result \<Rightarrow> fs \<Rightarrow> fs \<times> stored_blob result" where
  "install_staged root source_path staging staging_inode source before expected_size hr f =
     (let fail = (\<lambda>g e. (remove_staging_best_effort staging g, Inl e));
          stored = (\<lambda>outcome. \<lparr>sb_hash = hr_hash hr, sb_size = hr_size hr, sb_outcome = outcome\<rparr>)
      in if hr_size hr \<noteq> expected_size then fail f (StoreError SizeChanged)
         else case handle_metadata source_path source f of
           Inl e \<Rightarrow> fail f (Io e)
         | Inr after \<Rightarrow>
             if md_kind after \<noteq> KFile \<or> identity_of after \<noteq> identity_of before then fail f (StoreError SourceChanged)
             else if (case (md_mtime before, md_mtime after) of (Some a, Some b) \<Rightarrow> a \<noteq> b | _ \<Rightarrow> False)
             then fail f (StoreError SourceModified)
             else case set_readonly_blob staging staging_inode f of
               Inl e \<Rightarrow> fail f (Io e)
             | Inr f1 \<Rightarrow>
                 (case ensure_blob_parent root (Some (hr_hash hr)) f1 of
                    (f2, Inl e) \<Rightarrow> fail f2 e
                  | (f2, Inr _) \<Rightarrow>
                      (case hard_link staging (blob_path root (hr_hash hr)) f2 of
                         Inr f3 \<Rightarrow>
                           (case remove_file staging f3 of
                              Inl e \<Rightarrow> fail f3 (Io e)
                            | Inr f4 \<Rightarrow> (remove_staging_best_effort staging f4, Inr (stored Created)))
                       | Inl e \<Rightarrow>
                           if e \<noteq> AlreadyExists then fail f2 (Io e)
                           else (case verify_and_make_existing_blob_readonly (blob_path root (hr_hash hr)) (hr_size hr) f2 of
                              Inl e \<Rightarrow> fail f2 e
                            | Inr f3 \<Rightarrow>
                                (case remove_file staging f3 of
                                   Inl e \<Rightarrow> fail f3 (Io e)
                                 | Inr f4 \<Rightarrow> (remove_staging_best_effort staging f4, Inr (stored Reused)))))))"

text \<open>
  The whole operation. \<open>other1\<close> and \<open>other2\<close> are what other processes do to the file system
  between the first stat and the open, and while the source is read. \<open>None\<close> is a read loop
  that does not end.
\<close>

definition ingest_file_with_read_observer ::
    "'h blake3 \<Rightarrow> 'r file_io \<Rightarrow> 'o observer \<Rightarrow> (fs \<Rightarrow> fs) \<Rightarrow> (fs \<Rightarrow> fs) \<Rightarrow> store_root \<Rightarrow> string
     \<Rightarrow> path \<Rightarrow> u64 \<Rightarrow> nat \<Rightarrow> fs \<Rightarrow> 'o \<Rightarrow> (fs \<times> 'o \<times> stored_blob result) option" where
  "ingest_file_with_read_observer b io obs other1 other2 root staging_name source_path expected_size chunk f ob =
     (let staging = staging_path root staging_name in
      case symlink_metadata source_path f of
        Inl e \<Rightarrow> Some (f, ob, Inl (Io e))
      | Inr before \<Rightarrow>
          if md_kind before \<noteq> KFile then Some (f, ob, Inl (StoreError NotABlobFile))
          else let f1 = other1 f in
          (case open_no_follow source_path f1 of
             Inl e \<Rightarrow> Some (f1, ob, Inl (Io e))
           | Inr source \<Rightarrow>
               (case handle_metadata source_path source f1 of
                  Inl e \<Rightarrow> Some (f1, ob, Inl (Io e))
                | Inr opened \<Rightarrow>
                    if identity_of opened \<noteq> identity_of before then Some (f1, ob, Inl (StoreError SourceChanged))
                    else (case create_new staging f1 of
                            Inl e \<Rightarrow> Some (f1, ob, Inl (Io e))
                          | Inr (f2, i) \<Rightarrow>
                              (let content = (case source of FFile j \<Rightarrow> fd_content (inodes f1 j) | _ \<Rightarrow> []) in
                               case hash_reader_to_writer_with_chunk_observer b (read_chunk io) (write_chunk io)
                                      (open_read io content) [] chunk obs ob of
                                 None \<Rightarrow> None
                               | Some (w, ob', r) \<Rightarrow>
                                   let f3 = other2 (write_inode i w f2) in
                                   (case r of
                                      Inl e \<Rightarrow> Some (remove_staging_best_effort staging f3, ob', Inl e)
                                    | Inr hr \<Rightarrow>
                                        (case install_staged root source_path staging i source before expected_size hr f3 of
                                           (f4, res) \<Rightarrow> Some (f4, ob', res))))))))"

definition hash_file_read_only_with_chunk_observer ::
    "'h blake3 \<Rightarrow> 'r file_io \<Rightarrow> 'o observer \<Rightarrow> store_root \<Rightarrow> path \<Rightarrow> nat \<Rightarrow> fs \<Rightarrow> 'o
     \<Rightarrow> ('o \<times> stored_blob result) option" where
  "hash_file_read_only_with_chunk_observer b io obs root source_path chunk f ob =
     (case open_no_follow source_path f of
        Inl e \<Rightarrow> Some (ob, Inl (Io e))
      | Inr source \<Rightarrow>
          (let content = (case source of FFile j \<Rightarrow> fd_content (inodes f j) | _ \<Rightarrow> []) in
           map_option (\<lambda>(ob', r).
             (ob', bind_result r (\<lambda>hr.
                   bind_result (check_blob_presence root (hr_hash hr) (hr_size hr) f) (\<lambda>presence.
                   Inr \<lparr>sb_hash = hr_hash hr, sb_size = hr_size hr,
                        sb_outcome = (case presence of Missing \<Rightarrow> Created | Present \<Rightarrow> Reused)\<rparr>))))
             (hash_reader_with_chunk_observer b (read_chunk io) (open_read io content) chunk obs ob)))"



section \<open>Inspecting the tree\<close>

datatype cas_classification = ValidDirectory | ValidBlob blob_hash | Invalid string

definition valid_shard :: "string \<Rightarrow> bool" where
  "valid_shard s \<longleftrightarrow> valid_utf8 s \<and> length s = 2 \<and> list_all is_lower_hex s"

definition classify_cas_entry :: "string list \<Rightarrow> entry_kind \<Rightarrow> bool \<Rightarrow> cas_classification" where
  "classify_cas_entry cs kind ancestors_valid =
     (if kind = KSymlink then Invalid ''symlink''
      else if kind = KOther then Invalid ''non-regular''
      else if \<not> ancestors_valid then Invalid ''malformed-ancestor''
      else if kind = KDirectory then
        (if length cs \<le> 2 \<and> list_all valid_shard cs then ValidDirectory
         else if 3 \<le> length cs then Invalid ''directory-at-blob-depth''
         else Invalid ''invalid-shard'')
      else if length cs \<noteq> 3 then Invalid ''file-at-invalid-depth''
      else if \<not> valid_shard (cs ! 0) \<or> \<not> valid_shard (cs ! 1) then Invalid ''invalid-shard''
      else if \<not> valid_utf8 (cs ! 2) then Invalid ''invalid-blob-name''
      else (case blob_hash_new (cs ! 2) of
              Inl _ \<Rightarrow> Invalid ''invalid-blob-name''
            | Inr h \<Rightarrow> if cs ! 0 \<noteq> shard1 h \<or> cs ! 1 \<noteq> shard2 h then Invalid ''shard-mismatch'' else ValidBlob h))"

definition cas_finding :: "string \<Rightarrow> string list \<Rightarrow> string \<Rightarrow> cas_inspection \<Rightarrow> cas_inspection" where
  "cas_finding cat rel det ins =
     ins\<lparr>ci_findings := push_finding (ci_findings ins) (finding_for_path cat (join_with CHR ''/'' rel) det)\<rparr>"

definition cas_io_error :: "string list \<Rightarrow> string \<Rightarrow> cas_inspection \<Rightarrow> cas_inspection" where
  "cas_io_error rel det ins = cas_finding ''CAS_IO_ERROR'' rel det (ins\<lparr>ci_complete := False\<rparr>)"

text \<open>
  \<open>walk_cas\<close> recurses into directories only, so its depth is bounded by the deepest name; the
  first argument bounds it and \<open>None\<close> would be a bound that is too small.
\<close>

definition walk_entry ::
    "(path \<Rightarrow> string list \<Rightarrow> bool \<Rightarrow> cas_inspection \<Rightarrow> (cas_inspection \<times> unit result) option)
     \<Rightarrow> fs \<Rightarrow> path \<Rightarrow> string list \<Rightarrow> bool \<Rightarrow> cas_inspection \<Rightarrow> cas_inspection option" where
  "walk_entry walk f p r anc ins =
     (case symlink_metadata p f of
        Inl _ \<Rightarrow> Some (cas_io_error r ''reason=stat-failed'' ins)
      | Inr m \<Rightarrow>
          (let descend = (\<lambda>valid ins1.
                 map_option (\<lambda>(ins', res). if is_ok res then ins' else cas_io_error r ''reason=enumeration-failed'' ins')
                   (walk p r valid ins1))
           in case classify_cas_entry r (md_kind m) anc of
                ValidDirectory \<Rightarrow> descend True ins
              | Invalid why \<Rightarrow>
                  (let ins1 = cas_finding ''INVALID_CAS_ENTRY'' r (''reason='' @ why) ins
                   in if md_kind m = KDirectory then descend False ins1 else Some ins1)
              | ValidBlob h \<Rightarrow> Some (ins\<lparr>ci_valid := List.insert h (ci_valid ins)\<rparr>)))"

fun fold_option :: "('s \<Rightarrow> 'a \<Rightarrow> 's option) \<Rightarrow> 's \<Rightarrow> 'a list \<Rightarrow> 's option" where
  "fold_option g s [] = Some s"
| "fold_option g s (x # xs) = (case g s x of None \<Rightarrow> None | Some s' \<Rightarrow> fold_option g s' xs)"

primrec walk_cas :: "nat \<Rightarrow> fs \<Rightarrow> path \<Rightarrow> string list \<Rightarrow> bool \<Rightarrow> cas_inspection \<Rightarrow> (cas_inspection \<times> unit result) option" where
  "walk_cas 0 f dir rel anc ins = None"
| "walk_cas (Suc n) f dir rel anc ins =
     (case read_dir dir f of
        Inl e \<Rightarrow> Some (ins, Inl (Io e))
      | Inr names \<Rightarrow>
          map_option (\<lambda>ins'. (ins', Inr ()))
            (fold_option (\<lambda>ins1 x. walk_entry (walk_cas n f) f (path_join dir x) (rel @ [x]) anc ins1) ins (sort names)))"

definition inspect_cas :: "store_root \<Rightarrow> fs \<Rightarrow> cas_inspection option" where
  "inspect_cas root f =
     (case walk_cas (Suc (Suc (max_depth f))) f (blobs_dir root) [] True \<lparr>ci_valid = [], ci_findings = [], ci_complete = True\<rparr> of
        None \<Rightarrow> None
      | Some (ins, Inr _) \<Rightarrow> Some ins
      | Some (ins, Inl _) \<Rightarrow> Some (cas_io_error [''blobs''] ''reason=enumeration-failed'' ins))"


section \<open>Blobs for garbage collection\<close>

record opened_blob =
  ob_content :: string
  ob_identity :: blob_identity

definition open_blob_no_follow :: "store_root \<Rightarrow> blob_hash \<Rightarrow> fs \<Rightarrow> opened_blob io" where
  "open_blob_no_follow root h f =
     io_bind (open_no_follow (blob_path root h) f) (\<lambda>node.
     io_bind (handle_metadata (blob_path root h) node f) (\<lambda>m.
     case node of
       FFile i \<Rightarrow> Inr \<lparr>ob_content = fd_content (inodes f i), ob_identity = identity_of m\<rparr>
     | _ \<Rightarrow> Inl OtherIo))"

definition revalidate_blob_for_removal :: "store_root \<Rightarrow> blob_hash \<Rightarrow> blob_identity \<Rightarrow> fs \<Rightarrow> unit result" where
  "revalidate_blob_for_removal root h expected f =
     bind_result (of_io (symlink_metadata (blob_path root h) f)) (\<lambda>m.
     if md_kind m \<noteq> KFile then Inl (GcError NoLongerRegular)
     else if identity_of m \<noteq> expected then Inl (GcError ChangedAfterPreflight)
     else Inr ())"

definition remove_blob_file :: "store_root \<Rightarrow> blob_hash \<Rightarrow> fs \<Rightarrow> fs result" where
  "remove_blob_file root h f = of_io (remove_file (blob_path root h) f)"

definition sync_blob_parent :: "store_root \<Rightarrow> blob_hash \<Rightarrow> fs \<Rightarrow> unit result" where
  "sync_blob_parent root h f =
     (case path_parent (blob_path root h) of
        None \<Rightarrow> Inl (PathError MissingParent)
      | Some parent \<Rightarrow> of_io (sync_directory parent f))"

text \<open>The loop of \<open>sync_nearest_existing_blob_parent\<close>; every step shortens the path.\<close>

fun sync_nearest :: "nat \<Rightarrow> store_root \<Rightarrow> path \<Rightarrow> fs \<Rightarrow> unit result option" where
  "sync_nearest 0 root current f = None"
| "sync_nearest (Suc n) root current f =
     (case symlink_metadata current f of
        Inr m \<Rightarrow> Some (if md_kind m = KDirectory then of_io (sync_directory current f)
                        else Inl (ConfigError NotARealDirectory))
      | Inl e \<Rightarrow>
          if e \<noteq> NotFound then Some (Inl (Io e))
          else (case path_parent current of
                  None \<Rightarrow> Some (Inl (PathError MissingParent))
                | Some parent \<Rightarrow>
                    if \<not> starts_with parent (store_path root) then Some (Inl (PathError EscapedRoot))
                    else sync_nearest n root parent f))"

definition sync_nearest_existing_blob_parent :: "store_root \<Rightarrow> blob_hash \<Rightarrow> fs \<Rightarrow> unit result option" where
  "sync_nearest_existing_blob_parent root h f =
     (case path_parent (blob_path root h) of
        None \<Rightarrow> Some (Inl (PathError MissingParent))
      | Some parent \<Rightarrow> sync_nearest (Suc (length (components parent))) root parent f)"



section \<open>The layout of the tree\<close>

definition blob_names :: "blob_hash \<Rightarrow> string list" where
  "blob_names h = [shard1 h, shard2 h, as_str h]"

lemma shards_valid:
  assumes "hash_ok h"
  shows "valid_shard (shard1 h)" "valid_shard (shard2 h)"
proof -
  have "list_all is_lower_hex (shard1 h)" "list_all is_lower_hex (shard2 h)"
    "length (shard1 h) = 2" "length (shard2 h) = 2"
    using hash_okD(1,2)[OF assms] by (auto simp: shard1_def shard2_def intro: list_all_take list_all_drop)
  then show "valid_shard (shard1 h)" "valid_shard (shard2 h)" by (simp_all add: valid_shard_def hex_valid_utf8)
qed

lemma blob_hash_new_Inr: "blob_hash_new s = Inr h \<longleftrightarrow> s = as_str h \<and> hash_ok h"
  by (cases h) (auto simp: blob_hash_new_def hash_ok_def)

lemma classify_ValidBlob:
  "classify_cas_entry cs KFile True = ValidBlob h \<longleftrightarrow> cs = blob_names h \<and> hash_ok h"
proof
  assume c: "classify_cas_entry cs KFile True = ValidBlob h"
  then have "length cs = 3" "blob_hash_new (cs ! 2) = Inr h" "cs ! 0 = shard1 h" "cs ! 1 = shard2 h"
    by (auto simp: classify_cas_entry_def split: if_splits sum.splits)
  then show "cs = blob_names h \<and> hash_ok h"
    by (auto simp: blob_names_def blob_hash_new_Inr numeral_3_eq_3 numeral_2_eq_2 length_Suc_conv)
next
  assume "cs = blob_names h \<and> hash_ok h"
  moreover have "blob_hash_new (as_str h) = Inr h" if "hash_ok h" using that by (simp add: blob_hash_new_Inr)
  ultimately show "classify_cas_entry cs KFile True = ValidBlob h"
    using shards_valid[of h] hash_okD(2)[of h]
    by (simp add: classify_cas_entry_def blob_names_def hex_valid_utf8)
qed

lemma classify_blob:
  "classify_cas_entry cs kind anc = ValidBlob h \<longleftrightarrow> kind = KFile \<and> anc \<and> cs = blob_names h \<and> hash_ok h"
proof (cases "kind = KFile \<and> anc")
  case True
  then show ?thesis by (simp add: classify_ValidBlob)
next
  case False
  then have "classify_cas_entry cs kind anc \<noteq> ValidBlob h"
    by (cases kind) (simp_all add: classify_cas_entry_def)
  then show ?thesis using False by auto
qed

lemma classify_directory:
  "classify_cas_entry cs kind anc = ValidDirectory \<longleftrightarrow>
     kind = KDirectory \<and> anc \<and> length cs \<le> 2 \<and> list_all valid_shard cs"
  by (cases kind) (auto simp: classify_cas_entry_def split: sum.splits)

text \<open>
  The inspection of the store and the naming of blobs agree: a regular file is
  accepted as the blob of a hash exactly when its place below \<open>blobs\<close> is the one \<open>blob_path\<close>
  gives that hash, and a directory is accepted exactly at the two shard levels.
\<close>

theorem classify_agrees_with_blob_path:
  "(classify_cas_entry cs kind anc = ValidBlob h \<longleftrightarrow> kind = KFile \<and> anc \<and> cs = blob_names h \<and> hash_ok h)
   \<and> (classify_cas_entry cs kind anc = ValidDirectory \<longleftrightarrow>
        kind = KDirectory \<and> anc \<and> length cs \<le> 2 \<and> list_all valid_shard cs)"
  by (simp only: classify_blob classify_directory)


section \<open>Ingesting: what a success means\<close>

definition fs_ok :: "fs \<Rightarrow> bool" where
  "fs_ok f \<longleftrightarrow> list_all (\<lambda>(p, n). p \<noteq> [] \<and> node_at f (butlast p) = Some FDir \<and> list_all name_ok p \<and> (case n of FFile i \<Rightarrow> i < next_inode f | _ \<Rightarrow> True)) (nodes f)"

lemma fs_ok_inode: "fs_ok f \<Longrightarrow> node_at f ns = Some (FFile i) \<Longrightarrow> i < next_inode f"
  by (auto simp: fs_ok_def list_all_iff node_at_def split: if_splits dest!: map_of_SomeD)

lemma fs_ok_parent: "fs_ok f \<Longrightarrow> node_at f (ns @ [x]) = Some n \<Longrightarrow> node_at f ns = Some FDir"
  by (auto simp: fs_ok_def list_all_iff node_at_def[of f "ns @ [x]"] dest!: map_of_SomeD)

lemma fs_ok_real_parents:
  assumes "fs_ok f" "node_at f ns = Some n"
  shows "real_parents f ns"
  using assms(2)
proof (induction ns arbitrary: n rule: rev_induct)
  case (snoc x xs)
  then have d: "node_at f xs = Some FDir" using fs_ok_parent[OF assms(1)] by blast
  then show ?case using snoc.IH[OF d] by (auto simp: real_parents_def less_Suc_eq)
qed (simp add: real_parents_def)

definition real_dir :: "fs \<Rightarrow> string list \<Rightarrow> bool" where
  "real_dir f ns \<longleftrightarrow> real_parents f ns \<and> node_at f ns = Some FDir"

lemma real_parents_snoc: "real_parents f (ns @ [n]) \<longleftrightarrow> real_dir f ns"
  by (auto simp: real_parents_def real_dir_def less_Suc_eq)

lemma real_dir_mono:
  "real_dir f ns \<Longrightarrow> (\<And>ms. node_at f ms = Some FDir \<Longrightarrow> node_at g ms = Some FDir) \<Longrightarrow> real_dir g ns"
  by (auto simp: real_dir_def real_parents_def)

lemma ensure_directory_Inr:
  assumes "list_all name_ok ns" "real_parents f ns" "ensure_directory (abs_path ns) f = (f', Inr ())"
  shows "f' = f \<and> node_at f ns = Some FDir \<or> f' = set_node ns FDir f \<and> node_at f ns = None \<and> ns \<noteq> []"
proof -
  obtain f1 where f1: "f' = f1" "open_directory_no_follow (abs_path ns) f1 = Inr ()"
    and c: "f1 = f \<or> create_dir (abs_path ns) f = Inr f1"
    using assms(3) unfolding ensure_directory_def Let_def
    by (cases "symlink_metadata (abs_path ns) f"; cases "create_dir (abs_path ns) f")
      (auto simp: bind_result_eq_Inr of_io_Inr split: if_splits)
  have same: "node_at f ns = Some FDir" if "f1 = f"
    using f1(2) that open_no_follow_Inr[OF assms(1,2)] by (auto simp: open_directory_no_follow_def io_bind_Inr split: if_splits)
  note c
  moreover have "f1 = set_node ns FDir f \<and> node_at f ns = None \<and> ns \<noteq> []" if "create_dir (abs_path ns) f = Inr f1"
  proof -
    obtain ms where "new_name (abs_path ns) f = Inr ms" "f1 = set_node ms FDir f"
      using \<open>create_dir (abs_path ns) f = Inr f1\<close> unfolding create_dir_def by (auto simp: io_bind_Inr)
    then show ?thesis using new_name_Inr[OF assms(1,2), of ms] by auto
  qed
  ultimately show ?thesis using same f1(1) by blast
qed

text \<open>The calls below change names only by creating the directories they are given.\<close>

definition extends_by :: "fs \<Rightarrow> string list set \<Rightarrow> fs \<Rightarrow> bool" where
  "extends_by f ds f' \<longleftrightarrow> inodes f' = inodes f \<and> next_inode f' = next_inode f \<and> fs_device f' = fs_device f \<and>
     faults f' = faults f \<and>
     (\<forall>ms. node_at f' ms = node_at f ms \<or> ms \<in> ds \<and> node_at f ms = None \<and> node_at f' ms = Some FDir)"

lemma extends_by_refl: "extends_by f ds f"
  by (simp add: extends_by_def)

lemma extends_by_trans: "extends_by f ds g \<Longrightarrow> extends_by g es h \<Longrightarrow> extends_by f (ds \<union> es) h"
  unfolding extends_by_def by (metis UnCI)

lemma extends_by_node: "extends_by f ds g \<Longrightarrow> node_at f ms = Some n \<Longrightarrow> node_at g ms = Some n"
  unfolding extends_by_def by (metis option.distinct(1))

lemma ensure_each_Inr:
  assumes "list_all name_ok (ns @ cs)" "real_dir f ns" "ensure_each (abs_path ns) cs f = (f', Inr ())"
  shows "real_dir f' (ns @ cs) \<and> extends_by f {ns @ take k cs |k. 0 < k} f'"
  using assms
proof (induction cs arbitrary: ns f)
  case Nil
  then show ?case by (simp add: extends_by_refl)
next
  case (Cons c cs)
  have join: "path_join (abs_path ns) c = abs_path (ns @ [c])"
    using Cons.prems(1) by (simp add: path_join_abs_path)
  have rp: "real_parents f (ns @ [c])" using Cons.prems(2) by (simp add: real_parents_snoc)
  obtain g where g: "ensure_directory (abs_path (ns @ [c])) f = (g, Inr ())" "ensure_each (abs_path (ns @ [c])) cs g = (f', Inr ())"
    using Cons.prems(3) by (auto simp: join split: prod.splits sum.splits)
  have e: "g = f \<and> node_at f (ns @ [c]) = Some FDir \<or> g = set_node (ns @ [c]) FDir f \<and> node_at f (ns @ [c]) = None"
    using ensure_directory_Inr[OF _ rp g(1)] Cons.prems(1) by auto
  have dir: "real_dir g (ns @ [c])"
    using e Cons.prems(2) by (auto simp: real_dir_def real_parents_snoc intro: real_dir_mono elim!: disjE)
      (auto simp: real_parents_def)
  have ext: "extends_by f {ns @ [c]} g" using e by (auto simp: extends_by_def split: if_splits)
  have IH: "real_dir f' ((ns @ [c]) @ cs) \<and> extends_by g {(ns @ [c]) @ take k cs |k. 0 < k} f'"
    by (rule Cons.IH[OF _ dir g(2)]) (use Cons.prems(1) in simp)
  have "{ns @ [c]} \<union> {(ns @ [c]) @ take k cs |k. 0 < k} \<subseteq> {ns @ take k (c # cs) |k. 0 < k}"
    by (auto intro: exI[of _ 1] exI[of _ "Suc _"])
  moreover have "extends_by f ({ns @ [c]} \<union> {(ns @ [c]) @ take k cs |k. 0 < k}) f'"
    using extends_by_trans[OF ext] IH by blast
  ultimately show ?case using IH unfolding extends_by_def by (metis (no_types, lifting) append.assoc append_Cons append_Nil subsetD)
qed


text \<open>The names of a store whose root is a canonical path.\<close>

definition store_names :: "store_root \<Rightarrow> string list" where
  "store_names root = path_names (store_path root)"

definition blob_file :: "store_root \<Rightarrow> blob_hash \<Rightarrow> string list" where
  "blob_file root h = store_names root @ ''blobs'' # blob_names h"

definition staging_file :: "store_root \<Rightarrow> string \<Rightarrow> string list" where
  "staging_file root name = store_names root @ [''staging'', name]"

definition store_ok :: "store_root \<Rightarrow> fs \<Rightarrow> bool" where
  "store_ok root f \<longleftrightarrow> canonical (store_path root) \<and> real_dir f (store_names root) \<and> fs_ok f"

lemma store_names_ok:
  assumes "canonical (store_path root)"
  shows "store_path root = abs_path (store_names root)" "list_all name_ok (store_names root)"
  using assms unfolding store_names_def by (metis canonicalE path_names_abs_path)+

lemma blob_path_names:
  assumes "canonical (store_path root)" "hash_ok h"
  shows "blob_path root h = abs_path (blob_file root h)" "list_all name_ok (blob_file root h)"
  using store_names_ok[OF assms(1)] hash_okD[OF assms(2)] blob_path_abs[of "store_names root" root h]
  by (simp_all add: blob_file_def blob_names_def assms(2))

lemma staging_path_names:
  assumes "canonical (store_path root)" "name_ok name"
  shows "staging_path root name = abs_path (staging_file root name)" "list_all name_ok (staging_file root name)"
  using store_names_ok[OF assms(1)] assms(2)
  by (simp_all add: staging_file_def staging_path_def staging_dir_def path_join_abs_path)

lemma blob_file_ne_staging: "blob_file root h \<noteq> staging_file root name"
  by (simp add: blob_file_def staging_file_def blob_names_def)

lemma blob_file_inj: "blob_file root h = blob_file root h' \<longleftrightarrow> h = h'"
  by (cases h; cases h') (auto simp: blob_file_def blob_names_def)

definition blob_dirs :: "store_root \<Rightarrow> blob_hash \<Rightarrow> string list set" where
  "blob_dirs root h = {store_names root @ take k [''blobs'', shard1 h, shard2 h] |k. 0 < k}"

lemma blob_dirs_not_file: "blob_file root h \<notin> blob_dirs root h" "staging_file root n \<notin> blob_dirs root h"
  by (auto simp: blob_dirs_def blob_file_def blob_names_def staging_file_def take_Cons split: nat.splits)

lemma ensure_blob_parent_Inr:
  assumes "canonical (store_path root)" "hash_ok h" "real_dir f (store_names root)"
    "ensure_blob_parent root (Some h) f = (f', Inr ())"
  shows "real_parents f' (blob_file root h) \<and> extends_by f (blob_dirs root h) f'"
proof -
  have "real_dir f' (store_names root @ [''blobs'', shard1 h, shard2 h]) \<and> extends_by f (blob_dirs root h) f'"
    unfolding blob_dirs_def
    using assms store_names_ok[OF assms(1)] hash_okD[OF assms(2)]
    by (intro ensure_each_Inr) (simp_all add: ensure_blob_parent_def)
  then show ?thesis
    using real_parents_snoc[of f' "store_names root @ [''blobs'', shard1 h, shard2 h]" "as_str h"]
    by (simp add: blob_file_def blob_names_def)
qed

lemma remove_staging_idem:
  assumes "list_all name_ok ns" "real_parents f ns" "node_at f ns = None"
  shows "remove_staging_best_effort (abs_path ns) f = f"
proof -
  have "\<nexists>f'. remove_file (abs_path ns) f = Inr f'" using remove_file_Inr[OF assms(1,2)] assms(3) by blast
  then show ?thesis by (auto simp: remove_staging_best_effort_def split: sum.splits)
qed

lemma real_parents_clear:
  assumes "real_parents f ms" "ns \<noteq> []" "\<And>i. i < length ms \<Longrightarrow> take i ms \<noteq> ns"
  shows "real_parents (clear_node ns f) ms"
  using assms by (simp add: real_parents_def)

lemma real_parents_set:
  assumes "real_parents f ms" "ns \<noteq> []" "\<And>i. i < length ms \<Longrightarrow> take i ms \<noteq> ns"
  shows "real_parents (set_node ns n f) ms"
  using assms by (simp add: real_parents_def)


lemma install_stagedE:
  assumes "install_staged root source_path staging i source before expected_size hr f = (f', Inr sb)"
  obtains after f1 f2 f3 f4 where
    "hr_size hr = expected_size" "handle_metadata source_path source f = Inr after"
    "md_kind after = KFile" "identity_of after = identity_of before"
    "\<forall>a b. md_mtime before = Some a \<longrightarrow> md_mtime after = Some b \<longrightarrow> a = b"
    "set_readonly_blob staging i f = Inr f1" "ensure_blob_parent root (Some (hr_hash hr)) f1 = (f2, Inr ())"
    "hard_link staging (blob_path root (hr_hash hr)) f2 = Inr f3 \<and> sb_outcome sb = Created
     \<or> hard_link staging (blob_path root (hr_hash hr)) f2 = Inl AlreadyExists \<and> sb_outcome sb = Reused
       \<and> verify_and_make_existing_blob_readonly (blob_path root (hr_hash hr)) (hr_size hr) f2 = Inr f3"
    "remove_file staging f3 = Inr f4" "f' = remove_staging_best_effort staging f4"
    "sb_hash sb = hr_hash hr" "sb_size sb = hr_size hr"
  using assms unfolding install_staged_def Let_def
  by (auto split: if_splits sum.splits prod.splits option.splits)

lemma hard_link_Inr:
  assumes "list_all name_ok ns" "real_parents f ns" "list_all name_ok ms" "real_parents f ms"
    "hard_link (abs_path ns) (abs_path ms) f = Inr f'"
  shows "\<exists>n. node_at f ns = Some n \<and> n \<noteq> FDir \<and> node_at f ms = None \<and> ms \<noteq> [] \<and> f' = set_node ms n f"
proof -
  obtain n k where "node_at f ns = Some n" "n \<noteq> FDir" "new_name (abs_path ms) f = Inr k" "f' = set_node k n f"
    using assms(5) locate_real[OF assms(1,2), of False] unfolding hard_link_def
    by (auto simp: io_bind_Inr split: option.splits node.splits)
  then show ?thesis using new_name_Inr[OF assms(3,4), of k] by auto
qed

lemma verify_readonly_Inr:
  assumes "list_all name_ok ms" "real_parents f ms"
    "verify_and_make_existing_blob_readonly (abs_path ms) sz f = Inr f'"
  shows "\<exists>j. node_at f ms = Some (FFile j) \<and> of_nat (length (fd_content (inodes f j))) = sz \<and>
           f' = f\<lparr>inodes := (inodes f)(j := (inodes f j)\<lparr>fd_readonly := True\<rparr>)\<rparr>"
  using assms(3) open_no_follow_Inr[OF assms(1,2)]
  by (auto simp: verify_and_make_existing_blob_readonly_def verify_opened_blob_def bind_result_eq_Inr of_io_Inr
      handle_metadata_def io_bind_Inr set_readonly_blob_def metadata_of_def split: if_splits node.splits)

lemma set_readonly_Inr:
  "set_readonly_blob p i f = Inr f' \<Longrightarrow> f' = f\<lparr>inodes := (inodes f)(i := (inodes f i)\<lparr>fd_readonly := True\<rparr>)\<rparr>"
  by (auto simp: set_readonly_blob_def io_bind_Inr)

lemma install_staged_spec:
  assumes can: "canonical (store_path root)" and dir: "real_dir f (store_names root)"
    and name: "name_ok name" "real_parents f (staging_file root name)"
    and st: "node_at f (staging_file root name) = Some (FFile i)" and h: "hash_ok (hr_hash hr)"
    and ok: "install_staged root source_path (staging_path root name) i source before expected_size hr f = (f', Inr sb)"
  defines "B \<equiv> blob_file root (hr_hash hr)" and "T \<equiv> staging_file root name"
  shows "sb_hash sb = hr_hash hr" "sb_size sb = hr_size hr" "hr_size hr = expected_size"
    "node_at f' T = None"
    "\<exists>j. node_at f' B = Some (FFile j) \<and> fd_readonly (inodes f' j) \<and>
       (sb_outcome sb = Created \<and> j = i \<and> node_at f B = None \<or>
        sb_outcome sb = Reused \<and> node_at f B = Some (FFile j) \<and> of_nat (length (fd_content (inodes f j))) = hr_size hr)"
    "\<And>ns. ns \<noteq> B \<Longrightarrow> ns \<noteq> T \<Longrightarrow> ns \<notin> blob_dirs root (hr_hash hr) \<Longrightarrow> node_at f' ns = node_at f ns"
    "\<And>k. fd_content (inodes f' k) = fd_content (inodes f k)"
    "\<exists>after. handle_metadata source_path source f = Inr after \<and> md_kind after = KFile \<and> identity_of after = identity_of before
       \<and> (\<forall>a b. md_mtime before = Some a \<longrightarrow> md_mtime after = Some b \<longrightarrow> a = b)"
proof -
  obtain after f1 f2 f3 f4 where o:
    "hr_size hr = expected_size" "handle_metadata source_path source f = Inr after"
    "md_kind after = KFile" "identity_of after = identity_of before"
    "\<forall>a b. md_mtime before = Some a \<longrightarrow> md_mtime after = Some b \<longrightarrow> a = b"
    and ro: "set_readonly_blob (staging_path root name) i f = Inr f1"
    and en: "ensure_blob_parent root (Some (hr_hash hr)) f1 = (f2, Inr ())"
    and hl: "hard_link (staging_path root name) (blob_path root (hr_hash hr)) f2 = Inr f3 \<and> sb_outcome sb = Created
     \<or> hard_link (staging_path root name) (blob_path root (hr_hash hr)) f2 = Inl AlreadyExists \<and> sb_outcome sb = Reused
       \<and> verify_and_make_existing_blob_readonly (blob_path root (hr_hash hr)) (hr_size hr) f2 = Inr f3"
    and rm: "remove_file (staging_path root name) f3 = Inr f4"
    and f': "f' = remove_staging_best_effort (staging_path root name) f4"
    and sb: "sb_hash sb = hr_hash hr" "sb_size sb = hr_size hr"
    by (rule install_stagedE[OF ok])
  show "sb_hash sb = hr_hash hr" "sb_size sb = hr_size hr" "hr_size hr = expected_size" using sb o(1) by simp_all
  show "\<exists>after. handle_metadata source_path source f = Inr after \<and> md_kind after = KFile \<and> identity_of after = identity_of before
       \<and> (\<forall>a b. md_mtime before = Some a \<longrightarrow> md_mtime after = Some b \<longrightarrow> a = b)" using o by blast
  note b = blob_path_names[OF can h] and t = staging_path_names[OF can name(1)]
  have f1: "f1 = f\<lparr>inodes := (inodes f)(i := (inodes f i)\<lparr>fd_readonly := True\<rparr>)\<rparr>" using set_readonly_Inr[OF ro] .
  have dir1: "real_dir f1 (store_names root)" using dir by (simp add: f1 real_dir_def real_parents_def)
  note e = ensure_blob_parent_Inr[OF can h dir1 en]
  have ext: "extends_by f1 (blob_dirs root (hr_hash hr)) f2" using e by blast
  have T2: "node_at f2 T = Some (FFile i)" using extends_by_node[OF ext] st by (simp add: f1 T_def)
  have rpT: "real_parents f2 T"
    using name(2) extends_by_node[OF ext] by (simp add: T_def f1 real_parents_def)
  have TB: "T \<noteq> B" "T \<noteq> []" "B \<noteq> []" by (auto simp: T_def B_def staging_file_def blob_file_def blob_names_def)
  have TpreB: "take k T \<noteq> B" for k
    by (cases k) (auto simp: T_def B_def staging_file_def blob_file_def blob_names_def take_Cons split: nat.splits
        dest: arg_cong[of _ _ length])
  have nodeB: "node_at f2 B = node_at f B"
    using ext blob_dirs_not_file(1)[of root "hr_hash hr"] unfolding extends_by_def f1 B_def by (metis node_at_inodes(1))
  have rpB: "real_parents f2 B" using e by (simp add: B_def)
  have cases3: "sb_outcome sb = Created \<and> node_at f B = None \<and> f3 = set_node B (FFile i) f2
     \<or> sb_outcome sb = Reused \<and> (\<exists>j. node_at f B = Some (FFile j) \<and> of_nat (length (fd_content (inodes f2 j))) = hr_size hr
          \<and> f3 = f2\<lparr>inodes := (inodes f2)(j := (inodes f2 j)\<lparr>fd_readonly := True\<rparr>)\<rparr>)"
    using hl
  proof
    assume A: "hard_link (staging_path root name) (blob_path root (hr_hash hr)) f2 = Inr f3 \<and> sb_outcome sb = Created"
    then have "\<exists>n. node_at f2 T = Some n \<and> n \<noteq> FDir \<and> node_at f2 B = None \<and> B \<noteq> [] \<and> f3 = set_node B n f2"
      using hard_link_Inr[OF t(2) _ b(2)] rpT rpB unfolding T_def B_def t(1) b(1) by blast
    then show ?thesis using A T2 nodeB by auto
  next
    assume A: "hard_link (staging_path root name) (blob_path root (hr_hash hr)) f2 = Inl AlreadyExists \<and> sb_outcome sb = Reused
       \<and> verify_and_make_existing_blob_readonly (blob_path root (hr_hash hr)) (hr_size hr) f2 = Inr f3"
    then show ?thesis using verify_readonly_Inr[OF b(2), of f2 "hr_size hr" f3] rpB nodeB unfolding B_def b(1) by auto
  qed
  have rpT3: "real_parents f3 T"
    using cases3 rpT TpreB TB(3) by (auto simp: real_parents_def)
  have f4: "f4 = clear_node T f3" using remove_file_Inr[OF t(2)] rpT3 rm unfolding T_def t(1) by blast
  have rpT4: "real_parents f4 T"
    unfolding f4 using rpT3 TB(2) by (intro real_parents_clear) (auto dest: arg_cong[of _ _ length])
  have f'': "f' = clear_node T f3"
    using remove_staging_idem[OF t(2)] rpT4 TB(2) unfolding f' f4 T_def t(1) by simp
  show "node_at f' T = None" unfolding f'' using TB(2) by simp
  have inod: "inodes f2 = inodes f1" using ext by (simp add: extends_by_def)
  show "\<exists>j. node_at f' B = Some (FFile j) \<and> fd_readonly (inodes f' j) \<and>
       (sb_outcome sb = Created \<and> j = i \<and> node_at f B = None \<or>
        sb_outcome sb = Reused \<and> node_at f B = Some (FFile j) \<and> of_nat (length (fd_content (inodes f j))) = hr_size hr)"
    using cases3 TB inod nodeB unfolding f'' f1 by (auto split: if_splits)
  show "\<And>k. fd_content (inodes f' k) = fd_content (inodes f k)"
    using cases3 inod unfolding f'' f1 by auto
  show "node_at f' ns = node_at f ns" if "ns \<noteq> B" "ns \<noteq> T" "ns \<notin> blob_dirs root (hr_hash hr)" for ns
  proof -
    have "node_at f2 ns = node_at f ns" using ext that(3) unfolding extends_by_def f1 by (metis node_at_inodes(1))
    then show ?thesis using cases3 that TB unfolding f'' by auto
  qed
qed


text \<open>The same steps succeed when no call fails.\<close>

definition no_faults :: "fs \<Rightarrow> bool" where
  "no_faults f \<longleftrightarrow> (\<forall>op p. faults f op p = None)"

lemma fault_free_ok [simp]: "no_faults f \<Longrightarrow> fault_free op p f = Inr ()"
  by (simp add: no_faults_def fault_free_def)

lemma no_faults_updates [simp]:
  "no_faults (set_node ns n f) = no_faults f" "no_faults (clear_node ns f) = no_faults f"
  "no_faults (f\<lparr>inodes := g\<rparr>) = no_faults f" "no_faults (write_inode i c f) = no_faults f"
  "no_faults (f\<lparr>next_inode := k\<rparr>) = no_faults f"
  by (simp_all add: no_faults_def write_inode_def)

lemma new_name_ok:
  "list_all name_ok ns \<Longrightarrow> real_parents f ns \<Longrightarrow> node_at f ns = None \<Longrightarrow> new_name (abs_path ns) f = Inr ns"
  by (simp add: new_name_Inr)

lemma ensure_directory_ok:
  assumes "no_faults f" "list_all name_ok ns" "real_parents f ns" "node_at f ns \<in> {None, Some FDir}"
  shows "\<exists>f'. ensure_directory (abs_path ns) f = (f', Inr ()) \<and> no_faults f'"
proof (cases "node_at f ns")
  case None
  have ne: "ns \<noteq> []" using None by auto
  let ?g = "set_node ns FDir f"
  have "real_parents ?g ns" using assms(3) ne by (intro real_parents_set) (auto dest: arg_cong[of _ _ length])
  then have "locate False (abs_path ns) ?g = Inr ns" using locate_real[OF assms(2)] by simp
  then have "open_directory_no_follow (abs_path ns) ?g = Inr ()"
    using assms(1) ne by (simp add: open_directory_no_follow_def open_no_follow_def)
  then show ?thesis
    using None assms locate_real[OF assms(2,3), of False] new_name_ok[OF assms(2,3) None]
    by (simp add: ensure_directory_def of_io_def symlink_metadata_def create_dir_def)
next
  case (Some n)
  then have "n = FDir" using assms(4) by simp
  then show ?thesis using Some assms locate_real[OF assms(2,3), of False]
    by (simp add: ensure_directory_def of_io_def symlink_metadata_def open_directory_no_follow_def open_no_follow_def metadata_of_def)
qed

lemma ensure_each_ok:
  assumes "no_faults f" "list_all name_ok (ns @ cs)" "real_dir f ns"
    "\<And>k. node_at f (ns @ take k cs) \<in> {None, Some FDir}"
  shows "\<exists>f'. ensure_each (abs_path ns) cs f = (f', Inr ()) \<and> no_faults f'"
  using assms
proof (induction cs arbitrary: ns f)
  case (Cons c cs)
  have join: "path_join (abs_path ns) c = abs_path (ns @ [c])"
    using Cons.prems(2) by (simp add: path_join_abs_path)
  have rp: "real_parents f (ns @ [c])" using Cons.prems(3) by (simp add: real_parents_snoc)
  have ok: "list_all name_ok (ns @ [c])" using Cons.prems(2) by simp
  obtain g where g: "ensure_directory (abs_path (ns @ [c])) f = (g, Inr ())" "no_faults g"
    using ensure_directory_ok[OF Cons.prems(1) ok rp] Cons.prems(4)[of 1] by auto
  have gn: "node_at g ms = (if ms = ns @ [c] then Some FDir else node_at f ms)" for ms
    using ensure_directory_Inr[OF ok rp g(1)] by auto
  have "real_dir g (ns @ [c])"
    using gn Cons.prems(3) by (auto simp: real_dir_def real_parents_def less_Suc_eq)
  moreover have "node_at g ((ns @ [c]) @ take k cs) \<in> {None, Some FDir}" for k
    using gn Cons.prems(4)[of "Suc k"] by simp
  ultimately obtain f' where "ensure_each (abs_path (ns @ [c])) cs g = (f', Inr ())" "no_faults f'"
    using Cons.IH[of g "ns @ [c]"] g(2) Cons.prems(2) by auto
  then show ?case using g(1) by (simp add: join)
qed simp

text \<open>What must hold of the place of a blob: directories where directories belong, and no other kind of file.\<close>

definition blob_place_ok :: "store_root \<Rightarrow> blob_hash \<Rightarrow> nat \<Rightarrow> fs \<Rightarrow> bool" where
  "blob_place_ok root h len f \<longleftrightarrow>
     list_all (\<lambda>k. node_at f (store_names root @ take k [''blobs'', shard1 h, shard2 h]) \<in> {None, Some FDir}) [1, 2, 3]
     \<and> (case node_at f (blob_file root h) of
          None \<Rightarrow> True
        | Some (FFile k) \<Rightarrow> length (fd_content (inodes f k)) = len
        | Some _ \<Rightarrow> False)"

lemma blob_place_take:
  assumes "blob_place_ok root h len f" "real_dir f (store_names root)"
  shows "node_at f (store_names root @ take k [''blobs'', shard1 h, shard2 h]) \<in> {None, Some FDir}"
proof (cases k)
  case 0
  then show ?thesis using assms(2) by (simp add: real_dir_def)
next
  case (Suc m)
  consider "m = 0" | "m = 1" | "m \<ge> 2" by linarith
  then show ?thesis
  proof cases
    case 3
    then have "take k [''blobs'', shard1 h, shard2 h] = take 3 [''blobs'', shard1 h, shard2 h]" using Suc by simp
    then show ?thesis using assms(1) by (simp add: blob_place_ok_def)
  qed (use assms(1) Suc in \<open>simp_all add: blob_place_ok_def numeral_2_eq_2\<close>)
qed

lemma install_staged_ok:
  assumes can: "canonical (store_path root)" and dir: "real_dir f (store_names root)" and nf: "no_faults f"
    and name: "name_ok name" "real_parents f (staging_file root name)"
    and st: "node_at f (staging_file root name) = Some (FFile i)" and h: "hash_ok (hr_hash hr)"
    and place: "blob_place_ok root (hr_hash hr) len f" and len: "hr_size hr = of_nat len"
    and src: "source = FFile j" "identity_of (metadata_of f source) = identity_of before"
      "md_mtime before = md_mtime (metadata_of f source)"
  shows "\<exists>f' sb. install_staged root source_path (staging_path root name) i source before (of_nat len) hr f = (f', Inr sb)"
proof -
  let ?B = "blob_file root (hr_hash hr)" and ?T = "staging_file root name"
  let ?f1 = "f\<lparr>inodes := (inodes f)(i := (inodes f i)\<lparr>fd_readonly := True\<rparr>)\<rparr>"
  note b = blob_path_names[OF can h] and t = staging_path_names[OF can name(1)]
  have dir1: "real_dir ?f1 (store_names root)" using dir by (simp add: real_dir_def real_parents_def)
  have "node_at ?f1 (store_names root @ take k [''blobs'', shard1 (hr_hash hr), shard2 (hr_hash hr)]) \<in> {None, Some FDir}" for k
    using blob_place_take[OF place dir, of k] by simp
  then obtain f2 where en: "ensure_blob_parent root (Some (hr_hash hr)) ?f1 = (f2, Inr ())" and nf2: "no_faults f2"
    using ensure_each_ok[of ?f1 "store_names root" "[''blobs'', shard1 (hr_hash hr), shard2 (hr_hash hr)]"]
      nf dir1 store_names_ok[OF can] hash_okD[OF h] by (auto simp: ensure_blob_parent_def)
  note e = ensure_blob_parent_Inr[OF can h dir1 en]
  have ext: "extends_by ?f1 (blob_dirs root (hr_hash hr)) f2" using e by blast
  have T2: "node_at f2 ?T = Some (FFile i)" using extends_by_node[OF ext] st by simp
  have rpT: "real_parents f2 ?T" using name(2) extends_by_node[OF ext] by (simp add: real_parents_def)
  have TB: "?T \<noteq> []" "?B \<noteq> []" by (simp_all add: staging_file_def blob_file_def)
  have nodeB: "node_at f2 ?B = node_at f ?B"
    using ext blob_dirs_not_file(1)[of root "hr_hash hr"] unfolding extends_by_def by (metis node_at_inodes(1))
  have rpB: "real_parents f2 ?B" using e by blast
  have locT: "locate False (abs_path ?T) f2 = Inr ?T" using locate_real[OF t(2) rpT] by simp
  have locB: "locate False (abs_path ?B) f2 = Inr ?B" using locate_real[OF b(2) rpB] by simp
  have TpreB: "take k ?T \<noteq> ?B" for k
    by (cases k) (auto simp: staging_file_def blob_file_def blob_names_def take_Cons split: nat.splits
        dest: arg_cong[of _ _ length])
  have rm: "\<exists>f4. remove_file (abs_path ?T) g = Inr f4"
    if "node_at g ?T = Some (FFile i)" "real_parents g ?T" "no_faults g" for g
    using that locate_real[OF t(2) that(2), of False] by (simp add: remove_file_def)
  have inod: "inodes f2 = inodes ?f1" using ext by (simp add: extends_by_def)
  have pre: "handle_metadata source_path source f = Inr (metadata_of f source)" "md_kind (metadata_of f source) = KFile"
    "set_readonly_blob (staging_path root name) i f = Inr ?f1"
    using nf src(1) by (simp_all add: handle_metadata_def set_readonly_blob_def)
  have mt: "\<not> (case (md_mtime before, md_mtime (metadata_of f source)) of (Some a, Some b) \<Rightarrow> a \<noteq> b | _ \<Rightarrow> False)"
    using src(3) by (auto split: option.splits)
  show ?thesis
  proof (cases "node_at f ?B")
    case None
    let ?f3 = "set_node ?B (FFile i) f2"
    have "hard_link (abs_path ?T) (abs_path ?B) f2 = Inr ?f3"
      using nf2 locT T2 new_name_ok[OF b(2) rpB] None nodeB by (simp add: hard_link_def)
    moreover have "\<exists>f4. remove_file (abs_path ?T) ?f3 = Inr f4"
      using rm[of ?f3] T2 nf2 TB rpT TpreB by (simp add: real_parents_def)
    ultimately show ?thesis
      using pre mt en src(2) len unfolding install_staged_def Let_def t(1) b(1) by auto
  next
    case (Some n)
    then obtain k where k: "node_at f ?B = Some (FFile k)" "length (fd_content (inodes f k)) = len"
      using place by (auto simp: blob_place_ok_def split: node.splits)
    let ?f3 = "f2\<lparr>inodes := (inodes f2)(k := (inodes f2 k)\<lparr>fd_readonly := True\<rparr>)\<rparr>"
    have "hard_link (abs_path ?T) (abs_path ?B) f2 = Inl AlreadyExists"
      using nf2 locT locB T2 k nodeB by (simp add: hard_link_def new_name_def)
    moreover have "verify_and_make_existing_blob_readonly (abs_path ?B) (hr_size hr) f2 = Inr ?f3"
      using nf2 locB nodeB k len inod
      by (auto simp add: verify_and_make_existing_blob_readonly_def open_no_follow_def verify_opened_blob_def handle_metadata_def
          set_readonly_blob_def metadata_of_def)
    moreover have "\<exists>f4. remove_file (abs_path ?T) ?f3 = Inr f4"
      using rm[of ?f3] T2 nf2 rpT by (simp add: real_parents_def)
    ultimately show ?thesis
      using pre mt en src(2) len unfolding install_staged_def Let_def t(1) b(1) by auto
  qed
qed


lemma digest_hash_ok: "blake3_laws b \<Longrightarrow> hash_ok (digest b content)"
  by (simp add: blake3_laws_def digest_def hash_ok_def)

text \<open>The state after the copy: a new inode with the content, under the staging name only.\<close>

definition staged :: "store_root \<Rightarrow> string \<Rightarrow> string \<Rightarrow> fs \<Rightarrow> fs" where
  "staged root name content f =
     write_inode (next_inode f) content
       ((set_node (staging_file root name) (FFile (next_inode f)) f)\<lparr>next_inode := next_inode f + 1,
          inodes := (inodes f)(next_inode f := \<lparr>fd_content = [], fd_mtime = None, fd_readonly = False\<rparr>)\<rparr>)"

lemma staged_simps [simp]:
  "node_at (staged root name content f) ns = (if ns = staging_file root name then Some (FFile (next_inode f)) else node_at f ns)"
  "k \<noteq> next_inode f \<Longrightarrow> inodes (staged root name content f) k = inodes f k"
  "fd_content (inodes (staged root name content f) (next_inode f)) = content"
  "no_faults (staged root name content f) = no_faults f"
  "fs_device (staged root name content f) = fs_device f"
  by (simp_all add: staged_def staging_file_def write_inode_def)

lemma metadata_staged: "j \<noteq> next_inode f \<Longrightarrow> metadata_of (staged root name content f) (FFile j) = metadata_of f (FFile j)"
  by (simp add: metadata_of_def)

lemma ingest_steps:
  assumes can: "canonical (store_path root)" and nf: "no_faults f"
    and name: "name_ok name" "real_parents f (staging_file root name)" "node_at f (staging_file root name) = None"
    and src: "locate False source_path f = Inr ns" "node_at f ns = Some (FFile j)" "fd_content (inodes f j) = content"
    and io: "delivers (read_chunk io) chunk (open_read io content) content" "write_chunk io = append_write"
    and b: "blake3_laws b" "permits obs" "length content < 2 ^ 64"
  shows "\<exists>ob'. ingest_file_with_read_observer b io obs id id root name source_path (of_nat (length content)) chunk f ob =
     (case install_staged root source_path (staging_path root name) (next_inode f) (FFile j) (metadata_of f (FFile j))
             (of_nat (length content)) \<lparr>hr_hash = digest b content, hr_size = of_nat (length content)\<rparr>
             (staged root name content f) of
        (f', res) \<Rightarrow> Some (f', ob', res))"
proof -
  note t = staging_path_names[OF can name(1)]
  obtain ob' where cp: "hash_reader_to_writer_with_chunk_observer b (read_chunk io) (write_chunk io)
      (open_read io content) [] chunk obs ob = Some (content, ob', Inr \<lparr>hr_hash = digest b content, hr_size = of_nat (length content)\<rparr>)"
    using copy_reader_correct[OF io(1) b] io(2) by metis
  have cn: "create_new (staging_path root name) f =
      Inr ((set_node (staging_file root name) (FFile (next_inode f)) f)\<lparr>next_inode := next_inode f + 1,
          inodes := (inodes f)(next_inode f := \<lparr>fd_content = [], fd_mtime = None, fd_readonly = False\<rparr>)\<rparr>, next_inode f)"
    using nf new_name_ok[OF t(2) name(2,3)] by (simp add: create_new_def t(1) Let_def)
  have sm: "symlink_metadata source_path f = Inr (metadata_of f (FFile j))" "open_no_follow source_path f = Inr (FFile j)"
    "handle_metadata source_path (FFile j) f = Inr (metadata_of f (FFile j))" "md_kind (metadata_of f (FFile j)) = KFile"
    using nf src by (simp_all add: symlink_metadata_def open_no_follow_def handle_metadata_def)
  show ?thesis
    by (rule exI[of _ ob'])
      (simp add: ingest_file_with_read_observer_def Let_def sm cn src(3) cp staged_def)
qed

text \<open>Every blob of the store is named after the digest of what it holds.\<close>

definition blobs_sound :: "'h blake3 \<Rightarrow> store_root \<Rightarrow> fs \<Rightarrow> bool" where
  "blobs_sound b root f \<longleftrightarrow>
     (\<forall>h k. hash_ok h \<and> node_at f (blob_file root h) = Some (FFile k) \<longrightarrow> digest b (fd_content (inodes f k)) = h)"

lemma blob_file_not_dir: "blob_file root h \<notin> blob_dirs root h'"
  by (auto simp: blob_dirs_def blob_file_def blob_names_def take_Cons split: nat.splits)

text \<open>A store stays sound when one file is added under its digest and nothing else changes.\<close>

lemma blobs_sound_install:
  assumes "fs_ok f" "blobs_sound b root f" "node_at f' (blob_file root (digest b content)) = Some (FFile k)"
    "fd_content (inodes f' k) = content \<or> node_at f (blob_file root (digest b content)) = Some (FFile k)"
    "\<forall>ms. ms \<notin> insert (blob_file root (digest b content)) (blob_dirs root (digest b content)) \<longrightarrow> node_at f' ms = node_at f ms"
    "\<forall>k<next_inode f. fd_content (inodes f' k) = fd_content (inodes f k)"
  shows "blobs_sound b root f'"
  unfolding blobs_sound_def
proof (intro allI impI)
  fix h j assume h: "hash_ok h \<and> node_at f' (blob_file root h) = Some (FFile j)"
  have old: "digest b (fd_content (inodes f' j)) = h" if "node_at f (blob_file root h) = Some (FFile j)"
    using that h assms(2,6) fs_ok_inode[OF assms(1) that] by (simp add: blobs_sound_def)
  show "digest b (fd_content (inodes f' j)) = h"
  proof (cases "h = digest b content")
    case True
    then show ?thesis using old h assms(3,4) by auto
  next
    case False
    then have "node_at f' (blob_file root h) = node_at f (blob_file root h)"
      using assms(5) blob_file_not_dir[of root h] by (simp add: blob_file_inj)
    then show ?thesis using old h by simp
  qed
qed

text \<open>
  C4 (functional). On a well-formed store where no call fails, ingesting a regular file terminates
  and succeeds: it returns the digest and the length of the content, and the name of the digest
  is a read-only file of that length. If the name was free, the file holds exactly the bytes of
  the source and is reported as created. If a file of that length was there, that very file is
  kept with its bytes, which are not read again, and it is reported as reused. If every blob was
  named after its digest before, so it is afterwards, so that a reused blob has the digest of the
  source too. The staging name is gone, and no other name and no content of any file that existed
  has changed.
\<close>

theorem ingest_installs_content:
  assumes store: "store_ok root f" "real_dir f (store_names root @ [''staging''])" "no_faults f"
    and name: "name_ok name" "node_at f (staging_file root name) = None"
    and src: "locate False source_path f = Inr ns" "node_at f ns = Some (FFile j)" "fd_content (inodes f j) = content"
    and io: "delivers (read_chunk io) chunk (open_read io content) content" "write_chunk io = append_write"
    and b: "blake3_laws b" "permits obs" "length content < 2 ^ 64"
    and place: "blob_place_ok root (digest b content) (length content) f"
  shows "\<exists>f' ob' sb. ingest_file_with_read_observer b io obs id id root name source_path (of_nat (length content)) chunk f ob
        = Some (f', ob', Inr sb)
    \<and> sb_hash sb = digest b content \<and> unat (sb_size sb) = length content
    \<and> node_at f' (staging_file root name) = None
    \<and> (\<exists>k. node_at f' (blob_file root (digest b content)) = Some (FFile k) \<and> fd_readonly (inodes f' k) \<and>
        length (fd_content (inodes f' k)) = length content \<and>
        (if node_at f (blob_file root (digest b content)) = None
         then sb_outcome sb = Created \<and> fd_content (inodes f' k) = content
         else sb_outcome sb = Reused \<and> node_at f (blob_file root (digest b content)) = Some (FFile k)))
    \<and> (\<forall>ms. ms \<notin> insert (blob_file root (digest b content)) (blob_dirs root (digest b content)) \<longrightarrow> node_at f' ms = node_at f ms)
    \<and> (\<forall>k<next_inode f. fd_content (inodes f' k) = fd_content (inodes f k))
    \<and> (blobs_sound b root f \<longrightarrow> blobs_sound b root f')"
proof -
  let ?hr = "\<lparr>hr_hash = digest b content, hr_size = of_nat (length content)\<rparr> :: hash_result"
  let ?g = "staged root name content f" and ?T = "staging_file root name" and ?h = "digest b content"
  have can: "canonical (store_path root)" and dir: "real_dir f (store_names root)" and fsok: "fs_ok f"
    using store(1) by (auto simp: store_ok_def)
  have rpT: "real_parents f ?T"
    using store(2) real_parents_snoc[of f "store_names root @ [''staging'']" name] by (simp add: staging_file_def)
  have j: "j \<noteq> next_inode f" using fs_ok_inode[OF fsok src(2)] by simp
  obtain ob' where ing: "ingest_file_with_read_observer b io obs id id root name source_path (of_nat (length content)) chunk f ob =
     (case install_staged root source_path (staging_path root name) (next_inode f) (FFile j) (metadata_of f (FFile j))
             (of_nat (length content)) ?hr ?g of (f', res) \<Rightarrow> Some (f', ob', res))"
    using ingest_steps[OF can store(3) name(1) rpT name(2) src io b] by blast
  have keep: "node_at ?g ms = Some n" if "node_at f ms = Some n" for ms n using that name(2) by auto
  have dirg: "real_dir ?g (store_names root)" using real_dir_mono[OF dir] keep by blast
  have rpg: "real_parents ?g ?T" using rpT keep unfolding real_parents_def by blast
  have nB: "node_at ?g (blob_file root ?h) = node_at f (blob_file root ?h)"
    using blob_file_ne_staging[of root ?h name] by simp
  have placeg: "blob_place_ok root ?h (length content) ?g"
    using place fs_ok_inode[OF fsok, of "blob_file root ?h"] nB
    unfolding blob_place_ok_def by (auto simp: staging_file_def split: option.splits node.splits if_splits)
  obtain f' sb where ins: "install_staged root source_path (staging_path root name) (next_inode f) (FFile j)
      (metadata_of f (FFile j)) (of_nat (length content)) ?hr ?g = (f', Inr sb)"
    using install_staged_ok[OF can dirg _ name(1) rpg, of "next_inode f" ?hr "length content" "FFile j" j
        "metadata_of f (FFile j)" source_path]
      store(3) placeg digest_hash_ok[OF b(1)] j by (auto simp: metadata_staged)
  note sp = install_staged_spec[OF can dirg name(1) rpg _ _ ins]
  have st: "node_at ?g ?T = Some (FFile (next_inode f))" "hash_ok (hr_hash ?hr)"
    using digest_hash_ok[OF b(1)] by simp_all
  obtain k where k: "node_at f' (blob_file root ?h) = Some (FFile k)" "fd_readonly (inodes f' k)"
      "if node_at f (blob_file root ?h) = None then sb_outcome sb = Created \<and> fd_content (inodes f' k) = content
       else sb_outcome sb = Reused \<and> node_at f (blob_file root ?h) = Some (FFile k)"
    using sp(5)[OF st] sp(7)[OF st, of "next_inode f"] nB by auto
  have frame: "\<forall>ms. ms \<notin> insert (blob_file root ?h) (blob_dirs root ?h) \<longrightarrow> node_at f' ms = node_at f ms"
  proof (intro allI impI)
    fix ms assume "ms \<notin> insert (blob_file root ?h) (blob_dirs root ?h)"
    then show "node_at f' ms = node_at f ms" using sp(4)[OF st] sp(6)[OF st, of ms] name(2) by (cases "ms = ?T") auto
  qed
  have kept: "\<forall>k<next_inode f. fd_content (inodes f' k) = fd_content (inodes f k)" using sp(7)[OF st] by simp
  have "length (fd_content (inodes f' k)) = length content"
    using k(3) place kept fs_ok_inode[OF fsok, of "blob_file root ?h" k] by (auto simp: blob_place_ok_def split: if_splits)
  moreover have "blobs_sound b root f'" if "blobs_sound b root f"
    by (rule blobs_sound_install[OF fsok that k(1) _ frame kept]) (use k(3) in \<open>auto split: if_splits\<close>)
  moreover have "unat (sb_size sb) = length content" using sp(2)[OF st] b(3) unat_of_nat_u64 by simp
  ultimately show ?thesis using ing ins sp(1,4)[OF st] k frame kept by auto
qed


definition sample_root :: store_root where
  "sample_root = \<lparr>store_path = ''/s''\<rparr>"

definition sample_fs :: fs where
  "sample_fs = \<lparr>nodes = [([''s''], FDir), ([''s'', ''staging''], FDir), ([''src''], FDir), ([''src'', ''a''], FFile 0)],
     inodes = (\<lambda>_. \<lparr>fd_content = ''hi'', fd_mtime = Some 7, fd_readonly = False\<rparr>), next_inode = 1, fs_device = 0,
     faults = (\<lambda>_ _. None)\<rparr>"

definition plain_io :: "string file_io" where
  "plain_io = \<lparr>open_read = (\<lambda>c. c), read_chunk = file_read, write_chunk = append_write\<rparr>"

lemma sample_root_abs: "store_path sample_root = abs_path [''s'']"
  by (simp add: sample_root_def abs_path_def)

lemma sample_names: "store_names sample_root = [''s'']" "canonical (store_path sample_root)"
proof -
  have "list_all name_ok [''s'']" by (simp add: name_ok_def)
  then show "store_names sample_root = [''s'']" "canonical (store_path sample_root)"
    unfolding store_names_def sample_root_abs by (simp_all only: path_names_abs_path canonical_abs_path)
qed


lemma sample_real_dirs: "real_dir sample_fs [''s'']" "real_dir sample_fs [''s'', ''staging'']"
  by (auto simp: real_dir_def real_parents_def node_at_def sample_fs_def less_Suc_eq)

lemma sample_store_ok: "store_ok sample_root sample_fs"
  using sample_names sample_real_dirs by (simp add: store_ok_def fs_ok_def sample_fs_def name_ok_def node_at_def)

lemma sample_source: "locate False ''/src/a'' sample_fs = Inr [''src'', ''a'']"
proof -
  have "list_all name_ok [''src'', ''a'']" by (simp add: name_ok_def)
  moreover have "real_parents sample_fs [''src'', ''a'']"
    by (auto simp: real_parents_def node_at_def sample_fs_def less_Suc_eq)
  moreover have "abs_path [''src'', ''a''] = ''/src/a''" by (simp add: abs_path_def)
  ultimately show ?thesis using locate_real[of "[''src'', ''a'']" sample_fs False] by simp
qed

lemma sample_place: "blob_place_ok sample_root h n sample_fs"
  unfolding blob_place_ok_def blob_file_def blob_names_def sample_names
  by (simp add: node_at_def sample_fs_def)

theorem ingest_installs_content_witness:
  "\<exists>f' sb. ingest_file_with_read_observer toy_blake3 plain_io silent id id sample_root ''t'' ''/src/a'' 2 4096 sample_fs ()
     = Some (f', (), Inr sb) \<and> sb_hash sb = digest toy_blake3 ''hi'' \<and> sb_outcome sb = Created
     \<and> (\<exists>k. node_at f' (blob_file sample_root (digest toy_blake3 ''hi'')) = Some (FFile k) \<and> fd_content (inodes f' k) = ''hi'')"
proof -
  have "blob_file sample_root h \<notin> set (map fst (nodes sample_fs))" for h
    by (simp add: sample_fs_def blob_file_def sample_names blob_names_def)
  then have "node_at sample_fs (blob_file sample_root h) = None" for h
    by (simp add: node_at_def map_of_eq_None_iff blob_file_def)
  moreover have "name_ok ''t''" "node_at sample_fs (staging_file sample_root ''t'') = None"
    "node_at sample_fs [''src'', ''a''] = Some (FFile 0)" "fd_content (inodes sample_fs 0) = ''hi''"
    "no_faults sample_fs" "write_chunk plain_io = append_write"
    "delivers (read_chunk plain_io) 4096 (open_read plain_io ''hi'') ''hi''" "length ''hi'' < 2 ^ 64"
    by (simp_all add: name_ok_def node_at_def sample_fs_def staging_file_def sample_names no_faults_def plain_io_def file_delivers)
  ultimately show ?thesis
    using ingest_installs_content[OF sample_store_ok _ _ _ _ sample_source _ _ _ _ toy_blake3_laws permits_silent _ sample_place,
        of "''t''" 0 "''hi''" plain_io 4096 "()"] sample_real_dirs(2) by (force simp: sample_names)
qed



section \<open>Inspecting: what it finds\<close>

lemma fold_option_invariant:
  assumes "fold_option g s xs = Some s'" "P s"
    "\<And>t x t'. x \<in> set xs \<Longrightarrow> P t \<Longrightarrow> g t x = Some t' \<Longrightarrow> P t'"
  shows "P s'"
  using assms
proof (induction xs arbitrary: s)
  case (Cons x xs)
  then obtain s1 where s1: "g s x = Some s1" "fold_option g s1 xs = Some s'" by (auto split: option.splits)
  have "P s1" using Cons.prems(2,3) s1(1) by auto
  then show ?case using Cons.IH[OF s1(2)] Cons.prems(3) by auto
qed auto

lemma fold_option_total: "(\<And>t x. x \<in> set xs \<Longrightarrow> g t x \<noteq> None) \<Longrightarrow> fold_option g s xs \<noteq> None"
  by (induction xs arbitrary: s) (auto split: option.splits)

lemma fold_option_split:
  "fold_option g s (xs @ ys) = (case fold_option g s xs of None \<Rightarrow> None | Some t \<Rightarrow> fold_option g t ys)"
  by (induction xs arbitrary: s) (auto split: option.splits)

definition grows :: "cas_inspection \<Rightarrow> cas_inspection \<Rightarrow> bool" where
  "grows a b \<longleftrightarrow> set (ci_valid a) \<subseteq> set (ci_valid b) \<and> (ci_complete b \<longrightarrow> ci_complete a) \<and> prefix (ci_findings a) (ci_findings b)
     \<and> (\<not> ci_complete b \<longrightarrow> \<not> ci_complete a \<or> ci_findings b \<noteq> [])"

lemma grows_refl: "grows a a" by (simp add: grows_def)
lemma grows_trans: "grows a b \<Longrightarrow> grows b c \<Longrightarrow> grows a c" by (auto simp: grows_def intro: prefix_order.trans)

lemma grows_steps: "grows a (cas_finding cat r d a)" "grows a (cas_io_error r d a)"
  "grows a (a\<lparr>ci_valid := List.insert h (ci_valid a)\<rparr>)" "\<not> ci_complete (cas_io_error r d a)"
  by (auto simp: grows_def cas_finding_def cas_io_error_def push_finding_def)

lemma walk_entryE:
  assumes "walk_entry walk f p r anc ins = Some ins'"
  obtains
    (stat) e where "symlink_metadata p f = Inl e" "ins' = cas_io_error r ''reason=stat-failed'' ins"
  | (blob) m h where "symlink_metadata p f = Inr m" "classify_cas_entry r (md_kind m) anc = ValidBlob h"
      "ins' = ins\<lparr>ci_valid := List.insert h (ci_valid ins)\<rparr>"
  | (other) m why where "symlink_metadata p f = Inr m" "classify_cas_entry r (md_kind m) anc = Invalid why"
      "md_kind m \<noteq> KDirectory" "ins' = cas_finding ''INVALID_CAS_ENTRY'' r (''reason='' @ why) ins"
  | (dir) m ins1 valid i res where "symlink_metadata p f = Inr m" "md_kind m = KDirectory"
      "classify_cas_entry r (md_kind m) anc = ValidDirectory \<longleftrightarrow> valid" "grows ins ins1" "ci_valid ins1 = ci_valid ins"
      "walk p r valid ins1 = Some (i, res)"
      "ins' = (if is_ok res then i else cas_io_error r ''reason=enumeration-failed'' i)"
proof (cases "symlink_metadata p f")
  case (Inl e)
  then show ?thesis using assms stat by (simp add: walk_entry_def)
next
  case (Inr m)
  show ?thesis
  proof (cases "classify_cas_entry r (md_kind m) anc")
    case ValidDirectory
    then have "md_kind m = KDirectory" by (simp add: classify_directory)
    moreover obtain i res where "walk p r True ins = Some (i, res)"
      "ins' = (if is_ok res then i else cas_io_error r ''reason=enumeration-failed'' i)"
      using assms Inr ValidDirectory by (auto simp: walk_entry_def)
    ultimately show ?thesis using dir[of m True ins i res] Inr ValidDirectory grows_refl by blast
  next
    case (ValidBlob h)
    then show ?thesis using assms Inr blob by (simp add: walk_entry_def)
  next
    case (Invalid why)
    let ?i1 = "cas_finding ''INVALID_CAS_ENTRY'' r (''reason='' @ why) ins"
    show ?thesis
    proof (cases "md_kind m = KDirectory")
      case True
      then obtain i res where "walk p r False ?i1 = Some (i, res)"
        "ins' = (if is_ok res then i else cas_io_error r ''reason=enumeration-failed'' i)"
        using assms Inr Invalid by (auto simp: walk_entry_def Let_def)
      then show ?thesis using dir[of m False ?i1 i res] Inr Invalid True grows_steps(1)
        by (simp add: cas_finding_def)
    next
      case False
      then show ?thesis using assms Inr Invalid other by (simp add: walk_entry_def Let_def)
    qed
  qed
qed

lemma walk_entry_grows:
  assumes "\<And>p r anc i i' res. walk p r anc i = Some (i', res) \<Longrightarrow> grows i i'"
    "walk_entry walk f p r anc ins = Some ins'"
  shows "grows ins ins'"
  using assms(2)
proof (cases rule: walk_entryE)
  case (dir m ins1 valid i res)
  have "grows ins i" using grows_trans[OF dir(4) assms(1)[OF dir(6)]] .
  then show ?thesis using dir(7) grows_trans[OF _ grows_steps(2)] by simp
qed (use grows_steps in auto)

lemma walk_cas_grows: "walk_cas n f dir rel anc ins = Some (ins', res) \<Longrightarrow> grows ins ins'"
proof (induction n arbitrary: dir rel anc ins ins' res)
  case (Suc n)
  show ?case
  proof (cases "read_dir dir f")
    case (Inl e)
    then show ?thesis using Suc.prems by (simp add: grows_refl)
  next
    case (Inr names)
    then have fold: "fold_option (\<lambda>i x. walk_entry (walk_cas n f) f (path_join dir x) (rel @ [x]) anc i) ins (sort names) = Some ins'"
      using Suc.prems by auto
    show ?thesis
    proof (rule fold_option_invariant[where P = "grows ins", OF fold grows_refl])
      fix t x t'
      assume "grows ins t" and w: "walk_entry (walk_cas n f) f (path_join dir x) (rel @ [x]) anc t = Some t'"
      then show "grows ins t'" using walk_entry_grows[OF _ w] Suc.IH grows_trans by blast
    qed
  qed
qed simp

lemma walk_entry_cas_grows: "walk_entry (walk_cas n f) f p r anc a = Some a' \<Longrightarrow> grows a a'"
  by (erule walk_entry_grows[rotated]) (rule walk_cas_grows)

text \<open>Enumerating a real directory gives the names below it.\<close>

lemma read_dir_real:
  assumes "list_all name_ok ns" "real_dir f ns" "read_dir (abs_path ns) f = Inr names"
  shows "x \<in> set names \<longleftrightarrow> (\<exists>n. (ns @ [x], n) \<in> set (nodes f))"
proof -
  have "locate True (abs_path ns) f = Inr ns"
    using locate_real[OF assms(1)] assms(2) by (simp add: real_dir_def)
  then have "names = children ns f"
    using assms(2,3) by (auto simp: read_dir_def real_dir_def io_bind_Inr)
  then show ?thesis
    by (force simp: children_def image_iff)
qed

lemma max_depth_bound: "(p, n) \<in> set (nodes f) \<Longrightarrow> length p \<le> max_depth f"
proof -
  have "acc \<le> fold (\<lambda>(p, _) m. max (length p) m) xs acc \<and>
      (\<forall>(p, _)\<in>set xs. length p \<le> fold (\<lambda>(p, _) m. max (length p) m) xs acc)" for acc and xs :: "(string list \<times> node) list"
  proof (induction xs arbitrary: acc)
    case (Cons a xs)
    show ?case using Cons[of "max (length (fst a)) acc"] by (auto simp: case_prod_unfold)
  qed auto
  then show "(p, n) \<in> set (nodes f) \<Longrightarrow> length p \<le> max_depth f" unfolding max_depth_def by blast
qed


lemma nodes_name_ok: "fs_ok f \<Longrightarrow> (p, n) \<in> set (nodes f) \<Longrightarrow> list_all name_ok p"
  by (auto simp: fs_ok_def list_all_iff)

lemma dir_entry:
  assumes "fs_ok f" "list_all name_ok ns" "real_dir f ns" "read_dir (abs_path ns) f = Inr names" "x \<in> set names"
  shows "list_all name_ok (ns @ [x])" "path_join (abs_path ns) x = abs_path (ns @ [x])" "real_parents f (ns @ [x])"
    "length ns < max_depth f"
proof -
  obtain n where n: "(ns @ [x], n) \<in> set (nodes f)" using read_dir_real[OF assms(2-4)] assms(5) by blast
  show ok: "list_all name_ok (ns @ [x])" using nodes_name_ok[OF assms(1) n] .
  show "path_join (abs_path ns) x = abs_path (ns @ [x])" using ok by (simp add: path_join_abs_path)
  show "real_parents f (ns @ [x])" using assms(3) by (simp add: real_parents_snoc)
  show "length ns < max_depth f" using max_depth_bound[OF n] by simp
qed

text \<open>The bound on the depth is enough: the walk of a real directory always returns.\<close>

lemma walk_cas_returns:
  assumes "fs_ok f" "list_all name_ok ns" "real_dir f ns" "max_depth f + 2 \<le> n + length ns" "0 < n"
  shows "walk_cas n f (abs_path ns) rel anc ins \<noteq> None"
  using assms(2-5)
proof (induction n arbitrary: ns rel anc ins)
  case (Suc n)
  show ?case
  proof (cases "read_dir (abs_path ns) f")
    case (Inr names)
    have "walk_entry (walk_cas n f) f (path_join (abs_path ns) x) (rel @ [x]) anc t \<noteq> None" if x: "x \<in> set names" for t x
    proof -
      note d = dir_entry[OF assms(1) Suc.prems(1,2) Inr x]
      have "walk_cas n f (abs_path (ns @ [x])) (rel @ [x]) v i \<noteq> None" if "node_at f (ns @ [x]) = Some FDir" for v i
      proof (rule Suc.IH)
        show "real_dir f (ns @ [x])" using that d(3) by (simp add: real_dir_def)
        show "max_depth f + 2 \<le> n + length (ns @ [x])" using Suc.prems(3) by simp
        show "0 < n" using Suc.prems(3) d(4) by linarith
      qed (rule d(1))
      moreover have "node_at f (ns @ [x]) = Some FDir"
        if "symlink_metadata (abs_path (ns @ [x])) f = Inr m" "md_kind m = KDirectory" for m
        using symlink_metadata_Inr[OF d(1,3) that(1)] that(2) by auto
      ultimately show ?thesis
        unfolding walk_entry_def d(2) Let_def
        by (auto simp: classify_directory split: sum.splits cas_classification.splits)
    qed
    then have "fold_option (\<lambda>i x. walk_entry (walk_cas n f) f (path_join (abs_path ns) x) (rel @ [x]) anc i) ins (sort names) \<noteq> None"
      by (intro fold_option_total) simp
    then show ?thesis using Inr by simp
  qed simp
qed simp

text \<open>Soundness: what is listed as a blob is a regular file in the place of its hash.\<close>

definition blob_at :: "fs \<Rightarrow> string list \<Rightarrow> blob_hash \<Rightarrow> bool" where
  "blob_at f bs h \<longleftrightarrow> hash_ok h \<and> (\<exists>i. node_at f (bs @ blob_names h) = Some (FFile i))"

lemma walk_cas_sound:
  assumes "fs_ok f" "list_all name_ok (bs @ rel)" "real_dir f (bs @ rel)"
    "walk_cas n f (abs_path (bs @ rel)) rel anc ins = Some (ins', res)"
    "\<forall>h\<in>set (ci_valid ins). blob_at f bs h"
  shows "\<forall>h\<in>set (ci_valid ins'). blob_at f bs h"
  using assms(2-)
proof (induction n arbitrary: rel anc ins ins' res)
  case (Suc n)
  show ?case
  proof (cases "read_dir (abs_path (bs @ rel)) f")
    case (Inl e)
    then show ?thesis using Suc.prems by simp
  next
    case (Inr names)
    have fold: "fold_option (\<lambda>i x. walk_entry (walk_cas n f) f (path_join (abs_path (bs @ rel)) x) (rel @ [x]) anc i) ins (sort names) = Some ins'"
      using Suc.prems(3) Inr by auto
    show ?thesis
    proof (rule fold_option_invariant[where P = "\<lambda>i. \<forall>h\<in>set (ci_valid i). blob_at f bs h", OF fold Suc.prems(4)])
      fix t x t'
      assume x: "x \<in> set (sort names)" and t: "\<forall>h\<in>set (ci_valid t). blob_at f bs h"
        and w: "walk_entry (walk_cas n f) f (path_join (abs_path (bs @ rel)) x) (rel @ [x]) anc t = Some t'"
      note d = dir_entry[OF assms(1) Suc.prems(1,2) Inr, of x]
      have d: "list_all name_ok (bs @ rel @ [x])" "path_join (abs_path (bs @ rel)) x = abs_path (bs @ rel @ [x])"
        "real_parents f (bs @ rel @ [x])" using d x by simp_all
      from w show "\<forall>h\<in>set (ci_valid t'). blob_at f bs h"
      proof (cases rule: walk_entryE)
        case (blob m h)
        then show ?thesis using t symlink_metadata_Inr[OF d(1,3)] d(2)
          by (auto simp: classify_blob blob_at_def)
      next
        case (dir m ins1 valid i res)
        have "real_dir f (bs @ rel @ [x])"
          using symlink_metadata_Inr[OF d(1,3)] dir(1,2) d(2,3) by (auto simp: real_dir_def)
        moreover have "\<forall>h\<in>set (ci_valid ins1). blob_at f bs h" using t dir(5) by simp
        ultimately have "\<forall>h\<in>set (ci_valid i). blob_at f bs h"
          using Suc.IH[of "rel @ [x]" valid ins1 i res] d dir(6) by simp
        then show ?thesis using dir(7) by (simp add: cas_io_error_def cas_finding_def)
      qed (use t in \<open>simp_all add: cas_io_error_def cas_finding_def\<close>)
    qed
  qed
qed simp


lemma read_dir_has:
  assumes "fs_ok f" "list_all name_ok ns" "real_dir f ns" "read_dir (abs_path ns) f = Inr names" "node_at f (ns @ [x]) = Some n"
  shows "x \<in> set names"
  using assms(5) read_dir_real[OF assms(2-4)] by (auto simp: node_at_def dest: map_of_SomeD)

lemma blob_names_inj: "blob_names h = blob_names h' \<Longrightarrow> h = h'"
  by (cases h; cases h') (simp add: blob_names_def)

lemma blob_names_split:
  assumes "blob_names h = rel @ x # rest" "hash_ok h" "rest \<noteq> []"
  shows "length (rel @ [x]) \<le> 2 \<and> list_all valid_shard (rel @ [x])"
proof -
  have len: "length (rel @ [x]) \<le> 2"
  proof -
    have "length (blob_names h) = 3" by (simp add: blob_names_def)
    then have "length (rel @ x # rest) = 3" using assms(1) by simp
    then show ?thesis using assms(3) by (cases rest) auto
  qed
  have "rel @ [x] = take (length (rel @ [x])) (blob_names h)" using assms(1) by simp
  also have "\<dots> = take (length (rel @ [x])) [shard1 h, shard2 h]" using len by (simp add: blob_names_def take_Cons split: nat.splits)
  finally have eq: "rel @ [x] = take (length (rel @ [x])) [shard1 h, shard2 h]" .
  have "list_all valid_shard (take (length (rel @ [x])) [shard1 h, shard2 h])"
    using shards_valid[OF assms(2)] by (intro list_all_take) simp
  then show ?thesis using len eq by metis
qed

lemma walk_cas_complete:
  assumes "fs_ok f" "hash_ok h" "node_at f (bs @ blob_names h) = Some (FFile i)"
    "list_all name_ok (bs @ rel)" "real_dir f (bs @ rel)" "blob_names h = rel @ x # rest"
    "walk_cas n f (abs_path (bs @ rel)) rel True ins = Some (ins', Inr u)" "ci_complete ins'"
  shows "h \<in> set (ci_valid ins')"
  using assms(4-)
proof (induction n arbitrary: rel x rest ins ins' u)
  case (Suc n)
  obtain names where names: "read_dir (abs_path (bs @ rel)) f = Inr names"
    using Suc.prems(4) by (auto split: sum.splits)
  let ?g = "\<lambda>i x. walk_entry (walk_cas n f) f (path_join (abs_path (bs @ rel)) x) (rel @ [x]) True i"
  have fold: "fold_option ?g ins (sort names) = Some ins'" using Suc.prems(4) names by auto
  have node: "node_at f (bs @ rel @ [x]) = Some (if rest = [] then FFile i else FDir)"
  proof (cases "rest = []")
    case True
    then show ?thesis using assms(3) Suc.prems(3) by simp
  next
    case False
    have "real_parents f (bs @ blob_names h)" using fs_ok_real_parents[OF assms(1,3)] .
    then have "node_at f (take (length (bs @ rel @ [x])) (bs @ blob_names h)) = Some FDir"
      using Suc.prems(3) False unfolding real_parents_def by (metis add_less_cancel_left append.assoc append_Cons append_Nil
          length_append length_greater_0_conv less_add_same_cancel1)
    then show ?thesis using Suc.prems(3) False by simp
  qed
  then have "x \<in> set (sort names)"
    using read_dir_has[OF assms(1) Suc.prems(1,2) names] by simp
  then obtain xs ys where xs: "sort names = xs @ x # ys" by (meson split_list)
  obtain t t' where t: "?g t x = Some t'" and rest: "fold_option ?g t' ys = Some ins'"
    using fold unfolding xs by (auto simp: fold_option_split split: option.splits)
  have gr: "grows t' ins'"
  proof (rule fold_option_invariant[where P = "grows t'", OF rest grows_refl])
    fix a y a'
    assume "grows t' a" and w: "?g a y = Some a'"
    then show "grows t' a'" using walk_entry_cas_grows[OF w] grows_trans by blast
  qed
  have comp: "ci_complete t'" using gr Suc.prems(5) by (simp add: grows_def)
  note d0 = dir_entry[OF assms(1) Suc.prems(1,2) names, of x]
  have d: "list_all name_ok (bs @ rel @ [x])" "path_join (abs_path (bs @ rel)) x = abs_path (bs @ rel @ [x])"
    "real_parents f (bs @ rel @ [x])" using d0 \<open>x \<in> set (sort names)\<close> by simp_all
  have "h \<in> set (ci_valid t')"
    using t
  proof (cases rule: walk_entryE)
    case (stat e)
    then show ?thesis using comp grows_steps(4) by simp
  next
    case (blob m h')
    then have "rest = []" using symlink_metadata_Inr[OF d(1,3)] node d(2) by (auto simp: classify_blob split: if_splits)
    then have "h' = h" using blob(2) Suc.prems(3) blob_names_inj by (simp add: classify_blob)
    then show ?thesis using blob(3) by simp
  next
    case (other m why)
    then have m: "m = metadata_of f (if rest = [] then FFile i else FDir)"
      using symlink_metadata_Inr[OF d(1,3)] node d(2) by auto
    then have "rest = []" using other(3) by (auto split: if_splits)
    then have "classify_cas_entry (rel @ [x]) (md_kind m) True = ValidBlob h"
      using m Suc.prems(3) assms(2) by (simp add: classify_blob)
    then show ?thesis using other(2) by simp
  next
    case (dir m ins1 valid i' res)
    then have m: "m = metadata_of f (if rest = [] then FFile i else FDir)"
      using symlink_metadata_Inr[OF d(1,3)] node d(2) by auto
    have ne: "rest \<noteq> []" using dir(2) m by (auto split: if_splits)
    then obtain y ys' where y: "rest = y # ys'" by (cases rest) auto
    have v: "valid" using dir(2,3) blob_names_split[OF Suc.prems(3) assms(2) ne] by (simp add: classify_directory)
    have ok: "is_ok res" using dir(7) comp grows_steps(4) by (auto split: if_splits)
    then obtain u' where res: "res = Inr u'" by (auto simp: is_ok_iff)
    have "real_dir f (bs @ rel @ [x])" using node ne d(3) by (simp add: real_dir_def)
    then show ?thesis
      using Suc.IH[of "rel @ [x]" y ys' ins1 i' u'] d(1,2) y dir(6,7) v res ok comp Suc.prems(3) by simp
  qed
  then show ?case using gr by (auto simp: grows_def)
qed simp


lemma inspect_cas_spec:
  assumes "store_ok root f" "real_dir f (store_names root @ [''blobs''])"
  obtains ins where "inspect_cas root f = Some ins"
    "\<And>h. h \<in> set (ci_valid ins) \<Longrightarrow> blob_at f (store_names root @ [''blobs'']) h"
    "\<And>h. ci_complete ins \<Longrightarrow> blob_at f (store_names root @ [''blobs'']) h \<Longrightarrow> h \<in> set (ci_valid ins)"
    "\<not> ci_complete ins \<Longrightarrow> ci_findings ins \<noteq> []"
proof -
  let ?bs = "store_names root @ [''blobs'']" and ?n = "Suc (Suc (max_depth f))"
  let ?i = "\<lparr>ci_valid = [], ci_findings = [], ci_complete = True\<rparr> :: cas_inspection"
  have can: "canonical (store_path root)" and ok: "fs_ok f" using assms(1) by (auto simp: store_ok_def)
  have dir: "blobs_dir root = abs_path ?bs" "list_all name_ok ?bs"
    using store_names_ok[OF can] blobs_dir_abs[of "store_names root" root] by simp_all
  obtain ins res where w: "walk_cas ?n f (abs_path ?bs) [] True ?i = Some (ins, res)"
    using walk_cas_returns[OF ok dir(2) assms(2), of ?n "[]" True ?i] by fastforce
  have sound: "\<forall>h\<in>set (ci_valid ins). blob_at f ?bs h"
    using walk_cas_sound[OF ok, of ?bs "[]" ?n True ?i ins res] dir(2) assms(2) w by simp
  show ?thesis
  proof (cases res)
    case (Inl e)
    show ?thesis
      by (rule that[of "cas_io_error [''blobs''] ''reason=enumeration-failed'' ins"])
        (use w Inl dir(1) sound in \<open>simp_all add: inspect_cas_def cas_io_error_def cas_finding_def push_finding_def\<close>)
  next
    case (Inr u)
    have "h \<in> set (ci_valid ins)" if "ci_complete ins" "blob_at f ?bs h" for h
    proof -
      obtain i where i: "hash_ok h" "node_at f (?bs @ blob_names h) = Some (FFile i)" using \<open>blob_at f ?bs h\<close> by (auto simp: blob_at_def)
      show ?thesis
        using walk_cas_complete[OF ok i, of "[]" "shard1 h" "[shard2 h, as_str h]" ?n ?i ins u] dir(2) assms(2) w Inr \<open>ci_complete ins\<close>
        by (simp add: blob_names_def)
    qed
    moreover have "inspect_cas root f = Some ins" unfolding inspect_cas_def dir(1) w Inr by simp
    moreover have "\<not> ci_complete ins \<Longrightarrow> ci_findings ins \<noteq> []" using walk_cas_grows[OF w] by (auto simp: grows_def)
    ultimately show ?thesis using that[of ins] sound by blast
  qed
qed

text \<open>
  C21 (functional). Inspecting a store with a real \<open>blobs\<close> directory always returns, within the
  bound on the depth; what it lists as blobs are regular files in the place of their hash; and
  when it reports the walk complete it lists every such file.
\<close>

theorem inspect_cas_exact:
  assumes "store_ok root f" "real_dir f (store_names root @ [''blobs''])"
  shows "\<exists>ins. inspect_cas root f = Some ins \<and>
    (\<forall>h. h \<in> set (ci_valid ins) \<longrightarrow> blob_at f (store_names root @ [''blobs'']) h) \<and>
    (\<forall>h. ci_complete ins \<and> blob_at f (store_names root @ [''blobs'']) h \<longrightarrow> h \<in> set (ci_valid ins))"
proof -
  obtain ins where i: "inspect_cas root f = Some ins"
    and a: "\<And>h. h \<in> set (ci_valid ins) \<Longrightarrow> blob_at f (store_names root @ [''blobs'']) h"
    and b: "\<And>h. ci_complete ins \<Longrightarrow> blob_at f (store_names root @ [''blobs'']) h \<Longrightarrow> h \<in> set (ci_valid ins)"
    using inspect_cas_spec[OF assms] by metis
  show ?thesis by (intro exI[of _ ins] conjI allI impI) (simp_all add: i a b)
qed

definition sample_fs2 :: fs where
  "sample_fs2 = sample_fs\<lparr>nodes := nodes sample_fs @ [([''s'', ''blobs''], FDir)]\<rparr>"

theorem inspect_cas_exact_witness:
  "\<exists>ins. inspect_cas sample_root sample_fs2 = Some ins \<and> set (ci_valid ins) \<subseteq> Collect (blob_at sample_fs2 [''s'', ''blobs''])"
proof -
  have "real_dir sample_fs2 [''s'', ''blobs'']" "real_dir sample_fs2 [''s'']"
    by (auto simp: real_dir_def real_parents_def node_at_def sample_fs2_def sample_fs_def less_Suc_eq)
  moreover have "fs_ok sample_fs2"
    by (simp add: fs_ok_def sample_fs2_def sample_fs_def name_ok_def node_at_def)
  ultimately show ?thesis
    using inspect_cas_exact[of sample_root sample_fs2] sample_names by (auto simp: store_ok_def)
qed

end
