(* ===== verification/Gc.thy ===== *)
theory Gc
  imports Inspect Store
begin

text \<open>
  \<^verbatim>\<open>gc.rs\<close>: mark, resurrect and sweep. A preflight inspects catalog and store and re-hashes what
  it would delete; any finding blocks the run. The plan is then applied inside one catalog
  transaction: a file is unlinked before its row is deleted, and an error after the first
  unlink commits what was staged so far, so that a later run can resume.
\<close>

section \<open>Types\<close>

datatype gc_action_kind = Mark | Resurrect | Sweep

datatype sweep_source_state = SourcePresent | AlreadyAbsent

record gc_action =
  ga_kind :: gc_action_kind
  ga_hash :: blob_hash
  ga_size :: u64
  ga_source :: "sweep_source_state option"

record gc_report =
  gr_dry_run :: bool
  catalog_blobs :: u64
  reachable_blobs :: u64
  sweep_candidates_hashed :: u64
  planned_marks :: u64
  planned_resurrections :: u64
  planned_sweeps :: u64
  completed_marks :: u64
  completed_resurrections :: u64
  completed_sweeps :: u64
  cas_files_removed :: u64
  bytes_reclaimable :: u64
  bytes_unlinked :: u64
  bytes_reclaimed :: u64
  gr_actions :: "gc_action list"
  gr_findings :: "integrity_finding list"

datatype gc_outcome = Complete gc_report | Blocked gc_report | Incomplete gc_report error

datatype planned_kind = PUnchanged | PMark | PResurrect | PSweep

record gc_plan =
  marks :: "catalog_blob list"
  resurrections :: "catalog_blob list"
  sweeps :: "catalog_blob list"

record sweep_candidate =
  sc_blob :: catalog_blob
  sc_state :: sweep_source_state
  sc_identity :: "blob_identity option"

record preflight =
  pf_plan :: gc_plan
  pf_candidates :: "sweep_candidate list"
  pf_report :: gc_report

record staged_progress =
  sp_marks :: u64
  sp_resurrections :: u64
  sp_sweeps :: u64
  sp_reclaimed :: u64

definition checked_mark :: "staged_progress \<Rightarrow> staged_progress result" where
  "checked_mark p = bind_result (add_or_fail (sp_marks p) 1) (\<lambda>n. Inr (p\<lparr>sp_marks := n\<rparr>))"

definition checked_resurrection :: "staged_progress \<Rightarrow> staged_progress result" where
  "checked_resurrection p = bind_result (add_or_fail (sp_resurrections p) 1) (\<lambda>n. Inr (p\<lparr>sp_resurrections := n\<rparr>))"

definition checked_sweep :: "staged_progress \<Rightarrow> u64 \<Rightarrow> sweep_source_state \<Rightarrow> staged_progress result" where
  "checked_sweep p size_bytes source_state =
     bind_result (if source_state = SourcePresent then add_or_fail (sp_reclaimed p) size_bytes else Inr (sp_reclaimed p)) (\<lambda>reclaimed.
     bind_result (add_or_fail (sp_sweeps p) 1) (\<lambda>n. Inr (p\<lparr>sp_sweeps := n, sp_reclaimed := reclaimed\<rparr>)))"

definition checked_after_present_unlink :: "gc_report \<Rightarrow> u64 \<Rightarrow> gc_report result" where
  "checked_after_present_unlink report size_bytes =
     bind_result (add_or_fail (cas_files_removed report) 1) (\<lambda>n.
     bind_result (add_or_fail (bytes_unlinked report) size_bytes) (\<lambda>u.
     Inr (report\<lparr>cas_files_removed := n, bytes_unlinked := u\<rparr>)))"

text \<open>The trait \<open>GcStoreMutator\<close> and its implementation on the file system.\<close>

record 's gc_mutator =
  revalidate_present :: "blob_hash \<Rightarrow> blob_identity \<Rightarrow> 's \<Rightarrow> unit result"
  unlink_present :: "blob_hash \<Rightarrow> 's \<Rightarrow> 's result"
  sync_present_parent :: "blob_hash \<Rightarrow> 's \<Rightarrow> unit result"
  sync_absent :: "blob_hash \<Rightarrow> 's \<Rightarrow> unit result"

definition filesystem_gc_mutator :: "store_root \<Rightarrow> fs gc_mutator" where
  "filesystem_gc_mutator root =
     \<lparr>revalidate_present = (\<lambda>h expected f. revalidate_blob_for_removal root h expected f),
      unlink_present = (\<lambda>h f. remove_blob_file root h f),
      sync_present_parent = (\<lambda>h f. sync_blob_parent root h f),
      sync_absent = (\<lambda>h f. case sync_nearest_existing_blob_parent root h f of Some r \<Rightarrow> r | None \<Rightarrow> Inl (PathError EscapedRoot))\<rparr>"

text \<open>The staging calls of \<open>GcWriteSession\<close>; the transaction they act on is a value. Which statements SQLite executes is a parameter.\<close>

record 'd gc_session =
  stage_mark :: "catalog_blob \<Rightarrow> int \<Rightarrow> 'd \<Rightarrow> 'd result"
  stage_resurrection :: "catalog_blob \<Rightarrow> 'd \<Rightarrow> 'd result"
  stage_sweep :: "catalog_blob \<Rightarrow> 'd \<Rightarrow> 'd result"

definition catalog_gc_session :: "(gc_action_kind \<Rightarrow> blob_hash \<Rightarrow> unit result) \<Rightarrow> database gc_session" where
  "catalog_gc_session call = \<lparr>stage_mark = (\<lambda>b now d. stage_gc_mark True (call Mark (cb_hash b)) b now d),
     stage_resurrection = (\<lambda>b d. stage_gc_resurrect True (call Resurrect (cb_hash b)) b d), stage_sweep = (\<lambda>b d. stage_gc_sweep True (call Sweep (cb_hash b)) b d)\<rparr>"

text \<open>What a run cannot decide: the clock, telemetry failures and the results of the calls into SQLite.\<close>

datatype gc_point = AtStart | AtPreflight | AtCandidate nat | AtDryRun nat | AtApply nat | AtCommitted | AtEnd

record gc_env =
  now_ms :: int
  telemetry_failed :: "gc_point \<Rightarrow> bool"
  begin_result :: "unit result"
  stage_call :: "gc_action_kind \<Rightarrow> blob_hash \<Rightarrow> unit result"
  commit_result :: "unit result"
  commit_partial_result :: "unit result"
  rollback_result :: "unit result"
  finish_result :: "unit result"
  lock_result :: "unit result"


section \<open>The plan\<close>

definition classify :: "bool \<Rightarrow> bool \<Rightarrow> planned_kind" where
  "classify is_referenced is_marked =
     (if is_referenced then (if is_marked then PResurrect else PUnchanged) else (if is_marked then PSweep else PMark))"

definition plan_step :: "gc_plan \<times> u64 \<Rightarrow> catalog_blob \<Rightarrow> (gc_plan \<times> u64) result" where
  "plan_step = (\<lambda>(plan, reachable) blob.
     bind_result (if referenced blob then add_or_fail reachable 1 else Inr reachable) (\<lambda>reachable'.
     Inr (case classify (referenced blob) (marked_at_ms blob \<noteq> None) of
            PUnchanged \<Rightarrow> plan
          | PMark \<Rightarrow> plan\<lparr>marks := marks plan @ [blob]\<rparr>
          | PResurrect \<Rightarrow> plan\<lparr>resurrections := resurrections plan @ [blob]\<rparr>
          | PSweep \<Rightarrow> plan\<lparr>sweeps := sweeps plan @ [blob]\<rparr>, reachable')))"

definition build_plan :: "catalog_audit_snapshot \<Rightarrow> (gc_plan \<times> u64) result" where
  "build_plan snap =
     fold_result plan_step (\<lparr>marks = [], resurrections = [], sweeps = []\<rparr>, 0)
       (sort_key cb_hash (map snd (valid_blobs snap)))"

definition action_for :: "gc_action_kind \<Rightarrow> catalog_blob \<Rightarrow> sweep_source_state option \<Rightarrow> gc_action" where
  "action_for kind blob state = \<lparr>ga_kind = kind, ga_hash = cb_hash blob, ga_size = cb_size blob, ga_source = state\<rparr>"


section \<open>Preflight\<close>

definition display_path :: "store_root \<Rightarrow> path \<Rightarrow> string" where
  "display_path root p = escape_path (case strip_prefix p (store_path root) of Some r \<Rightarrow> r | None \<Rightarrow> p)"

definition at_path :: "store_root \<Rightarrow> blob_hash \<Rightarrow> string" where
  "at_path root h = ''path='' @ display_path root (blob_path root h)"

definition blob_finding :: "string \<Rightarrow> blob_hash \<Rightarrow> string \<Rightarrow> integrity_finding" where
  "blob_finding cat h det = finding_new cat (as_str h) det"

definition orphan_findings :: "store_root \<Rightarrow> catalog_audit_snapshot \<Rightarrow> cas_inspection \<Rightarrow> integrity_finding list" where
  "orphan_findings root snap cas =
     (if ci_complete cas
      then map (\<lambda>h. blob_finding ''ORPHAN_BLOB'' h (at_path root h))
             (filter (\<lambda>h. map_of (valid_blobs snap) h = None) (sort (ci_valid cas)))
      else [])"

definition u64_text :: "u64 \<Rightarrow> string" where
  "u64_text n = nat_digits (unat n)"

definition classify_missing_blob :: "store_root \<Rightarrow> fs \<Rightarrow> catalog_blob \<Rightarrow> integrity_finding list" where
  "classify_missing_blob root f blob =
     (case symlink_metadata (blob_path root (cb_hash blob)) f of
        Inr m \<Rightarrow>
          if md_kind m \<noteq> KFile then [blob_finding ''NON_REGULAR_BLOB'' (cb_hash blob) (at_path root (cb_hash blob))]
          else [blob_finding ''BLOB_IO_ERROR'' (cb_hash blob) (at_path root (cb_hash blob) @ '' reason=appeared-after-traversal'')]
      | Inl e \<Rightarrow>
          if e = NotFound then
            (if marked_at_ms blob \<noteq> None \<and> \<not> referenced blob then []
             else [blob_finding ''MISSING_BLOB'' (cb_hash blob) (at_path root (cb_hash blob))])
          else [blob_finding ''BLOB_IO_ERROR'' (cb_hash blob) (at_path root (cb_hash blob) @ '' reason=stat-failed'')])"

definition presence_findings :: "store_root \<Rightarrow> fs \<Rightarrow> cas_inspection \<Rightarrow> catalog_blob \<Rightarrow> integrity_finding list" where
  "presence_findings root f cas blob =
     (let h = cb_hash blob in
      if h \<in> set (ci_valid cas) then
        (case symlink_metadata (blob_path root h) f of
           Inr m \<Rightarrow>
             if md_kind m = KFile then
               (if md_len m \<noteq> cb_size blob
                then [blob_finding ''SIZE_MISMATCH'' h (''expected='' @ u64_text (cb_size blob) @ '' metadata='' @ u64_text (md_len m))]
                else [])
             else [blob_finding ''NON_REGULAR_BLOB'' h (at_path root h)]
         | Inl _ \<Rightarrow> [blob_finding ''BLOB_IO_ERROR'' h (at_path root h @ '' reason=stat-failed'')])
      else if ci_complete cas then classify_missing_blob root f blob else [])"

definition canonical_path_is_absent :: "store_root \<Rightarrow> fs \<Rightarrow> blob_hash \<Rightarrow> bool" where
  "canonical_path_is_absent root f h \<longleftrightarrow> symlink_metadata (blob_path root h) f = Inl NotFound"

record sweep_scan =
  ss_candidates :: "sweep_candidate list"
  ss_report :: gc_report

definition add_findings :: "integrity_finding list \<Rightarrow> sweep_scan \<Rightarrow> sweep_scan" where
  "add_findings fs ss = ss\<lparr>ss_report := (ss_report ss)\<lparr>gr_findings := gr_findings (ss_report ss) @ fs\<rparr>\<rparr>"

text \<open>The check of one sweep candidate whose file was listed, once the file has been hashed.\<close>

definition judge_candidate :: "catalog_blob \<Rightarrow> blob_identity \<Rightarrow> hash_result \<Rightarrow> sweep_scan \<Rightarrow> (sweep_scan \<times> blob_identity option) result" where
  "judge_candidate blob ident actual ss =
     bind_result (add_or_fail (sweep_candidates_hashed (ss_report ss)) 1) (\<lambda>hashed.
     let size_matches = (id_len ident = cb_size blob \<and> hr_size actual = cb_size blob \<and> hr_size actual = id_len ident);
         hash_matches = (hr_hash actual = cb_hash blob);
         fs = (if size_matches then [] else [blob_finding ''SIZE_MISMATCH'' (cb_hash blob)
                 (''expected='' @ u64_text (cb_size blob) @ '' metadata='' @ u64_text (id_len ident) @ '' actual='' @ u64_text (hr_size actual))])
            @ (if hash_matches then [] else [blob_finding ''HASH_MISMATCH'' (cb_hash blob)
                 (''expected='' @ as_str (cb_hash blob) @ '' actual='' @ as_str (hr_hash actual))]);
         ss1 = add_findings fs (ss\<lparr>ss_report := (ss_report ss)\<lparr>sweep_candidates_hashed := hashed\<rparr>\<rparr>)
     in if size_matches \<and> hash_matches
        then bind_result (add_or_fail (bytes_reclaimable (ss_report ss1)) (cb_size blob)) (\<lambda>n.
             Inr (ss1\<lparr>ss_report := (ss_report ss1)\<lparr>bytes_reclaimable := n\<rparr>\<rparr>, Some ident))
        else Inr (ss1, None))"

definition push_candidate :: "catalog_blob \<Rightarrow> sweep_source_state \<Rightarrow> blob_identity option \<Rightarrow> sweep_scan \<Rightarrow> sweep_scan" where
  "push_candidate blob state ident ss =
     ss\<lparr>ss_candidates := ss_candidates ss @ [\<lparr>sc_blob = blob, sc_state = state, sc_identity = ident\<rparr>]\<rparr>"

text \<open>Whether telemetry fails while a file is hashed is an observer's verdict on each chunk.\<close>

definition scan_candidate ::
    "'h blake3 \<Rightarrow> 'r file_io \<Rightarrow> (unit \<Rightarrow> u64 \<Rightarrow> unit \<times> unit result) \<Rightarrow> gc_env \<Rightarrow> store_root \<Rightarrow> nat \<Rightarrow> fs \<Rightarrow> cas_inspection
     \<Rightarrow> sweep_scan \<Rightarrow> catalog_blob \<Rightarrow> sweep_scan result option" where
  "scan_candidate b io obs env root chunk f cas ss blob =
     (let h = cb_hash blob in
      if telemetry_failed env (AtCandidate (length (ss_candidates ss))) then Some (Inl TelemetryFailed)
      else if h \<in> set (ci_valid cas) then
        (case open_blob_no_follow root h f of
           Inl _ \<Rightarrow> Some (Inr (push_candidate blob SourcePresent None
                        (add_findings [blob_finding ''BLOB_IO_ERROR'' h (at_path root h @ '' reason=open-failed'')] ss)))
         | Inr opened \<Rightarrow>
             (case hash_reader_with_chunk_observer b (read_chunk io) (open_read io (ob_content opened)) chunk obs () of
                None \<Rightarrow> None
              | Some (_, Inr actual) \<Rightarrow>
                  Some (bind_result (judge_candidate blob (ob_identity opened) actual ss) (\<lambda>(ss1, ident).
                        Inr (push_candidate blob SourcePresent ident ss1)))
              | Some (_, Inl e) \<Rightarrow>
                  if e = TelemetryFailed then Some (Inl e)
                  else Some (Inr (push_candidate blob SourcePresent None
                         (add_findings [blob_finding ''BLOB_IO_ERROR'' h (at_path root h @ '' reason=read-failed'')] ss)))))
      else if ci_complete cas \<and> canonical_path_is_absent root f h
      then Some (Inr (push_candidate blob AlreadyAbsent None ss))
      else Some (Inr ss))"

fun scan_candidates ::
    "'h blake3 \<Rightarrow> 'r file_io \<Rightarrow> (unit \<Rightarrow> u64 \<Rightarrow> unit \<times> unit result) \<Rightarrow> gc_env \<Rightarrow> store_root \<Rightarrow> nat \<Rightarrow> fs \<Rightarrow> cas_inspection
     \<Rightarrow> catalog_blob list \<Rightarrow> sweep_scan \<Rightarrow> sweep_scan result option" where
  "scan_candidates b io obs env root chunk f cas [] ss = Some (Inr ss)"
| "scan_candidates b io obs env root chunk f cas (blob # rest) ss =
     (case scan_candidate b io obs env root chunk f cas ss blob of
        None \<Rightarrow> None
      | Some (Inl e) \<Rightarrow> Some (Inl e)
      | Some (Inr ss1) \<Rightarrow> scan_candidates b io obs env root chunk f cas rest ss1)"

definition initial_report :: "bool \<Rightarrow> catalog_audit_snapshot \<Rightarrow> gc_plan \<Rightarrow> u64 \<Rightarrow> gc_report result" where
  "initial_report dry snap plan reachable =
     bind_result (u64_of_len (length (marks plan))) (\<lambda>m.
     bind_result (u64_of_len (length (resurrections plan))) (\<lambda>r.
     bind_result (u64_of_len (length (sweeps plan))) (\<lambda>s.
     Inr \<lparr>gr_dry_run = dry, catalog_blobs = blob_rows_seen snap, reachable_blobs = reachable, sweep_candidates_hashed = 0,
          planned_marks = m, planned_resurrections = r, planned_sweeps = s, completed_marks = 0, completed_resurrections = 0,
          completed_sweeps = 0, cas_files_removed = 0, bytes_reclaimable = 0, bytes_unlinked = 0, bytes_reclaimed = 0,
          gr_actions = [], gr_findings = snap_findings snap\<rparr>)))"

definition run_preflight ::
    "'h blake3 \<Rightarrow> 'r file_io \<Rightarrow> (unit \<Rightarrow> u64 \<Rightarrow> unit \<times> unit result) \<Rightarrow> gc_env \<Rightarrow> store_root \<Rightarrow> nat \<Rightarrow> bool
     \<Rightarrow> catalog_audit_snapshot \<Rightarrow> fs \<Rightarrow> preflight result option" where
  "run_preflight b io obs env root chunk dry snap f =
     (case build_plan snap of
        Inl e \<Rightarrow> Some (Inl e)
      | Inr (plan, reachable) \<Rightarrow>
          if telemetry_failed env AtPreflight then Some (Inl TelemetryFailed)
          else (case initial_report dry snap plan reachable of
                  Inl e \<Rightarrow> Some (Inl e)
                | Inr report \<Rightarrow>
                    (case inspect_cas root f of
                       None \<Rightarrow> None
                     | Some cas \<Rightarrow>
                         (let found = ci_findings cas @ orphan_findings root snap cas
                                @ concat (map (presence_findings root f cas) (map snd (valid_blobs snap)))
                          in case scan_candidates b io obs env root chunk f cas (sweeps plan)
                                 \<lparr>ss_candidates = [], ss_report = report\<lparr>gr_findings := gr_findings report @ found\<rparr>\<rparr> of
                               None \<Rightarrow> None
                             | Some (Inl e) \<Rightarrow> Some (Inl e)
                             | Some (Inr ss) \<Rightarrow>
                                 Some (Inr \<lparr>pf_plan = plan, pf_candidates = ss_candidates ss,
                                        pf_report = (ss_report ss)\<lparr>gr_findings := sort_and_deduplicate (gr_findings (ss_report ss))\<rparr>\<rparr>)))))"


section \<open>Applying the plan\<close>

record ('d, 's) gc_state =
  gs_db :: 'd
  gs_store :: 's
  gs_report :: gc_report
  gs_actions :: "gc_action list"
  gs_progress :: staged_progress
  gs_started :: bool

text \<open>How a phase ends: go on, \<open>abort_apply\<close>, or \<open>commit_partial\<close>.\<close>

datatype 'x phase = Go 'x | AbortApply 'x error | PartialCommit 'x error

definition telemetry_check :: "gc_env \<Rightarrow> ('d, 's) gc_state \<Rightarrow> bool" where
  "telemetry_check env st = telemetry_failed env (AtApply (length (gs_actions st)))"

fun apply_marks :: "gc_env \<Rightarrow> 'd gc_session \<Rightarrow> catalog_blob list \<Rightarrow> ('d, 's) gc_state \<Rightarrow> ('d, 's) gc_state phase" where
  "apply_marks env ses [] st = Go st"
| "apply_marks env ses (blob # rest) st =
     (if telemetry_check env st then AbortApply st TelemetryFailed
      else case checked_mark (gs_progress st) of
        Inl e \<Rightarrow> AbortApply st e
      | Inr next \<Rightarrow>
          (case stage_mark ses blob (now_ms env) (gs_db st) of
             Inl e \<Rightarrow> AbortApply st e
           | Inr d \<Rightarrow> apply_marks env ses rest
               (st\<lparr>gs_db := d, gs_actions := gs_actions st @ [action_for Mark blob None], gs_progress := next\<rparr>)))"

fun apply_resurrections :: "gc_env \<Rightarrow> 'd gc_session \<Rightarrow> catalog_blob list \<Rightarrow> ('d, 's) gc_state \<Rightarrow> ('d, 's) gc_state phase" where
  "apply_resurrections env ses [] st = Go st"
| "apply_resurrections env ses (blob # rest) st =
     (if telemetry_check env st then AbortApply st TelemetryFailed
      else case checked_resurrection (gs_progress st) of
        Inl e \<Rightarrow> AbortApply st e
      | Inr next \<Rightarrow>
          (case stage_resurrection ses blob (gs_db st) of
             Inl e \<Rightarrow> AbortApply st e
           | Inr d \<Rightarrow> apply_resurrections env ses rest
               (st\<lparr>gs_db := d, gs_actions := gs_actions st @ [action_for Resurrect blob None], gs_progress := next\<rparr>)))"

text \<open>The physical half of one sweep: the state after it, or how it ends the run.\<close>

definition sweep_physical :: "'s gc_mutator \<Rightarrow> sweep_candidate \<Rightarrow> gc_report \<Rightarrow> ('d, 's) gc_state \<Rightarrow> ('d, 's) gc_state phase" where
  "sweep_physical mut c next_report st =
     (case sc_state c of
        SourcePresent \<Rightarrow>
          (case sc_identity c of
             None \<Rightarrow> AbortApply st (GcError MissingIdentity)
           | Some ident \<Rightarrow>
               (case revalidate_present mut (cb_hash (sc_blob c)) ident (gs_store st) of
                  Inl e \<Rightarrow> AbortApply st e
                | Inr _ \<Rightarrow>
                    (case unlink_present mut (cb_hash (sc_blob c)) (gs_store st) of
                       Inl e \<Rightarrow> AbortApply st e
                     | Inr s' \<Rightarrow>
                         (let st1 = st\<lparr>gs_store := s', gs_report := next_report, gs_started := True\<rparr>
                          in case sync_present_parent mut (cb_hash (sc_blob c)) s' of
                               Inl e \<Rightarrow> PartialCommit st1 e
                             | Inr _ \<Rightarrow> Go st1))))
      | AlreadyAbsent \<Rightarrow>
          (case sync_absent mut (cb_hash (sc_blob c)) (gs_store st) of
             Inl e \<Rightarrow> AbortApply st e
           | Inr _ \<Rightarrow> Go st))"

fun apply_sweeps :: "gc_env \<Rightarrow> 'd gc_session \<Rightarrow> 's gc_mutator \<Rightarrow> sweep_candidate list \<Rightarrow> ('d, 's) gc_state \<Rightarrow> ('d, 's) gc_state phase" where
  "apply_sweeps env ses mut [] st = Go st"
| "apply_sweeps env ses mut (c # rest) st =
     (if telemetry_check env st then AbortApply st TelemetryFailed
      else case checked_sweep (gs_progress st) (cb_size (sc_blob c)) (sc_state c) of
        Inl e \<Rightarrow> AbortApply st e
      | Inr next \<Rightarrow>
          (case (if sc_state c = SourcePresent then checked_after_present_unlink (gs_report st) (cb_size (sc_blob c))
                 else Inr (gs_report st)) of
             Inl e \<Rightarrow> AbortApply st e
           | Inr next_report \<Rightarrow>
               (case sweep_physical mut c next_report st of
                  AbortApply st1 e \<Rightarrow> AbortApply st1 e
                | PartialCommit st1 e \<Rightarrow> PartialCommit st1 e
                | Go st1 \<Rightarrow>
                    (case stage_sweep ses (sc_blob c) (gs_db st1) of
                       Inl e \<Rightarrow> AbortApply st1 e
                     | Inr d \<Rightarrow> apply_sweeps env ses mut rest
                         (st1\<lparr>gs_db := d, gs_actions := gs_actions st1 @ [action_for Sweep (sc_blob c) (Some (sc_state c))],
                              gs_progress := next, gs_started := True\<rparr>)))))"

definition finish_committed :: "('d, 's) gc_state \<Rightarrow> gc_report" where
  "finish_committed st =
     (gs_report st)\<lparr>completed_marks := sp_marks (gs_progress st), completed_resurrections := sp_resurrections (gs_progress st),
        completed_sweeps := sp_sweeps (gs_progress st), bytes_reclaimed := sp_reclaimed (gs_progress st),
        gr_actions := gs_actions st\<rparr>"

text \<open>
  The ends of a run: the durable catalog, the store and the outcome. A transaction that is rolled
  back, or whose commit fails, leaves the catalog as it was at \<open>begin_gc\<close>.
\<close>

definition commit_partial :: "gc_env \<Rightarrow> 'd \<Rightarrow> ('d, 's) gc_state \<Rightarrow> error \<Rightarrow> 'd \<times> 's \<times> gc_outcome" where
  "commit_partial env d0 st e =
     (case commit_partial_result env of
        Inr _ \<Rightarrow> (gs_db st, gs_store st, Incomplete (finish_committed st) e)
      | Inl _ \<Rightarrow> (d0, gs_store st, Incomplete (gs_report st) e))"

definition abort_apply :: "gc_env \<Rightarrow> 'd \<Rightarrow> ('d, 's) gc_state \<Rightarrow> error \<Rightarrow> 'd \<times> 's \<times> gc_outcome result" where
  "abort_apply env d0 st e =
     (if gs_started st then (case commit_partial env d0 st e of (d, s, out) \<Rightarrow> (d, s, Inr out))
      else case rollback_result env of
        Inr _ \<Rightarrow> (d0, gs_store st, Inr (Incomplete (gs_report st) e))
      | Inl _ \<Rightarrow> (d0, gs_store st, Inl (GcError RollbackFailed)))"

definition phase_then :: "'x phase \<Rightarrow> ('x \<Rightarrow> 'x phase) \<Rightarrow> 'x phase" where
  "phase_then r k = (case r of Go x \<Rightarrow> k x | AbortApply x e \<Rightarrow> AbortApply x e | PartialCommit x e \<Rightarrow> PartialCommit x e)"

definition apply_plan :: "gc_env \<Rightarrow> 'd gc_session \<Rightarrow> 's gc_mutator \<Rightarrow> preflight \<Rightarrow> 'd \<Rightarrow> 's \<Rightarrow> 'd \<times> 's \<times> gc_outcome result" where
  "apply_plan env ses mut pf d0 s0 =
     (let st0 = \<lparr>gs_db = d0, gs_store = s0, gs_report = pf_report pf, gs_actions = [],
                 gs_progress = \<lparr>sp_marks = 0, sp_resurrections = 0, sp_sweeps = 0, sp_reclaimed = 0\<rparr>, gs_started = False\<rparr>
      in case phase_then (apply_marks env ses (marks (pf_plan pf)) st0) (\<lambda>st1.
              phase_then (apply_resurrections env ses (resurrections (pf_plan pf)) st1) (\<lambda>st2.
              apply_sweeps env ses mut (pf_candidates pf) st2)) of
           AbortApply st e \<Rightarrow> abort_apply env d0 st e
         | PartialCommit st e \<Rightarrow> (case commit_partial env d0 st e of (d, s, out) \<Rightarrow> (d, s, Inr out))
         | Go st \<Rightarrow>
             (case commit_result env of
                Inl e \<Rightarrow> (d0, gs_store st, Inr (Incomplete (gs_report st) e))
              | Inr _ \<Rightarrow> (gs_db st, gs_store st,
                          if telemetry_failed env AtCommitted then Inl TelemetryFailed
                          else Inr (Complete (finish_committed st)))))"



section \<open>Whole runs\<close>

definition dry_actions :: "preflight \<Rightarrow> gc_action list" where
  "dry_actions pf = map (\<lambda>b. action_for Mark b None) (marks (pf_plan pf))
     @ map (\<lambda>b. action_for Resurrect b None) (resurrections (pf_plan pf))
     @ map (\<lambda>c. action_for Sweep (sc_blob c) (Some (sc_state c))) (pf_candidates pf)"

definition collect_dry_run ::
    "'h blake3 \<Rightarrow> 'r file_io \<Rightarrow> (unit \<Rightarrow> u64 \<Rightarrow> unit \<times> unit result) \<Rightarrow> gc_env \<Rightarrow> store_root \<Rightarrow> nat \<Rightarrow> database \<Rightarrow> fs
     \<Rightarrow> gc_outcome result option" where
  "collect_dry_run b io obs env root chunk db f =
     (case inspect_catalog_for_audit db of
        Inl e \<Rightarrow> Some (Inl e)
      | Inr snap \<Rightarrow>
          map_option (\<lambda>r. bind_result r (\<lambda>pf.
            if gr_findings (pf_report pf) \<noteq> [] then Inr (Blocked (pf_report pf))
            else if list_ex (\<lambda>n. telemetry_failed env (AtDryRun n)) [0..<length (dry_actions pf)] then Inl TelemetryFailed
            else Inr (Complete ((pf_report pf)\<lparr>gr_actions := dry_actions pf\<rparr>))))
            (run_preflight b io obs env root chunk True snap f))"

text \<open>
  \<open>begin_gc\<close> opens a transaction, checks the version again and inspects the catalog inside the transaction; joining
  the writer at the end can turn any result into the writer's error.
\<close>

definition begin_gc :: "gc_env \<Rightarrow> database \<Rightarrow> catalog_audit_snapshot result" where
  "begin_gc env db = bind_result (begin_result env) (\<lambda>_. bind_result (require_current_schema db) (\<lambda>_. inspect_catalog_connection db))"

definition finish_writer :: "gc_env \<Rightarrow> 'a result \<Rightarrow> 'a result" where
  "finish_writer env r = (case finish_result env of Inl e \<Rightarrow> Inl e | Inr _ \<Rightarrow> r)"

definition collect_real ::
    "'h blake3 \<Rightarrow> 'r file_io \<Rightarrow> (unit \<Rightarrow> u64 \<Rightarrow> unit \<times> unit result) \<Rightarrow> gc_env \<Rightarrow> store_root \<Rightarrow> nat \<Rightarrow> database \<Rightarrow> fs
     \<Rightarrow> (database \<times> fs \<times> gc_outcome result) option" where
  "collect_real b io obs env root chunk db f =
     (case open_existing_gc_catalog db of
        Inl e \<Rightarrow> Some (db, f, Inl e)
      | Inr db0 \<Rightarrow>
          (case begin_gc env db0 of
             Inl e \<Rightarrow> Some (db0, f, finish_writer env (Inl e))
           | Inr snap \<Rightarrow>
               (case run_preflight b io obs env root chunk False snap f of
                  None \<Rightarrow> None
                | Some (Inl e) \<Rightarrow> Some (db0, f, finish_writer env (Inl e))
                | Some (Inr pf) \<Rightarrow>
                    if gr_findings (pf_report pf) \<noteq> [] then
                      Some (db0, f, finish_writer env
                             (case rollback_result env of Inr _ \<Rightarrow> Inr (Blocked (pf_report pf)) | Inl e \<Rightarrow> Inl e))
                    else (case apply_plan env (catalog_gc_session (stage_call env)) (filesystem_gc_mutator root) pf db0 f of
                            (db1, f1, r) \<Rightarrow> Some (db1, f1, finish_writer env r)))))"

text \<open>The whole command: telemetry, the lock, the purge of left-over staging files, the run.\<close>

definition collect_garbage ::
    "'h blake3 \<Rightarrow> 'r file_io \<Rightarrow> (unit \<Rightarrow> u64 \<Rightarrow> unit \<times> unit result) \<Rightarrow> gc_env \<Rightarrow> store_root \<Rightarrow> nat \<Rightarrow> bool \<Rightarrow> database \<Rightarrow> fs
     \<Rightarrow> (database \<times> fs \<times> gc_outcome result) option" where
  "collect_garbage b io obs env root chunk dry_run db f =
     (let last_check = (\<lambda>(db1, f1, r). (db1, f1, bind_result r (\<lambda>out.
            if telemetry_failed env AtEnd then Inl TelemetryFailed else Inr out)))
      in if telemetry_failed env AtStart then Some (db, f, Inl TelemetryFailed)
         else case lock_result env of
           Inl e \<Rightarrow> Some (db, f, Inl e)
         | Inr _ \<Rightarrow>
             if dry_run then map_option (\<lambda>r. last_check (db, f, r)) (collect_dry_run b io obs env root chunk db f)
             else (case purge_existing_staging root f of
                     None \<Rightarrow> None
                   | Some (f1, Inl e) \<Rightarrow> Some (db, f1, Inl e)
                   | Some (f1, Inr _) \<Rightarrow> map_option last_check (collect_real b io obs env root chunk db f1)))"

end
