(* ===== verification/GcSafety.thy ===== *)
theory GcSafety
  imports Gc
begin

text \<open>
  What garbage collection may do, whatever fails. The two interfaces of \<open>apply_plan\<close> are
  locales: \<open>gc_catalog\<close> states what the staging calls of a catalog transaction promise, and
  \<open>gc_store\<close> what \<open>GcStoreMutator\<close> promises; the laws about whole runs are proved once from them
  and the locales are interpreted on the SQL statements and on the file system.
\<close>

section \<open>Interfaces\<close>

type_synonym status = "blob_hash \<Rightarrow> (int \<times> bool) option"

locale gc_catalog =
  fixes ses :: "'d gc_session" and status :: "'d \<Rightarrow> blob_hash \<Rightarrow> (int \<times> bool) option"
    and refd :: "'d \<Rightarrow> blob_hash \<Rightarrow> bool" and inv :: "'d \<Rightarrow> bool"
  assumes mark_law: "inv d \<Longrightarrow> stage_mark ses b now d = Inr d' \<Longrightarrow>
      inv d' \<and> refd d' = refd d \<and> status d (cb_hash b) = Some (uint (cb_size b), False) \<and> \<not> refd d (cb_hash b)
      \<and> status d' = (status d)(cb_hash b \<mapsto> (uint (cb_size b), True))"
    and resurrect_law: "inv d \<Longrightarrow> stage_resurrection ses b d = Inr d' \<Longrightarrow>
      inv d' \<and> refd d' = refd d \<and> status d (cb_hash b) = Some (uint (cb_size b), True) \<and> refd d (cb_hash b)
      \<and> status d' = (status d)(cb_hash b \<mapsto> (uint (cb_size b), False))"
    and sweep_law: "inv d \<Longrightarrow> stage_sweep ses b d = Inr d' \<Longrightarrow>
      inv d' \<and> refd d' = refd d \<and> status d (cb_hash b) = Some (uint (cb_size b), True) \<and> \<not> refd d (cb_hash b)
      \<and> status d' = (status d)(cb_hash b := None)"

locale gc_store =
  fixes mut :: "'s gc_mutator" and present :: "'s \<Rightarrow> blob_hash \<Rightarrow> blob_identity option" and sinv :: "'s \<Rightarrow> bool"
  assumes revalidate_law: "sinv s \<Longrightarrow> present s h = Some i \<Longrightarrow> revalidate_present mut h j s = Inr u \<Longrightarrow> j = i"
    and unlink_law: "sinv s \<Longrightarrow> present s h \<noteq> None \<Longrightarrow> unlink_present mut h s = Inr s' \<Longrightarrow>
      sinv s' \<and> present s' = (present s)(h := None)"


section \<open>What a run may change\<close>

text \<open>A blob may be deleted only if its row is marked and no source refers to it.\<close>

definition collectable :: "(blob_hash \<Rightarrow> bool) \<Rightarrow> status \<Rightarrow> blob_hash \<Rightarrow> bool" where
  "collectable r st h \<longleftrightarrow> \<not> r h \<and> (\<exists>n. st h = Some (n, True))"

text \<open>A row changes only along the three actions.\<close>

definition row_allowed :: "(blob_hash \<Rightarrow> bool) \<Rightarrow> status \<Rightarrow> status \<Rightarrow> blob_hash \<Rightarrow> bool" where
  "row_allowed r st0 st h \<longleftrightarrow> st h = st0 h
     \<or> (\<exists>n. \<not> r h \<and> st0 h = Some (n, False) \<and> st h = Some (n, True))
     \<or> (\<exists>n. r h \<and> st0 h = Some (n, True) \<and> st h = Some (n, False))
     \<or> (collectable r st0 h \<and> st h = None)"

definition rows_allowed :: "(blob_hash \<Rightarrow> bool) \<Rightarrow> status \<Rightarrow> status \<Rightarrow> bool" where
  "rows_allowed r st0 st \<longleftrightarrow> (\<forall>h. row_allowed r st0 st h)"

definition files_allowed :: "(blob_hash \<Rightarrow> bool) \<Rightarrow> status \<Rightarrow> (blob_hash \<Rightarrow> blob_identity option) \<Rightarrow> (blob_hash \<Rightarrow> blob_identity option) \<Rightarrow> bool" where
  "files_allowed r st0 p0 p \<longleftrightarrow> (\<forall>h. p h = p0 h \<or> p h = None \<and> collectable r st0 h)"

definition fresh :: "status \<Rightarrow> status \<Rightarrow> catalog_blob list \<Rightarrow> bool" where
  "fresh st0 st bs \<longleftrightarrow> distinct (map cb_hash bs) \<and> (\<forall>b\<in>set bs. st (cb_hash b) = st0 (cb_hash b))"

lemma rows_allowed_refl: "rows_allowed r st st"
  by (simp add: rows_allowed_def row_allowed_def)

lemma files_allowed_refl: "files_allowed r st p p"
  by (simp add: files_allowed_def)

lemma rows_allowed_update:
  "rows_allowed r st0 st \<Longrightarrow> row_allowed r st0 (st(h := v)) h \<Longrightarrow> rows_allowed r st0 (st(h := v))"
  by (auto simp: rows_allowed_def row_allowed_def)

lemma files_allowed_remove:
  "files_allowed r st0 p0 p \<Longrightarrow> collectable r st0 h \<Longrightarrow> files_allowed r st0 p0 (p(h := None))"
  by (auto simp: files_allowed_def)

lemma fresh_Cons:
  "fresh st0 st (b # bs) \<Longrightarrow> fresh st0 (st(cb_hash b := v)) bs \<and> st (cb_hash b) = st0 (cb_hash b)"
  by (auto simp: fresh_def rev_image_eqI)

fun phase_state :: "'x phase \<Rightarrow> 'x" where
  "phase_state (Go x) = x"
| "phase_state (AbortApply x e) = x"
| "phase_state (PartialCommit x e) = x"


section \<open>Whole runs, from the laws\<close>

locale gc_run = gc_catalog ses status refd inv + gc_store mut present sinv
  for ses :: "'d gc_session" and status refd inv and mut :: "'s gc_mutator" and present sinv
begin

lemma mark_allowed:
  assumes "inv d" "rows_allowed (refd d) st0 (status d)" "status d (cb_hash b) = st0 (cb_hash b)" "stage_mark ses b now d = Inr d'"
  shows "inv d'" "refd d' = refd d" "rows_allowed (refd d) st0 (status d')" "status d' = (status d)(cb_hash b \<mapsto> (uint (cb_size b), True))"
  using mark_law[OF assms(1,4)] assms(2,3) rows_allowed_update[OF assms(2), of "cb_hash b"] by (simp_all add: row_allowed_def)

lemma resurrect_allowed:
  assumes "inv d" "rows_allowed (refd d) st0 (status d)" "status d (cb_hash b) = st0 (cb_hash b)" "stage_resurrection ses b d = Inr d'"
  shows "inv d'" "refd d' = refd d" "rows_allowed (refd d) st0 (status d')" "status d' = (status d)(cb_hash b \<mapsto> (uint (cb_size b), False))"
  using resurrect_law[OF assms(1,4)] assms(2,3) rows_allowed_update[OF assms(2), of "cb_hash b"] by (simp_all add: row_allowed_def)

lemma sweep_allowed:
  assumes "inv d" "rows_allowed (refd d) st0 (status d)" "status d (cb_hash b) = st0 (cb_hash b)" "stage_sweep ses b d = Inr d'"
  shows "inv d'" "refd d' = refd d" "rows_allowed (refd d) st0 (status d')" "status d' = (status d)(cb_hash b := None)"
  using sweep_law[OF assms(1,4)] assms(2,3) rows_allowed_update[OF assms(2), of "cb_hash b"]
  by (simp_all add: row_allowed_def collectable_def)

lemma apply_marks_safe:
  assumes "inv (gs_db st)" "fresh st0 (status (gs_db st)) bs" "rows_allowed (refd (gs_db st)) st0 (status (gs_db st))"
    "apply_marks env ses bs st = r"
  shows "inv (gs_db (phase_state r)) \<and> refd (gs_db (phase_state r)) = refd (gs_db st)
    \<and> rows_allowed (refd (gs_db st)) st0 (status (gs_db (phase_state r)))
    \<and> gs_store (phase_state r) = gs_store st \<and> gs_started (phase_state r) = gs_started st
    \<and> (\<forall>h. h \<notin> cb_hash ` set bs \<longrightarrow> status (gs_db (phase_state r)) h = status (gs_db st) h) \<and> (\<forall>x e. r \<noteq> PartialCommit x e)"
  using assms
proof (induction bs arbitrary: st)
  case (Cons b bs)
  show ?case
  proof (cases "telemetry_check env st \<or> (\<exists>e. checked_mark (gs_progress st) = Inl e) \<or> (\<exists>e. stage_mark ses b (now_ms env) (gs_db st) = Inl e)")
    case True
    then show ?thesis using Cons.prems by (auto split: sum.splits if_splits)
  next
    case False
    then obtain p d where p: "checked_mark (gs_progress st) = Inr p" "stage_mark ses b (now_ms env) (gs_db st) = Inr d"
      "\<not> telemetry_check env st" by (metis (full_types) sum.exhaust)
    have eq: "status (gs_db st) (cb_hash b) = st0 (cb_hash b)" using Cons.prems(2) by (simp add: fresh_def)
    note m = mark_allowed[OF Cons.prems(1,3) eq p(2)]
    let ?st = "st\<lparr>gs_db := d, gs_actions := gs_actions st @ [action_for Mark b None], gs_progress := p\<rparr>"
    have "inv (gs_db ?st)" "fresh st0 (status (gs_db ?st)) bs" "rows_allowed (refd (gs_db ?st)) st0 (status (gs_db ?st))"
      using m(1,3) fresh_Cons[OF Cons.prems(2)] by (simp_all add: m(2) m(4)[symmetric]) (simp add: m(4))
    note I = Cons.IH[OF this]
    have "apply_marks env ses bs ?st = r" using Cons.prems(4) p by simp
    note I = I[OF this]
    have "status (gs_db (phase_state r)) h = status (gs_db st) h" if "h \<notin> cb_hash ` set (b # bs)" for h
    proof -
      have "status (gs_db (phase_state r)) h = status (gs_db ?st) h" using I that by simp
      also have "\<dots> = status (gs_db st) h" using m(4) that by simp
      finally show ?thesis .
    qed
    then show ?thesis using I m(2) by simp
  qed
qed auto

lemma apply_resurrections_safe:
  assumes "inv (gs_db st)" "fresh st0 (status (gs_db st)) bs" "rows_allowed (refd (gs_db st)) st0 (status (gs_db st))"
    "apply_resurrections env ses bs st = r"
  shows "inv (gs_db (phase_state r)) \<and> refd (gs_db (phase_state r)) = refd (gs_db st)
    \<and> rows_allowed (refd (gs_db st)) st0 (status (gs_db (phase_state r)))
    \<and> gs_store (phase_state r) = gs_store st \<and> gs_started (phase_state r) = gs_started st
    \<and> (\<forall>h. h \<notin> cb_hash ` set bs \<longrightarrow> status (gs_db (phase_state r)) h = status (gs_db st) h) \<and> (\<forall>x e. r \<noteq> PartialCommit x e)"
  using assms
proof (induction bs arbitrary: st)
  case (Cons b bs)
  show ?case
  proof (cases "telemetry_check env st \<or> (\<exists>e. checked_resurrection (gs_progress st) = Inl e) \<or> (\<exists>e. stage_resurrection ses b (gs_db st) = Inl e)")
    case True
    then show ?thesis using Cons.prems by (auto split: sum.splits if_splits)
  next
    case False
    then obtain p d where p: "checked_resurrection (gs_progress st) = Inr p" "stage_resurrection ses b (gs_db st) = Inr d"
      "\<not> telemetry_check env st" by (metis (full_types) sum.exhaust)
    have eq: "status (gs_db st) (cb_hash b) = st0 (cb_hash b)" using Cons.prems(2) by (simp add: fresh_def)
    note m = resurrect_allowed[OF Cons.prems(1,3) eq p(2)]
    let ?st = "st\<lparr>gs_db := d, gs_actions := gs_actions st @ [action_for Resurrect b None], gs_progress := p\<rparr>"
    have "inv (gs_db ?st)" "fresh st0 (status (gs_db ?st)) bs" "rows_allowed (refd (gs_db ?st)) st0 (status (gs_db ?st))"
      using m(1,3) fresh_Cons[OF Cons.prems(2)] by (simp_all add: m(2) m(4)[symmetric]) (simp add: m(4))
    note I = Cons.IH[OF this]
    have "apply_resurrections env ses bs ?st = r" using Cons.prems(4) p by simp
    note I = I[OF this]
    have "status (gs_db (phase_state r)) h = status (gs_db st) h" if "h \<notin> cb_hash ` set (b # bs)" for h
    proof -
      have "status (gs_db (phase_state r)) h = status (gs_db ?st) h" using I that by simp
      also have "\<dots> = status (gs_db st) h" using m(4) that by simp
      finally show ?thesis .
    qed
    then show ?thesis using I m(2) by simp
  qed
qed auto

text \<open>Unlinking touches the file of its own blob only, and is remembered.\<close>

lemma sweep_physical_safe:
  assumes "sinv (gs_store st)" "sc_state c = SourcePresent \<longrightarrow> present (gs_store st) (cb_hash (sc_blob c)) \<noteq> None"
    "sweep_physical mut c rep st = r"
  shows "gs_db (phase_state r) = gs_db st \<and> sinv (gs_store (phase_state r))
    \<and> (present (gs_store (phase_state r)) = present (gs_store st) \<and> gs_started (phase_state r) = gs_started st
       \<or> present (gs_store (phase_state r)) = (present (gs_store st))(cb_hash (sc_blob c) := None) \<and> gs_started (phase_state r))
    \<and> (\<forall>x e. r = PartialCommit x e \<longrightarrow> gs_started x)"
proof (cases "sc_state c")
  case SourcePresent
  then have pr: "present (gs_store st) (cb_hash (sc_blob c)) \<noteq> None" using assms(2) by simp
  show ?thesis
  proof (cases "\<exists>ident u s'. sc_identity c = Some ident \<and> revalidate_present mut (cb_hash (sc_blob c)) ident (gs_store st) = Inr u
      \<and> unlink_present mut (cb_hash (sc_blob c)) (gs_store st) = Inr s'")
    case True
    then obtain s' where u: "unlink_present mut (cb_hash (sc_blob c)) (gs_store st) = Inr s'" by blast
    note law = unlink_law[OF assms(1) pr u]
    obtain ident where i: "sc_identity c = Some ident" "revalidate_present mut (cb_hash (sc_blob c)) ident (gs_store st) = Inr ()"
      using True by auto
    show ?thesis using assms(3) SourcePresent law
      by (auto simp: sweep_physical_def Let_def i u split: sum.splits)
  next
    case False
    then have "\<exists>e. r = AbortApply st e" using assms(3) SourcePresent
      by (auto simp: sweep_physical_def Let_def split: sum.splits option.splits)
    then show ?thesis using assms(1) by auto
  qed
next
  case AlreadyAbsent
  then have "(\<exists>e. r = AbortApply st e) \<or> r = Go st" using assms(3) by (auto simp: sweep_physical_def split: sum.splits)
  then show ?thesis using assms(1) by auto
qed

lemma apply_sweeps_step:
  assumes "apply_sweeps env ses mut (c # cs) st = r"
  obtains (stop) e where "r = AbortApply st e"
  | (physical) rep st1 e where "sweep_physical mut c rep st = AbortApply st1 e \<or> sweep_physical mut c rep st = PartialCommit st1 e"
      "r = sweep_physical mut c rep st"
  | (row) rep st1 e where "sweep_physical mut c rep st = Go st1" "r = AbortApply st1 e"
  | (next_one) rep st1 d p where "sweep_physical mut c rep st = Go st1" "stage_sweep ses (sc_blob c) (gs_db st1) = Inr d"
      "checked_sweep (gs_progress st) (cb_size (sc_blob c)) (sc_state c) = Inr p"
      "sc_state c = SourcePresent \<longrightarrow> checked_after_present_unlink (gs_report st) (cb_size (sc_blob c)) = Inr rep"
      "apply_sweeps env ses mut cs (st1\<lparr>gs_db := d, gs_actions := gs_actions st1 @ [action_for Sweep (sc_blob c) (Some (sc_state c))],
                              gs_progress := p, gs_started := True\<rparr>) = r"
proof (cases "telemetry_check env st")
  case True
  then show ?thesis using assms stop[of TelemetryFailed] by simp
next
  case nt: False
  show ?thesis
  proof (cases "checked_sweep (gs_progress st) (cb_size (sc_blob c)) (sc_state c)")
    case (Inl e)
    then show ?thesis using assms nt stop[of e] by simp
  next
    case p: (Inr p)
    show ?thesis
    proof (cases "if sc_state c = SourcePresent then checked_after_present_unlink (gs_report st) (cb_size (sc_blob c)) else Inr (gs_report st)")
      case (Inl e)
      then show ?thesis using assms nt p stop[of e] by simp
    next
      case rep: (Inr rep)
      have r: "r = (case sweep_physical mut c rep st of AbortApply st1 e \<Rightarrow> AbortApply st1 e | PartialCommit st1 e \<Rightarrow> PartialCommit st1 e
          | Go st1 \<Rightarrow> (case stage_sweep ses (sc_blob c) (gs_db st1) of Inl e \<Rightarrow> AbortApply st1 e
               | Inr d \<Rightarrow> apply_sweeps env ses mut cs
                         (st1\<lparr>gs_db := d, gs_actions := gs_actions st1 @ [action_for Sweep (sc_blob c) (Some (sc_state c))],
                              gs_progress := p, gs_started := True\<rparr>)))"
        using assms nt p rep by simp
      show ?thesis
      proof (cases "sweep_physical mut c rep st")
        case (Go st1)
        show ?thesis
        proof (cases "stage_sweep ses (sc_blob c) (gs_db st1)")
          case (Inl e)
          then show ?thesis using row[OF Go] r Go by simp
        next
          case (Inr d)
          then show ?thesis using next_one[OF Go Inr p] r Go rep by (simp split: if_splits)
        qed
      next
        case (AbortApply st1 e)
        then show ?thesis using physical[of rep st1 e] r by simp
      next
        case (PartialCommit st1 e)
        then show ?thesis using physical[of rep st1 e] r by simp
      qed
    qed
  qed
qed

lemma apply_sweeps_safe:
  assumes "inv (gs_db st)" "fresh st0 (status (gs_db st)) (map sc_blob cs)" "rows_allowed (refd (gs_db st)) st0 (status (gs_db st))"
    "sinv (gs_store st)" "files_allowed (refd (gs_db st)) st0 p0 (present (gs_store st))"
    "\<And>c. c \<in> set cs \<Longrightarrow> collectable (refd (gs_db st)) st0 (cb_hash (sc_blob c))
        \<and> (sc_state c = SourcePresent \<longrightarrow> present (gs_store st) (cb_hash (sc_blob c)) \<noteq> None)"
    "present (gs_store st) = p0 \<or> gs_started st"
    "apply_sweeps env ses mut cs st = r"
  shows "inv (gs_db (phase_state r)) \<and> refd (gs_db (phase_state r)) = refd (gs_db st)
    \<and> rows_allowed (refd (gs_db st)) st0 (status (gs_db (phase_state r)))
    \<and> sinv (gs_store (phase_state r)) \<and> files_allowed (refd (gs_db st)) st0 p0 (present (gs_store (phase_state r)))
    \<and> (present (gs_store (phase_state r)) = p0 \<or> gs_started (phase_state r)) \<and> (\<forall>x e. r = PartialCommit x e \<longrightarrow> gs_started x)"
  using assms
proof (induction cs arbitrary: st)
  case (Cons c cs)
  have col: "collectable (refd (gs_db st)) st0 (cb_hash (sc_blob c))"
    "sc_state c = SourcePresent \<longrightarrow> present (gs_store st) (cb_hash (sc_blob c)) \<noteq> None"
    using Cons.prems(6)[of c] by simp_all
  have phys: "gs_db (phase_state q) = gs_db st \<and> sinv (gs_store (phase_state q))
      \<and> files_allowed (refd (gs_db st)) st0 p0 (present (gs_store (phase_state q)))
      \<and> (present (gs_store (phase_state q)) = p0 \<or> gs_started (phase_state q))
      \<and> (\<forall>h. h \<noteq> cb_hash (sc_blob c) \<longrightarrow> present (gs_store (phase_state q)) h = present (gs_store st) h)
      \<and> (\<forall>x e. q = PartialCommit x e \<longrightarrow> gs_started x)"
    if q: "sweep_physical mut c rep st = q" for rep q
    using sweep_physical_safe[OF Cons.prems(4) col(2) q] Cons.prems(5,7) files_allowed_remove[OF Cons.prems(5) col(1)] by auto
  from Cons.prems(8) show ?case
  proof (cases rule: apply_sweeps_step)
    case (stop e)
    then show ?thesis using Cons.prems by simp
  next
    case (physical rep st1 e)
    then show ?thesis using phys[of rep r] Cons.prems(1,3) by auto
  next
    case (row rep st1 e)
    then show ?thesis using phys[OF row(1)] Cons.prems(1,3) by auto
  next
    case (next_one rep st1 d p)
    note ph = phys[OF next_one(1), simplified]
    have db1: "gs_db st1 = gs_db st" using ph by simp
    have eq: "status (gs_db st1) (cb_hash (sc_blob c)) = st0 (cb_hash (sc_blob c))"
      using Cons.prems(2) db1 by (simp add: fresh_def)
    have i1: "inv (gs_db st1)" "rows_allowed (refd (gs_db st1)) st0 (status (gs_db st1))" using Cons.prems(1,3) db1 by simp_all
    note m = sweep_allowed[OF i1 eq next_one(2)]
    let ?st = "st1\<lparr>gs_db := d, gs_actions := gs_actions st1 @ [action_for Sweep (sc_blob c) (Some (sc_state c))],
                              gs_progress := p, gs_started := True\<rparr>"
    have fr: "fresh st0 ((status (gs_db st))(cb_hash (sc_blob c) := None)) (map sc_blob cs)"
      using fresh_Cons[of st0 "status (gs_db st)" "sc_blob c" "map sc_blob cs" None] Cons.prems(2) by simp
    have ne: "cb_hash (sc_blob c') \<noteq> cb_hash (sc_blob c)" if "c' \<in> set cs" for c'
      using Cons.prems(2) that by (auto simp: fresh_def rev_image_eqI)
    have R: "refd (gs_db ?st) = refd (gs_db st)" using m(2) db1 by simp
    have "inv (gs_db (phase_state r)) \<and> refd (gs_db (phase_state r)) = refd (gs_db ?st)
      \<and> rows_allowed (refd (gs_db ?st)) st0 (status (gs_db (phase_state r)))
      \<and> sinv (gs_store (phase_state r)) \<and> files_allowed (refd (gs_db ?st)) st0 p0 (present (gs_store (phase_state r)))
      \<and> (present (gs_store (phase_state r)) = p0 \<or> gs_started (phase_state r)) \<and> (\<forall>x e. r = PartialCommit x e \<longrightarrow> gs_started x)"
    proof (rule Cons.IH)
      show "inv (gs_db ?st)" using m(1) by simp
      show "fresh st0 (status (gs_db ?st)) (map sc_blob cs)" using fr m(4) db1 by simp
      show "rows_allowed (refd (gs_db ?st)) st0 (status (gs_db ?st))" using m(2,3) by simp
      show "sinv (gs_store ?st)" "files_allowed (refd (gs_db ?st)) st0 p0 (present (gs_store ?st))"
        using ph R by simp_all
      show "collectable (refd (gs_db ?st)) st0 (cb_hash (sc_blob c'))
        \<and> (sc_state c' = SourcePresent \<longrightarrow> present (gs_store ?st) (cb_hash (sc_blob c')) \<noteq> None)" if "c' \<in> set cs" for c'
        using Cons.prems(6)[of c'] that ne[OF that] ph R by simp
    qed (use next_one(5) in simp_all)
    then show ?thesis using R by simp
  qed
qed auto

text \<open>The whole of \<open>apply_plan\<close>: whatever fails, the durable catalog and the store stay within bounds.\<close>

lemma apply_plan_safe:
  assumes "inv d0" "sinv s0"
    and plan: "distinct (map cb_hash (marks (pf_plan pf) @ resurrections (pf_plan pf) @ map sc_blob (pf_candidates pf)))"
    and cand: "\<And>c. c \<in> set (pf_candidates pf) \<Longrightarrow> collectable (refd d0) (status d0) (cb_hash (sc_blob c))
        \<and> (sc_state c = SourcePresent \<longrightarrow> present s0 (cb_hash (sc_blob c)) \<noteq> None)"
    and run: "apply_plan env ses mut pf d0 s0 = (d, s, out)"
  shows "inv d \<and> refd d = refd d0 \<and> rows_allowed (refd d0) (status d0) (status d)
    \<and> sinv s \<and> files_allowed (refd d0) (status d0) (present s0) (present s)"
proof -
  let ?M = "marks (pf_plan pf)" and ?R = "resurrections (pf_plan pf)" and ?C = "pf_candidates pf"
  define st0 where "st0 = \<lparr>gs_db = d0, gs_store = s0, gs_report = pf_report pf, gs_actions = [],
      gs_progress = \<lparr>sp_marks = 0, sp_resurrections = 0, sp_sweeps = 0, sp_reclaimed = 0\<rparr>, gs_started = False\<rparr>"
  define r where "r = phase_then (apply_marks env ses ?M st0) (\<lambda>st1.
      phase_then (apply_resurrections env ses ?R st1) (\<lambda>st2. apply_sweeps env ses mut ?C st2))"
  let ?ok = "\<lambda>x. inv (gs_db x) \<and> refd (gs_db x) = refd d0 \<and> rows_allowed (refd d0) (status d0) (status (gs_db x))
      \<and> sinv (gs_store x) \<and> files_allowed (refd d0) (status d0) (present s0) (present (gs_store x))"
  have fr: "fresh (status d0) st bs" if "\<And>b. b \<in> set bs \<Longrightarrow> st (cb_hash b) = status d0 (cb_hash b)" "distinct (map cb_hash bs)" for st bs
    using that by (simp add: fresh_def)
  have dis: "cb_hash b \<notin> cb_hash ` set ?M" if "b \<in> set ?R \<union> sc_blob ` set ?C" for b
    using plan imageI[OF that, of cb_hash] by (auto simp: image_Un image_image)
  have dis': "cb_hash b \<notin> cb_hash ` set ?R" if "b \<in> sc_blob ` set ?C" for b
    using plan imageI[OF that, of cb_hash] by (auto simp: image_image)
  have ok: "?ok (phase_state r) \<and> (present (gs_store (phase_state r)) = present s0 \<or> gs_started (phase_state r))"
  proof (cases "apply_marks env ses ?M st0")
    case (Go st1)
    note m = apply_marks_safe[of st0 "status d0" ?M env, OF _ _ _ Go, simplified]
    have f0: "fresh (status d0) (status (gs_db st0)) ?M" using plan by (intro fr) (simp_all add: st0_def)
    have m: "inv (gs_db st1) \<and> refd (gs_db st1) = refd d0 \<and> rows_allowed (refd d0) (status d0) (status (gs_db st1))
        \<and> gs_store st1 = s0 \<and> (\<forall>h. h \<notin> cb_hash ` set ?M \<longrightarrow> status (gs_db st1) h = status d0 h)"
      using m f0 assms(1) rows_allowed_refl by (simp add: st0_def)
    have f1: "fresh (status d0) (status (gs_db st1)) ?R" using plan m dis by (intro fr) simp_all
    show ?thesis
    proof (cases "apply_resurrections env ses ?R st1")
      case (Go st2)
      have n: "inv (gs_db st2) \<and> refd (gs_db st2) = refd d0 \<and> rows_allowed (refd d0) (status d0) (status (gs_db st2))
          \<and> gs_store st2 = s0 \<and> (\<forall>h. h \<notin> cb_hash ` set ?R \<longrightarrow> status (gs_db st2) h = status (gs_db st1) h)"
        using apply_resurrections_safe[of st1 "status d0" ?R env, OF _ f1 _ Go] m by simp
      have f2: "fresh (status d0) (status (gs_db st2)) (map sc_blob ?C)"
        using plan m n dis dis' by (intro fr) simp_all
      have "r = apply_sweeps env ses mut ?C st2"
        using Go \<open>apply_marks env ses ?M st0 = phase.Go st1\<close> by (simp add: r_def phase_then_def)
      then show ?thesis
        using apply_sweeps_safe[of st2 "status d0" ?C "present s0" env r, OF _ f2] n cand assms(2) files_allowed_refl by simp
    next
      case (AbortApply st2 e)
      then have "r = AbortApply st2 e" using Go by (simp add: r_def phase_then_def)
      then show ?thesis
        using apply_resurrections_safe[of st1 "status d0" ?R env, OF _ f1 _ AbortApply] m assms(2) files_allowed_refl by simp
    next
      case (PartialCommit st2 e)
      then show ?thesis using apply_resurrections_safe[of st1 "status d0" ?R env, OF _ f1 _ PartialCommit] m by simp
    qed
  next
    case (AbortApply st1 e)
    have f0: "fresh (status d0) (status (gs_db st0)) ?M" using plan by (intro fr) (simp_all add: st0_def)
    have "r = AbortApply st1 e" using AbortApply by (simp add: r_def phase_then_def)
    then show ?thesis
      using apply_marks_safe[of st0 "status d0" ?M env, OF _ f0 _ AbortApply] assms(1,2) files_allowed_refl rows_allowed_refl
      by (simp add: st0_def)
  next
    case (PartialCommit st1 e)
    have f0: "fresh (status d0) (status (gs_db st0)) ?M" using plan by (intro fr) (simp_all add: st0_def)
    then show ?thesis
      using apply_marks_safe[of st0 "status d0" ?M env, OF _ f0 _ PartialCommit] assms(1) rows_allowed_refl by (simp add: st0_def)
  qed
  have "(d = d0 \<or> d = gs_db (phase_state r)) \<and> s = gs_store (phase_state r)"
    using run unfolding apply_plan_def Let_def st0_def[symmetric] r_def[symmetric]
    by (cases r) (auto simp: abort_apply_def commit_partial_def split: if_splits sum.splits)
  then show ?thesis using ok assms(1) rows_allowed_refl by auto
qed

end


section \<open>The catalog keeps the first contract\<close>

definition db_status :: "database \<Rightarrow> status" where
  "db_status db h =
     (case lookup_blob db (as_str h) of
        None \<Rightarrow> None
      | Some b \<Rightarrow> (case b_size b of SInteger n \<Rightarrow> Some (n, b_deleted b \<noteq> SNull) | _ \<Rightarrow> None))"

definition db_refd :: "database \<Rightarrow> blob_hash \<Rightarrow> bool" where
  "db_refd db h = referenced_in db (SText (as_str h))"

definition db_inv :: "database \<Rightarrow> bool" where
  "db_inv db \<longleftrightarrow> db_ok db \<and> sizes_fit db"

lemma db_status_Some:
  "db_status db h = Some (n, m) \<longleftrightarrow>
     (\<exists>b. lookup_blob db (as_str h) = Some b \<and> b_size b = SInteger n \<and> (m \<longleftrightarrow> b_deleted b \<noteq> SNull))"
  by (auto simp: db_status_def split: option.splits sqlval.splits)

lemma as_str_eq_iff: "as_str h = as_str h' \<longleftrightarrow> h = h'"
  by (cases h; cases h') simp

lemma gc_update_law:
  assumes "db_ok db" "\<And>b. p b \<Longrightarrow> blob_matches (as_str h) sz b" "matching p (blobs db) = 1"
    "db' = db\<lparr>blobs := update_where p (b_deleted_update (\<lambda>_. v)) (blobs db)\<rparr>"
  shows "\<exists>b. lookup_blob db (as_str h) = Some b \<and> p b"
    "db_status db' = (db_status db)(h \<mapsto> (sz, v \<noteq> SNull))" "db_refd db' = db_refd db"
proof -
  have key: "\<And>b. p b \<Longrightarrow> b_hash b = SText (as_str h)" using assms(2) by (auto simp: blob_matches_def)
  obtain b where b: "lookup_blob db (as_str h) = Some b" "p b"
    using matching_lookup[OF assms(1) key] assms(3) by (auto split: option.splits if_splits)
  then show "\<exists>b. lookup_blob db (as_str h) = Some b \<and> p b" by blast
  have size: "b_size b = SInteger sz" using assms(2)[OF b(2)] by (simp add: blob_matches_def)
  show "db_status db' = (db_status db)(h \<mapsto> (sz, v \<noteq> SNull))"
  proof
    fix h'
    show "db_status db' h' = ((db_status db)(h \<mapsto> (sz, v \<noteq> SNull))) h'"
    proof (cases "h' = h")
      case True
      then show ?thesis using b size by (simp add: db_status_def assms(4) lookup_blob_update)
    next
      case False
      then have "lookup_blob db' (as_str h') = lookup_blob db (as_str h')"
        unfolding assms(4) using key by (intro lookup_blob_elsewhere) (auto simp: as_str_eq_iff)
      then show ?thesis using False by (simp add: db_status_def)
    qed
  qed
  show "db_refd db' = db_refd db" by (auto simp: assms(4) db_refd_def referenced_in_def fun_eq_iff)
qed

lemma sizes_fit_update:
  "sizes_fit db \<Longrightarrow> sizes_fit (db\<lparr>blobs := update_where p (b_deleted_update f) (blobs db)\<rparr>)"
  by (auto simp: sizes_fit_def list_all_iff set_update_where)

lemma stage_gc_markD:
  assumes "stage_gc_mark True call b now db = Inr db'"
  shows "db' = fst (gc_mark_sql (as_str (cb_hash b)) (uint (cb_size b)) now db)"
    "matching (gc_mark_where db (as_str (cb_hash b)) (uint (cb_size b))) (blobs db) = 1"
  using assms by (auto simp: stage_gc_mark_def gc_mark_sql_def bind_result_eq_Inr sqlite_u64_Inr require_one_gc_row_def split: if_splits)

lemma stage_gc_resurrectD:
  assumes "stage_gc_resurrect True call b db = Inr db'"
  shows "db' = fst (gc_resurrect_sql (as_str (cb_hash b)) (uint (cb_size b)) db)"
    "matching (gc_resurrect_where db (as_str (cb_hash b)) (uint (cb_size b))) (blobs db) = 1"
  using assms by (auto simp: stage_gc_resurrect_def gc_resurrect_sql_def bind_result_eq_Inr sqlite_u64_Inr require_one_gc_row_def split: if_splits)

lemma stage_gc_sweepD:
  assumes "stage_gc_sweep True call b db = Inr db'"
  shows "db' = fst (gc_sweep_sql (as_str (cb_hash b)) (uint (cb_size b)) db)"
    "matching (gc_sweep_where db (as_str (cb_hash b)) (uint (cb_size b))) (blobs db) = 1"
  using assms by (auto simp: stage_gc_sweep_def gc_sweep_sql_def bind_result_eq_Inr sqlite_u64_Inr require_one_gc_row_def split: if_splits)

lemma gc_sweep_lookup:
  assumes "db_ok db" "matching (gc_sweep_where db (as_str h) sz) (blobs db) = 1"
  defines "db' \<equiv> fst (gc_sweep_sql (as_str h) sz db)"
  shows "\<exists>b. lookup_blob db (as_str h) = Some b \<and> gc_sweep_where db (as_str h) sz b"
    "db_status db' = (db_status db)(h := None)"
proof -
  let ?p = "gc_sweep_where db (as_str h) sz"
  have key: "\<And>b. ?p b \<Longrightarrow> b_hash b = SText (as_str h)" by (simp add: gc_sweep_where_def blob_matches_def)
  obtain b where b: "lookup_blob db (as_str h) = Some b" "?p b"
    using matching_lookup[OF assms(1) key] assms(2) by (auto split: option.splits if_splits)
  then show "\<exists>b. lookup_blob db (as_str h) = Some b \<and> ?p b" by blast
  have ok': "db_ok db'" unfolding db'_def by (rule db_ok_gc_sweep[OF assms(1)])
  have mem: "x \<in> set (blobs db') \<longleftrightarrow> x \<in> set (blobs db) \<and> \<not> ?p x" for x
    by (simp add: db'_def gc_sweep_sql_def)
  have "lookup_blob db' (as_str h) = None"
  proof (rule ccontr)
    assume "lookup_blob db' (as_str h) \<noteq> None"
    then obtain c where "lookup_blob db' (as_str h) = Some c" by auto
    then have c: "c \<in> set (blobs db)" "\<not> ?p c" "b_hash c = SText (as_str h)" using lookup_blob_Some[OF ok'] mem by auto
    then show False using b lookup_blob_Some[OF assms(1)] blob_row_unique[OF assms(1)] by metis
  qed
  moreover have "lookup_blob db' (as_str h') = lookup_blob db (as_str h')" if "h' \<noteq> h" for h'
  proof (rule option_eqI)
    fix v
    show "lookup_blob db' (as_str h') = Some v \<longleftrightarrow> lookup_blob db (as_str h') = Some v"
      using lookup_blob_Some[OF ok', of "as_str h'" v] lookup_blob_Some[OF assms(1), of "as_str h'" v] mem[of v] key[of v] that
      by (auto simp: as_str_eq_iff)
  qed
  ultimately show "db_status db' = (db_status db)(h := None)" by (auto simp: db_status_def fun_eq_iff)
qed

lemma matching_one: "db_ok db \<Longrightarrow> (\<And>b. p b \<Longrightarrow> b_hash b = SText h) \<Longrightarrow> lookup_blob db h = Some b \<Longrightarrow> p b \<Longrightarrow> matching p (blobs db) = 1"
  by (simp add: matching_lookup)

interpretation dbgc: gc_catalog "catalog_gc_session call" db_status db_refd db_inv for call
proof unfold_locales
  fix d d' :: database and b :: catalog_blob and now :: int
  let ?h = "as_str (cb_hash b)" and ?sz = "uint (cb_size b)"
  have refd: "referenced_in d (b_hash x) = db_refd d (cb_hash b)" if "b_hash x = SText ?h" for x :: blob_row
    using that by (simp add: db_refd_def)
  assume inv: "db_inv d"
  then have ok: "db_ok d" and fit: "sizes_fit d" by (simp_all add: db_inv_def)
  {
    assume "stage_mark (catalog_gc_session call) b now d = Inr d'"
    then have s: "stage_gc_mark True (call Mark (cb_hash b)) b now d = Inr d'" by (simp add: catalog_gc_session_def)
    note D = stage_gc_markD[OF s]
    have eq: "d' = d\<lparr>blobs := update_where (gc_mark_where d ?h ?sz) (b_deleted_update (\<lambda>_. SInteger now)) (blobs d)\<rparr>"
      using D(1) by (simp add: gc_mark_sql_def)
    have w: "\<And>x. gc_mark_where d ?h ?sz x \<Longrightarrow> blob_matches ?h ?sz x" by (simp add: gc_mark_where_def)
    note U = gc_update_law[OF ok w D(2) eq]
    have sizes: "sizes_fit d'" unfolding eq by (rule sizes_fit_update[OF fit])
    have "db_status d (cb_hash b) = Some (?sz, False)" "\<not> db_refd d (cb_hash b)"
    proof -
      obtain x where x: "lookup_blob d ?h = Some x" "gc_mark_where d ?h ?sz x" using U(1) by blast
      then have "b_hash x = SText ?h" by (simp add: gc_mark_where_def blob_matches_def)
      then show "db_status d (cb_hash b) = Some (?sz, False)" "\<not> db_refd d (cb_hash b)"
        using x refd[of x] by (auto simp: gc_mark_where_def blob_matches_def db_status_Some)
    qed
    then show "db_inv d' \<and> db_refd d' = db_refd d \<and> db_status d (cb_hash b) = Some (?sz, False) \<and> \<not> db_refd d (cb_hash b) \<and>
        db_status d' = (db_status d)(cb_hash b \<mapsto> (?sz, True))"
      using U(2,3) db_ok_gc_statements(1)[OF ok] D(1) sizes by (simp add: db_inv_def)
  }
  {
    assume "stage_resurrection (catalog_gc_session call) b d = Inr d'"
    then have s: "stage_gc_resurrect True (call Resurrect (cb_hash b)) b d = Inr d'" by (simp add: catalog_gc_session_def)
    note D = stage_gc_resurrectD[OF s]
    have eq: "d' = d\<lparr>blobs := update_where (gc_resurrect_where d ?h ?sz) (b_deleted_update (\<lambda>_. SNull)) (blobs d)\<rparr>"
      using D(1) by (simp add: gc_resurrect_sql_def)
    have w: "\<And>x. gc_resurrect_where d ?h ?sz x \<Longrightarrow> blob_matches ?h ?sz x" by (simp add: gc_resurrect_where_def)
    note U = gc_update_law[OF ok w D(2) eq]
    have sizes: "sizes_fit d'" unfolding eq by (rule sizes_fit_update[OF fit])
    have "db_status d (cb_hash b) = Some (?sz, True)" "db_refd d (cb_hash b)"
    proof -
      obtain x where x: "lookup_blob d ?h = Some x" "gc_resurrect_where d ?h ?sz x" using U(1) by blast
      then have "b_hash x = SText ?h" by (simp add: gc_resurrect_where_def blob_matches_def)
      then show "db_status d (cb_hash b) = Some (?sz, True)" "db_refd d (cb_hash b)"
        using x refd[of x] by (auto simp: gc_resurrect_where_def blob_matches_def db_status_Some)
    qed
    then show "db_inv d' \<and> db_refd d' = db_refd d \<and> db_status d (cb_hash b) = Some (?sz, True) \<and> db_refd d (cb_hash b) \<and>
        db_status d' = (db_status d)(cb_hash b \<mapsto> (?sz, False))"
      using U(2,3) db_ok_gc_statements(2)[OF ok] D(1) sizes by (simp add: db_inv_def)
  }
  {
    assume "stage_sweep (catalog_gc_session call) b d = Inr d'"
    then have s: "stage_gc_sweep True (call Sweep (cb_hash b)) b d = Inr d'" by (simp add: catalog_gc_session_def)
    note D = stage_gc_sweepD[OF s]
    note U = gc_sweep_lookup[OF ok D(2)]
    have "db_status d (cb_hash b) = Some (?sz, True)" "\<not> db_refd d (cb_hash b)"
    proof -
      obtain x where x: "lookup_blob d ?h = Some x" "gc_sweep_where d ?h ?sz x" using U(1) by blast
      then have "b_hash x = SText ?h" by (simp add: gc_sweep_where_def blob_matches_def)
      then show "db_status d (cb_hash b) = Some (?sz, True)" "\<not> db_refd d (cb_hash b)"
        using x refd[of x] by (auto simp: gc_sweep_where_def blob_matches_def db_status_Some)
    qed
    moreover have "sizes_fit d'" "db_refd d' = db_refd d"
      using fit D(1) by (auto simp: gc_sweep_sql_def sizes_fit_def list_all_iff db_refd_def referenced_in_def fun_eq_iff)
    ultimately show "db_inv d' \<and> db_refd d' = db_refd d \<and> db_status d (cb_hash b) = Some (?sz, True) \<and> \<not> db_refd d (cb_hash b) \<and>
        db_status d' = (db_status d)(cb_hash b := None)"
      using U(2) db_ok_gc_sweep[OF ok] D(1) by (simp add: db_inv_def)
  }
qed

text \<open>Without faults a statement that fits the state of its row succeeds.\<close>

lemma stages_total:
  assumes "db_inv d" "db_status d (cb_hash b) = Some (uint (cb_size b), m)"
  shows "\<not> m \<Longrightarrow> \<not> db_refd d (cb_hash b) \<Longrightarrow> \<exists>d'. stage_gc_mark True (Inr ()) b now d = Inr d'"
    "m \<Longrightarrow> db_refd d (cb_hash b) \<Longrightarrow> \<exists>d'. stage_gc_resurrect True (Inr ()) b d = Inr d'"
    "m \<Longrightarrow> \<not> db_refd d (cb_hash b) \<Longrightarrow> \<exists>d'. stage_gc_sweep True (Inr ()) b d = Inr d'"
proof -
  let ?h = "as_str (cb_hash b)" and ?sz = "uint (cb_size b)"
  have ok: "db_ok d" and fit: "sizes_fit d" using assms(1) by (simp_all add: db_inv_def)
  have refd: "referenced_in d (b_hash x) = db_refd d (cb_hash b)" if "b_hash x = SText ?h" for x :: blob_row
    using that by (simp add: db_refd_def)
  obtain x where x: "lookup_blob d ?h = Some x" "b_size x = SInteger ?sz" "m \<longleftrightarrow> b_deleted x \<noteq> SNull" "b_hash x = SText ?h"
    using assms(2) lookup_blob_hash by (auto simp: db_status_Some)
  have fits: "sqlite_u64 (cb_size b) = Inr ?sz"
    using fit x(1,2) lookup_blob_Some[OF ok, of ?h x] by (auto simp: sizes_fit_def list_all_iff fits_i64_def i64_range_def sqlite_u64_def)
  have key: "gc_mark_where d ?h ?sz y \<Longrightarrow> b_hash y = SText ?h" "gc_resurrect_where d ?h ?sz y \<Longrightarrow> b_hash y = SText ?h"
    "gc_sweep_where d ?h ?sz y \<Longrightarrow> b_hash y = SText ?h" for y
    by (simp_all add: gc_mark_where_def gc_resurrect_where_def gc_sweep_where_def blob_matches_def)
  show "\<exists>d'. stage_gc_mark True (Inr ()) b now d = Inr d'" if "\<not> m" "\<not> db_refd d (cb_hash b)"
  proof -
    have "gc_mark_where d ?h ?sz x" using that x refd[OF x(4)] by (simp add: gc_mark_where_def blob_matches_def)
    then have "matching (gc_mark_where d ?h ?sz) (blobs d) = 1" using matching_one[OF ok key(1) x(1)] by blast
    then show ?thesis using fits by (simp add: stage_gc_mark_def gc_mark_sql_def require_one_gc_row_def)
  qed
  show "\<exists>d'. stage_gc_resurrect True (Inr ()) b d = Inr d'" if m "db_refd d (cb_hash b)"
  proof -
    have "gc_resurrect_where d ?h ?sz x" using that x refd[OF x(4)] by (simp add: gc_resurrect_where_def blob_matches_def)
    then have "matching (gc_resurrect_where d ?h ?sz) (blobs d) = 1" using matching_one[OF ok key(2) x(1)] by blast
    then show ?thesis using fits by (simp add: stage_gc_resurrect_def gc_resurrect_sql_def require_one_gc_row_def)
  qed
  show "\<exists>d'. stage_gc_sweep True (Inr ()) b d = Inr d'" if m "\<not> db_refd d (cb_hash b)"
  proof -
    have "gc_sweep_where d ?h ?sz x" using that x refd[OF x(4)] by (simp add: gc_sweep_where_def blob_matches_def)
    then have "matching (gc_sweep_where d ?h ?sz) (blobs d) = 1" using matching_one[OF ok key(3) x(1)] by blast
    then show ?thesis using fits by (simp add: stage_gc_sweep_def gc_sweep_sql_def require_one_gc_row_def)
  qed
qed


section \<open>The file system keeps the second contract\<close>

definition present_blob :: "store_root \<Rightarrow> fs \<Rightarrow> blob_hash \<Rightarrow> blob_identity option" where
  "present_blob root f h =
     (if hash_ok h
      then (case node_at f (blob_file root h) of Some (FFile i) \<Rightarrow> Some (identity_of (metadata_of f (FFile i))) | _ \<Rightarrow> None)
      else None)"

lemma present_blobE:
  assumes "present_blob root f h \<noteq> None"
  obtains i where "hash_ok h" "node_at f (blob_file root h) = Some (FFile i)"
    "present_blob root f h = Some (identity_of (metadata_of f (FFile i)))"
  using assms that by (auto simp: present_blob_def split: if_splits option.splits node.splits)

lemma fs_ok_clear_file:
  assumes "fs_ok f" "node_at f ns = Some (FFile i)"
  shows "fs_ok (clear_node ns f)"
proof -
  have ne: "ns \<noteq> []" using assms(2) by auto
  have "p \<noteq> [] \<and> node_at (clear_node ns f) (butlast p) = Some FDir \<and> list_all name_ok p
      \<and> (case n of FFile i \<Rightarrow> i < next_inode f | _ \<Rightarrow> True)" if "(p, n) \<in> set (nodes (clear_node ns f))" for p n
  proof -
    have "(p, n) \<in> set (nodes f)" using that by (auto simp: clear_node_def AList.delete_eq)
    then have *: "p \<noteq> []" "node_at f (butlast p) = Some FDir" "list_all name_ok p" "case n of FFile i \<Rightarrow> i < next_inode f | _ \<Rightarrow> True"
      using assms(1) by (auto simp: fs_ok_def list_all_iff)
    then show ?thesis using assms(2) ne by auto
  qed
  then show ?thesis unfolding fs_ok_def list_all_iff clear_node_other by blast
qed

lemma real_dir_clear_file:
  assumes "real_dir f ds" "node_at f ns = Some (FFile i)"
  shows "real_dir (clear_node ns f) ds"
proof -
  have "ns \<noteq> []" using assms(2) by auto
  then show ?thesis using assms by (auto simp: real_dir_def real_parents_def)
qed

lemma remove_present_blob:
  assumes "store_ok root f" "present_blob root f h \<noteq> None" "remove_blob_file root h f = Inr f'"
  shows "f' = clear_node (blob_file root h) f" "store_ok root f'" "present_blob root f' = (present_blob root f)(h := None)"
proof -
  obtain i where i: "hash_ok h" "node_at f (blob_file root h) = Some (FFile i)" using assms(2) by (rule present_blobE)
  have can: "canonical (store_path root)" and ok: "fs_ok f" and dir: "real_dir f (store_names root)"
    using assms(1) by (auto simp: store_ok_def)
  note n = blob_path_names[OF can i(1)]
  have ne: "blob_file root h \<noteq> []" by (simp add: blob_file_def)
  show f': "f' = clear_node (blob_file root h) f"
    using remove_file_Inr[OF n(2) fs_ok_real_parents[OF ok i(2)]] assms(3) by (simp add: remove_blob_file_def of_io_Inr n(1))
  show "store_ok root f'"
    using can fs_ok_clear_file[OF ok i(2)] real_dir_clear_file[OF dir i(2)] by (simp add: store_ok_def f')
  show "present_blob root f' = (present_blob root f)(h := None)"
    using ne by (auto simp: fun_eq_iff present_blob_def f' blob_file_inj metadata_of_def split: option.splits node.splits)
qed

interpretation fsgc: gc_store "filesystem_gc_mutator root" "present_blob root" "store_ok root" for root
proof unfold_locales
  fix f h i j u
  assume ok: "store_ok root f" and p: "present_blob root f h = Some i"
    and r: "revalidate_present (filesystem_gc_mutator root) h j f = Inr u"
  obtain k where k: "hash_ok h" "node_at f (blob_file root h) = Some (FFile k)"
    "present_blob root f h = Some (identity_of (metadata_of f (FFile k)))"
    using p present_blobE[of root f h] by (metis option.distinct(1))
  have can: "canonical (store_path root)" and fs: "fs_ok f" using ok by (auto simp: store_ok_def)
  note n = blob_path_names[OF can k(1)]
  show "j = i"
    using r k p symlink_metadata_Inr[OF n(2) fs_ok_real_parents[OF fs k(2)]]
    by (auto simp: filesystem_gc_mutator_def revalidate_blob_for_removal_def bind_result_eq_Inr of_io_Inr n(1) split: if_splits)
next
  fix f h f'
  assume "store_ok root f" "present_blob root f h \<noteq> None" "unlink_present (filesystem_gc_mutator root) h f = Inr f'"
  then show "store_ok root f' \<and> present_blob root f' = (present_blob root f)(h := None)"
    using remove_present_blob[of root f h f'] by (simp add: filesystem_gc_mutator_def)
qed

interpretation rungc: gc_run "catalog_gc_session call" db_status db_refd db_inv "filesystem_gc_mutator root" "present_blob root" "store_ok root" for call root
  by unfold_locales

end
