(* ===== verification/GcRuns.thy ===== *)
theory GcRuns
  imports GcSafety
begin

text \<open>
  Whole garbage collections: what the plan lists, what a preflight without findings has
  verified, and from these and the contracts of \<open>GcSafety\<close> the two theorems of a run: whatever
  fails, only unreferenced blobs that were already marked lose their row or their file; and a
  run that reports completion has done every action exactly once.
\<close>

section \<open>The plan\<close>

definition to_mark :: "catalog_blob \<Rightarrow> bool" where
  "to_mark b \<longleftrightarrow> \<not> referenced b \<and> marked_at_ms b = None"

definition to_resurrect :: "catalog_blob \<Rightarrow> bool" where
  "to_resurrect b \<longleftrightarrow> referenced b \<and> marked_at_ms b \<noteq> None"

definition to_sweep :: "catalog_blob \<Rightarrow> bool" where
  "to_sweep b \<longleftrightarrow> \<not> referenced b \<and> marked_at_ms b \<noteq> None"

definition split_plan :: "catalog_blob list \<Rightarrow> gc_plan" where
  "split_plan bs = \<lparr>marks = filter to_mark bs, resurrections = filter to_resurrect bs, sweeps = filter to_sweep bs\<rparr>"

lemmas plan_kinds = to_mark_def to_resurrect_def to_sweep_def classify_def

lemma plan_step_Inr:
  assumes "plan_step (p, n) x = Inr (p', n')"
  shows "p' = \<lparr>marks = marks p @ filter to_mark [x], resurrections = resurrections p @ filter to_resurrect [x],
      sweeps = sweeps p @ filter to_sweep [x]\<rparr> \<and> unat n' = unat n + length (filter referenced [x])"
  using assms by (cases "referenced x"; cases "marked_at_ms x") (auto simp: plan_step_def plan_kinds bind_result_eq_Inr add_or_fail_unat)

lemma plan_steps:
  assumes "fold_result plan_step (p, n) bs = Inr (p', n')"
  shows "p' = \<lparr>marks = marks p @ filter to_mark bs, resurrections = resurrections p @ filter to_resurrect bs,
      sweeps = sweeps p @ filter to_sweep bs\<rparr> \<and> unat n' = unat n + length (filter referenced bs)"
  using assms
proof (induction bs arbitrary: p n)
  case (Cons x bs)
  then obtain p1 n1 where s: "plan_step (p, n) x = Inr (p1, n1)" "fold_result plan_step (p1, n1) bs = Inr (p', n')"
    by (auto simp: bind_result_eq_Inr)
  show ?case using Cons.IH[OF s(2)] plan_step_Inr[OF s(1)] by simp
qed (cases p, simp)

lemma plan_steps_total:
  assumes "unat n + length bs < 2 ^ 64"
  shows "\<exists>r. fold_result plan_step (p, n) bs = Inr r"
  using assms
proof (induction bs arbitrary: p n)
  case (Cons x bs)
  have "\<exists>p1 n1. plan_step (p, n) x = Inr (p1, n1)"
    using Cons.prems by (simp add: plan_step_def add_or_fail_Inr)
  then obtain p1 n1 where s: "plan_step (p, n) x = Inr (p1, n1)" by blast
  have "unat n1 \<le> unat n + 1" using plan_step_Inr[OF s] by (auto split: if_splits)
  then show ?case using Cons.IH[of n1 p1] Cons.prems s by auto
qed simp

lemma build_plan_Inr:
  assumes "build_plan snap = Inr (plan, reach)"
  shows "plan = split_plan (sort_key cb_hash (map snd (valid_blobs snap)))"
    "unat reach = length (filter referenced (map snd (valid_blobs snap)))"
proof -
  let ?bs = "sort_key cb_hash (map snd (valid_blobs snap))"
  note s = plan_steps[OF assms[unfolded build_plan_def]]
  then show "plan = split_plan ?bs" by (simp add: split_plan_def)
  have "length (filter referenced ?bs) = length (filter referenced (map snd (valid_blobs snap)))"
    by (metis filter_sort length_sort)
  then show "unat reach = length (filter referenced (map snd (valid_blobs snap)))" using s by simp
qed

text \<open>
  Planning never fails below the 64-bit limit and splits the rows of the
  snapshot exactly, in the order of their hashes: unreferenced and unmarked rows are marked,
  referenced and marked rows are resurrected, unreferenced and marked rows are swept, and
  referenced unmarked rows stay; the reachable count is the number of referenced rows.
\<close>

theorem build_plan_splits_rows:
  assumes "length (valid_blobs snap) < 2 ^ 64"
  shows "\<exists>plan reach. build_plan snap = Inr (plan, reach)
    \<and> sorted (map cb_hash (marks plan)) \<and> sorted (map cb_hash (resurrections plan)) \<and> sorted (map cb_hash (sweeps plan))
    \<and> mset (marks plan) = {# b \<in># mset (map snd (valid_blobs snap)). \<not> referenced b \<and> marked_at_ms b = None #}
    \<and> mset (resurrections plan) = {# b \<in># mset (map snd (valid_blobs snap)). referenced b \<and> marked_at_ms b \<noteq> None #}
    \<and> mset (sweeps plan) = {# b \<in># mset (map snd (valid_blobs snap)). \<not> referenced b \<and> marked_at_ms b \<noteq> None #}
    \<and> unat reach = length (filter referenced (map snd (valid_blobs snap)))"
proof -
  let ?bs = "sort_key cb_hash (map snd (valid_blobs snap))"
  obtain plan reach where r: "build_plan snap = Inr (plan, reach)"
    using plan_steps_total[of 0 ?bs "\<lparr>marks = [], resurrections = [], sweeps = []\<rparr>"] assms by (auto simp: build_plan_def)
  have sub: "sorted (map cb_hash (filter P ?bs))" for P by (metis filter_sort sorted_sort_key)
  have ms: "mset (filter P ?bs) = filter_mset P (mset (map snd (valid_blobs snap)))" for P by simp
  show ?thesis using build_plan_Inr[OF r] r sub ms unfolding split_plan_def plan_kinds
    by (intro exI[of _ plan] exI[of _ reach]) simp
qed

definition sample_snapshot :: catalog_audit_snapshot where
  "sample_snapshot = \<lparr>blob_rows_seen = 2, gc_candidates = 1,
     valid_blobs = [(BlobHash ''b'', \<lparr>cb_hash = BlobHash ''b'', cb_size = 3, marked_at_ms = Some 1, referenced = False\<rparr>),
                    (BlobHash ''a'', \<lparr>cb_hash = BlobHash ''a'', cb_size = 4, marked_at_ms = None, referenced = True\<rparr>)],
     snap_findings = []\<rparr>"

theorem build_plan_splits_rows_witness:
  "\<exists>plan reach. build_plan sample_snapshot = Inr (plan, reach) \<and> marks plan = [] \<and> map cb_hash (sweeps plan) = [BlobHash ''b'']
     \<and> unat reach = 1"
proof -
  obtain plan reach where p: "build_plan sample_snapshot = Inr (plan, reach)" "mset (marks plan) = {#}"
    "mset (sweeps plan) = {# \<lparr>cb_hash = BlobHash ''b'', cb_size = 3, marked_at_ms = Some 1, referenced = False\<rparr> #}" "unat reach = 1"
    using build_plan_splits_rows[of sample_snapshot] by (auto simp: sample_snapshot_def)
  then show ?thesis by simp
qed



section \<open>What a preflight has verified\<close>

text \<open>
  A candidate whose file was listed carries an identity only if the file was opened, read to
  the end, and has the size and the hash of its row.
\<close>

definition verified :: "'h blake3 \<Rightarrow> store_root \<Rightarrow> fs \<Rightarrow> catalog_blob \<Rightarrow> blob_identity \<Rightarrow> bool" where
  "verified b root f blob ident \<longleftrightarrow> (\<exists>opened. open_blob_no_follow root (cb_hash blob) f = Inr opened
     \<and> ob_identity opened = ident \<and> digest b (ob_content opened) = cb_hash blob
     \<and> length (ob_content opened) = unat (cb_size blob) \<and> id_len ident = cb_size blob)"

definition candidate_fits :: "'h blake3 \<Rightarrow> store_root \<Rightarrow> fs \<Rightarrow> cas_inspection \<Rightarrow> integrity_finding list \<Rightarrow> sweep_candidate \<Rightarrow> bool" where
  "candidate_fits b root f cas found c \<longleftrightarrow>
     (case sc_state c of
        SourcePresent \<Rightarrow> cb_hash (sc_blob c) \<in> set (ci_valid cas)
          \<and> (case sc_identity c of None \<Rightarrow> found \<noteq> [] | Some ident \<Rightarrow> verified b root f (sc_blob c) ident)
      | AlreadyAbsent \<Rightarrow> ci_complete cas \<and> cb_hash (sc_blob c) \<notin> set (ci_valid cas) \<and> canonical_path_is_absent root f (cb_hash (sc_blob c)))"

abbreviation reads_contents :: "'r file_io \<Rightarrow> nat \<Rightarrow> bool" where
  "reads_contents io chunk \<equiv> \<forall>content. delivers (read_chunk io) chunk (open_read io content) content"

lemma judge_candidate_Inr:
  assumes "judge_candidate blob ident actual ss = Inr (ss', r)"
  shows "ss_candidates ss' = ss_candidates ss" "prefix (gr_findings (ss_report ss)) (gr_findings (ss_report ss'))"
    "r = None \<Longrightarrow> gr_findings (ss_report ss') \<noteq> []"
    "r = Some i \<Longrightarrow> i = ident \<and> id_len ident = cb_size blob \<and> hr_size actual = cb_size blob \<and> hr_hash actual = cb_hash blob"
  using assms unfolding judge_candidate_def
  by (auto simp: bind_result_eq_Inr Let_def add_findings_def split: if_splits)

lemma scan_candidate_step:
  assumes "reads_contents io chunk" "blake3_laws b"
    "scan_candidate b io obs env root chunk f cas ss blob = Some (Inr ss')"
  shows "prefix (gr_findings (ss_report ss)) (gr_findings (ss_report ss'))"
    "(\<exists>c. sc_blob c = blob \<and> ss_candidates ss' = ss_candidates ss @ [c]
        \<and> candidate_fits b root f cas (gr_findings (ss_report ss')) c)
     \<or> ss' = ss \<and> cb_hash blob \<notin> set (ci_valid cas) \<and> \<not> (ci_complete cas \<and> canonical_path_is_absent root f (cb_hash blob))"
proof -
  let ?goal = "prefix (gr_findings (ss_report ss)) (gr_findings (ss_report ss')) \<and>
    ((\<exists>c. sc_blob c = blob \<and> ss_candidates ss' = ss_candidates ss @ [c]
        \<and> candidate_fits b root f cas (gr_findings (ss_report ss')) c)
     \<or> ss' = ss \<and> cb_hash blob \<notin> set (ci_valid cas) \<and> \<not> (ci_complete cas \<and> canonical_path_is_absent root f (cb_hash blob)))"
  have t: "\<not> telemetry_failed env (AtCandidate (length (ss_candidates ss)))" using assms(3) by (auto simp: scan_candidate_def Let_def)
  have ?goal
  proof (cases "cb_hash blob \<in> set (ci_valid cas)")
    case False
    then show ?thesis using assms(3) t
      by (auto simp: scan_candidate_def Let_def push_candidate_def candidate_fits_def split: if_splits)
  next
    case True
    show ?thesis
    proof (cases "open_blob_no_follow root (cb_hash blob) f")
      case (Inl e)
      then show ?thesis using assms(3) t True
        by (auto simp: scan_candidate_def Let_def push_candidate_def candidate_fits_def add_findings_def)
    next
      case opened: (Inr opened)
      obtain u r where h: "hash_reader_with_chunk_observer b (read_chunk io) (open_read io (ob_content opened)) chunk obs () = Some (u, r)"
        using assms(3) t True opened by (auto simp: scan_candidate_def Let_def split: option.splits)
      show ?thesis
      proof (cases r)
        case (Inl e)
        then show ?thesis using assms(3) t True opened h
          by (auto simp: scan_candidate_def Let_def push_candidate_def candidate_fits_def add_findings_def split: if_splits)
      next
        case (Inr actual)
        then obtain ss1 i where j: "judge_candidate blob (ob_identity opened) actual ss = Inr (ss1, i)"
          "ss' = push_candidate blob SourcePresent i ss1"
          using assms(3) t True opened h by (auto simp: scan_candidate_def Let_def bind_result_eq_Inr)
        note J = judge_candidate_Inr[OF j(1)]
        have snd: "hr_hash actual = digest b (ob_content opened) \<and> unat (hr_size actual) = length (ob_content opened)"
          using hash_reader_sound[of "read_chunk io" chunk "open_read io (ob_content opened)" "ob_content opened" b obs "()" u actual]
            assms(1,2) h Inr by simp
        have "candidate_fits b root f cas (gr_findings (ss_report ss')) \<lparr>sc_blob = blob, sc_state = SourcePresent, sc_identity = i\<rparr>"
          using J(3,4) snd True opened j(2)
          by (cases i) (auto simp: candidate_fits_def verified_def push_candidate_def)
        then show ?thesis using J(1,2) j(2) by (auto simp: push_candidate_def)
      qed
    qed
  qed
  then show "prefix (gr_findings (ss_report ss)) (gr_findings (ss_report ss'))"
    "(\<exists>c. sc_blob c = blob \<and> ss_candidates ss' = ss_candidates ss @ [c]
        \<and> candidate_fits b root f cas (gr_findings (ss_report ss')) c)
     \<or> ss' = ss \<and> cb_hash blob \<notin> set (ci_valid cas) \<and> \<not> (ci_complete cas \<and> canonical_path_is_absent root f (cb_hash blob))"
    by blast+
qed

lemma candidate_fits_mono: "prefix xs ys \<Longrightarrow> candidate_fits b root f cas xs c \<Longrightarrow> candidate_fits b root f cas ys c"
  by (auto simp: candidate_fits_def split: sweep_source_state.splits option.splits)

lemma scan_candidates_spec:
  assumes "reads_contents io chunk" "blake3_laws b"
    "scan_candidates b io obs env root chunk f cas bs ss = Some (Inr ss')"
  shows "prefix (gr_findings (ss_report ss)) (gr_findings (ss_report ss')) \<and>
    (\<exists>cs. ss_candidates ss' = ss_candidates ss @ cs \<and> list_all (candidate_fits b root f cas (gr_findings (ss_report ss'))) cs
      \<and> map sc_blob cs = filter (\<lambda>blob. cb_hash blob \<in> set (ci_valid cas) \<or> ci_complete cas \<and> canonical_path_is_absent root f (cb_hash blob)) bs)"
  using assms(3)
proof (induction bs arbitrary: ss)
  case (Cons blob bs)
  let ?keep = "\<lambda>blob. cb_hash blob \<in> set (ci_valid cas) \<or> ci_complete cas \<and> canonical_path_is_absent root f (cb_hash blob)"
  obtain ss1 where s: "scan_candidate b io obs env root chunk f cas ss blob = Some (Inr ss1)"
    "scan_candidates b io obs env root chunk f cas bs ss1 = Some (Inr ss')"
    using Cons.prems by (auto split: option.splits sum.splits)
  note S = scan_candidate_step[OF assms(1,2) s(1)]
  obtain cs where I: "prefix (gr_findings (ss_report ss1)) (gr_findings (ss_report ss'))" "ss_candidates ss' = ss_candidates ss1 @ cs"
    "list_all (candidate_fits b root f cas (gr_findings (ss_report ss'))) cs" "map sc_blob cs = filter ?keep bs"
    using Cons.IH[OF s(2)] by auto
  have pre: "prefix (gr_findings (ss_report ss)) (gr_findings (ss_report ss'))" using S(1) I(1) by (rule prefix_order.trans)
  from S(2) show ?case
  proof
    assume "\<exists>c. sc_blob c = blob \<and> ss_candidates ss1 = ss_candidates ss @ [c]
        \<and> candidate_fits b root f cas (gr_findings (ss_report ss1)) c"
    then obtain c where c: "sc_blob c = blob" "ss_candidates ss1 = ss_candidates ss @ [c]"
      "candidate_fits b root f cas (gr_findings (ss_report ss')) c" using candidate_fits_mono[OF I(1)] by blast
    then have "?keep blob" by (auto simp: candidate_fits_def split: sweep_source_state.splits)
    then show ?thesis using c I pre by (intro conjI exI[of _ "c # cs"]) simp_all
  next
    assume "ss1 = ss \<and> cb_hash blob \<notin> set (ci_valid cas) \<and> \<not> (ci_complete cas \<and> canonical_path_is_absent root f (cb_hash blob))"
    then show ?thesis using I pre by (intro conjI exI[of _ cs]) auto
  qed
qed auto


lemma preflight_steps:
  assumes "run_preflight b io obs env root chunk dry snap f = Some (Inr pf)"
  obtains reach report cas ss where "build_plan snap = Inr (pf_plan pf, reach)" "inspect_cas root f = Some cas"
    "initial_report dry snap (pf_plan pf) reach = Inr report"
    "scan_candidates b io obs env root chunk f cas (sweeps (pf_plan pf))
       \<lparr>ss_candidates = [], ss_report = report\<lparr>gr_findings := gr_findings report @ ci_findings cas @ orphan_findings root snap cas
          @ concat (map (presence_findings root f cas) (map snd (valid_blobs snap)))\<rparr>\<rparr> = Some (Inr ss)"
    "pf_candidates pf = ss_candidates ss"
    "pf_report pf = (ss_report ss)\<lparr>gr_findings := sort_and_deduplicate (gr_findings (ss_report ss))\<rparr>"
  using assms that unfolding run_preflight_def Let_def
  by (auto split: sum.splits prod.splits if_splits option.splits)

lemma initial_report_findings: "initial_report dry snap plan reach = Inr report \<Longrightarrow> gr_findings report = snap_findings snap"
  by (auto simp: initial_report_def bind_result_eq_Inr)

text \<open>A preflight without findings: every planned sweep is a candidate, verified or absent.\<close>

lemma clean_preflight:
  assumes "store_ok root f" "real_dir f (store_names root @ [''blobs''])" "reads_contents io chunk" "blake3_laws b"
    "run_preflight b io obs env root chunk dry snap f = Some (Inr pf)" "gr_findings (pf_report pf) = []"
  obtains reach where "build_plan snap = Inr (pf_plan pf, reach)" "snap_findings snap = []"
    "map sc_blob (pf_candidates pf) = sweeps (pf_plan pf)"
    "\<And>c. c \<in> set (pf_candidates pf) \<Longrightarrow> sc_state c = SourcePresent \<Longrightarrow>
       \<exists>ident. sc_identity c = Some ident \<and> verified b root f (sc_blob c) ident \<and> present_blob root f (cb_hash (sc_blob c)) \<noteq> None"
    "\<And>c. c \<in> set (pf_candidates pf) \<Longrightarrow> sc_state c = AlreadyAbsent \<Longrightarrow> present_blob root f (cb_hash (sc_blob c)) = None"
proof -
  obtain reach report cas ss where p: "build_plan snap = Inr (pf_plan pf, reach)" "inspect_cas root f = Some cas"
    "initial_report dry snap (pf_plan pf) reach = Inr report"
    "scan_candidates b io obs env root chunk f cas (sweeps (pf_plan pf))
       \<lparr>ss_candidates = [], ss_report = report\<lparr>gr_findings := gr_findings report @ ci_findings cas @ orphan_findings root snap cas
          @ concat (map (presence_findings root f cas) (map snd (valid_blobs snap)))\<rparr>\<rparr> = Some (Inr ss)"
    "pf_candidates pf = ss_candidates ss"
    "pf_report pf = (ss_report ss)\<lparr>gr_findings := sort_and_deduplicate (gr_findings (ss_report ss))\<rparr>"
    using assms(5) by (rule preflight_steps)
  obtain ins where ins: "inspect_cas root f = Some ins"
    and valid: "\<And>h. h \<in> set (ci_valid ins) \<Longrightarrow> blob_at f (store_names root @ [''blobs'']) h"
    and compl: "\<And>h. ci_complete ins \<Longrightarrow> blob_at f (store_names root @ [''blobs'']) h \<Longrightarrow> h \<in> set (ci_valid ins)"
    and inc: "\<not> ci_complete ins \<Longrightarrow> ci_findings ins \<noteq> []"
    using inspect_cas_spec[OF assms(1,2)] by metis
  have ic [simp]: "ins = cas" using ins p(2) by simp
  have fin: "gr_findings (ss_report ss) = []" using p(6) assms(6) by simp
  note S = scan_candidates_spec[OF assms(3,4) p(4), simplified]
  have none: "snap_findings snap = []" "ci_findings cas = []" "\<forall>blob\<in>set (map snd (valid_blobs snap)). presence_findings root f cas blob = []"
    using S fin initial_report_findings[OF p(3)] by auto
  have complete: "ci_complete cas" using inc none(2) by auto
  let ?keep = "\<lambda>blob. cb_hash blob \<in> set (ci_valid cas) \<or> ci_complete cas \<and> canonical_path_is_absent root f (cb_hash blob)"
  have sw: "set (sweeps (pf_plan pf)) \<subseteq> set (map snd (valid_blobs snap))"
    using build_plan_Inr(1)[OF p(1)] by (auto simp: split_plan_def)
  have "?keep blob" if "blob \<in> set (sweeps (pf_plan pf))" for blob
  proof (rule ccontr)
    assume "\<not> ?keep blob"
    then have "cb_hash blob \<notin> set (ci_valid cas)" "symlink_metadata (blob_path root (cb_hash blob)) f \<noteq> Inl NotFound"
      using complete by (auto simp: canonical_path_is_absent_def)
    then have "presence_findings root f cas blob \<noteq> []"
      using complete by (auto simp: presence_findings_def classify_missing_blob_def Let_def split: sum.splits)
    then show False using none(3) sw that by (meson subsetD)
  qed
  then have "filter ?keep (sweeps (pf_plan pf)) = sweeps (pf_plan pf)" by (simp add: filter_id_conv)
  then have blobs: "map sc_blob (pf_candidates pf) = sweeps (pf_plan pf)" using S p(5) by auto
  have pres: "present_blob root f h \<noteq> None \<longleftrightarrow> h \<in> set (ci_valid cas)" for h
  proof -
    have "present_blob root f h \<noteq> None \<longleftrightarrow> blob_at f (store_names root @ [''blobs'']) h"
      by (auto simp: present_blob_def blob_at_def blob_file_def split: option.splits node.splits)
    then show ?thesis using valid[of h] compl[of h] complete by auto
  qed
  have fit: "candidate_fits b root f cas [] c" if "c \<in> set (pf_candidates pf)" for c
    using S that p(5) unfolding fin by (auto simp only: list_all_iff append_Nil)
  show ?thesis
  proof (rule that[OF p(1) none(1) blobs])
    fix c assume "c \<in> set (pf_candidates pf)" "sc_state c = SourcePresent"
    then show "\<exists>ident. sc_identity c = Some ident \<and> verified b root f (sc_blob c) ident \<and> present_blob root f (cb_hash (sc_blob c)) \<noteq> None"
      using fit[of c] pres by (auto simp: candidate_fits_def split: option.splits)
  next
    fix c assume "c \<in> set (pf_candidates pf)" "sc_state c = AlreadyAbsent"
    then show "present_blob root f (cb_hash (sc_blob c)) = None"
      using fit[of c] pres[of "cb_hash (sc_blob c)"] by (auto simp: candidate_fits_def)
  qed
qed


section \<open>The snapshot against the catalog\<close>

lemma entry_status:
  assumes "db_inv db" "blob_entry db h = Some cb"
  shows "cb_hash cb = h" "db_status db h = Some (uint (cb_size cb), marked_at_ms cb \<noteq> None)" "referenced cb = db_refd db h"
proof -
  obtain r where r: "lookup_blob db (as_str h) = Some r" "blob_row_ok r"
    "cell_size (b_size r) = Some (cb_size cb)" "marked_at_ms cb = cell_int (b_deleted r)" "referenced cb = referenced_in db (b_hash r)"
    "cb_hash cb = h"
    using assms(2) by (auto simp: blob_entry_def split: option.splits if_splits)
  have "fits_i64 (b_size r)" using assms(1) r(1) lookup_blob_Some[of db "as_str h" r] by (auto simp: db_inv_def sizes_fit_def list_all_iff)
  then have "b_size r = SInteger (uint (cb_size cb))" using r(3) cell_size_Some by blast
  moreover have "cell_int (b_deleted r) \<noteq> None \<longleftrightarrow> b_deleted r \<noteq> SNull"
    using r(2) by (auto simp: blob_row_ok_def cell_int_def)
  ultimately show "cb_hash cb = h" "db_status db h = Some (uint (cb_size cb), marked_at_ms cb \<noteq> None)" "referenced cb = db_refd db h"
    using r lookup_blob_hash[OF r(1)] by (auto simp: db_status_Some db_refd_def)
qed

lemma begin_gc_Inr: "begin_gc env db = Inr snap \<Longrightarrow> inspect_catalog_connection db = Inr snap"
  by (auto simp: begin_gc_def bind_result_eq_Inr)

lemma snapshot_rows:
  assumes "db_inv db" "length (blobs db) < 2 ^ 64" "inspect_catalog_connection db = Inr snap"
  shows "distinct (map cb_hash (map snd (valid_blobs snap)))"
    "blob \<in> set (map snd (valid_blobs snap)) \<Longrightarrow> db_status db (cb_hash blob) = Some (uint (cb_size blob), marked_at_ms blob \<noteq> None)
       \<and> referenced blob = db_refd db (cb_hash blob) \<and> hash_ok (cb_hash blob)"
    "snap_findings snap = [] \<Longrightarrow> db_status db h = Some v \<Longrightarrow> \<exists>blob\<in>set (map snd (valid_blobs snap)). cb_hash blob = h"
proof -
  have ok: "db_ok db" using assms(1) by (simp add: db_inv_def)
  obtain s where "inspect_catalog_connection db = Inr s" and d: "distinct (map fst (valid_blobs s))"
    and m: "\<And>h. map_of (valid_blobs s) h = (if hash_ok h then blob_entry db h else None)"
    and fnd: "snap_findings s = integrity_findings db @ validate_schema (db_schema db) @ concat (map row_finding (select_blobs_sql db))
       @ concat (map (inspect_source_row (valid_blobs s)) (select_sources_sql db))"
    using inspect_catalog_spec[OF ok assms(2)] by metis
  then have [simp]: "s = snap" using assms(3) by simp
  have ent: "hash_ok h \<and> blob_entry db h = Some cb" if "(h, cb) \<in> set (valid_blobs snap)" for h cb
    using m[of h] d that by (auto split: if_splits)
  then have key: "cb_hash cb = h" if "(h, cb) \<in> set (valid_blobs snap)" for h cb using entry_status(1)[OF assms(1)] that by blast
  have "map cb_hash (map snd (valid_blobs snap)) = map fst (valid_blobs snap)" using key by auto
  then show "distinct (map cb_hash (map snd (valid_blobs snap)))" using d unfolding \<open>s = snap\<close> by (metis (no_types))
  show "db_status db (cb_hash blob) = Some (uint (cb_size blob), marked_at_ms blob \<noteq> None)
       \<and> referenced blob = db_refd db (cb_hash blob) \<and> hash_ok (cb_hash blob)" if "blob \<in> set (map snd (valid_blobs snap))"
    using that ent key entry_status[OF assms(1)] by fastforce
  show "\<exists>blob\<in>set (map snd (valid_blobs snap)). cb_hash blob = h" if none: "snap_findings snap = []" and st: "db_status db h = Some v"
  proof -
    have rows: "list_all blob_row_ok (blobs db)" using fnd none row_findings_Nil by simp
    obtain r where r: "lookup_blob db (as_str h) = Some r" using st by (auto simp: db_status_def split: option.splits)
    then have "blob_row_ok r" "b_hash r = SText (as_str h)" using rows lookup_blob_Some[OF ok] by (auto simp: list_all_iff)
    then have "hash_ok h" "\<exists>cb. blob_entry db h = Some cb"
      using r by (auto simp: blob_entry_def blob_row_ok_def cell_hash_Some as_str_eq_iff)
    then obtain cb where "map_of (valid_blobs snap) h = Some cb" using m[of h] by auto
    then have "(h, cb) \<in> set (valid_blobs snap)" by (rule map_of_SomeD)
    then show ?thesis using key by force
  qed
qed



section \<open>Whatever fails, reachable blobs stay\<close>

lemma collect_realE:
  assumes "collect_real b io obs env root chunk db f = Some (db', f', r)"
  obtains (unchanged) "db' = db" "f' = f"
  | (applied) snap pf r0 where "inspect_catalog_connection db = Inr snap"
      "run_preflight b io obs env root chunk False snap f = Some (Inr pf)" "gr_findings (pf_report pf) = []"
      "apply_plan env (catalog_gc_session (stage_call env)) (filesystem_gc_mutator root) pf db f = (db', f', r0)" "r = finish_writer env r0"
proof (cases "open_existing_gc_catalog db")
  case (Inl e)
  then show ?thesis using assms unchanged by (simp add: collect_real_def)
next
  case (Inr db0)
  then have db0: "open_existing_gc_catalog db = Inr db" by (simp add: open_existing_gc_catalog_def split: if_splits)
  show ?thesis
  proof (cases "begin_gc env db")
    case (Inl e)
    then show ?thesis using assms unchanged db0 by (simp add: collect_real_def)
  next
    case b: (Inr snap)
    show ?thesis
    proof (cases "\<exists>pf. run_preflight b io obs env root chunk False snap f = Some (Inr pf) \<and> gr_findings (pf_report pf) = []")
      case True
      then obtain pf where pf: "run_preflight b io obs env root chunk False snap f = Some (Inr pf)" "gr_findings (pf_report pf) = []" by blast
      then show ?thesis
        using assms db0 b applied[OF begin_gc_Inr[OF b] pf] by (simp add: collect_real_def split: prod.splits)
    next
      case False
      then show ?thesis using assms db0 b unchanged
        by (auto simp: collect_real_def split: option.splits sum.splits if_splits)
    qed
  qed
qed

lemma plan_applicable:
  assumes "db_inv db" "length (blobs db) < 2 ^ 64" "store_ok root f" "real_dir f (store_names root @ [''blobs''])"
    "reads_contents io chunk" "blake3_laws b" "inspect_catalog_connection db = Inr snap"
    "run_preflight b io obs env root chunk dry snap f = Some (Inr pf)" "gr_findings (pf_report pf) = []"
  shows "distinct (map cb_hash (marks (pf_plan pf) @ resurrections (pf_plan pf) @ map sc_blob (pf_candidates pf)))"
    "c \<in> set (pf_candidates pf) \<Longrightarrow> collectable (db_refd db) (db_status db) (cb_hash (sc_blob c))
        \<and> (sc_state c = SourcePresent \<longrightarrow> present_blob root f (cb_hash (sc_blob c)) \<noteq> None)"
    "pf_plan pf = split_plan (sort_key cb_hash (map snd (valid_blobs snap)))" "map sc_blob (pf_candidates pf) = sweeps (pf_plan pf)"
proof -
  obtain reach where p: "build_plan snap = Inr (pf_plan pf, reach)" "map sc_blob (pf_candidates pf) = sweeps (pf_plan pf)"
    and cand: "\<And>c. c \<in> set (pf_candidates pf) \<Longrightarrow> sc_state c = SourcePresent \<Longrightarrow>
       \<exists>ident. sc_identity c = Some ident \<and> verified b root f (sc_blob c) ident \<and> present_blob root f (cb_hash (sc_blob c)) \<noteq> None"
    using clean_preflight[OF assms(3,4,5,6,8,9)] by metis
  note rows = snapshot_rows[OF assms(1,2,7)]
  let ?bs = "sort_key cb_hash (map snd (valid_blobs snap))"
  show plan: "pf_plan pf = split_plan ?bs" by (rule build_plan_Inr(1)[OF p(1)])
  show sw: "map sc_blob (pf_candidates pf) = sweeps (pf_plan pf)" by (rule p(2))
  have "distinct (map snd (valid_blobs snap))" "inj_on cb_hash (set (map snd (valid_blobs snap)))"
    using rows(1) unfolding distinct_map[of cb_hash] by blast+
  then have "inj_on cb_hash (set ?bs)" "distinct ?bs" by (simp_all only: set_sort distinct_sort)
  then show "distinct (map cb_hash (marks (pf_plan pf) @ resurrections (pf_plan pf) @ map sc_blob (pf_candidates pf)))"
    unfolding sw plan split_plan_def by (auto simp: distinct_map inj_on_def plan_kinds)
  assume c: "c \<in> set (pf_candidates pf)"
  then have "sc_blob c \<in> set (sweeps (pf_plan pf))" unfolding sw[symmetric] by simp
  then have "sc_blob c \<in> set (map snd (valid_blobs snap))" "to_sweep (sc_blob c)" unfolding plan split_plan_def by auto
  then show "collectable (db_refd db) (db_status db) (cb_hash (sc_blob c))
        \<and> (sc_state c = SourcePresent \<longrightarrow> present_blob root f (cb_hash (sc_blob c)) \<noteq> None)"
    using rows(2)[of "sc_blob c"] cand[OF c] by (auto simp: collectable_def to_sweep_def)
qed

lemma collect_real_allowed:
  assumes "db_inv db" "length (blobs db) < 2 ^ 64" "store_ok root f" "real_dir f (store_names root @ [''blobs''])"
    "reads_contents io chunk" "blake3_laws b" "collect_real b io obs env root chunk db f = Some (db', f', r)"
  shows "db_inv db' \<and> db_refd db' = db_refd db \<and> rows_allowed (db_refd db) (db_status db) (db_status db')
    \<and> store_ok root f' \<and> files_allowed (db_refd db) (db_status db) (present_blob root f) (present_blob root f')"
  using assms(7)
proof (cases rule: collect_realE)
  case unchanged
  then show ?thesis using assms(1,3) rows_allowed_refl files_allowed_refl by simp
next
  case (applied snap pf r0)
  note P = plan_applicable[OF assms(1-6) applied(1-3)]
  show ?thesis by (rule rungc.apply_plan_safe[OF assms(1,3) P(1) P(2) applied(4)])
qed

text \<open>
  C1 (safety). Whatever fails in a garbage collection (the catalog, the file system at any call,
  telemetry, the commit, the writer), afterwards every blob that a source row refers to still
  has its row and its file; a file that is gone belonged to a blob that was marked before the
  run and that nothing refers to; and which blobs are referenced has not changed.
\<close>

theorem gc_keeps_reachable_blobs:
  assumes "db_inv db" "length (blobs db) < 2 ^ 64" "store_ok root f" "real_dir f (store_names root @ [''blobs''])"
    "reads_contents io chunk" "blake3_laws b" "collect_real b io obs env root chunk db f = Some (db', f', r)"
  shows "db_refd db' = db_refd db
    \<and> (\<forall>h. db_refd db h \<longrightarrow> present_blob root f' h = present_blob root f h
          \<and> map_option fst (db_status db' h) = map_option fst (db_status db h))
    \<and> (\<forall>h. present_blob root f' h \<noteq> present_blob root f h \<longrightarrow>
          present_blob root f' h = None \<and> \<not> db_refd db h \<and> (\<exists>n. db_status db h = Some (n, True)))
    \<and> (\<forall>h. db_status db' h = None \<longrightarrow> db_status db h = None \<or> \<not> db_refd db h \<and> (\<exists>n. db_status db h = Some (n, True)))"
proof -
  note A = collect_real_allowed[OF assms]
  have rows: "row_allowed (db_refd db) (db_status db) (db_status db') h" for h using A by (simp add: rows_allowed_def)
  have files: "present_blob root f' h = present_blob root f h \<or> present_blob root f' h = None \<and> collectable (db_refd db) (db_status db) h" for h
    using A by (simp add: files_allowed_def)
  have "present_blob root f' h = present_blob root f h \<and> map_option fst (db_status db' h) = map_option fst (db_status db h)" if "db_refd db h" for h
    using rows[of h] files[of h] that by (auto simp: row_allowed_def collectable_def)
  moreover have "present_blob root f' h = None \<and> \<not> db_refd db h \<and> (\<exists>n. db_status db h = Some (n, True))"
    if "present_blob root f' h \<noteq> present_blob root f h" for h
    using files[of h] that by (auto simp: collectable_def)
  moreover have "db_status db h = None \<or> \<not> db_refd db h \<and> (\<exists>n. db_status db h = Some (n, True))" if "db_status db' h = None" for h
    using rows[of h] that by (auto simp: row_allowed_def collectable_def)
  ultimately show ?thesis using A by blast
qed



section \<open>A completed run has done everything once\<close>

definition set_mark :: "bool \<Rightarrow> blob_hash set \<Rightarrow> status \<Rightarrow> status" where
  "set_mark m hs st h = (if h \<in> hs then map_option (\<lambda>(n, _). (n, m)) (st h) else st h)"

definition drop_all :: "blob_hash set \<Rightarrow> (blob_hash \<Rightarrow> 'v option) \<Rightarrow> blob_hash \<Rightarrow> 'v option" where
  "drop_all hs st h = (if h \<in> hs then None else st h)"

definition is_present :: "sweep_candidate \<Rightarrow> bool" where
  "is_present c \<longleftrightarrow> sc_state c = SourcePresent"

lemma set_mark_step: "st h = Some (n, x) \<Longrightarrow> set_mark m hs (st(h \<mapsto> (n, m))) = set_mark m (insert h hs) st"
  by (auto simp: set_mark_def fun_eq_iff)

lemma drop_all_step: "drop_all hs (st(h := None)) = drop_all (insert h hs) st" "drop_all {} st = st"
  by (auto simp: drop_all_def fun_eq_iff)

lemma set_mark_empty [simp]: "set_mark m {} st = st"
  by (simp add: set_mark_def fun_eq_iff)

context gc_run
begin

lemma apply_marks_done:
  assumes "inv (gs_db st)" "apply_marks env ses bs st = Go st'"
  shows "inv (gs_db st') \<and> refd (gs_db st') = refd (gs_db st) \<and> gs_store st' = gs_store st \<and> gs_report st' = gs_report st
    \<and> gs_actions st' = gs_actions st @ map (\<lambda>b. action_for Mark b None) bs
    \<and> status (gs_db st') = set_mark True (cb_hash ` set bs) (status (gs_db st))
    \<and> unat (sp_marks (gs_progress st')) = unat (sp_marks (gs_progress st)) + length bs
    \<and> sp_resurrections (gs_progress st') = sp_resurrections (gs_progress st)
    \<and> sp_sweeps (gs_progress st') = sp_sweeps (gs_progress st) \<and> sp_reclaimed (gs_progress st') = sp_reclaimed (gs_progress st)"
  using assms
proof (induction bs arbitrary: st)
  case (Cons b bs)
  obtain p d where p: "checked_mark (gs_progress st) = Inr p" "stage_mark ses b (now_ms env) (gs_db st) = Inr d"
    "apply_marks env ses bs (st\<lparr>gs_db := d, gs_actions := gs_actions st @ [action_for Mark b None], gs_progress := p\<rparr>) = Go st'"
    using Cons.prems(2) by (auto split: if_splits sum.splits)
  note L = mark_law[OF Cons.prems(1) p(2)]
  have "unat (sp_marks p) = unat (sp_marks (gs_progress st)) + 1" "sp_resurrections p = sp_resurrections (gs_progress st)"
    "sp_sweeps p = sp_sweeps (gs_progress st)" "sp_reclaimed p = sp_reclaimed (gs_progress st)"
    using p(1) by (auto simp: checked_mark_def bind_result_eq_Inr add_or_fail_unat)
  moreover have "set_mark True (cb_hash ` set bs) (status d) = set_mark True (cb_hash ` set (b # bs)) (status (gs_db st))"
    using L set_mark_step[of "status (gs_db st)" "cb_hash b" "uint (cb_size b)" _ True "cb_hash ` set bs"] by (metis image_insert list.simps(15))
  moreover have "inv d" "refd d = refd (gs_db st)" using L by auto
  ultimately show ?case using Cons.IH[OF _ p(3)] by simp
qed simp

lemma apply_resurrections_done:
  assumes "inv (gs_db st)" "apply_resurrections env ses bs st = Go st'"
  shows "inv (gs_db st') \<and> refd (gs_db st') = refd (gs_db st) \<and> gs_store st' = gs_store st \<and> gs_report st' = gs_report st
    \<and> gs_actions st' = gs_actions st @ map (\<lambda>b. action_for Resurrect b None) bs
    \<and> status (gs_db st') = set_mark False (cb_hash ` set bs) (status (gs_db st))
    \<and> unat (sp_resurrections (gs_progress st')) = unat (sp_resurrections (gs_progress st)) + length bs
    \<and> sp_marks (gs_progress st') = sp_marks (gs_progress st)
    \<and> sp_sweeps (gs_progress st') = sp_sweeps (gs_progress st) \<and> sp_reclaimed (gs_progress st') = sp_reclaimed (gs_progress st)"
  using assms
proof (induction bs arbitrary: st)
  case (Cons b bs)
  obtain p d where p: "checked_resurrection (gs_progress st) = Inr p" "stage_resurrection ses b (gs_db st) = Inr d"
    "apply_resurrections env ses bs (st\<lparr>gs_db := d, gs_actions := gs_actions st @ [action_for Resurrect b None], gs_progress := p\<rparr>) = Go st'"
    using Cons.prems(2) by (auto split: if_splits sum.splits)
  note L = resurrect_law[OF Cons.prems(1) p(2)]
  have "unat (sp_resurrections p) = unat (sp_resurrections (gs_progress st)) + 1" "sp_marks p = sp_marks (gs_progress st)"
    "sp_sweeps p = sp_sweeps (gs_progress st)" "sp_reclaimed p = sp_reclaimed (gs_progress st)"
    using p(1) by (auto simp: checked_resurrection_def bind_result_eq_Inr add_or_fail_unat)
  moreover have "set_mark False (cb_hash ` set bs) (status d) = set_mark False (cb_hash ` set (b # bs)) (status (gs_db st))"
    using L set_mark_step[of "status (gs_db st)" "cb_hash b" "uint (cb_size b)" _ False "cb_hash ` set bs"] by (metis image_insert list.simps(15))
  moreover have "inv d" "refd d = refd (gs_db st)" using L by auto
  ultimately show ?case using Cons.IH[OF _ p(3)] by simp
qed simp

lemma sweep_physical_done:
  assumes "sinv (gs_store st)" "sc_state c = SourcePresent \<longrightarrow> present (gs_store st) (cb_hash (sc_blob c)) \<noteq> None"
    "sweep_physical mut c rep st = Go st1" "sc_state c = AlreadyAbsent \<longrightarrow> rep = gs_report st"
  shows "gs_db st1 = gs_db st \<and> gs_actions st1 = gs_actions st \<and> gs_report st1 = rep \<and> sinv (gs_store st1)
    \<and> present (gs_store st1) = drop_all (if is_present c then {cb_hash (sc_blob c)} else {}) (present (gs_store st))"
proof (cases "sc_state c")
  case SourcePresent
  then obtain s' where u: "unlink_present mut (cb_hash (sc_blob c)) (gs_store st) = Inr s'"
    "st1 = st\<lparr>gs_store := s', gs_report := rep, gs_started := True\<rparr>"
    using assms(3) by (auto simp: sweep_physical_def Let_def split: option.splits sum.splits)
  then show ?thesis using unlink_law[OF assms(1) _ u(1)] assms(2) SourcePresent by (auto simp: is_present_def drop_all_def fun_eq_iff)
next
  case AlreadyAbsent
  then have "st1 = st" using assms(3) by (auto simp: sweep_physical_def split: sum.splits)
  then show ?thesis using assms AlreadyAbsent by (simp add: is_present_def drop_all_step(2))
qed

lemma apply_sweeps_done:
  assumes "inv (gs_db st)" "sinv (gs_store st)" "distinct (map (cb_hash \<circ> sc_blob) cs)"
    "\<And>c. c \<in> set cs \<Longrightarrow> sc_state c = SourcePresent \<longrightarrow> present (gs_store st) (cb_hash (sc_blob c)) \<noteq> None"
    "apply_sweeps env ses mut cs st = Go st'"
  shows "refd (gs_db st') = refd (gs_db st)
    \<and> gs_actions st' = gs_actions st @ map (\<lambda>c. action_for Sweep (sc_blob c) (Some (sc_state c))) cs
    \<and> status (gs_db st') = drop_all ((cb_hash \<circ> sc_blob) ` set cs) (status (gs_db st))
    \<and> present (gs_store st') = drop_all ((cb_hash \<circ> sc_blob) ` set (filter is_present cs)) (present (gs_store st))
    \<and> sp_marks (gs_progress st') = sp_marks (gs_progress st) \<and> sp_resurrections (gs_progress st') = sp_resurrections (gs_progress st)
    \<and> unat (sp_sweeps (gs_progress st')) = unat (sp_sweeps (gs_progress st)) + length cs
    \<and> unat (sp_reclaimed (gs_progress st')) = unat (sp_reclaimed (gs_progress st)) + sum_list (map (\<lambda>c. unat (cb_size (sc_blob c))) (filter is_present cs))
    \<and> unat (cas_files_removed (gs_report st')) = unat (cas_files_removed (gs_report st)) + length (filter is_present cs)
    \<and> unat (bytes_unlinked (gs_report st')) = unat (bytes_unlinked (gs_report st)) + sum_list (map (\<lambda>c. unat (cb_size (sc_blob c))) (filter is_present cs))"
  using assms
proof (induction cs arbitrary: st)
  case (Cons c cs)
  obtain p rep st1 d where s: "checked_sweep (gs_progress st) (cb_size (sc_blob c)) (sc_state c) = Inr p"
    "(if sc_state c = SourcePresent then checked_after_present_unlink (gs_report st) (cb_size (sc_blob c)) else Inr (gs_report st)) = Inr rep"
    "sweep_physical mut c rep st = Go st1" "stage_sweep ses (sc_blob c) (gs_db st1) = Inr d"
    "apply_sweeps env ses mut cs (st1\<lparr>gs_db := d, gs_actions := gs_actions st1 @ [action_for Sweep (sc_blob c) (Some (sc_state c))],
                              gs_progress := p, gs_started := True\<rparr>) = Go st'"
    using Cons.prems(5) by (auto split: if_splits sum.splits phase.splits)
  have ph: "gs_db st1 = gs_db st" "gs_actions st1 = gs_actions st" "gs_report st1 = rep" "sinv (gs_store st1)"
    "present (gs_store st1) = drop_all (if is_present c then {cb_hash (sc_blob c)} else {}) (present (gs_store st))"
    using sweep_physical_done[OF Cons.prems(2) _ s(3)] Cons.prems(4)[of c] s(2) by (auto split: if_splits)
  note L = sweep_law[OF _ s(4), unfolded ph(1), OF Cons.prems(1)]
  have pr: "sp_marks p = sp_marks (gs_progress st)" "sp_resurrections p = sp_resurrections (gs_progress st)"
    "unat (sp_sweeps p) = unat (sp_sweeps (gs_progress st)) + 1"
    "unat (sp_reclaimed p) = unat (sp_reclaimed (gs_progress st)) + (if is_present c then unat (cb_size (sc_blob c)) else 0)"
    using s(1) by (auto simp: checked_sweep_def bind_result_eq_Inr add_or_fail_unat is_present_def split: if_splits)
  have re: "unat (cas_files_removed rep) = unat (cas_files_removed (gs_report st)) + (if is_present c then 1 else 0)"
    "unat (bytes_unlinked rep) = unat (bytes_unlinked (gs_report st)) + (if is_present c then unat (cb_size (sc_blob c)) else 0)"
    using s(2) by (auto simp: checked_after_present_unlink_def bind_result_eq_Inr add_or_fail_unat is_present_def split: if_splits)
  let ?st = "st1\<lparr>gs_db := d, gs_actions := gs_actions st1 @ [action_for Sweep (sc_blob c) (Some (sc_state c))],
                              gs_progress := p, gs_started := True\<rparr>"
  have ne: "cb_hash (sc_blob c') \<noteq> cb_hash (sc_blob c)" if "c' \<in> set cs" for c' using Cons.prems(3) that by (auto simp: rev_image_eqI)
  have keep: "sc_state c' = SourcePresent \<longrightarrow> present (gs_store ?st) (cb_hash (sc_blob c')) \<noteq> None" if "c' \<in> set cs" for c'
    using Cons.prems(4)[of c'] that ne[OF that] ph(5) by (auto simp: drop_all_def)
  have I: "refd (gs_db st') = refd (gs_db ?st)
    \<and> gs_actions st' = gs_actions ?st @ map (\<lambda>c. action_for Sweep (sc_blob c) (Some (sc_state c))) cs
    \<and> status (gs_db st') = drop_all ((cb_hash \<circ> sc_blob) ` set cs) (status (gs_db ?st))
    \<and> present (gs_store st') = drop_all ((cb_hash \<circ> sc_blob) ` set (filter is_present cs)) (present (gs_store ?st))
    \<and> sp_marks (gs_progress st') = sp_marks (gs_progress ?st) \<and> sp_resurrections (gs_progress st') = sp_resurrections (gs_progress ?st)
    \<and> unat (sp_sweeps (gs_progress st')) = unat (sp_sweeps (gs_progress ?st)) + length cs
    \<and> unat (sp_reclaimed (gs_progress st')) = unat (sp_reclaimed (gs_progress ?st)) + sum_list (map (\<lambda>c. unat (cb_size (sc_blob c))) (filter is_present cs))
    \<and> unat (cas_files_removed (gs_report st')) = unat (cas_files_removed (gs_report ?st)) + length (filter is_present cs)
    \<and> unat (bytes_unlinked (gs_report st')) = unat (bytes_unlinked (gs_report ?st)) + sum_list (map (\<lambda>c. unat (cb_size (sc_blob c))) (filter is_present cs))"
    by (rule Cons.IH) (use L ph(4) Cons.prems(3) keep s(5) in simp_all)
  have st: "drop_all ((cb_hash \<circ> sc_blob) ` set cs) (status d) = drop_all ((cb_hash \<circ> sc_blob) ` set (c # cs)) (status (gs_db st))"
    using L drop_all_step(1)[of "(cb_hash \<circ> sc_blob) ` set cs" "status (gs_db st)" "cb_hash (sc_blob c)"] by simp
  have pst: "drop_all ((cb_hash \<circ> sc_blob) ` set (filter is_present cs)) (present (gs_store st1)) =
      drop_all ((cb_hash \<circ> sc_blob) ` set (filter is_present (c # cs))) (present (gs_store st))"
    unfolding ph(5) by (auto simp: drop_all_def fun_eq_iff)
  have rd: "refd d = refd (gs_db st)" using L by simp
  show ?case
  proof (cases "is_present c")
    case True
    then show ?thesis using I st pst pr re ph(1-3) rd by (simp add: add.assoc)
  next
    case False
    then show ?thesis using I st pst pr re ph(1-3) rd by (simp add: add.assoc)
  qed
qed (simp add: drop_all_step(2))

lemma apply_plan_complete:
  assumes "inv d0" "sinv s0"
    and plan: "distinct (map cb_hash (marks (pf_plan pf) @ resurrections (pf_plan pf) @ map sc_blob (pf_candidates pf)))"
    and cand: "\<And>c. c \<in> set (pf_candidates pf) \<Longrightarrow> sc_state c = SourcePresent \<longrightarrow> present s0 (cb_hash (sc_blob c)) \<noteq> None"
    and zero: "cas_files_removed (pf_report pf) = 0" "bytes_unlinked (pf_report pf) = 0"
    and run: "apply_plan env ses mut pf d0 s0 = (d, s, Inr (Complete rep))"
  shows "status d = drop_all (cb_hash ` set (map sc_blob (pf_candidates pf)))
       (set_mark False (cb_hash ` set (resurrections (pf_plan pf))) (set_mark True (cb_hash ` set (marks (pf_plan pf))) (status d0)))
    \<and> present s = drop_all (cb_hash ` set (map sc_blob (filter is_present (pf_candidates pf)))) (present s0)
    \<and> gr_actions rep = dry_actions pf
    \<and> unat (completed_marks rep) = length (marks (pf_plan pf)) \<and> unat (completed_resurrections rep) = length (resurrections (pf_plan pf))
    \<and> unat (completed_sweeps rep) = length (pf_candidates pf)
    \<and> unat (cas_files_removed rep) = length (filter is_present (pf_candidates pf))
    \<and> unat (bytes_unlinked rep) = sum_list (map (\<lambda>c. unat (cb_size (sc_blob c))) (filter is_present (pf_candidates pf)))
    \<and> bytes_reclaimed rep = bytes_unlinked rep"
proof -
  let ?M = "marks (pf_plan pf)" and ?R = "resurrections (pf_plan pf)" and ?C = "pf_candidates pf"
  define st0 where "st0 = \<lparr>gs_db = d0, gs_store = s0, gs_report = pf_report pf, gs_actions = [],
      gs_progress = \<lparr>sp_marks = 0, sp_resurrections = 0, sp_sweeps = 0, sp_reclaimed = 0\<rparr>, gs_started = False\<rparr>"
  obtain st1 st2 st3 where s: "apply_marks env ses ?M st0 = Go st1" "apply_resurrections env ses ?R st1 = Go st2"
    "apply_sweeps env ses mut ?C st2 = Go st3" "d = gs_db st3" "s = gs_store st3" "rep = finish_committed st3"
    using run unfolding apply_plan_def Let_def st0_def[symmetric] phase_then_def abort_apply_def commit_partial_def
    by (auto split: phase.splits sum.splits if_splits)
  have i0: "inv (gs_db st0)" using assms(1) by (simp add: st0_def)
  note m = apply_marks_done[OF i0 s(1)]
  note n = apply_resurrections_done[OF conjunct1[OF m] s(2)]
  have st2: "gs_store st2 = s0" using m n by (simp add: st0_def)
  have "distinct (map (cb_hash \<circ> sc_blob) ?C)" using plan by simp
  note k = apply_sweeps_done[OF conjunct1[OF n] _ this _ s(3), unfolded st2, OF assms(2) cand]
  have same: "bytes_reclaimed rep = bytes_unlinked rep"
    unfolding word_unat_eq_iff using m n k zero by (simp add: s(6) finish_committed_def st0_def)
  show ?thesis using m n k zero same
    by (simp add: s(4,5,6) finish_committed_def st0_def dry_actions_def image_comp)
qed

end


lemma scan_report_counters:
  assumes "scan_candidates b io obs env root chunk f cas bs ss = Some (Inr ss')"
  shows "cas_files_removed (ss_report ss') = cas_files_removed (ss_report ss)"
    "bytes_unlinked (ss_report ss') = bytes_unlinked (ss_report ss)"
    "planned_marks (ss_report ss') = planned_marks (ss_report ss)" "planned_resurrections (ss_report ss') = planned_resurrections (ss_report ss)"
    "planned_sweeps (ss_report ss') = planned_sweeps (ss_report ss)" "gr_dry_run (ss_report ss') = gr_dry_run (ss_report ss)"
proof -
  let ?k = "\<lambda>ss. (cas_files_removed (ss_report ss), bytes_unlinked (ss_report ss), planned_marks (ss_report ss),
      planned_resurrections (ss_report ss), planned_sweeps (ss_report ss), gr_dry_run (ss_report ss))"
  have j: "?k ss2 = ?k ss1" if "judge_candidate blob ident actual ss1 = Inr (ss2, r)" for blob ident actual ss1 ss2 r
    using that by (auto simp: judge_candidate_def bind_result_eq_Inr Let_def add_findings_def split: if_splits)
  have step: "?k ss2 = ?k ss1" if "scan_candidate b io obs env root chunk f cas ss1 blob = Some (Inr ss2)" for ss1 ss2 blob
    using that j unfolding scan_candidate_def Let_def
    by (auto simp: bind_result_eq_Inr push_candidate_def add_findings_def split: if_splits sum.splits option.splits)
  have "?k ss' = ?k ss"
    using assms
  proof (induction bs arbitrary: ss)
    case (Cons blob bs)
    then obtain ss1 where "scan_candidate b io obs env root chunk f cas ss blob = Some (Inr ss1)"
      "scan_candidates b io obs env root chunk f cas bs ss1 = Some (Inr ss')" by (auto split: option.splits sum.splits)
    then show ?case using Cons.IH step by metis
  qed simp
  then show "cas_files_removed (ss_report ss') = cas_files_removed (ss_report ss)"
    "bytes_unlinked (ss_report ss') = bytes_unlinked (ss_report ss)"
    "planned_marks (ss_report ss') = planned_marks (ss_report ss)" "planned_resurrections (ss_report ss') = planned_resurrections (ss_report ss)"
    "planned_sweeps (ss_report ss') = planned_sweeps (ss_report ss)" "gr_dry_run (ss_report ss') = gr_dry_run (ss_report ss)" by simp_all
qed

lemma preflight_counters:
  assumes "run_preflight b io obs env root chunk dry snap f = Some (Inr pf)"
  shows "cas_files_removed (pf_report pf) = 0" "bytes_unlinked (pf_report pf) = 0"
    "unat (planned_marks (pf_report pf)) = length (marks (pf_plan pf))"
    "unat (planned_resurrections (pf_report pf)) = length (resurrections (pf_plan pf))"
    "unat (planned_sweeps (pf_report pf)) = length (sweeps (pf_plan pf))" "gr_dry_run (pf_report pf) = dry"
proof -
  obtain reach report cas ss found where p: "initial_report dry snap (pf_plan pf) reach = Inr report"
    "scan_candidates b io obs env root chunk f cas (sweeps (pf_plan pf))
       \<lparr>ss_candidates = [], ss_report = report\<lparr>gr_findings := found\<rparr>\<rparr> = Some (Inr ss)"
    "pf_report pf = (ss_report ss)\<lparr>gr_findings := sort_and_deduplicate (gr_findings (ss_report ss))\<rparr>"
    using assms by (rule preflight_steps)
  have "cas_files_removed report = 0" "bytes_unlinked report = 0" "unat (planned_marks report) = length (marks (pf_plan pf))"
    "unat (planned_resurrections report) = length (resurrections (pf_plan pf))" "unat (planned_sweeps report) = length (sweeps (pf_plan pf))"
    "gr_dry_run report = dry"
    using p(1) by (auto simp: initial_report_def bind_result_eq_Inr u64_of_len_unat)
  then show "cas_files_removed (pf_report pf) = 0" "bytes_unlinked (pf_report pf) = 0"
    "unat (planned_marks (pf_report pf)) = length (marks (pf_plan pf))"
    "unat (planned_resurrections (pf_report pf)) = length (resurrections (pf_plan pf))"
    "unat (planned_sweeps (pf_report pf)) = length (sweeps (pf_plan pf))" "gr_dry_run (pf_report pf) = dry"
    using scan_report_counters[OF p(2)] p(3) by simp_all
qed

text \<open>What the three actions make of a row, and which files they remove.\<close>

definition gc_row :: "(blob_hash \<Rightarrow> bool) \<Rightarrow> status \<Rightarrow> status" where
  "gc_row r st h = (case st h of None \<Rightarrow> None | Some (n, m) \<Rightarrow>
     if r h then Some (n, False) else if m then None else Some (n, True))"

lemma apply_sweeps_planned:
  assumes "apply_sweeps env ses mut cs st = Go st'"
  shows "planned_marks (gs_report st') = planned_marks (gs_report st) \<and> planned_resurrections (gs_report st') = planned_resurrections (gs_report st)
    \<and> planned_sweeps (gs_report st') = planned_sweeps (gs_report st) \<and> gr_dry_run (gs_report st') = gr_dry_run (gs_report st)"
  using assms
proof (induction cs arbitrary: st)
  case (Cons c cs)
  obtain rep st1 st2 where s: "(if sc_state c = SourcePresent then checked_after_present_unlink (gs_report st) (cb_size (sc_blob c)) else Inr (gs_report st)) = Inr rep"
    "sweep_physical mut c rep st = Go st1" "apply_sweeps env ses mut cs st2 = Go st'" "gs_report st2 = gs_report st1"
    using Cons.prems by (auto split: if_splits sum.splits phase.splits)
  have "gs_report st1 = rep \<or> gs_report st1 = gs_report st"
    using s(2) by (auto simp: sweep_physical_def Let_def split: sweep_source_state.splits option.splits sum.splits)
  moreover have "planned_marks rep = planned_marks (gs_report st) \<and> planned_resurrections rep = planned_resurrections (gs_report st)
      \<and> planned_sweeps rep = planned_sweeps (gs_report st) \<and> gr_dry_run rep = gr_dry_run (gs_report st)"
    using s(1) by (auto simp: checked_after_present_unlink_def bind_result_eq_Inr split: if_splits)
  ultimately show ?case using Cons.IH[OF s(3)] s(4) by auto
qed simp

lemma apply_marks_report: "apply_marks env ses bs st = Go st' \<Longrightarrow> gs_report st' = gs_report st"
  by (induction bs arbitrary: st) (auto split: if_splits sum.splits)

lemma apply_resurrections_report: "apply_resurrections env ses bs st = Go st' \<Longrightarrow> gs_report st' = gs_report st"
  by (induction bs arbitrary: st) (auto split: if_splits sum.splits)

lemma apply_plan_planned:
  assumes "apply_plan env ses mut pf d0 s0 = (d, s, Inr (Complete rep))"
  shows "planned_marks rep = planned_marks (pf_report pf)" "planned_resurrections rep = planned_resurrections (pf_report pf)"
    "planned_sweeps rep = planned_sweeps (pf_report pf)" "gr_dry_run rep = gr_dry_run (pf_report pf)"
proof -
  obtain st0 st1 st2 st3 where s: "apply_marks env ses (marks (pf_plan pf)) st0 = Go st1" "gs_report st0 = pf_report pf"
    "apply_resurrections env ses (resurrections (pf_plan pf)) st1 = Go st2"
    "apply_sweeps env ses mut (pf_candidates pf) st2 = Go st3" "rep = finish_committed st3"
    using assms unfolding apply_plan_def Let_def phase_then_def abort_apply_def commit_partial_def
    by (auto split: phase.splits sum.splits if_splits)
  note r = apply_marks_report[OF s(1)] apply_resurrections_report[OF s(3)] apply_sweeps_planned[OF s(4)]
  show "planned_marks rep = planned_marks (pf_report pf)" "planned_resurrections rep = planned_resurrections (pf_report pf)"
    "planned_sweeps rep = planned_sweeps (pf_report pf)" "gr_dry_run rep = gr_dry_run (pf_report pf)"
    using r s(2) by (simp_all add: s(5) finish_committed_def)
qed

lemma chosen_iff:
  assumes "\<And>x. x \<in> B \<Longrightarrow> Q x \<longleftrightarrow> R (k x)" "R h \<Longrightarrow> \<exists>x\<in>B. k x = h"
  shows "(\<exists>x\<in>B. k x = h \<and> Q x) \<longleftrightarrow> R h"
  using assms by blast

lemma finish_writer_Inr: "finish_writer env r = Inr x \<Longrightarrow> r = Inr x"
  by (auto simp: finish_writer_def split: sum.splits)

lemma collect_real_complete:
  assumes "db_inv db" "length (blobs db) < 2 ^ 64" "store_ok root f" "real_dir f (store_names root @ [''blobs''])"
    "reads_contents io chunk" "blake3_laws b" "collect_real b io obs env root chunk db f = Some (db', f', Inr (Complete rep))"
  obtains snap pf where "inspect_catalog_connection db = Inr snap" "run_preflight b io obs env root chunk False snap f = Some (Inr pf)"
    "gr_findings (pf_report pf) = []"
    "apply_plan env (catalog_gc_session (stage_call env)) (filesystem_gc_mutator root) pf db f = (db', f', Inr (Complete rep))"
proof (cases "open_existing_gc_catalog db")
  case (Inl e)
  then show ?thesis using assms(7) by (simp add: collect_real_def)
next
  case (Inr db0)
  then have db0: "open_existing_gc_catalog db = Inr db" by (simp add: open_existing_gc_catalog_def split: if_splits)
  obtain snap pf where b: "begin_gc env db = Inr snap" "run_preflight b io obs env root chunk False snap f = Some (Inr pf)"
    "gr_findings (pf_report pf) = []"
    using assms(7) unfolding collect_real_def db0
    by (auto split: sum.splits option.splits if_splits dest!: finish_writer_Inr)
  have "apply_plan env (catalog_gc_session (stage_call env)) (filesystem_gc_mutator root) pf db f = (db', f', Inr (Complete rep))"
    using assms(7) b unfolding collect_real_def db0 by (auto split: prod.splits dest!: finish_writer_Inr)
  then show ?thesis using that begin_gc_Inr[OF b(1)] b(2,3) by blast
qed

text \<open>
  C2 (functional). A collection that reports completion has done exactly its work: every row
  that is referenced is unmarked, every unreferenced row is marked if it was not and gone with
  its file if it was; no other row or file has changed; and the report counts the actions: as
  many as planned, one removed file per swept blob that had one, and as many bytes reclaimed as
  unlinked.
\<close>

theorem gc_complete_is_exact:
  assumes "db_inv db" "length (blobs db) < 2 ^ 64" "store_ok root f" "real_dir f (store_names root @ [''blobs''])"
    "reads_contents io chunk" "blake3_laws b" "collect_real b io obs env root chunk db f = Some (db', f', Inr (Complete rep))"
  shows "db_status db' = gc_row (db_refd db) (db_status db)
    \<and> (\<forall>h. present_blob root f' h = (if collectable (db_refd db) (db_status db) h then None else present_blob root f h))
    \<and> completed_marks rep = planned_marks rep \<and> completed_resurrections rep = planned_resurrections rep
    \<and> completed_sweeps rep = planned_sweeps rep \<and> bytes_reclaimed rep = bytes_unlinked rep
    \<and> unat (cas_files_removed rep) = card {h. collectable (db_refd db) (db_status db) h \<and> present_blob root f h \<noteq> None}"
proof -
  obtain snap pf where c: "inspect_catalog_connection db = Inr snap" "run_preflight b io obs env root chunk False snap f = Some (Inr pf)"
    "gr_findings (pf_report pf) = []" "apply_plan env (catalog_gc_session (stage_call env)) (filesystem_gc_mutator root) pf db f = (db', f', Inr (Complete rep))"
    using collect_real_complete[OF assms] .
  note P = plan_applicable[OF assms(1-6) c(1-3)] and K = preflight_counters[OF c(2)]
  obtain reach where clean: "snap_findings snap = []" "\<And>c. c \<in> set (pf_candidates pf) \<Longrightarrow> sc_state c = SourcePresent \<Longrightarrow>
       \<exists>ident. sc_identity c = Some ident \<and> verified b root f (sc_blob c) ident \<and> present_blob root f (cb_hash (sc_blob c)) \<noteq> None"
    and absent: "\<And>c. c \<in> set (pf_candidates pf) \<Longrightarrow> sc_state c = AlreadyAbsent \<Longrightarrow> present_blob root f (cb_hash (sc_blob c)) = None"
    using clean_preflight[OF assms(3,4,5,6) c(2,3)] by metis
  note A = rungc.apply_plan_complete[OF assms(1,3) P(1) _ K(1,2) c(4)]
  note A = A[OF conjunct2[OF P(2)]]
  note rows = snapshot_rows[OF assms(1,2) c(1)]
  let ?bs = "set (map snd (valid_blobs snap))" and ?st = "db_status db" and ?r = "db_refd db"
  have kind: "h \<in> cb_hash ` set (filter Q (sort_key cb_hash (map snd (valid_blobs snap)))) \<longleftrightarrow> (\<exists>blob\<in>?bs. cb_hash blob = h \<and> Q blob)" for h Q
    by auto
  have hM: "h \<in> cb_hash ` set (marks (pf_plan pf)) \<longleftrightarrow> \<not> ?r h \<and> (\<exists>n. ?st h = Some (n, False))"
    and hR: "h \<in> cb_hash ` set (resurrections (pf_plan pf)) \<longleftrightarrow> ?r h \<and> (\<exists>n. ?st h = Some (n, True))"
    and hS: "h \<in> cb_hash ` set (sweeps (pf_plan pf)) \<longleftrightarrow> collectable ?r ?st h" for h
  proof -
    have q: "to_mark x \<longleftrightarrow> \<not> ?r (cb_hash x) \<and> (\<exists>n. ?st (cb_hash x) = Some (n, False))"
      "to_resurrect x \<longleftrightarrow> ?r (cb_hash x) \<and> (\<exists>n. ?st (cb_hash x) = Some (n, True))"
      "to_sweep x \<longleftrightarrow> collectable ?r ?st (cb_hash x)" if "x \<in> ?bs" for x
      using rows(2)[OF that] by (auto simp: plan_kinds collectable_def)
    have ex: "\<exists>x\<in>?bs. cb_hash x = h" if "?st h = Some v" for v using rows(3)[OF clean(1) that] .
    show "h \<in> cb_hash ` set (marks (pf_plan pf)) \<longleftrightarrow> \<not> ?r h \<and> (\<exists>n. ?st h = Some (n, False))"
      unfolding P(3) split_plan_def gc_plan.simps kind by (rule chosen_iff) (use q(1) ex in blast)+
    show "h \<in> cb_hash ` set (resurrections (pf_plan pf)) \<longleftrightarrow> ?r h \<and> (\<exists>n. ?st h = Some (n, True))"
      unfolding P(3) split_plan_def gc_plan.simps kind by (rule chosen_iff) (use q(2) ex in blast)+
    show "h \<in> cb_hash ` set (sweeps (pf_plan pf)) \<longleftrightarrow> collectable ?r ?st h"
      unfolding P(3) split_plan_def gc_plan.simps kind
      by (rule chosen_iff) (use q(3) ex in \<open>auto simp: collectable_def\<close>)
  qed
  have st: "db_status db' = gc_row ?r ?st"
  proof
    fix h
    show "db_status db' h = gc_row ?r ?st h"
      using A hM[of h] hR[of h] hS[of h] unfolding P(4)
      by (cases "?st h") (auto simp: drop_all_def set_mark_def gc_row_def collectable_def)
  qed
  have pres: "h \<in> cb_hash ` set (map sc_blob (filter is_present (pf_candidates pf))) \<longleftrightarrow> collectable ?r ?st h \<and> present_blob root f h \<noteq> None" for h
  proof -
    have "collectable ?r ?st h \<longleftrightarrow> (\<exists>c\<in>set (pf_candidates pf). cb_hash (sc_blob c) = h)"
      unfolding hS[symmetric] P(4)[symmetric] by auto
    moreover have "is_present c \<longleftrightarrow> present_blob root f (cb_hash (sc_blob c)) \<noteq> None" if "c \<in> set (pf_candidates pf)" for c
      using clean(2)[OF that] absent[OF that] by (cases "sc_state c") (auto simp: is_present_def)
    ultimately show ?thesis by auto
  qed
  have f: "present_blob root f' h = (if collectable ?r ?st h then None else present_blob root f h)" for h
    using A pres[of h] by (auto simp: drop_all_def)
  let ?hs = "map cb_hash (map sc_blob (filter is_present (pf_candidates pf)))"
  have "{h. collectable ?r ?st h \<and> present_blob root f h \<noteq> None} = set ?hs" unfolding pres[symmetric] set_map by simp
  moreover have "distinct ?hs" using P(1) by (simp add: distinct_map_filter)
  ultimately have "card {h. collectable ?r ?st h \<and> present_blob root f h \<noteq> None} = length (filter is_present (pf_candidates pf))"
    using distinct_card[of ?hs] by simp
  moreover have "planned_marks rep = planned_marks (pf_report pf)" "planned_resurrections rep = planned_resurrections (pf_report pf)"
    "planned_sweeps rep = planned_sweeps (pf_report pf)"
    using apply_plan_planned[OF c(4)] by simp_all
  moreover have "length (pf_candidates pf) = length (sweeps (pf_plan pf))" using arg_cong[OF P(4), of length] by simp
  ultimately show ?thesis using st f A K(3-5) by (simp add: word_unat_eq_iff)
qed


text \<open>
  C22 (safety). A preflight that finds nothing has re-read every file it is going to delete:
  each planned sweep is a candidate, and each candidate with a file is a regular file at the
  place of its hash whose whole content has that hash and the recorded size, and whose identity
  is remembered for the check before the unlink.
\<close>

theorem preflight_verifies_sweeps:
  assumes "store_ok root f" "real_dir f (store_names root @ [''blobs''])" "reads_contents io chunk" "blake3_laws b"
    "run_preflight b io obs env root chunk dry snap f = Some (Inr pf)" "gr_findings (pf_report pf) = []"
  shows "map sc_blob (pf_candidates pf) = sweeps (pf_plan pf) \<and>
    (\<forall>c\<in>set (pf_candidates pf). sc_state c = SourcePresent \<longrightarrow>
       (\<exists>i. node_at f (blob_file root (cb_hash (sc_blob c))) = Some (FFile i)
          \<and> digest b (fd_content (inodes f i)) = cb_hash (sc_blob c)
          \<and> length (fd_content (inodes f i)) = unat (cb_size (sc_blob c))
          \<and> sc_identity c = Some (identity_of (metadata_of f (FFile i)))))"
proof -
  obtain reach where c: "map sc_blob (pf_candidates pf) = sweeps (pf_plan pf)"
    "\<And>c. c \<in> set (pf_candidates pf) \<Longrightarrow> sc_state c = SourcePresent \<Longrightarrow>
       \<exists>ident. sc_identity c = Some ident \<and> verified b root f (sc_blob c) ident \<and> present_blob root f (cb_hash (sc_blob c)) \<noteq> None"
    using clean_preflight[OF assms] by metis
  have "\<exists>i. node_at f (blob_file root (cb_hash (sc_blob c))) = Some (FFile i)
          \<and> digest b (fd_content (inodes f i)) = cb_hash (sc_blob c)
          \<and> length (fd_content (inodes f i)) = unat (cb_size (sc_blob c))
          \<and> sc_identity c = Some (identity_of (metadata_of f (FFile i)))"
    if mem: "c \<in> set (pf_candidates pf)" "sc_state c = SourcePresent" for c
  proof -
    obtain ident where i: "sc_identity c = Some ident" "verified b root f (sc_blob c) ident" "present_blob root f (cb_hash (sc_blob c)) \<noteq> None"
      using c(2)[OF mem] by blast
    obtain k where k: "hash_ok (cb_hash (sc_blob c))" "node_at f (blob_file root (cb_hash (sc_blob c))) = Some (FFile k)"
      using i(3) by (rule present_blobE)
    have can: "canonical (store_path root)" and ok: "fs_ok f" using assms(1) by (auto simp: store_ok_def)
    note n = blob_path_names[OF can k(1)]
    have "open_no_follow (blob_path root (cb_hash (sc_blob c))) f = Inr x \<Longrightarrow> x = FFile k" for x
      using open_no_follow_Inr[OF n(2) fs_ok_real_parents[OF ok k(2)]] k(2) by (simp add: n(1))
    then show ?thesis using i(1,2) k(2)
      by (auto simp: verified_def open_blob_no_follow_def io_bind_Inr handle_metadata_def)
  qed
  then show ?thesis using c(1) by blast
qed

lemma candidate_state:
  assumes "store_ok root f" "real_dir f (store_names root @ [''blobs''])" "reads_contents io chunk" "blake3_laws b"
    "run_preflight b io obs env root chunk dry snap f = Some (Inr pf)" "gr_findings (pf_report pf) = []" "c \<in> set (pf_candidates pf)"
  shows "sc_state c = (if present_blob root f (cb_hash (sc_blob c)) \<noteq> None then SourcePresent else AlreadyAbsent)"
proof -
  obtain reach where p: "\<And>c. c \<in> set (pf_candidates pf) \<Longrightarrow> sc_state c = SourcePresent \<Longrightarrow>
       \<exists>ident. sc_identity c = Some ident \<and> verified b root f (sc_blob c) ident \<and> present_blob root f (cb_hash (sc_blob c)) \<noteq> None"
    and a: "\<And>c. c \<in> set (pf_candidates pf) \<Longrightarrow> sc_state c = AlreadyAbsent \<Longrightarrow> present_blob root f (cb_hash (sc_blob c)) = None"
    using clean_preflight[OF assms(1-6)] by metis
  show ?thesis using p[OF assms(7)] a[OF assms(7)] by (cases "sc_state c") auto
qed

text \<open>
  C23 (equivalence). A dry run predicts the real run: on the same catalog and store, a dry run
  and a real run that both report completion list the same actions, whatever the telemetry and
  the clock did in either.
\<close>

theorem gc_dry_run_predicts:
  assumes "db_inv db" "length (blobs db) < 2 ^ 64" "store_ok root f" "real_dir f (store_names root @ [''blobs''])"
    "reads_contents io chunk" "blake3_laws b"
    "collect_dry_run b io obs1 env1 root chunk db f = Some (Inr (Complete rep1))"
    "collect_real b io obs2 env2 root chunk db f = Some (db', f', Inr (Complete rep2))"
  shows "gr_actions rep1 = gr_actions rep2"
proof -
  obtain snap pf where c: "inspect_catalog_connection db = Inr snap" "run_preflight b io obs2 env2 root chunk False snap f = Some (Inr pf)"
    "gr_findings (pf_report pf) = []" "apply_plan env2 (catalog_gc_session (stage_call env2)) (filesystem_gc_mutator root) pf db f = (db', f', Inr (Complete rep2))"
    using collect_real_complete[OF assms(1-6,8)] .
  obtain pf1 where d: "run_preflight b io obs1 env1 root chunk True snap f = Some (Inr pf1)" "gr_findings (pf_report pf1) = []"
    "gr_actions rep1 = dry_actions pf1"
    using assms(7) c(1) unfolding collect_dry_run_def inspect_catalog_for_audit_def
    by (auto simp: bind_result_eq_Inr bind_result_eq_Inl split: sum.splits if_splits)
  note P = plan_applicable[OF assms(1-6) c(1-3)] and P1 = plan_applicable[OF assms(1-6) c(1) d(1,2)]
  note K = preflight_counters[OF c(2)]
  have "gr_actions rep2 = dry_actions pf"
    using rungc.apply_plan_complete[OF assms(1,3) P(1) _ K(1,2) c(4)] P(2) by blast
  moreover have "dry_actions pf1 = dry_actions pf"
  proof -
    have state: "sc_state c = (if present_blob root f (cb_hash (sc_blob c)) \<noteq> None then SourcePresent else AlreadyAbsent)"
      if "c \<in> set (pf_candidates q)" "run_preflight b io obs env root chunk dry snap f = Some (Inr q)" "gr_findings (pf_report q) = []"
      for c q dry and obs :: "unit \<Rightarrow> u64 \<Rightarrow> unit \<times> unit result" and env
      using candidate_state[OF assms(3,4,5,6) that(2,3,1)] .
    have "map (\<lambda>c. action_for Sweep (sc_blob c) (Some (sc_state c))) (pf_candidates q)
        = map (\<lambda>blob. action_for Sweep blob (Some (if present_blob root f (cb_hash blob) \<noteq> None then SourcePresent else AlreadyAbsent)))
            (map sc_blob (pf_candidates q))"
      if "run_preflight b io obs env root chunk dry snap f = Some (Inr q)" "gr_findings (pf_report q) = []"
      for q dry and obs :: "unit \<Rightarrow> u64 \<Rightarrow> unit \<times> unit result" and env
      using state[OF _ that] by simp
    from this[OF d(1,2)] this[OF c(2,3)] show ?thesis unfolding dry_actions_def P(3) P1(3) P(4) P1(4) by simp
  qed
  ultimately show ?thesis using d(3) by simp
qed


section \<open>A concrete run\<close>

text \<open>One row, marked and unreferenced, whose file is already gone.\<close>

definition sample_gc_db :: database where
  "sample_gc_db = sample_db\<lparr>db_schema := sample_schema\<rparr>"

definition sample_gc_blob :: catalog_blob where
  "sample_gc_blob = \<lparr>cb_hash = sample_hash CHR ''a'', cb_size = 3, marked_at_ms = Some 20, referenced = False\<rparr>"

lemma sample_gc_inspect:
  "inspect_catalog_connection sample_gc_db = Inr \<lparr>blob_rows_seen = 1, gc_candidates = 1,
     valid_blobs = [(sample_hash CHR ''a'', sample_gc_blob)], snap_findings = []\<rparr>"
  by (simp add: inspect_catalog_connection_def select_blobs_sql_def select_sources_sql_def sample_gc_db_def sample_db_def
      integrity_findings_def foreign_key_check_def sample_schema_valid inspect_blob_row_def add_or_fail_def checked_add_def
      reach_row_def blob_reasons_def cell_hash_ok cell_size_def cell_int_def catalog_blob_of_def referenced_in_def sample_gc_blob_def reason_def)

lemma sample_cas_empty: "inspect_cas sample_root sample_fs2 = Some \<lparr>ci_valid = [], ci_findings = [], ci_complete = True\<rparr>"
proof -
  have p: "blobs_dir sample_root = abs_path [''s'', ''blobs'']" "list_all name_ok [''s'', ''blobs'']"
    using blobs_dir_abs[of "[''s'']" sample_root] sample_root_abs by (simp_all add: name_ok_def)
  have "locate True (abs_path [''s'', ''blobs'']) sample_fs2 = Inr [''s'', ''blobs'']"
    by (rule locate_real[OF p(2)]) (auto simp: real_parents_def node_at_def sample_fs2_def sample_fs_def less_Suc_eq)
  moreover have "children [''s'', ''blobs''] sample_fs2 = []" "node_at sample_fs2 [''s'', ''blobs''] = Some FDir"
    "faults sample_fs2 op p = None" for op p
    by (simp_all add: children_def node_at_def sample_fs2_def sample_fs_def)
  ultimately have "read_dir (abs_path [''s'', ''blobs'']) sample_fs2 = Inr []"
    by (simp add: read_dir_def fault_free_def)
  then show ?thesis unfolding inspect_cas_def p(1) walk_cas.simps by simp
qed


lemma sample_hash_names: "shard1 (sample_hash CHR ''a'') = ''aa''" "shard2 (sample_hash CHR ''a'') = ''aa''"
  "hash_ok (sample_hash CHR ''a'')"
proof -
  show "hash_ok (sample_hash CHR ''a'')" by simp
qed (simp_all add: shard1_def shard2_def sample_hash_def numeral_eq_Suc)

lemma sample_blob_path:
  "blob_path sample_root (sample_hash CHR ''a'') = abs_path [''s'', ''blobs'', ''aa'', ''aa'', as_str (sample_hash CHR ''a'')]"
  "list_all name_ok [''s'', ''blobs'', ''aa'', ''aa'', as_str (sample_hash CHR ''a'')]"
  using blob_path_names[OF sample_names(2) sample_hash_names(3)] sample_names(1) sample_hash_names(1,2)
  by (simp_all add: blob_file_def blob_names_def)

lemma sample_missing:
  "symlink_metadata (abs_path ([''s'', ''blobs'', ''aa''] @ ns)) sample_fs2 = Inl NotFound" if "list_all name_ok ns"
proof -
  have "list_all name_ok ([''s'', ''blobs'', ''aa''] @ ns)" using that sample_blob_path(2) by simp
  then have "locate False (abs_path ([''s'', ''blobs'', ''aa''] @ ns)) sample_fs2 = (if ns = [] then Inr [''s'', ''blobs'', ''aa''] else Inl NotFound)"
    using components_abs_path[of "[''s'', ''blobs'', ''aa''] @ ns"] by (simp add: locate_def node_at_def sample_fs2_def sample_fs_def)
  then show ?thesis by (simp add: symlink_metadata_def fault_free_def node_at_def) (simp add: sample_fs2_def sample_fs_def)
qed

lemma sample_sync: "sync_nearest_existing_blob_parent sample_root (sample_hash CHR ''a'') sample_fs2 = Some (Inr ())"
proof -
  have ok: "list_all name_ok [''s'', ''blobs'', ''aa'', ''aa'']" "list_all name_ok [''s'', ''blobs'', ''aa'']" "list_all name_ok [''s'', ''blobs'']"
    "list_all name_ok [''s'']" using sample_blob_path(2) by simp_all
  have par: "path_parent (abs_path [''s'', ''blobs'', ''aa'', ''aa'', as_str (sample_hash CHR ''a'')]) = Some (abs_path [''s'', ''blobs'', ''aa'', ''aa''])"
    "path_parent (abs_path [''s'', ''blobs'', ''aa'', ''aa'']) = Some (abs_path [''s'', ''blobs'', ''aa''])"
    "path_parent (abs_path [''s'', ''blobs'', ''aa'']) = Some (abs_path [''s'', ''blobs''])"
    using path_parent_abs[of "[''s'', ''blobs'', ''aa'', ''aa'']"] path_parent_abs[of "[''s'', ''blobs'', ''aa'']" "''aa''"]
      path_parent_abs[of "[''s'', ''blobs'']" "''aa''"] sample_blob_path(2) by simp_all
  have miss: "symlink_metadata (abs_path [''s'', ''blobs'', ''aa'', ''aa'']) sample_fs2 = Inl NotFound"
    "symlink_metadata (abs_path [''s'', ''blobs'', ''aa'']) sample_fs2 = Inl NotFound"
    using sample_missing[of "[''aa'']"] sample_missing[of "[]"] ok(1) by simp_all
  have real: "real_parents sample_fs2 [''s'', ''blobs'']" "node_at sample_fs2 [''s'', ''blobs''] = Some FDir" "faults sample_fs2 op p = None" for op p
    by (auto simp: real_parents_def node_at_def sample_fs2_def sample_fs_def less_Suc_eq)
  have "symlink_metadata (abs_path [''s'', ''blobs'']) sample_fs2 = Inr (metadata_of sample_fs2 FDir)"
    using symlink_metadata_real[OF ok(3) real(1)] real(2,3) by simp
  moreover have "sync_directory (abs_path [''s'', ''blobs'']) sample_fs2 = Inr ()"
    using locate_real[OF ok(3) real(1), of True] real(2,3) by (simp add: sync_directory_def fault_free_def)
  moreover have "starts_with (abs_path [''s'', ''blobs'', ''aa'']) (store_path sample_root)" "starts_with (abs_path [''s'', ''blobs'']) (store_path sample_root)"
    using ok by (simp_all only: sample_root_abs starts_with_abs_path) simp_all
  ultimately show ?thesis
    by (simp add: sync_nearest_existing_blob_parent_def sample_blob_path(1) par components_abs_path[OF ok(1)] miss)
qed

definition quiet :: gc_env where
  "quiet = \<lparr>now_ms = 50, telemetry_failed = (\<lambda>_. False), begin_result = Inr (), stage_call = (\<lambda>_ _. Inr ()), commit_result = Inr (), commit_partial_result = Inr (),
     rollback_result = Inr (), finish_result = Inr (), lock_result = Inr ()\<rparr>"

lemma quiet_simps: "telemetry_failed quiet p = False" "begin_result quiet = Inr ()" "stage_call quiet k h = Inr ()" "commit_result quiet = Inr ()" "finish_result quiet = Inr ()"
  by (simp_all add: quiet_def)

lemma sample_preflight:
  "run_preflight toy_blake3 plain_io silent quiet sample_root 4096 dry
     \<lparr>blob_rows_seen = 1, gc_candidates = 1, valid_blobs = [(sample_hash CHR ''a'', sample_gc_blob)], snap_findings = []\<rparr> sample_fs2 =
   Some (Inr \<lparr>pf_plan = \<lparr>marks = [], resurrections = [], sweeps = [sample_gc_blob]\<rparr>,
     pf_candidates = [\<lparr>sc_blob = sample_gc_blob, sc_state = AlreadyAbsent, sc_identity = None\<rparr>],
     pf_report = \<lparr>gr_dry_run = dry, catalog_blobs = 1, reachable_blobs = 0, sweep_candidates_hashed = 0,
          planned_marks = 0, planned_resurrections = 0, planned_sweeps = 1, completed_marks = 0, completed_resurrections = 0,
          completed_sweeps = 0, cas_files_removed = 0, bytes_reclaimable = 0, bytes_unlinked = 0, bytes_reclaimed = 0,
          gr_actions = [], gr_findings = []\<rparr>\<rparr>)"
  using sample_missing[of "[''aa'', as_str (sample_hash CHR ''a'')]"] sample_blob_path
  by (simp add: run_preflight_def build_plan_def plan_step_def classify_def sample_gc_blob_def quiet_def initial_report_def u64_of_len_def
      sample_cas_empty orphan_findings_def presence_findings_def classify_missing_blob_def scan_candidate_def canonical_path_is_absent_def
      push_candidate_def Let_def)

lemma sample_gc_run:
  "\<exists>db' rep. collect_real toy_blake3 plain_io silent quiet sample_root 4096 sample_gc_db sample_fs2 = Some (db', sample_fs2, Inr (Complete rep))
     \<and> blobs db' = []"
proof -
  have o: "open_existing_gc_catalog sample_gc_db = Inr sample_gc_db" "begin_gc quiet sample_gc_db = inspect_catalog_connection sample_gc_db"
    by (simp_all add: open_existing_gc_catalog_def begin_gc_def quiet_simps require_current_schema_def current_schema_version_def sample_gc_db_def
        sample_db_def eq_ignore_ascii_case_def)
  have sw: "stage_sweep (catalog_gc_session (stage_call quiet)) sample_gc_blob sample_gc_db = Inr (sample_gc_db\<lparr>blobs := []\<rparr>)"
    by (simp add: catalog_gc_session_def quiet_simps stage_gc_sweep_def sqlite_u64_def i64_max_def gc_sweep_sql_def gc_sweep_where_def
        require_one_gc_row_def matching_def blob_matches_def referenced_in_def sample_gc_blob_def sample_gc_db_def sample_db_def)
  have sy: "sync_absent (filesystem_gc_mutator sample_root) (cb_hash sample_gc_blob) sample_fs2 = Inr ()"
    by (simp add: filesystem_gc_mutator_def sample_gc_blob_def sample_sync)
  show ?thesis
    unfolding collect_real_def
    by (simp add: o(1) o(2)[unfolded sample_gc_inspect] sample_preflight apply_plan_def phase_then_def telemetry_check_def quiet_simps
        checked_sweep_def add_or_fail_def checked_add_def sweep_physical_def sy sw finish_writer_def)
qed

lemma sample_gc_ok: "db_inv sample_gc_db" "length (blobs sample_gc_db) < 2 ^ 64" "store_ok sample_root sample_fs2"
  "real_dir sample_fs2 (store_names sample_root @ [''blobs''])" "reads_contents plain_io 4096"
proof -
  show "db_inv sample_gc_db" "length (blobs sample_gc_db) < 2 ^ 64"
    by (simp_all add: db_inv_def sample_gc_db_def sample_db_def db_ok_def key_hashes_def sizes_fit_def fits_i64_def i64_range_def i64_max_def)
  show "store_ok sample_root sample_fs2" "real_dir sample_fs2 (store_names sample_root @ [''blobs''])"
    by (auto simp: store_ok_def sample_names fs_ok_def real_dir_def real_parents_def node_at_def sample_fs2_def sample_fs_def less_Suc_eq name_ok_def)
  show "reads_contents plain_io 4096" using file_delivers by (simp add: plain_io_def)
qed

theorem gc_keeps_reachable_blobs_witness:
  "\<exists>db' r. collect_real toy_blake3 plain_io silent quiet sample_root 4096 sample_gc_db sample_fs2 = Some (db', sample_fs2, r)
     \<and> db_refd db' = db_refd sample_gc_db"
  using gc_keeps_reachable_blobs[OF sample_gc_ok toy_blake3_laws, of silent quiet] sample_gc_run by metis

theorem gc_complete_is_exact_witness:
  "\<exists>db' rep. collect_real toy_blake3 plain_io silent quiet sample_root 4096 sample_gc_db sample_fs2
       = Some (db', sample_fs2, Inr (Complete rep))
     \<and> db_status db' (sample_hash CHR ''a'') = None \<and> completed_sweeps rep = planned_sweeps rep"
proof -
  obtain db' rep where r: "collect_real toy_blake3 plain_io silent quiet sample_root 4096 sample_gc_db sample_fs2 = Some (db', sample_fs2, Inr (Complete rep))"
    using sample_gc_run by blast
  have "db_status sample_gc_db (sample_hash CHR ''a'') = Some (3, True)" "\<not> db_refd sample_gc_db (sample_hash CHR ''a'')"
    by (simp_all add: db_status_def lookup_blob_def sample_gc_db_def sample_db_def db_refd_def referenced_in_def)
  then show ?thesis using gc_complete_is_exact[OF sample_gc_ok toy_blake3_laws r] r by (auto simp: gc_row_def)
qed

theorem preflight_verifies_sweeps_witness:
  "\<exists>pf. run_preflight toy_blake3 plain_io silent quiet sample_root 4096 True
     \<lparr>blob_rows_seen = 1, gc_candidates = 1, valid_blobs = [(sample_hash CHR ''a'', sample_gc_blob)], snap_findings = []\<rparr> sample_fs2 = Some (Inr pf)
     \<and> map sc_blob (pf_candidates pf) = sweeps (pf_plan pf)"
  using preflight_verifies_sweeps[OF sample_gc_ok(3-5) toy_blake3_laws sample_preflight[of True]] sample_preflight[of True] by simp

lemma sample_dry_run:
  "\<exists>rep. collect_dry_run toy_blake3 plain_io silent quiet sample_root 4096 sample_gc_db sample_fs2 = Some (Inr (Complete rep))"
proof -
  have "inspect_catalog_for_audit sample_gc_db = inspect_catalog_connection sample_gc_db"
    by (simp add: inspect_catalog_for_audit_def require_current_schema_def current_schema_version_def sample_gc_db_def sample_db_def)
  then show ?thesis by (simp add: collect_dry_run_def sample_gc_inspect sample_preflight dry_actions_def quiet_simps)
qed

theorem gc_dry_run_predicts_witness:
  "\<exists>rep1 rep2 db'. collect_dry_run toy_blake3 plain_io silent quiet sample_root 4096 sample_gc_db sample_fs2 = Some (Inr (Complete rep1))
     \<and> collect_real toy_blake3 plain_io silent quiet sample_root 4096 sample_gc_db sample_fs2 = Some (db', sample_fs2, Inr (Complete rep2))
     \<and> gr_actions rep1 = gr_actions rep2"
  using gc_dry_run_predicts[OF sample_gc_ok toy_blake3_laws, of silent quiet] sample_gc_run sample_dry_run by metis

end
