(* ===== verification/RunLock.thy ===== *)
theory RunLock
  imports Store
begin

text \<open>
  \<^verbatim>\<open>run_lock.rs\<close>: the lock every command takes on the store directory. The directory is opened without
  following links and must be a directory; the call that takes the lock is a parameter.
\<close>

datatype lock_mode = LockShared | LockExclusive

definition open_store_directory :: "path \<Rightarrow> fs \<Rightarrow> node io" where
  "open_store_directory p f = open_no_follow p f"

definition acquire :: "(lock_mode \<Rightarrow> path \<Rightarrow> unit io) \<Rightarrow> store_root \<Rightarrow> lock_mode \<Rightarrow> fs \<Rightarrow> unit result" where
  "acquire lock root mode f =
     bind_result (of_io (open_store_directory (store_path root) f)) (\<lambda>directory.
     bind_result (of_io (handle_metadata (store_path root) directory f)) (\<lambda>m.
     if md_kind m \<noteq> KDirectory then Inl (Io NotADirectory) else of_io (lock mode (store_path root))))"

end
