(* ===== verification/Materialize.thy ===== *)
theory Materialize
  imports Catalog RunLock
begin

text \<open>
  \<^verbatim>\<open>materialize.rs\<close>: the browse tree of symbolic links into the store. A plan compares the links
  the catalog asks for with what is in the tree; applying it creates directories, makes or
  replaces the links it owns, removes owned links that are no longer wanted and prunes the
  directories this empties.
\<close>

section \<open>Types\<close>

record build_tree_report =
  bt_dry_run :: bool
  desired_links :: u64
  links_created :: u64
  links_unchanged :: u64
  links_replaced :: u64
  stale_links_removed :: u64
  directories_created :: u64
  directories_pruned :: u64

record desired_link =
  dl_output :: path
  dl_target :: path
  dl_hash :: blob_hash

record tree_plan =
  tp_desired :: "desired_link list"
  tp_stale :: "path list"
  tp_create :: "path list"
  tp_prune :: "path list"
  tp_report :: build_tree_report

record build_tree_config =
  bt_store :: store_root
  bt_root :: path
  bt_digits :: nat
  bt_dry :: bool

text \<open>
  What the run cannot decide: when telemetry has failed, the random part of temporary names,
  and the \<^verbatim>\<open>walkdir\<close> crate, which enumerates the entries below a directory.
\<close>

datatype tree_point = PlanEntry nat | EntryPlanned nat | PlanCheck nat | TreePlanned | BeforeApply | ApplyDir nat | ApplyLink nat
  | ApplyStale nat | ApplyPrune nat

record tree_env =
  tree_failed :: "tree_point \<Rightarrow> bool"
  uuid :: "path \<Rightarrow> string"
  walkdir :: "path \<Rightarrow> fs \<Rightarrow> (path \<times> entry_kind) io list"
  tree_lock :: "lock_mode \<Rightarrow> path \<Rightarrow> unit io"

text \<open>Sets and maps of paths are kept in the order of \<open>Path\<close>, which compares components.\<close>

definition component_key :: "component \<Rightarrow> nat \<times> string" where
  "component_key c = (case c of RootDir \<Rightarrow> (0, []) | CurDir \<Rightarrow> (1, []) | ParentDir \<Rightarrow> (2, []) | Normal s \<Rightarrow> (3, s))"

definition path_key :: "path \<Rightarrow> (nat \<times> string) list" where
  "path_key p = map component_key (components p)"

definition path_member :: "path \<Rightarrow> path list \<Rightarrow> bool" where
  "path_member p ps = list_ex (path_eq p) ps"

definition path_insert :: "path \<Rightarrow> path list \<Rightarrow> path list" where
  "path_insert p ps = (if path_member p ps then ps else insort_key path_key p ps)"


section \<open>Planning\<close>

definition validate_cas_target :: "path \<Rightarrow> u64 \<Rightarrow> fs \<Rightarrow> unit result" where
  "validate_cas_target p expected_size f =
     bind_result (of_io (symlink_metadata p f)) (\<lambda>m.
     if md_kind m \<noteq> KFile then Inl (StoreError NotABlobFile)
     else if md_len m \<noteq> expected_size then Inl (StoreError UnexpectedSize)
     else Inr ())"

definition plan_entry :: "tree_env \<Rightarrow> build_tree_config \<Rightarrow> fs \<Rightarrow> desired_link list \<Rightarrow> live_entry \<Rightarrow> desired_link list result" where
  "plan_entry env config f desired e =
     (if tree_failed env (PlanEntry (length desired)) then Inl TelemetryFailed
      else
        bind_result (output_relative_path (le_rel e) (le_hash e) (bt_digits config)) (\<lambda>relative_output.
        let output_path = path_join (bt_root config) relative_output;
            target_path = blob_path (bt_store config) (le_hash e)
        in bind_result (validate_cas_target target_path (le_size e) f) (\<lambda>_.
           bind_result (ok_or (PathError MissingParent) (path_parent output_path)) (\<lambda>parent.
           bind_result (relative_symlink_target parent target_path) (\<lambda>target_text.
           if list_ex (\<lambda>d. path_eq (dl_output d) output_path) desired then Inl (TreeError HashSuffixCollision)
           else if tree_failed env (EntryPlanned (length desired)) then Inl TelemetryFailed
           else Inr (desired @ [\<lparr>dl_output = output_path, dl_target = target_text, dl_hash = le_hash e\<rparr>]))))))"

text \<open>One entry of the walk: an owned link is a link whose target lies in the blob tree.\<close>

definition owned_step :: "build_tree_config \<Rightarrow> fs \<Rightarrow> path list \<Rightarrow> (path \<times> entry_kind) io \<Rightarrow> path list result" where
  "owned_step config f owned entry =
     bind_result (of_io entry) (\<lambda>(p, kind).
     if path_eq p (bt_root config) then Inr owned
     else if kind = KSymlink then
       bind_result (of_io (read_link p f)) (\<lambda>target.
       bind_result (ok_or (PathError MissingParent) (path_parent p)) (\<lambda>parent.
       bind_result (points_inside_blobs parent target (bt_store config)) (\<lambda>inside.
       Inr (if inside then owned @ [p] else owned))))
     else Inr owned)"

definition collect_owned_symlinks :: "tree_env \<Rightarrow> build_tree_config \<Rightarrow> fs \<Rightarrow> path list result" where
  "collect_owned_symlinks env config f =
     (if \<not> path_exists (bt_root config) f then Inr []
      else fold_result (owned_step config f) [] (walkdir env (bt_root config) f))"

definition check_desired :: "tree_env \<Rightarrow> build_tree_config \<Rightarrow> fs \<Rightarrow> nat \<times> build_tree_report \<Rightarrow> desired_link \<Rightarrow> (nat \<times> build_tree_report) result" where
  "check_desired env config f = (\<lambda>(i, report) d.
     if tree_failed env (PlanCheck i) then Inl TelemetryFailed
     else case symlink_metadata (dl_output d) f of
       Inr m \<Rightarrow>
         if md_kind m = KSymlink then
           bind_result (ok_or (PathError MissingParent) (path_parent (dl_output d))) (\<lambda>parent.
           bind_result (of_io (read_link (dl_output d) f)) (\<lambda>target.
           bind_result (points_inside_blobs parent target (bt_store config)) (\<lambda>inside.
           if \<not> inside then Inl (TreeError UserSymlinkBlocker)
           else if path_eq target (dl_target d) then Inr (i + 1, report\<lparr>links_unchanged := links_unchanged report + 1\<rparr>)
           else Inr (i + 1, report\<lparr>links_replaced := links_replaced report + 1\<rparr>))))
         else Inl (TreeError NonSymlinkBlocker)
     | Inl e \<Rightarrow>
         if e = NotFound then Inr (i + 1, report\<lparr>links_created := links_created report + 1\<rparr>)
         else Inl (Io e))"

text \<open>The directories above an output path, up to the root of the tree; \<open>None\<close> is the \<open>expect\<close>.\<close>

fun ancestors_below :: "nat \<Rightarrow> path \<Rightarrow> path \<Rightarrow> path list result" where
  "ancestors_below 0 root cursor = Inl (PathError MissingParent)"
| "ancestors_below (Suc n) root cursor =
     (if path_eq cursor root then Inr []
      else case path_parent cursor of
        None \<Rightarrow> Inl (PathError MissingParent)
      | Some parent \<Rightarrow> bind_result (ancestors_below n root parent) (\<lambda>ds. Inr (cursor # ds)))"

definition missing_step :: "fs \<Rightarrow> path list \<Rightarrow> path \<Rightarrow> path list result" where
  "missing_step f result dir =
     (case symlink_metadata dir f of
        Inr m \<Rightarrow>
          if md_kind m = KSymlink then Inl (TreeError SymlinkBlocker)
          else if md_kind m = KDirectory then Inr result
          else Inl (TreeError ParentNotDirectory)
      | Inl e \<Rightarrow> if e = NotFound then Inr (path_insert dir result) else Inl (Io e))"

definition directories_to_create :: "build_tree_config \<Rightarrow> fs \<Rightarrow> desired_link list \<Rightarrow> path list result" where
  "directories_to_create config f desired =
     fold_result (\<lambda>result d.
       bind_result (ok_or (PathError MissingParent) (path_parent (dl_output d))) (\<lambda>parent.
       bind_result (ancestors_below (Suc (length (components parent))) (bt_root config) parent) (\<lambda>ancestors.
       fold_result (missing_step f) result (rev ancestors))))
       (if path_exists (bt_root config) f then [] else [bt_root config]) desired"

text \<open>The loop over the parents of a stale link stops at the root of the tree or of the file system.\<close>

fun prune_candidates :: "nat \<Rightarrow> path \<Rightarrow> path option \<Rightarrow> path list \<Rightarrow> path list" where
  "prune_candidates 0 root cursor cs = cs"
| "prune_candidates (Suc n) root cursor cs =
     (case cursor of
        None \<Rightarrow> cs
      | Some dir \<Rightarrow> if path_eq dir root then cs else prune_candidates n root (path_parent dir) (path_insert dir cs))"

definition would_be_empty_after_cleanup :: "path \<Rightarrow> path list \<Rightarrow> path list \<Rightarrow> fs \<Rightarrow> bool result" where
  "would_be_empty_after_cleanup dir stale prunable_dirs f =
     bind_result (of_io (read_dir dir f)) (\<lambda>names.
     Inr (list_all (\<lambda>x. path_member (path_join dir x) stale \<or> path_member (path_join dir x) prunable_dirs) names))"

definition prune_step :: "path list \<Rightarrow> fs \<Rightarrow> path list \<Rightarrow> path \<Rightarrow> path list result" where
  "prune_step stale f prunable dir =
     bind_result (would_be_empty_after_cleanup dir stale prunable f) (\<lambda>is_empty.
     Inr (if is_empty then prunable @ [dir] else prunable))"

definition directories_to_prune :: "build_tree_config \<Rightarrow> path list \<Rightarrow> fs \<Rightarrow> path list result" where
  "directories_to_prune config stale_owned f =
     (let candidates = foldl (\<lambda>cs p. prune_candidates (Suc (length (components p))) (bt_root config) (path_parent p) cs) [] stale_owned
      in fold_result (prune_step stale_owned f) [] (rev candidates))"

definition empty_report :: "bool \<Rightarrow> u64 \<Rightarrow> build_tree_report" where
  "empty_report dry n = \<lparr>bt_dry_run = dry, desired_links = n, links_created = 0, links_unchanged = 0, links_replaced = 0,
     stale_links_removed = 0, directories_created = 0, directories_pruned = 0\<rparr>"

definition plan_tree :: "tree_env \<Rightarrow> build_tree_config \<Rightarrow> database \<Rightarrow> fs \<Rightarrow> tree_plan result" where
  "plan_tree env config db f =
     bind_result (open_for_materialization db) (\<lambda>catalog.
     bind_result (live_materialization_entries catalog) (\<lambda>entries.
     bind_result (fold_result (plan_entry env config f) [] entries) (\<lambda>planned.
     let desired = sort_key (\<lambda>d. path_key (dl_output d)) planned; desired_paths = map dl_output desired
     in bind_result (collect_owned_symlinks env config f) (\<lambda>owned.
        bind_result (fold_result (check_desired env config f) (0, empty_report (bt_dry config) (of_nat (length desired))) desired) (\<lambda>(_, report).
        let stale = filter (\<lambda>p. \<not> path_member p desired_paths) owned
        in bind_result (directories_to_create config f desired) (\<lambda>create.
           bind_result (directories_to_prune config stale f) (\<lambda>prune.
           Inr \<lparr>tp_desired = desired, tp_stale = stale, tp_create = create, tp_prune = prune,
                tp_report = report\<lparr>stale_links_removed := of_nat (length stale), directories_created := of_nat (length create),
                                    directories_pruned := of_nat (length prune)\<rparr>\<rparr>)))))))"


section \<open>Applying\<close>

definition with_file_name :: "path \<Rightarrow> string \<Rightarrow> path" where
  "with_file_name p name = (case path_parent p of None \<Rightarrow> name | Some d \<Rightarrow> path_join d name)"

definition temp_name :: "tree_env \<Rightarrow> path \<Rightarrow> string" where
  "temp_name env p =
     ''.'' @ (case file_name p of Some n \<Rightarrow> if valid_utf8 n then n else ''link'' | None \<Rightarrow> ''link'')
       @ ''.media-importer.tmp-'' @ uuid env p"

text \<open>The end of \<open>apply_desired_link\<close>: a link is made under a temporary name and renamed over the old one.\<close>

definition replace_link :: "path \<Rightarrow> desired_link \<Rightarrow> fs \<Rightarrow> fs \<times> unit result" where
  "replace_link temp_path d f =
     (case symlink (dl_target d) temp_path f of
        Inl e \<Rightarrow> (f, Inl (Io e))
      | Inr f1 \<Rightarrow>
          (case rename temp_path (dl_output d) f1 of
             Inl e \<Rightarrow> (case remove_file temp_path f1 of Inr f2 \<Rightarrow> (f2, Inl (Io e)) | Inl _ \<Rightarrow> (f1, Inl (Io e)))
           | Inr f2 \<Rightarrow> (f2, Inr ())))"

definition apply_desired_link :: "tree_env \<Rightarrow> desired_link \<Rightarrow> fs \<Rightarrow> fs \<times> unit result" where
  "apply_desired_link env d f =
     (case symlink_metadata (dl_output d) f of
        Inr m \<Rightarrow>
          if md_kind m = KSymlink then
            (case read_link (dl_output d) f of
               Inl e \<Rightarrow> (f, Inl (Io e))
             | Inr existing \<Rightarrow>
                 if path_eq existing (dl_target d) then (f, Inr ())
                 else replace_link (with_file_name (dl_output d) (temp_name env (dl_output d))) d f)
          else (f, Inl (TreeError NonSymlinkBlocker))
      | Inl e \<Rightarrow>
          if e = NotFound then
            (case symlink (dl_target d) (dl_output d) f of Inl e' \<Rightarrow> (f, Inl (Io e')) | Inr f1 \<Rightarrow> (f1, Inr ()))
          else (f, Inl (Io e)))"

text \<open>A loop over steps that change the file system and may fail.\<close>

fun each_step :: "(nat \<Rightarrow> bool) \<Rightarrow> ('a \<Rightarrow> fs \<Rightarrow> fs \<times> unit result) \<Rightarrow> nat \<Rightarrow> 'a list \<Rightarrow> fs \<Rightarrow> fs \<times> unit result" where
  "each_step failed step i [] f = (f, Inr ())"
| "each_step failed step i (x # xs) f =
     (if failed i then (f, Inl TelemetryFailed)
      else case step x f of (f1, Inl e) \<Rightarrow> (f1, Inl e) | (f1, Inr _) \<Rightarrow> each_step failed step (i + 1) xs f1)"

definition create_step :: "path \<Rightarrow> fs \<Rightarrow> fs \<times> unit result" where
  "create_step dir f = (case create_dir dir f of Inl e \<Rightarrow> (f, Inl (Io e)) | Inr f1 \<Rightarrow> (f1, Inr ()))"

definition unlink_step :: "path \<Rightarrow> fs \<Rightarrow> fs \<times> unit result" where
  "unlink_step p f = (case remove_file p f of Inl e \<Rightarrow> (f, Inl (Io e)) | Inr f1 \<Rightarrow> (f1, Inr ()))"

definition prune_dir_step :: "path \<Rightarrow> fs \<Rightarrow> fs \<times> unit result" where
  "prune_dir_step dir f =
     (case remove_dir dir f of
        Inr f1 \<Rightarrow> (f1, Inr ())
      | Inl e \<Rightarrow> if e = NotFound \<or> e = DirectoryNotEmpty then (f, Inr ()) else (f, Inl (Io e)))"

definition apply_tree :: "tree_env \<Rightarrow> tree_plan \<Rightarrow> fs \<Rightarrow> fs \<times> unit result" where
  "apply_tree env plan f =
     then_step (each_step (\<lambda>i. tree_failed env (ApplyDir i)) create_step 0 (tp_create plan) f) (\<lambda>f1.
     then_step (each_step (\<lambda>i. tree_failed env (ApplyLink i)) (apply_desired_link env) 0 (tp_desired plan) f1) (\<lambda>f2.
     then_step (each_step (\<lambda>i. tree_failed env (ApplyStale i)) unlink_step 0 (tp_stale plan) f2) (\<lambda>f3.
     each_step (\<lambda>i. tree_failed env (ApplyPrune i)) prune_dir_step 0 (tp_prune plan) f3)))"

text \<open>
  \<open>build_tree\<close>: a dry run shares the lock of the store with other readers; a real run takes it alone
  and purges staging before it plans. The catalog file behind the configured path is the argument \<open>db\<close>.
\<close>

definition build_tree :: "tree_env \<Rightarrow> build_tree_config \<Rightarrow> database \<Rightarrow> fs \<Rightarrow> (fs \<times> build_tree_report result) option" where
  "build_tree env config db f0 =
     (case (case acquire (tree_lock env) (bt_store config) (if bt_dry config then LockShared else LockExclusive) f0 of
              Inl e \<Rightarrow> Some (f0, Inl e)
            | Inr _ \<Rightarrow> if bt_dry config then Some (f0, Inr ()) else purge_existing_staging (bt_store config) f0) of
        None \<Rightarrow> None
      | Some (f, Inl e) \<Rightarrow> Some (f, Inl e)
      | Some (f, Inr _) \<Rightarrow>
          Some (case plan_tree env config db f of
             Inl e \<Rightarrow> (f, Inl e)
           | Inr plan \<Rightarrow>
               if tree_failed env TreePlanned then (f, Inl TelemetryFailed)
               else if bt_dry config then (f, Inr (tp_report plan))
               else if tree_failed env BeforeApply then (f, Inl TelemetryFailed)
               else (case apply_tree env plan f of
                       (f1, Inl e) \<Rightarrow> (f1, Inl e)
                     | (f1, Inr _) \<Rightarrow> (f1, Inr (tp_report plan)))))"

end
