(* ===== verification/StagingPurge.thy ===== *)
theory StagingPurge
  imports Store "HOL-Library.Sublist"
begin

text \<open>
  The frame of \<open>purge_existing_staging\<close> in \<^verbatim>\<open>store.rs\<close>: whatever fails on the way, purging a directory
  removes names strictly below it and changes nothing else, and the file system stays a tree.
\<close>

section \<open>Removing names\<close>

lemma fs_ok_clear_node:
  assumes "fs_ok f" "ns \<noteq> []" "node_at f ns \<noteq> Some FDir \<or> children ns f = []"
  shows "fs_ok (clear_node ns f)"
proof -
  have "p \<noteq> [] \<and> node_at (clear_node ns f) (butlast p) = Some FDir \<and> list_all name_ok p
      \<and> (case k of FFile i \<Rightarrow> i < next_inode f | _ \<Rightarrow> True)" if mem: "(p, k) \<in> set (nodes (clear_node ns f))" for p k
  proof -
    have m: "(p, k) \<in> set (nodes f)" using mem by (auto simp: clear_node_def AList.delete_eq)
    then have p: "p \<noteq> []" "node_at f (butlast p) = Some FDir" "list_all name_ok p" "case k of FFile i \<Rightarrow> i < next_inode f | _ \<Rightarrow> True"
      using assms(1) by (auto simp: fs_ok_def list_all_iff)
    have "butlast p \<noteq> ns"
    proof
      assume "butlast p = ns"
      then have "children ns f \<noteq> []" using m p(1) by (force simp: children_def filter_empty_conv)
      then show False using assms(3) p(2) \<open>butlast p = ns\<close> by simp
    qed
    then show ?thesis using p assms(2) by simp
  qed
  then show ?thesis unfolding fs_ok_def list_all_iff clear_node_other by blast
qed

definition names_ok :: "fs \<Rightarrow> bool" where
  "names_ok f \<longleftrightarrow> (\<forall>(p, n)\<in>set (nodes f). list_all name_ok p)"

text \<open>\<open>g\<close> is \<open>f\<close> with some of the names in \<open>ds\<close> removed.\<close>

definition removed_in :: "string list set \<Rightarrow> fs \<Rightarrow> fs \<Rightarrow> bool" where
  "removed_in ds f g \<longleftrightarrow> inodes g = inodes f \<and> faults g = faults f \<and> set (nodes g) \<subseteq> set (nodes f) \<and> (fs_ok f \<longrightarrow> fs_ok g)
     \<and> (\<forall>ms. ms \<notin> ds \<longrightarrow> node_at g ms = node_at f ms)"

lemma removed_in_refl [simp]: "removed_in ds f f"
  by (simp add: removed_in_def)

lemma removed_in_trans: "removed_in ds f g \<Longrightarrow> removed_in ds g h \<Longrightarrow> removed_in ds f h"
  by (auto simp: removed_in_def)

lemma removed_in_mono: "removed_in ds f g \<Longrightarrow> ds \<subseteq> es \<Longrightarrow> removed_in es f g"
  by (auto simp: removed_in_def)

lemma removed_names: "removed_in ds f g \<Longrightarrow> names_ok f \<Longrightarrow> names_ok g"
  by (auto simp: removed_in_def names_ok_def)

lemma clear_removed:
  assumes "ns \<noteq> []" "ns \<in> ds" "node_at f ns \<noteq> Some FDir \<or> children ns f = []"
  shows "removed_in ds f (clear_node ns f)"
proof -
  have "set (nodes (clear_node ns f)) \<subseteq> set (nodes f)" by (auto simp: clear_node_def AList.delete_eq)
  then show ?thesis using assms fs_ok_clear_node[OF _ assms(1,3)] by (auto simp: removed_in_def)
qed

lemma removed_real_dir: "removed_in {ms. strict_prefix ns ms} f g \<Longrightarrow> real_dir f ns \<Longrightarrow> real_dir g ns"
proof -
  assume a: "removed_in {ms. strict_prefix ns ms} f g" "real_dir f ns"
  have "\<not> strict_prefix ns (take i ns)" for i using prefix_length_less[of ns "take i ns"] by auto
  then show "real_dir g ns" using a by (simp add: removed_in_def real_dir_def real_parents_def)
qed

lemma remove_dir_Inr:
  assumes "list_all name_ok ns" "real_parents f ns" "remove_dir (abs_path ns) f = Inr g"
  shows "g = clear_node ns f" "ns \<noteq> []" "children ns f = []"
  using assms(3) locate_real[OF assms(1,2), of False] by (auto simp: remove_dir_def io_bind_Inr split: option.splits node.splits if_splits)

lemma ignore_missing_Inr: "ignore_missing f r = Inr g \<Longrightarrow> g = f \<or> r = Inr g"
  by (auto simp: ignore_missing_def split: sum.splits if_splits)

text \<open>One entry: only names at or below it go away, if that holds below it for the purge of a directory.\<close>

lemma purge_entry_removes:
  assumes "purge_directory_entry purge (abs_path ns) f = Some (g, r)" "list_all name_ok ns" "ns \<noteq> []" "real_parents f ns"
    "\<And>g r. purge (abs_path ns) f = Some (g, r) \<Longrightarrow> real_dir f ns \<Longrightarrow> removed_in {ms. strict_prefix ns ms} f g"
  shows "removed_in {ms. prefix ns ms} f g"
proof (cases "symlink_metadata (abs_path ns) f")
  case (Inl e)
  then show ?thesis using assms(1) by (auto simp: purge_directory_entry_def)
next
  case (Inr m)
  have rf: "removed_in {ms. prefix ns ms} f h" if "ignore_missing f (remove_file (abs_path ns) f) = Inr h" for h
    using ignore_missing_Inr[OF that]
  proof
    assume "remove_file (abs_path ns) f = Inr h"
    from remove_file_Inr[OF assms(2,4) this] show ?thesis using clear_removed[OF assms(3), of "{ms. prefix ns ms}" f] by auto
  qed simp
  have rd: "removed_in {ms. prefix ns ms} h h'" if "ignore_missing h (remove_dir (abs_path ns) h) = Inr h'" "real_parents h ns" for h h'
    using ignore_missing_Inr[OF that(1)]
  proof
    assume "remove_dir (abs_path ns) h = Inr h'"
    from remove_dir_Inr[OF assms(2) that(2) this] show ?thesis using clear_removed[OF assms(3), of "{ms. prefix ns ms}" h] by auto
  qed simp
  show ?thesis
  proof (cases "md_kind m = KDirectory")
    case False
    then show ?thesis using assms(1) Inr rf by (auto simp: purge_directory_entry_def Let_def split: sum.splits)
  next
    case True
    show ?thesis
    proof (cases "open_directory_no_follow (abs_path ns) f")
      case (Inl e)
      then show ?thesis using assms(1) Inr True rd assms(4) by (auto simp: purge_directory_entry_def Let_def split: sum.splits if_splits)
    next
      case o: (Inr u)
      then have "real_dir f ns" using open_no_follow_Inr[OF assms(2,4)] assms(4)
        by (auto simp: open_directory_no_follow_def io_bind_Inr real_dir_def split: if_splits)
      obtain g1 r1 where p: "purge (abs_path ns) f = Some (g1, r1)" "(g, r) = (case r1 of Inl e \<Rightarrow> (g1, Inl e)
          | Inr _ \<Rightarrow> (case ignore_missing g1 (remove_dir (abs_path ns) g1) of Inl e \<Rightarrow> (g1, Inl e) | Inr g' \<Rightarrow> (g', Inr ())))"
        using assms(1) Inr True o by (auto simp: purge_directory_entry_def Let_def)
      have g1: "removed_in {ms. strict_prefix ns ms} f g1" using assms(5)[OF p(1) \<open>real_dir f ns\<close>] .
      then have "real_parents g1 ns" using removed_real_dir \<open>real_dir f ns\<close> by (auto simp: real_dir_def)
      moreover have "removed_in {ms. prefix ns ms} f g1" using g1 by (rule removed_in_mono) auto
      ultimately show ?thesis using p(2) rd[of g1] removed_in_trans[of "{ms. prefix ns ms}" f g1] by (auto split: sum.splits)
    qed
  qed
qed

lemma purge_removes:
  assumes "purge_directory_entries n (abs_path ns) f = Some (g, r)" "list_all name_ok ns" "names_ok f" "real_dir f ns"
  shows "removed_in {ms. strict_prefix ns ms} f g"
  using assms
proof (induction n arbitrary: ns f g r)
  case (Suc n)
  have each: "removed_in {ms. strict_prefix ns ms} f g"
    if "purge_each (purge_directory_entries n) (abs_path ns) xs f = Some (g, r)" "list_all name_ok xs" "names_ok f" "real_dir f ns" for xs f g r
    using that
  proof (induction xs arbitrary: f)
    case (Cons x xs)
    have ns: "list_all name_ok (ns @ [x])" "path_join (abs_path ns) x = abs_path (ns @ [x])" "real_parents f (ns @ [x])"
      using Cons.prems(2,4) Suc.prems(2) path_join_abs_path by (auto simp: real_parents_snoc)
    obtain f1 r1 where e: "purge_directory_entry (purge_directory_entries n) (abs_path (ns @ [x])) f = Some (f1, r1)"
      using Cons.prems(1) ns(2) by (auto split: option.splits)
    have "removed_in {ms. prefix (ns @ [x]) ms} f f1"
      using purge_entry_removes[OF e ns(1) _ ns(3)] Suc.IH[of "ns @ [x]" f] ns(1) Cons.prems(3) by blast
    then have f1: "removed_in {ms. strict_prefix ns ms} f f1" by (rule removed_in_mono) (auto simp: strict_prefix_def prefix_def)
    then have "names_ok f1" "real_dir f1 ns" using removed_names Cons.prems(3) removed_real_dir Cons.prems(4) by blast+
    then show ?case using Cons.IH[of f1] Cons.prems(1,2) e ns(2) removed_in_trans[OF f1] f1 by (auto split: sum.splits)
  qed simp
  obtain names where d: "read_dir (abs_path ns) f = Inr names \<or> g = f"
    "read_dir (abs_path ns) f = Inr names \<Longrightarrow> purge_each (purge_directory_entries n) (abs_path ns) names f = Some (g, r)"
    using Suc.prems(1) by (auto split: sum.splits)
  moreover have "list_all name_ok names" if "read_dir (abs_path ns) f = Inr names"
    using read_dir_real[OF Suc.prems(2,4) that] Suc.prems(3) by (fastforce simp: names_ok_def list_all_iff)
  ultimately show ?case using each Suc.prems(3,4) by auto
qed simp


section \<open>Staging\<close>

definition staging_names :: "store_root \<Rightarrow> string list" where
  "staging_names root = store_names root @ [''staging'']"

lemma staging_dir_names:
  assumes "canonical (store_path root)"
  shows "staging_dir root = abs_path (staging_names root)" "list_all name_ok (staging_names root)"
proof -
  have "name_ok ''staging''" by (simp add: name_ok_def)
  then show "staging_dir root = abs_path (staging_names root)" "list_all name_ok (staging_names root)"
    using store_names_ok[OF assms] by (simp_all add: staging_dir_def staging_names_def path_join_abs_path)
qed

lemma fs_ok_names: "fs_ok f \<Longrightarrow> names_ok f"
  by (auto simp: fs_ok_def names_ok_def list_all_iff)

lemma purge_existing_staging_removes:
  assumes "store_ok root f" "purge_existing_staging root f = Some (g, r)"
  shows "removed_in {ms. strict_prefix (staging_names root) ms} f g"
proof -
  note st = staging_dir_names[of root]
  have s: "canonical (store_path root)" "real_dir f (store_names root)" "fs_ok f" using assms(1) by (auto simp: store_ok_def)
  have rp: "real_parents f (staging_names root)" using s(2) by (simp add: staging_names_def real_parents_snoc)
  obtain f1 v where o: "open_validated_staging_directory root False f = (f1, v)" by fastforce
  then have f1: "f1 = f" "v = Inr True \<Longrightarrow> open_directory_no_follow (staging_dir root) f = Inr ()"
    by (auto simp: open_validated_staging_directory_def Let_def bind_result_eq_Inr of_io_Inr split: sum.splits if_splits)
  show ?thesis
  proof (cases "v = Inr True")
    case True
    then have "node_at f (staging_names root) = Some FDir"
      using f1(2) open_no_follow_Inr[OF st(2)[OF s(1)] rp] st(1)[OF s(1)] by (auto simp: open_directory_no_follow_def io_bind_Inr split: if_splits)
    then have "real_dir f (staging_names root)" using rp by (simp add: real_dir_def)
    moreover have "purge_directory_entries (Suc (Suc (max_depth f))) (abs_path (staging_names root)) f = Some (g, r)"
      using assms(2) o f1(1) True st(1)[OF s(1)] by (simp add: purge_existing_staging_def)
    ultimately show ?thesis using purge_removes[OF _ st(2)[OF s(1)] fs_ok_names[OF s(3)]] by blast
  next
    case False
    then have "g = f" using assms(2) o f1(1) by (auto simp: purge_existing_staging_def split: sum.splits bool.splits)
    then show ?thesis by simp
  qed
qed

end
