(* ===== verification/BrowseTree.thy ===== *)
theory BrowseTree
  imports Materialize StagingPurge
begin

text \<open>
  What building a browse tree does to the file system. Files and links the program does not own
  are never touched, whatever fails, and a directory goes only when it held links of the tree and
  nothing foreign; a run that succeeds leaves exactly the links the catalog asks for.
\<close>

section \<open>File system calls below plain directories\<close>

text \<open>Above the name there are directories or nothing.\<close>

definition plain :: "fs \<Rightarrow> string list \<Rightarrow> bool" where
  "plain f ns \<longleftrightarrow> (\<forall>i<length ns. node_at f (take i ns) = None \<or> node_at f (take i ns) = Some FDir)"

definition honest :: "fs \<Rightarrow> bool" where
  "honest f \<longleftrightarrow> (\<forall>op p. faults f op p \<noteq> Some NotFound)"

lemma real_parents_plain: "real_parents f ns \<Longrightarrow> plain f ns"
  by (auto simp: real_parents_def plain_def)

lemma resolve_plain:
  assumes "\<forall>i<length (base @ ns). length base < i \<longrightarrow> node_at f (take i (base @ ns)) = None \<or> node_at f (take i (base @ ns)) = Some FDir"
    "\<not> follow \<or> (\<forall>t. node_at f (base @ ns) \<noteq> Some (FSymlink t))"
  shows "resolve f links follow base (map Normal ns) = Inr (base @ ns) \<or> resolve f links follow base (map Normal ns) = Inl NotFound"
  using assms
proof (induction ns arbitrary: base)
  case (Cons n ns)
  show ?case
  proof (cases "ns = []")
    case True
    then show ?thesis using Cons.prems(2) by (auto split: option.splits node.splits)
  next
    case False
    have "node_at f (base @ [n]) = None \<or> node_at f (base @ [n]) = Some FDir"
      using Cons.prems(1)[rule_format, of "length base + 1"] False by simp
    then show ?thesis
    proof
      assume "node_at f (base @ [n]) = Some FDir"
      moreover have "resolve f links follow (base @ [n]) (map Normal ns) = Inr ((base @ [n]) @ ns)
          \<or> resolve f links follow (base @ [n]) (map Normal ns) = Inl NotFound"
        using Cons.prems by (intro Cons.IH) (auto simp: Suc_le_eq)
      ultimately show ?thesis by simp
    qed (use False in simp)
  qed
qed simp

lemma locate_plain:
  assumes "list_all name_ok ns" "plain f ns" "\<not> follow \<or> (\<forall>t. node_at f ns \<noteq> Some (FSymlink t))"
  shows "locate follow (abs_path ns) f = Inr ns \<or> locate follow (abs_path ns) f = Inl NotFound"
  using resolve_plain[of "[]" ns f follow 40] assms by (simp add: locate_def components_abs_path plain_def)

lemma locate_plain_Inr:
  assumes "list_all name_ok ns" "plain f ns" "locate False (abs_path ns) f = Inr ms"
  shows "ms = ns"
  using locate_plain[OF assms(1,2), of False] assms(3) by auto

lemma located_call:
  assumes "list_all name_ok ns" "plain f ns" "io_bind (fault_free op p f) (\<lambda>_. io_bind (locate False (abs_path ns) f) k) = Inr r"
  shows "k ns = Inr r"
  using assms(3) locate_plain_Inr[OF assms(1,2)] by (auto simp: io_bind_Inr)

lemma new_name_plain:
  assumes "list_all name_ok ns" "plain f ns" "new_name (abs_path ns) f = Inr ms"
  shows "ms = ns \<and> node_at f ns = None \<and> node_at f (butlast ns) = Some FDir"
  using assms(3) locate_plain_Inr[OF assms(1,2)] by (auto simp: new_name_def io_bind_Inr split: if_splits)

lemma create_dir_plain:
  assumes "list_all name_ok ns" "plain f ns" "create_dir (abs_path ns) f = Inr f'"
  shows "f' = set_node ns FDir f" "node_at f ns = None" "node_at f (butlast ns) = Some FDir"
  using assms(3) new_name_plain[OF assms(1,2)] by (auto simp: create_dir_def io_bind_Inr)

lemma symlink_plain:
  assumes "list_all name_ok ns" "plain f ns" "symlink t (abs_path ns) f = Inr f'"
  shows "f' = set_node ns (FSymlink t) f" "node_at f ns = None" "node_at f (butlast ns) = Some FDir"
  using assms(3) new_name_plain[OF assms(1,2)] by (auto simp: symlink_def io_bind_Inr)

lemma remove_file_plain:
  assumes "list_all name_ok ns" "plain f ns" "remove_file (abs_path ns) f = Inr f'"
  shows "f' = clear_node ns f" "node_at f ns \<noteq> None" "node_at f ns \<noteq> Some FDir"
  using located_call[OF assms(1,2) assms(3)[unfolded remove_file_def]] by (auto split: option.splits node.splits)

lemma remove_dir_plain:
  assumes "list_all name_ok ns" "plain f ns" "remove_dir (abs_path ns) f = Inr f'"
  shows "f' = clear_node ns f" "node_at f ns = Some FDir" "ns \<noteq> []" "children ns f = []"
  using located_call[OF assms(1,2) assms(3)[unfolded remove_dir_def]] by (auto split: option.splits node.splits if_splits)

lemma rename_plain:
  assumes "list_all name_ok ns" "plain f ns" "list_all name_ok ms" "plain f ms" "ns \<noteq> ms" "rename (abs_path ns) (abs_path ms) f = Inr f'"
  shows "\<exists>n. node_at f ns = Some n \<and> n \<noteq> FDir \<and> f' = set_node ms n (clear_node ns f) \<and> node_at f ms \<noteq> Some FDir \<and> node_at f (butlast ms) = Some FDir"
proof -
  note r = located_call[OF assms(1,2) assms(6)[unfolded rename_def]]
  have "locate False (abs_path ms) f = Inr ms" using r locate_plain[OF assms(3,4), of False] by (auto simp: io_bind_Inr)
  then show ?thesis using r assms(5) by (auto split: option.splits node.splits if_splits)
qed

lemma symlink_metadata_plain_Inr:
  assumes "list_all name_ok ns" "plain f ns" "symlink_metadata (abs_path ns) f = Inr m"
  shows "\<exists>n. node_at f ns = Some n \<and> m = metadata_of f n"
  using assms locate_plain_Inr[OF assms(1,2)] by (auto simp: symlink_metadata_def io_bind_Inr split: option.splits)

lemma symlink_metadata_absent:
  assumes "list_all name_ok ns" "fs_ok f" "honest f" "symlink_metadata (abs_path ns) f = Inl NotFound"
  shows "node_at f ns = None"
proof (rule ccontr)
  assume "node_at f ns \<noteq> None"
  then obtain n where n: "node_at f ns = Some n" by auto
  note l = locate_real[OF assms(1) fs_ok_real_parents[OF assms(2) n], of False]
  have "fault_free OpLstat (abs_path ns) f \<noteq> Inl NotFound" using assms(3) by (auto simp: fault_free_def honest_def split: option.splits)
  then show False using assms(4) l n by (auto simp: symlink_metadata_def io_bind_def split: sum.splits)
qed

lemma read_link_plain:
  assumes "list_all name_ok ns" "plain f ns" "node_at f ns = Some (FSymlink t)" "read_link (abs_path ns) f = Inr t'"
  shows "t' = t"
  using assms locate_plain_Inr[OF assms(1,2)] by (auto simp: read_link_def io_bind_Inr)

text \<open>The tree stays a tree.\<close>

lemma set_update_entries: "set (AList.update k v al) \<subseteq> insert (k, v) (set al)"
  by (induction al) auto

lemma fs_ok_set_node:
  assumes "fs_ok f" "ns \<noteq> []" "list_all name_ok ns" "node_at f (butlast ns) = Some FDir" "node_at f ns \<noteq> Some FDir \<or> n = FDir"
    "\<forall>i. n \<noteq> FFile i"
  shows "fs_ok (set_node ns n f)"
proof -
  have "butlast ns \<noteq> ns" using assms(2) by (metis append_butlast_last_id append_self_conv not_Cons_self2)
  have "p \<noteq> [] \<and> node_at (set_node ns n f) (butlast p) = Some FDir \<and> list_all name_ok p
      \<and> (case k of FFile i \<Rightarrow> i < next_inode f | _ \<Rightarrow> True)" if mem: "(p, k) \<in> set (nodes (set_node ns n f))" for p k
  proof -
    have cases: "(p, k) = (ns, n) \<or> (p, k) \<in> set (nodes f)"
      using mem set_update_entries[of ns n "nodes f"] by (auto simp: set_node_def)
    then show ?thesis
    proof
      assume "(p, k) = (ns, n)"
      then show ?thesis using assms \<open>butlast ns \<noteq> ns\<close> by (cases n) auto
    next
      assume "(p, k) \<in> set (nodes f)"
      then have "p \<noteq> []" "node_at f (butlast p) = Some FDir" "list_all name_ok p" "case k of FFile i \<Rightarrow> i < next_inode f | _ \<Rightarrow> True"
        using assms(1) by (auto simp: fs_ok_def list_all_iff)
      then show ?thesis using assms(2,5) by auto
    qed
  qed
  then show ?thesis unfolding fs_ok_def list_all_iff set_node_other by blast
qed


section \<open>What a plan promises\<close>

definition root_names :: "build_tree_config \<Rightarrow> string list" where
  "root_names config = path_names (bt_root config)"

text \<open>
  The tree is at a canonical path below real directories and is a directory or missing, as
  \<open>BrowseTreeRoot::validate\<close> checks; no failing call pretends that a name is missing.
\<close>

definition tree_ok :: "build_tree_config \<Rightarrow> fs \<Rightarrow> bool" where
  "tree_ok config f \<longleftrightarrow> canonical (bt_root config) \<and> canonical (store_path (bt_store config)) \<and> fs_ok f \<and> honest f
     \<and> real_parents f (root_names config) \<and> (node_at f (root_names config) = None \<or> node_at f (root_names config) = Some FDir)"

text \<open>What the \<^verbatim>\<open>walkdir\<close> crate documents: it yields entries below the root without following links.\<close>

definition walk_sound :: "tree_env \<Rightarrow> build_tree_config \<Rightarrow> fs \<Rightarrow> bool" where
  "walk_sound env config f \<longleftrightarrow> (\<forall>p k. Inr (p, k) \<in> set (walkdir env (bt_root config) f) \<longrightarrow>
     (\<exists>ns n. p = abs_path ns \<and> list_all name_ok ns \<and> prefix (root_names config) ns \<and> node_at f ns = Some n
        \<and> md_kind (metadata_of f n) = k))"

definition walk_complete :: "tree_env \<Rightarrow> build_tree_config \<Rightarrow> fs \<Rightarrow> bool" where
  "walk_complete env config f \<longleftrightarrow> list_all (\<lambda>x. \<exists>y. x = Inr y) (walkdir env (bt_root config) f) \<longrightarrow>
     (\<forall>ns n. prefix (root_names config) ns \<and> node_at f ns = Some n \<longrightarrow>
        Inr (abs_path ns, md_kind (metadata_of f n)) \<in> set (walkdir env (bt_root config) f))"

definition owned_link :: "build_tree_config \<Rightarrow> fs \<Rightarrow> string list \<Rightarrow> bool" where
  "owned_link config f ns \<longleftrightarrow> (\<exists>t. node_at f ns = Some (FSymlink t)
     \<and> points_inside_blobs (abs_path (butlast ns)) t (bt_store config) = Inr True)"

text \<open>The links that belong to a tree, and the directories that hold nothing else.\<close>

definition tree_link :: "build_tree_config \<Rightarrow> fs \<Rightarrow> string list \<Rightarrow> bool" where
  "tree_link config f ns \<longleftrightarrow> strict_prefix (root_names config) ns \<and> owned_link config f ns"

definition only_links :: "build_tree_config \<Rightarrow> fs \<Rightarrow> string list \<Rightarrow> bool" where
  "only_links config f ns \<longleftrightarrow> strict_prefix (root_names config) ns \<and> (\<exists>ms. strict_prefix ns ms \<and> tree_link config f ms)
     \<and> (\<forall>ms m. strict_prefix ns ms \<and> node_at f ms = Some m \<longrightarrow> m = FDir \<or> tree_link config f ms)"

definition out_names :: "desired_link \<Rightarrow> string list" where
  "out_names d = path_names (dl_output d)"

definition desired_named :: "build_tree_config \<Rightarrow> desired_link \<Rightarrow> bool" where
  "desired_named config d \<longleftrightarrow> list_all name_ok (out_names d) \<and> dl_output d = abs_path (out_names d)
     \<and> strict_prefix (root_names config) (out_names d)"

lemma root_named:
  assumes "tree_ok config f"
  shows "bt_root config = abs_path (root_names config)" "list_all name_ok (root_names config)"
  using assms by (auto simp: tree_ok_def root_names_def canonical_def)

lemma join_not_absolute: "list_all name_ok qs \<Longrightarrow> \<not> is_absolute (join_with CHR ''/'' qs)"
  by (induction "CHR ''/''" qs rule: join_with.induct) (auto simp: is_absolute_def name_ok_def append_eq_Cons_conv split: list.splits)

lemma path_join_abs_join:
  assumes "list_all name_ok (rs @ qs)" "qs \<noteq> []"
  shows "path_join (abs_path rs) (join_with CHR ''/'' qs) = abs_path (rs @ qs)"
proof (cases "rs = []")
  case True
  then show ?thesis using assms join_not_absolute[of qs] by (simp add: path_join_def abs_path_def)
next
  case False
  then show ?thesis using assms join_with_ne[of rs] join_not_absolute[of qs] by (simp add: path_join_def abs_path_def join_with_append)
qed

lemma path_eq_abs: "list_all name_ok ns \<Longrightarrow> list_all name_ok ms \<Longrightarrow> path_eq (abs_path ns) (abs_path ms) \<longleftrightarrow> ns = ms"
  by (auto simp: path_eq_def components_abs_path inj_map_eq_map inj_def)

lemma live_entries_ok:
  assumes "live_materialization_entries db = Inr es" "e \<in> set es"
  shows "rel_ok (le_rel e) \<and> hash_ok (le_hash e)"
proof -
  have m: "map (\<lambda>(r, h, sz).
       bind_result (get_string r) (\<lambda>relative_path.
       bind_result (get_string h) (\<lambda>blob_hash.
       bind_result (get_i64 sz) (\<lambda>size_bytes.
       bind_result (u64_of_i64 size_bytes) (\<lambda>blob_size_bytes.
       bind_result (from_catalog_text relative_path) (\<lambda>rel.
       bind_result (blob_hash_new blob_hash) (\<lambda>hash.
       Inr \<lparr>le_rel = rel, le_hash = hash, le_size = blob_size_bytes\<rparr>))))))) (select_live_sql db) = map Inr es"
    using assms(1) by (simp add: live_materialization_entries_def map_result_Inr_iff)
  have "(Inr e :: live_entry result) \<in> set (map Inr es)" using assms(2) by simp
  from this[folded m] show ?thesis
    by (auto simp: eq_commute[of "Inr e"] bind_result_eq_Inr blob_hash_new_Inr dest!: from_catalog_text_rel_ok)
qed

definition link_for :: "build_tree_config \<Rightarrow> live_entry \<Rightarrow> desired_link \<Rightarrow> bool" where
  "link_for config e d \<longleftrightarrow> dl_hash d = le_hash e
     \<and> (\<exists>out. output_relative_path (le_rel e) (le_hash e) (bt_digits config) = Inr out \<and> dl_output d = path_join (bt_root config) out)
     \<and> relative_symlink_target (abs_path (butlast (out_names d))) (blob_path (bt_store config) (le_hash e)) = Inr (dl_target d)"

lemma plan_entry_Inr:
  assumes "tree_ok config f" "rel_ok (le_rel e)" "hash_ok (le_hash e)" "plan_entry env config f ds e = Inr ds'"
  obtains d where "ds' = ds @ [d]" "desired_named config d" "link_for config e d" "\<not> list_ex (\<lambda>x. path_eq (dl_output x) (dl_output d)) ds"
proof -
  note rt = root_named[OF assms(1)]
  obtain out parent t where o: "output_relative_path (le_rel e) (le_hash e) (bt_digits config) = Inr out"
    "path_parent (path_join (bt_root config) out) = Some parent"
    "relative_symlink_target parent (blob_path (bt_store config) (le_hash e)) = Inr t"
    "\<not> list_ex (\<lambda>d. path_eq (dl_output d) (path_join (bt_root config) out)) ds"
    "ds' = ds @ [\<lparr>dl_output = path_join (bt_root config) out, dl_target = t, dl_hash = le_hash e\<rparr>]"
    using assms(4) by (auto simp: plan_entry_def Let_def bind_result_eq_Inr ok_or_eq_Inr split: if_splits)
  obtain s where s: "list_all name_ok (butlast (split_on CHR ''/'' (rel_str (le_rel e))) @ [s])"
    "out = join_with CHR ''/'' (butlast (split_on CHR ''/'' (rel_str (le_rel e))) @ [s])"
    using output_relative_pathE[OF o(1) assms(2,3)] by metis
  let ?qs = "butlast (split_on CHR ''/'' (rel_str (le_rel e))) @ [s]" and ?rs = "root_names config"
  have ok: "list_all name_ok (?rs @ ?qs)" using rt(2) s(1) by simp
  have p: "path_join (bt_root config) out = abs_path (?rs @ ?qs)" unfolding rt(1) s(2) by (rule path_join_abs_join[OF ok]) simp
  let ?d = "\<lparr>dl_output = path_join (bt_root config) out, dl_target = t, dl_hash = le_hash e\<rparr> :: desired_link"
  have n: "out_names ?d = ?rs @ ?qs" using ok by (simp add: out_names_def p)
  have par: "parent = abs_path (butlast (?rs @ ?qs))"
    using o(2) path_parent_abs[of "?rs @ butlast (split_on CHR ''/'' (rel_str (le_rel e)))" s] ok unfolding p
    by (simp add: butlast_append)
  show ?thesis
  proof (rule that[of ?d])
    show "desired_named config ?d" unfolding desired_named_def n using ok by (simp add: p strict_prefix_def)
    show "link_for config e ?d" unfolding link_for_def n using o(1,3) par by simp
  qed (use o(4,5) in simp_all)
qed

lemma plan_entries_Inr:
  assumes "tree_ok config f" "\<And>e. e \<in> set es \<Longrightarrow> rel_ok (le_rel e) \<and> hash_ok (le_hash e)"
    "fold_result (plan_entry env config f) [] es = Inr ds"
  shows "list_all2 (link_for config) es ds \<and> list_all (desired_named config) ds \<and> distinct (map out_names ds)"
proof -
  have "\<exists>ds2. ds = ds1 @ ds2 \<and> list_all2 (link_for config) es ds2 \<and> list_all (desired_named config) ds2 \<and> distinct (map out_names ds)"
    if "fold_result (plan_entry env config f) ds1 es = Inr ds" "list_all (desired_named config) ds1" "distinct (map out_names ds1)"
      "\<And>e. e \<in> set es \<Longrightarrow> rel_ok (le_rel e) \<and> hash_ok (le_hash e)" for ds1
    using that
  proof (induction es arbitrary: ds1)
    case (Cons e es)
    obtain dsx where x: "plan_entry env config f ds1 e = Inr dsx" "fold_result (plan_entry env config f) dsx es = Inr ds"
      using Cons.prems(1) by (auto simp: bind_result_eq_Inr)
    obtain d where d: "dsx = ds1 @ [d]" "desired_named config d" "link_for config e d" "\<not> list_ex (\<lambda>x. path_eq (dl_output x) (dl_output d)) ds1"
      using plan_entry_Inr[OF assms(1) _ _ x(1)] Cons.prems(4)[of e] by auto
    have "out_names d \<notin> out_names ` set ds1"
    proof
      assume "out_names d \<in> out_names ` set ds1"
      then obtain x where "x \<in> set ds1" "out_names d = out_names x" by auto
      then have "dl_output x = dl_output d" using d(2) Cons.prems(2) by (auto simp: desired_named_def list_all_iff)
      then show False using d(4) \<open>x \<in> set ds1\<close> by (auto simp: list_ex_iff path_eq_def)
    qed
    then have "\<exists>ds2. ds = dsx @ ds2 \<and> list_all2 (link_for config) es ds2 \<and> list_all (desired_named config) ds2 \<and> distinct (map out_names ds)"
      using Cons.IH[OF x(2)] Cons.prems d(1,2) by simp
    then show ?case using d by auto
  qed simp
  from this[OF assms(3) _ _ assms(2)] show ?thesis by simp
qed


lemma check_desired_fold:
  assumes "fold_result (check_desired env config f) s ds = Inr s'" "d \<in> set ds"
  shows "symlink_metadata (dl_output d) f = Inl NotFound \<or>
    (\<exists>m parent target. symlink_metadata (dl_output d) f = Inr m \<and> md_kind m = KSymlink \<and> path_parent (dl_output d) = Some parent
       \<and> read_link (dl_output d) f = Inr target \<and> points_inside_blobs parent target (bt_store config) = Inr True)"
  using assms
proof (induction ds arbitrary: s)
  case (Cons x ds)
  obtain s1 where s1: "check_desired env config f s x = Inr s1" "fold_result (check_desired env config f) s1 ds = Inr s'"
    using Cons.prems(1) by (auto simp: bind_result_eq_Inr)
  show ?case
  proof (cases "d = x")
    case True
    then show ?thesis using s1(1)
      by (cases s; cases "symlink_metadata (dl_output x) f")
        (auto simp: check_desired_def bind_result_eq_Inr ok_or_eq_Inr of_io_Inr split: if_splits)
  next
    case False
    then show ?thesis using Cons.IH[OF s1(2)] Cons.prems(2) by simp
  qed
qed simp

lemma desired_owned_or_absent:
  assumes "tree_ok config f" "desired_named config d" "plain f (out_names d)"
    "fold_result (check_desired env config f) s ds = Inr s'" "d \<in> set ds"
  shows "node_at f (out_names d) = None \<or> owned_link config f (out_names d)"
proof -
  have n: "list_all name_ok (out_names d)" "dl_output d = abs_path (out_names d)" "out_names d \<noteq> []"
    using assms(2) by (auto simp: desired_named_def)
  have ok: "fs_ok f" "honest f" using assms(1) by (auto simp: tree_ok_def)
  from check_desired_fold[OF assms(4,5)] show ?thesis
  proof
    assume "symlink_metadata (dl_output d) f = Inl NotFound"
    then show ?thesis using symlink_metadata_absent[OF n(1) ok] n(2) by simp
  next
    assume "\<exists>m parent target. symlink_metadata (dl_output d) f = Inr m \<and> md_kind m = KSymlink \<and> path_parent (dl_output d) = Some parent
       \<and> read_link (dl_output d) f = Inr target \<and> points_inside_blobs parent target (bt_store config) = Inr True"
    then obtain m parent target where m: "symlink_metadata (dl_output d) f = Inr m" "md_kind m = KSymlink" "path_parent (dl_output d) = Some parent"
      "read_link (dl_output d) f = Inr target" "points_inside_blobs parent target (bt_store config) = Inr True" by blast
    obtain t where t: "node_at f (out_names d) = Some (FSymlink t)"
      using symlink_metadata_plain_Inr[OF n(1) assms(3)] m(1,2) n(2) by auto
    have "target = t" using read_link_plain[OF n(1) assms(3) t] m(4) n(2) by simp
    moreover have "parent = abs_path (butlast (out_names d))"
      using m(3) path_parent_abs[of "butlast (out_names d)" "last (out_names d)"] n by simp
    ultimately show ?thesis using t m(5) by (auto simp: owned_link_def)
  qed
qed

lemma ancestors_below_abs:
  assumes "list_all name_ok (rs @ qs)" "length qs < n"
  shows "ancestors_below n (abs_path rs) (abs_path (rs @ qs)) = Inr (map (\<lambda>k. abs_path (rs @ take k qs)) (rev [1..<Suc (length qs)]))"
  using assms
proof (induction qs arbitrary: n rule: rev_induct)
  case Nil
  then show ?case by (cases n) (simp_all add: path_eq_def)
next
  case (snoc q qs)
  then obtain m where m: "n = Suc m" "length qs < m" by (cases n) auto
  have ne: "\<not> path_eq (abs_path (rs @ qs @ [q])) (abs_path rs)" using snoc.prems(1) by (subst path_eq_abs) auto
  have par: "path_parent (abs_path (rs @ qs @ [q])) = Some (abs_path (rs @ qs))"
    using path_parent_abs[of "rs @ qs" q] snoc.prems(1) by simp
  have "ancestors_below m (abs_path rs) (abs_path (rs @ qs)) = Inr (map (\<lambda>k. abs_path (rs @ take k qs)) (rev [1..<Suc (length qs)]))"
    using snoc.IH[of m] snoc.prems(1) m(2) by simp
  moreover have "map (\<lambda>k. abs_path (rs @ take k (qs @ [q]))) (rev [1..<Suc (length qs)]) = map (\<lambda>k. abs_path (rs @ take k qs)) (rev [1..<Suc (length qs)])"
    by (rule map_cong) auto
  ultimately show ?case using ne par unfolding m(1) by simp
qed


lemma missing_fold:
  assumes "fold_result (missing_step f) r dirs = Inr r'"
  shows "set r' \<subseteq> set r \<union> set dirs \<and>
    (\<forall>dir\<in>set dirs. (\<exists>m. symlink_metadata dir f = Inr m \<and> md_kind m = KDirectory)
        \<or> symlink_metadata dir f = Inl NotFound \<and> path_member dir r') \<and> (\<forall>p. path_member p r \<longrightarrow> path_member p r')"
  using assms
proof (induction dirs arbitrary: r)
  case (Cons dir dirs)
  obtain r1 where r1: "missing_step f r dir = Inr r1" "fold_result (missing_step f) r1 dirs = Inr r'"
    using Cons.prems by (auto simp: bind_result_eq_Inr)
  note I = Cons.IH[OF r1(2)]
  have "(\<exists>m. symlink_metadata dir f = Inr m \<and> md_kind m = KDirectory) \<and> r1 = r \<or> symlink_metadata dir f = Inl NotFound \<and> r1 = path_insert dir r"
    using r1(1) by (cases "symlink_metadata dir f") (auto simp: missing_step_def split: if_splits)
  then show ?case
  proof
    assume "(\<exists>m. symlink_metadata dir f = Inr m \<and> md_kind m = KDirectory) \<and> r1 = r"
    then show ?thesis using I by auto
  next
    assume a: "symlink_metadata dir f = Inl NotFound \<and> r1 = path_insert dir r"
    have s: "set r1 \<subseteq> insert dir (set r)" "path_member dir r1" "\<forall>p. path_member p r \<longrightarrow> path_member p r1"
      using a by (auto simp: path_insert_def path_member_def path_eq_def list_ex_iff set_insort_key)
    have "set r' \<subseteq> set r \<union> set (dir # dirs)" using I s(1) by auto
    moreover have "symlink_metadata dir f = Inl NotFound \<and> path_member dir r'" using I s(2) a by blast
    moreover have "\<forall>p. path_member p r \<longrightarrow> path_member p r'" using I s(3) by blast
    ultimately show ?thesis using I by simp
  qed
qed auto

text \<open>The directories a plan creates, and the state of the directories above an output path.\<close>

definition parents_of :: "build_tree_config \<Rightarrow> desired_link \<Rightarrow> string list set" where
  "parents_of config d = {ns. strict_prefix (root_names config) ns \<and> strict_prefix ns (out_names d)}"

lemma parents_of_take:
  assumes "out_names d = root_names config @ qs"
  shows "parents_of config d = {root_names config @ take k qs |k. 1 \<le> k \<and> k < length qs}"
proof
  show "parents_of config d \<subseteq> {root_names config @ take k qs |k. 1 \<le> k \<and> k < length qs}"
  proof
    fix ns assume "ns \<in> parents_of config d"
    then obtain xs ys where x: "ns = root_names config @ xs" "xs \<noteq> []" "out_names d = ns @ ys" "ys \<noteq> []"
      unfolding parents_of_def by (auto elim!: strict_prefixE')
    then have "qs = xs @ ys" using assms by simp
    then show "ns \<in> {root_names config @ take k qs |k. 1 \<le> k \<and> k < length qs}"
      using x by (intro CollectI exI[of _ "length xs"]) (simp add: Suc_le_eq)
  qed
  show "{root_names config @ take k qs |k. 1 \<le> k \<and> k < length qs} \<subseteq> parents_of config d"
  proof
    fix ns assume "ns \<in> {root_names config @ take k qs |k. 1 \<le> k \<and> k < length qs}"
    then obtain k where k: "ns = root_names config @ take k qs" "1 \<le> k" "k < length qs" by blast
    have "out_names d = ns @ drop k qs" "drop k qs \<noteq> []" "take k qs \<noteq> []" using k assms by auto
    then show "ns \<in> parents_of config d" using k(1) assms by (auto simp: parents_of_def strict_prefix_def take_is_prefix)
  qed
qed

lemma directories_to_create_Inr:
  assumes "tree_ok config f" "list_all (desired_named config) ds" "directories_to_create config f ds = Inr create"
  shows "\<And>d ns. d \<in> set ds \<Longrightarrow> ns \<in> parents_of config d \<Longrightarrow>
      (\<exists>m. symlink_metadata (abs_path ns) f = Inr m \<and> md_kind m = KDirectory) \<or> symlink_metadata (abs_path ns) f = Inl NotFound \<and> path_member (abs_path ns) create"
    "\<And>p. p \<in> set create \<Longrightarrow> p = bt_root config \<or> (\<exists>d\<in>set ds. \<exists>ns\<in>parents_of config d. p = abs_path ns)"
    "\<not> path_exists (bt_root config) f \<Longrightarrow> path_member (bt_root config) create"
proof -
  let ?step = "\<lambda>result d.
       bind_result (ok_or (PathError MissingParent) (path_parent (dl_output d))) (\<lambda>parent.
       bind_result (ancestors_below (Suc (length (components parent))) (bt_root config) parent) (\<lambda>ancestors.
       fold_result (missing_step f) result (rev ancestors)))"
  note rt = root_named[OF assms(1)]
  have step: "\<exists>dirs. set dirs = abs_path ` parents_of config d \<and> fold_result (missing_step f) r dirs = Inr r'"
    if st: "?step r d = Inr r'" and dn: "desired_named config d" for r d r'
  proof -
    obtain qs where q: "out_names d = root_names config @ qs" "qs \<noteq> []" using dn unfolding desired_named_def by (auto elim!: strict_prefixE')
    have nm: "list_all name_ok (root_names config @ qs)" "dl_output d = abs_path (root_names config @ qs)" using dn q(1) by (auto simp: desired_named_def)
    have par: "path_parent (dl_output d) = Some (abs_path (root_names config @ butlast qs))"
      using path_parent_abs[of "root_names config @ butlast qs" "last qs"] nm q(2) by simp
    have nb: "list_all name_ok (root_names config @ butlast qs)" using nm(1) q(2) by (metis append_assoc append_butlast_last_id list_all_append)
    have len: "length (butlast qs) < Suc (length (components (abs_path (root_names config @ butlast qs))))" by (simp add: components_abs_path[OF nb])
    let ?dirs = "map (\<lambda>k. abs_path (root_names config @ take k (butlast qs))) [1..<Suc (length (butlast qs))]"
    have f: "fold_result (missing_step f) r ?dirs = Inr r'"
      using st ancestors_below_abs[OF nb len] par unfolding rt(1)[symmetric] by (simp add: rev_map)
    have "set ?dirs = abs_path ` parents_of config d"
    proof -
      have "set ?dirs = (\<lambda>k. abs_path (root_names config @ take k qs)) ` {k. 1 \<le> k \<and> k < length qs}"
      proof -
        have "set [1..<Suc (length (butlast qs))] = {k. 1 \<le> k \<and> k < length qs}" using q(2) by (cases "length qs") auto
        moreover have "take k (butlast qs) = take k qs" if "k < length qs" for k
          using that by (subst butlast_conv_take, subst take_take) (simp add: min_absorb1 less_eq_Suc_le)
        ultimately show ?thesis unfolding set_map by (auto intro!: image_cong)
      qed
      then show ?thesis unfolding parents_of_take[OF q(1)] by blast
    qed
    then show ?thesis using f by blast
  qed
  have all: "(\<forall>d\<in>set ds. \<forall>ns\<in>parents_of config d. (\<exists>m. symlink_metadata (abs_path ns) f = Inr m \<and> md_kind m = KDirectory)
        \<or> symlink_metadata (abs_path ns) f = Inl NotFound \<and> path_member (abs_path ns) r')
      \<and> (\<forall>p\<in>set r'. p \<in> set r \<or> (\<exists>d\<in>set ds. \<exists>ns\<in>parents_of config d. p = abs_path ns)) \<and> (\<forall>p. path_member p r \<longrightarrow> path_member p r')"
    if "fold_result ?step r ds = Inr r'" "list_all (desired_named config) ds" for r r' ds
    using that
  proof (induction ds arbitrary: r)
    case (Cons d ds)
    obtain r1 where r1: "?step r d = Inr r1" "fold_result ?step r1 ds = Inr r'"
      using Cons.prems(1) unfolding fold_result.simps bind_result_eq_Inr[of "?step r d"] by blast
    obtain dirs where dirs: "set dirs = abs_path ` parents_of config d" "fold_result (missing_step f) r dirs = Inr r1"
      using step[OF r1(1)] Cons.prems(2) by auto
    note M = missing_fold[OF dirs(2)] and I = Cons.IH[OF r1(2)]
    show ?case using M I Cons.prems(2) unfolding dirs(1) by (auto 4 4)
  qed simp
  note A = all[OF assms(3)[unfolded directories_to_create_def] assms(2)]
  show "\<And>d ns. d \<in> set ds \<Longrightarrow> ns \<in> parents_of config d \<Longrightarrow>
      (\<exists>m. symlink_metadata (abs_path ns) f = Inr m \<and> md_kind m = KDirectory) \<or> symlink_metadata (abs_path ns) f = Inl NotFound \<and> path_member (abs_path ns) create"
    using A by blast
  show "\<And>p. p \<in> set create \<Longrightarrow> p = bt_root config \<or> (\<exists>d\<in>set ds. \<exists>ns\<in>parents_of config d. p = abs_path ns)"
    using A by (auto split: if_splits)
  show "\<not> path_exists (bt_root config) f \<Longrightarrow> path_member (bt_root config) create"
    using A by (simp add: path_member_def path_eq_def)
qed


lemma plain_prefix:
  assumes "plain f ns" "prefix ms ns"
  shows "plain f ms"
proof -
  obtain zs where z: "ns = ms @ zs" using assms(2) by (auto simp: prefix_def)
  have "node_at f (take i ms) = None \<or> node_at f (take i ms) = Some FDir" if "i < length ms" for i
    using assms(1)[unfolded plain_def, rule_format, of i] that by (simp add: z)
  then show ?thesis by (simp add: plain_def)
qed

lemma desired_plain:
  assumes "tree_ok config f" "desired_named config d"
    and dirs: "\<And>ns. ns \<in> parents_of config d \<Longrightarrow>
      (\<exists>m. symlink_metadata (abs_path ns) f = Inr m \<and> md_kind m = KDirectory) \<or> symlink_metadata (abs_path ns) f = Inl NotFound \<and> Q ns"
  shows "plain f (out_names d) \<and> (\<forall>ns\<in>parents_of config d. node_at f ns = Some FDir \<or> Q ns)"
proof -
  let ?rs = "root_names config" and ?ns = "out_names d"
  obtain qs where q: "?ns = ?rs @ qs" "qs \<noteq> []" using assms(2) unfolding desired_named_def by (auto elim!: strict_prefixE')
  have nm: "list_all name_ok ?ns" using assms(2) by (simp add: desired_named_def)
  have ok: "fs_ok f" "honest f" "real_parents f ?rs" "node_at f ?rs = None \<or> node_at f ?rs = Some FDir"
    using assms(1) by (auto simp: tree_ok_def)
  have state: "node_at f ns = None \<and> Q ns \<or> node_at f ns = Some FDir" if "ns \<in> parents_of config d" "plain f ns" for ns
  proof -
    have n: "list_all name_ok ns" using that(1) nm by (auto simp: parents_of_def strict_prefix_def prefix_def)
    from dirs[OF that(1)] show ?thesis
      using symlink_metadata_absent[OF n ok(1,2)] symlink_metadata_plain_Inr[OF n that(2)] by auto
  qed
  have node: "node_at f (take i ?ns) = None \<or> node_at f (take i ?ns) = Some FDir" if "i < length ?ns" for i
    using that
  proof (induction i rule: less_induct)
    case (less i)
    show ?case
    proof (cases "i \<le> length ?rs")
      case True
      show ?thesis
      proof (cases "i = length ?rs")
        case False
        then have "i < length ?rs" using True by simp
        then show ?thesis using ok(3) by (auto simp: real_parents_def q(1))
      qed (use ok(4) q(1) in simp)
    next
      case False
      have "take i ?ns \<in> parents_of config d"
        unfolding parents_of_take[OF q(1)] using False less.prems q(1) by (intro CollectI exI[of _ "i - length ?rs"]) auto
      moreover have "plain f (take i ?ns)" using less by (auto simp: plain_def min_def)
      ultimately show ?thesis using state by blast
    qed
  qed
  then have pl: "plain f ?ns" by (simp add: plain_def)
  have "node_at f ns = Some FDir \<or> Q ns" if "ns \<in> parents_of config d" for ns
  proof -
    have "prefix ns ?ns" using that by (auto simp: parents_of_def strict_prefix_def)
    then have "plain f ns" by (rule plain_prefix[OF pl])
    then show ?thesis using state[OF that] by blast
  qed
  then show ?thesis using pl by blast
qed

lemma owned_fold:
  assumes "tree_ok config f" "fold_result (owned_step config f) os items = Inr os'"
    and walk: "\<And>p k. Inr (p, k) \<in> set items \<Longrightarrow> \<exists>ns n. p = abs_path ns \<and> list_all name_ok ns \<and> prefix (root_names config) ns \<and> node_at f ns = Some n
        \<and> md_kind (metadata_of f n) = k"
  shows "\<forall>p\<in>set os'. p \<in> set os \<or> (\<exists>ns. p = abs_path ns \<and> list_all name_ok ns \<and> prefix (root_names config) ns \<and> owned_link config f ns)"
    "\<forall>ns. list_all name_ok ns \<and> owned_link config f ns \<and> Inr (abs_path ns, KSymlink) \<in> set items \<longrightarrow> abs_path ns \<in> set os'"
    "set os \<subseteq> set os'" "list_all (\<lambda>x. \<exists>y. x = Inr y) items"
proof -
  note rt = root_named[OF assms(1)]
  have ok: "fs_ok f" and root: "node_at f (root_names config) = None \<or> node_at f (root_names config) = Some FDir" using assms(1) by (auto simp: tree_ok_def)
  have step: "(\<forall>p\<in>set os'. p \<in> set os \<or> (\<exists>ns. p = abs_path ns \<and> list_all name_ok ns \<and> prefix (root_names config) ns \<and> owned_link config f ns))
      \<and> (\<forall>ns. list_all name_ok ns \<and> owned_link config f ns \<and> x = Inr (abs_path ns, KSymlink) \<longrightarrow> abs_path ns \<in> set os') \<and> set os \<subseteq> set os' \<and> (\<exists>y. x = Inr y)"
    if st: "owned_step config f os x = Inr os'"
      and w: "\<And>p k. x = Inr (p, k) \<Longrightarrow> \<exists>ns n. p = abs_path ns \<and> list_all name_ok ns \<and> prefix (root_names config) ns \<and> node_at f ns = Some n
        \<and> md_kind (metadata_of f n) = k" for os os' x
  proof -
    obtain p k where x: "x = Inr (p, k)" using st by (cases x) (auto simp: owned_step_def)
    obtain ns n where n: "p = abs_path ns" "list_all name_ok ns" "prefix (root_names config) ns" "node_at f ns = Some n" "md_kind (metadata_of f n) = k"
      using w[OF x] by blast
    have inj: "ms = ns" if "list_all name_ok ms" "abs_path ns = abs_path ms" for ms using that n(2) path_names_abs_path by metis
    show ?thesis
    proof (cases "k = KSymlink \<and> ns \<noteq> root_names config")
      case False
      then have "os' = os" using st n rt unfolding x by (auto simp: owned_step_def path_eq_abs split: if_splits)
      moreover have "\<not> owned_link config f ns \<or> k \<noteq> KSymlink" using False root by (auto simp: owned_link_def)
      ultimately show ?thesis using x n(1,2) by (auto dest: inj)
    next
      case True
      then obtain t where t: "n = FSymlink t" using n(5) by auto
      have ne: "ns \<noteq> []" using n(4) t by auto
      have neq: "\<not> path_eq p (bt_root config)" using True n(1,2) rt path_eq_abs by metis
      have par: "path_parent p = Some (abs_path (butlast ns))" using path_parent_abs[of "butlast ns" "last ns"] n(1,2) ne by simp
      have "read_link p f = Inr t'  \<Longrightarrow> t' = t" for t'
        using read_link_plain[OF n(2) real_parents_plain[OF fs_ok_real_parents[OF ok n(4)]]] n(1,4) t by simp
      then have os': "(points_inside_blobs (abs_path (butlast ns)) t (bt_store config) = Inr True \<and> os' = os @ [p]) \<or>
          (points_inside_blobs (abs_path (butlast ns)) t (bt_store config) = Inr False \<and> os' = os)"
        using st neq True par unfolding x by (auto simp: owned_step_def bind_result_eq_Inr of_io_Inr split: if_splits)
      have "owned_link config f ns \<longleftrightarrow> points_inside_blobs (abs_path (butlast ns)) t (bt_store config) = Inr True"
        using n(4) t by (auto simp: owned_link_def)
      then show ?thesis using os' x n(1,2,3) by (auto dest: inj)
    qed
  qed
  have "(\<forall>p\<in>set os'. p \<in> set os \<or> (\<exists>ns. p = abs_path ns \<and> list_all name_ok ns \<and> prefix (root_names config) ns \<and> owned_link config f ns))
    \<and> (\<forall>ns. list_all name_ok ns \<and> owned_link config f ns \<and> Inr (abs_path ns, KSymlink) \<in> set items \<longrightarrow> abs_path ns \<in> set os')
    \<and> set os \<subseteq> set os' \<and> list_all (\<lambda>x. \<exists>y. x = Inr y) items"
    using assms(2) walk
  proof (induction items arbitrary: os)
    case (Cons x items)
    obtain o1 where o1: "owned_step config f os x = Inr o1" "fold_result (owned_step config f) o1 items = Inr os'"
      using Cons.prems(1) by (auto simp: bind_result_eq_Inr)
    have I: "(\<forall>p\<in>set os'. p \<in> set o1 \<or> (\<exists>ns. p = abs_path ns \<and> list_all name_ok ns \<and> prefix (root_names config) ns \<and> owned_link config f ns))
      \<and> (\<forall>ns. list_all name_ok ns \<and> owned_link config f ns \<and> Inr (abs_path ns, KSymlink) \<in> set items \<longrightarrow> abs_path ns \<in> set os')
      \<and> set o1 \<subseteq> set os' \<and> list_all (\<lambda>x. \<exists>y. x = Inr y) items"
      by (rule Cons.IH[OF o1(2)]) (use Cons.prems(2) in auto)
    note S = step[OF o1(1)]
    have S: "(\<forall>p\<in>set o1. p \<in> set os \<or> (\<exists>ns. p = abs_path ns \<and> list_all name_ok ns \<and> prefix (root_names config) ns \<and> owned_link config f ns))
      \<and> (\<forall>ns. list_all name_ok ns \<and> owned_link config f ns \<and> x = Inr (abs_path ns, KSymlink) \<longrightarrow> abs_path ns \<in> set o1) \<and> set os \<subseteq> set o1 \<and> (\<exists>y. x = Inr y)"
      by (rule S) (use Cons.prems(2) in auto)
    show ?case using I S by (intro conjI) (blast, auto)
  qed simp
  then show "\<forall>p\<in>set os'. p \<in> set os \<or> (\<exists>ns. p = abs_path ns \<and> list_all name_ok ns \<and> prefix (root_names config) ns \<and> owned_link config f ns)"
    "\<forall>ns. list_all name_ok ns \<and> owned_link config f ns \<and> Inr (abs_path ns, KSymlink) \<in> set items \<longrightarrow> abs_path ns \<in> set os'"
    "set os \<subseteq> set os'" "list_all (\<lambda>x. \<exists>y. x = Inr y) items" by blast+
qed


text \<open>All a plan promises about the file system it was made from.\<close>

definition planned :: "build_tree_config \<Rightarrow> fs \<Rightarrow> tree_plan \<Rightarrow> bool" where
  "planned config f plan \<longleftrightarrow>
     (\<forall>d\<in>set (tp_desired plan). desired_named config d \<and> plain f (out_names d)
        \<and> (node_at f (out_names d) = None \<or> owned_link config f (out_names d))
        \<and> (\<forall>ns\<in>parents_of config d. node_at f ns = Some FDir \<or> path_member (abs_path ns) (tp_create plan)))
     \<and> distinct (map out_names (tp_desired plan))
     \<and> (\<forall>p\<in>set (tp_create plan). \<exists>ns. p = abs_path ns \<and> list_all name_ok ns \<and> plain f ns)
     \<and> (node_at f (root_names config) = Some FDir \<or> path_member (bt_root config) (tp_create plan))
     \<and> (\<forall>p\<in>set (tp_stale plan). \<exists>ns. p = abs_path ns \<and> list_all name_ok ns \<and> tree_link config f ns
          \<and> ns \<notin> out_names ` set (tp_desired plan))
     \<and> (\<forall>p\<in>set (tp_prune plan). \<exists>ms ns. p = abs_path ms \<and> list_all name_ok ms \<and> strict_prefix (root_names config) ms
          \<and> strict_prefix ms ns \<and> tree_link config f ns)"

text \<open>Only directories between the root and a stale link are pruned.\<close>

lemma prune_candidates_abs:
  assumes "d \<in> set (prune_candidates n (abs_path rs) (Some (abs_path ns)) cs)" "list_all name_ok ns" "list_all name_ok rs" "prefix rs ns"
  shows "d \<in> set cs \<or> (\<exists>ms. d = abs_path ms \<and> prefix ms ns \<and> strict_prefix rs ms)"
  using assms
proof (induction n arbitrary: ns cs)
  case (Suc n)
  show ?case
  proof (cases "ns = rs")
    case True
    then show ?thesis using Suc.prems(1) by (simp add: path_eq_def)
  next
    case False
    then obtain ps x where ns: "ns = ps @ [x]" "prefix rs ps" using Suc.prems(4) by (cases ns rule: rev_cases) auto
    have "\<not> path_eq (abs_path ns) (abs_path rs)" using path_eq_abs[OF Suc.prems(2,3)] False by simp
    moreover have "path_parent (abs_path ns) = Some (abs_path ps)" using path_parent_abs[of ps x] Suc.prems(2) ns(1) by simp
    ultimately have "d \<in> set (prune_candidates n (abs_path rs) (Some (abs_path ps)) (path_insert (abs_path ns) cs))" using Suc.prems(1) by simp
    then have "d \<in> set (path_insert (abs_path ns) cs) \<or> (\<exists>ms. d = abs_path ms \<and> prefix ms ps \<and> strict_prefix rs ms)"
      using Suc.IH Suc.prems(2,3) ns by simp
    moreover have "strict_prefix rs ns" using Suc.prems(4) False by (auto simp: strict_prefix_def)
    ultimately show ?thesis using ns(1) by (auto simp: path_insert_def set_insort_key split: if_splits)
  qed
qed simp

lemma directories_to_prune_Inr:
  assumes "directories_to_prune config stale f = Inr dirs" "bt_root config = abs_path rs" "list_all name_ok rs" "d \<in> set dirs"
    "\<And>p. p \<in> set stale \<Longrightarrow> \<exists>ns. p = abs_path ns \<and> list_all name_ok ns \<and> strict_prefix rs ns"
  shows "\<exists>p\<in>set stale. \<exists>ms ns. p = abs_path ns \<and> list_all name_ok ns \<and> d = abs_path ms \<and> strict_prefix rs ms \<and> strict_prefix ms ns"
proof -
  let ?c = "\<lambda>cs p. prune_candidates (Suc (length (components p))) (bt_root config) (path_parent p) cs"
  have kept: "set ds' \<subseteq> set ds \<union> set xs" if "fold_result (prune_step stale f) ds xs = Inr ds'" for ds xs ds'
    using that
  proof (induction xs arbitrary: ds)
    case (Cons x xs)
    obtain es where es: "prune_step stale f ds x = Inr es" "fold_result (prune_step stale f) es xs = Inr ds'"
      using Cons.prems by (auto simp: bind_result_eq_Inr)
    have "set es \<subseteq> insert x (set ds)" using es(1) by (auto simp: prune_step_def bind_result_eq_Inr split: if_splits)
    then show ?case using Cons.IH[OF es(2)] by auto
  qed simp
  have cands: "d \<in> set cs \<or> (\<exists>p\<in>set ps. \<exists>ms ns. p = abs_path ns \<and> list_all name_ok ns \<and> d = abs_path ms \<and> strict_prefix rs ms \<and> strict_prefix ms ns)"
    if "d \<in> set (foldl ?c cs ps)" "set ps \<subseteq> set stale" for d cs ps
    using that
  proof (induction ps arbitrary: cs)
    case (Cons p ps)
    obtain ns where ns: "p = abs_path ns" "list_all name_ok ns" "strict_prefix rs ns" using Cons.prems(2) assms(5)[of p] by auto
    obtain qs x where q: "ns = qs @ [x]" "prefix rs qs" using ns(3) by (cases ns rule: rev_cases) (auto simp: strict_prefix_def)
    have par: "path_parent p = Some (abs_path qs)" using path_parent_abs[of qs x] ns q by simp
    have "d \<in> set cs \<or> (\<exists>ms. d = abs_path ms \<and> prefix ms qs \<and> strict_prefix rs ms)" if "d \<in> set (?c cs p)"
      by (rule prune_candidates_abs[OF that[unfolded par assms(2)] _ assms(3) q(2)]) (use ns q in simp)
    moreover have "strict_prefix ms ns" if "prefix ms qs" for ms using that q(1) by (auto simp: strict_prefix_def prefix_def)
    ultimately show ?case using Cons.IH[of "?c cs p"] Cons.prems ns(1,2) by (auto 0 4)
  qed simp
  have "d \<in> set (foldl ?c [] stale)" using kept[of "[]" "rev (foldl ?c [] stale)" dirs] assms(1,4) by (auto simp: directories_to_prune_def Let_def)
  then show ?thesis using cands[of d "[]" stale] by auto
qed

lemma path_exists_dir:
  assumes "tree_ok config f" "path_exists (bt_root config) f"
  shows "node_at f (root_names config) = Some FDir"
proof -
  note rt = root_named[OF assms(1)]
  have "real_parents f (root_names config)" "node_at f (root_names config) = None \<or> node_at f (root_names config) = Some FDir"
    using assms(1) by (auto simp: tree_ok_def)
  then show ?thesis using assms(2) locate_real[OF rt(2), of f True] rt(1) by (auto simp: path_exists_def)
qed

lemma plan_tree_parts:
  assumes "plan_tree env config db f = Inr plan"
  obtains entries ds owned n report prune where "live_materialization_entries db = Inr entries"
    "fold_result (plan_entry env config f) [] entries = Inr ds" "tp_desired plan = sort_key (\<lambda>d. path_key (dl_output d)) ds"
    "collect_owned_symlinks env config f = Inr owned"
    "fold_result (check_desired env config f) (0, empty_report (bt_dry config) (of_nat (length (tp_desired plan)))) (tp_desired plan) = Inr (n, report)"
    "tp_stale plan = filter (\<lambda>p. \<not> path_member p (map dl_output (tp_desired plan))) owned"
    "directories_to_create config f (tp_desired plan) = Inr (tp_create plan)"
    "directories_to_prune config (tp_stale plan) f = Inr (tp_prune plan)"
    "tp_report plan = report\<lparr>stale_links_removed := of_nat (length (tp_stale plan)), directories_created := of_nat (length (tp_create plan)),
                                    directories_pruned := of_nat (length (tp_prune plan))\<rparr>"
  using assms by (auto simp: plan_tree_def bind_result_eq_Inr Let_def open_for_materialization_def split: if_splits)


lemma collect_owned_Inr:
  assumes "tree_ok config f" "walk_sound env config f" "collect_owned_symlinks env config f = Inr owned"
  shows "p \<in> set owned \<Longrightarrow> \<exists>ns. p = abs_path ns \<and> list_all name_ok ns \<and> prefix (root_names config) ns \<and> owned_link config f ns"
    "walk_complete env config f \<Longrightarrow> prefix (root_names config) ns \<Longrightarrow> owned_link config f ns \<Longrightarrow> abs_path ns \<in> set owned"
proof -
  note rt = root_named[OF assms(1)] and F = owned_fold[OF assms(1), of "[]" "walkdir env (bt_root config) f" owned]
  have ok: "fs_ok f" using assms(1) by (simp add: tree_ok_def)
  show "\<exists>ns. p = abs_path ns \<and> list_all name_ok ns \<and> prefix (root_names config) ns \<and> owned_link config f ns" if "p \<in> set owned"
    using that assms(2,3) F(1) by (auto simp: collect_owned_symlinks_def walk_sound_def split: if_splits)
  show "abs_path ns \<in> set owned" if w: "walk_complete env config f" and pre: "prefix (root_names config) ns" and o: "owned_link config f ns"
  proof -
    obtain t where t: "node_at f ns = Some (FSymlink t)" using o by (auto simp: owned_link_def)
    have named: "list_all name_ok ns" using ok t by (auto simp: fs_ok_def node_at_def list_all_iff dest!: map_of_SomeD split: if_splits)
    have "ns \<noteq> root_names config" using assms(1) t by (auto simp: tree_ok_def)
    then obtain zs where z: "ns = root_names config @ zs" "zs \<noteq> []" using pre by (auto simp: prefix_def)
    have "take (length (root_names config)) ns = root_names config" "length (root_names config) < length ns" using z by auto
    then have "node_at f (root_names config) = Some FDir" using fs_ok_real_parents[OF ok t] unfolding real_parents_def by metis
    moreover have "locate True (bt_root config) f = Inr (root_names config)" unfolding rt(1)
      by (rule locate_real[OF rt(2)]) (use assms(1) calculation in \<open>auto simp: tree_ok_def\<close>)
    ultimately have ex: "path_exists (bt_root config) f" by (simp add: path_exists_def)
    have fo: "fold_result (owned_step config f) [] (walkdir env (bt_root config) f) = Inr owned"
      using assms(3) ex by (simp add: collect_owned_symlinks_def)
    have ws: "\<And>p k. Inr (p, k) \<in> set (walkdir env (bt_root config) f) \<Longrightarrow> \<exists>ns n. p = abs_path ns \<and> list_all name_ok ns \<and> prefix (root_names config) ns
        \<and> node_at f ns = Some n \<and> md_kind (metadata_of f n) = k" using assms(2) unfolding walk_sound_def by blast
    have "Inr (abs_path ns, md_kind (metadata_of f (FSymlink t))) \<in> set (walkdir env (bt_root config) f)"
      using w F(4)[OF fo ws] pre t unfolding walk_complete_def by blast
    moreover have "md_kind (metadata_of f (FSymlink t)) = KSymlink" by simp
    ultimately show ?thesis using F(2)[OF fo ws] named o by metis
  qed
qed

lemma plan_tree_planned:
  assumes "tree_ok config f" "walk_sound env config f" "plan_tree env config db f = Inr plan"
  shows "planned config f plan"
proof -
  obtain entries ds owned n report prune where P: "live_materialization_entries db = Inr entries"
    "fold_result (plan_entry env config f) [] entries = Inr ds" "tp_desired plan = sort_key (\<lambda>d. path_key (dl_output d)) ds"
    "collect_owned_symlinks env config f = Inr owned"
    "fold_result (check_desired env config f) (0, empty_report (bt_dry config) (of_nat (length (tp_desired plan)))) (tp_desired plan) = Inr (n, report)"
    "tp_stale plan = filter (\<lambda>p. \<not> path_member p (map dl_output (tp_desired plan))) owned"
    "directories_to_create config f (tp_desired plan) = Inr (tp_create plan)"
    "directories_to_prune config (tp_stale plan) f = Inr (tp_prune plan)"
    using plan_tree_parts[OF assms(3)] by metis
  have E: "list_all (desired_named config) ds" "distinct (map out_names ds)"
    using plan_entries_Inr[OF assms(1) live_entries_ok[OF P(1)] P(2)] by auto
  have named: "list_all (desired_named config) (tp_desired plan)" using E(1) P(3) by (simp add: list_all_iff)
  note C = directories_to_create_Inr[OF assms(1) named P(7)]
  have D: "plain f (out_names d) \<and> (\<forall>ns\<in>parents_of config d. node_at f ns = Some FDir \<or> path_member (abs_path ns) (tp_create plan))"
    if "d \<in> set (tp_desired plan)" for d
    by (rule desired_plain[OF assms(1)]) (use named that C(1)[OF that] in \<open>auto simp: list_all_iff\<close>)
  have rt: "bt_root config = abs_path (root_names config)" "list_all name_ok (root_names config)" "plain f (root_names config)"
    using root_named[OF assms(1)] assms(1) by (auto simp: tree_ok_def intro: real_parents_plain)
  have create: "\<exists>ns. p = abs_path ns \<and> list_all name_ok ns \<and> plain f ns" if "p \<in> set (tp_create plan)" for p
    using C(2)[OF that]
  proof
    assume "\<exists>d\<in>set (tp_desired plan). \<exists>ns\<in>parents_of config d. p = abs_path ns"
    then obtain d ns where d: "d \<in> set (tp_desired plan)" "ns \<in> parents_of config d" "p = abs_path ns" by blast
    then obtain zs where "out_names d = ns @ zs" by (auto simp: parents_of_def strict_prefix_def prefix_def)
    then have "list_all name_ok ns" using named d(1) by (auto simp: list_all_iff desired_named_def)
    moreover have "plain f ns" by (rule plain_prefix[of f "out_names d"]) (use D[OF d(1)] d(2) in \<open>auto simp: parents_of_def strict_prefix_def\<close>)
    ultimately show ?thesis using d(3) by blast
  qed (use rt in blast)
  have stale: "\<exists>ns. p = abs_path ns \<and> list_all name_ok ns \<and> tree_link config f ns \<and> ns \<notin> out_names ` set (tp_desired plan)"
    if "p \<in> set (tp_stale plan)" for p
  proof -
    have p: "p \<in> set owned" "\<not> path_member p (map dl_output (tp_desired plan))" using that P(6) by auto
    obtain ns where ns: "p = abs_path ns" "list_all name_ok ns" "prefix (root_names config) ns" "owned_link config f ns"
      using collect_owned_Inr(1)[OF assms(1,2) P(4) p(1)] by blast
    then have "tree_link config f ns" using assms(1) by (auto simp: tree_link_def strict_prefix_def tree_ok_def owned_link_def)
    moreover
    have "ns \<noteq> out_names d" if "d \<in> set (tp_desired plan)" for d
      using p(2) that named ns(1) by (auto simp: path_member_def list_ex_iff path_eq_def list_all_iff desired_named_def)
    ultimately show ?thesis using ns by blast
  qed
  have prune: "\<exists>ms ns. p = abs_path ms \<and> list_all name_ok ms \<and> strict_prefix (root_names config) ms \<and> strict_prefix ms ns \<and> tree_link config f ns"
    if p: "p \<in> set (tp_prune plan)" for p
  proof -
    obtain q ms ns where q: "q \<in> set (tp_stale plan)" "q = abs_path ns" "list_all name_ok ns" "p = abs_path ms"
      "strict_prefix (root_names config) ms" "strict_prefix ms ns"
      using directories_to_prune_Inr[OF P(8) rt(1,2) p] stale by (metis tree_link_def)
    obtain ks where ks: "q = abs_path ks" "list_all name_ok ks" "tree_link config f ks" using stale[OF q(1)] by blast
    have "ks = ns" using path_eq_abs[OF ks(2) q(3)] ks(1) q(2) by (simp add: path_eq_def)
    moreover have "list_all name_ok ms" using q(3,6) by (auto simp: strict_prefix_def prefix_def)
    ultimately show ?thesis using q ks(3) by blast
  qed
  have root: "node_at f (root_names config) = Some FDir \<or> path_member (bt_root config) (tp_create plan)"
    using C(3) path_exists_dir[OF assms(1)] by blast
  have absent: "node_at f (out_names d) = None \<or> owned_link config f (out_names d)" if "d \<in> set (tp_desired plan)" for d
    by (rule desired_owned_or_absent[OF assms(1) _ _ P(5) that]) (use named that D in \<open>auto simp: list_all_iff\<close>)
  have "distinct (map out_names (tp_desired plan))" using E(2) P(3) by (simp add: distinct_map)
  then show ?thesis unfolding planned_def using named D create stale root absent prune by (simp add: list_all_iff)
qed



section \<open>Applying a plan\<close>

lemma each_step_inv:
  assumes "I f" "\<And>x g. x \<in> set xs \<Longrightarrow> I g \<Longrightarrow> I (fst (step x g))"
  shows "I (fst (each_step failed step i xs f))"
  using assms
proof (induction xs arbitrary: i f)
  case (Cons x xs)
  obtain g r where g: "step x f = (g, r)" by fastforce
  have "I g" using Cons.prems(2)[of x f] Cons.prems(1) g by simp
  then have "I (fst (each_step failed step (i + 1) xs g))" using Cons by auto
  then show ?case using Cons.prems(1) \<open>I g\<close> g by (auto split: sum.splits)
qed simp

lemma each_step_done:
  assumes "each_step failed step i xs f = (f', Inr u)" "I f"
    and "\<And>x g g'. x \<in> set xs \<Longrightarrow> I g \<Longrightarrow> step x g = (g', Inr ()) \<Longrightarrow> I g' \<and> Q x g'"
    and "\<And>x y g g'. x \<in> set xs \<Longrightarrow> y \<in> set xs \<Longrightarrow> I g \<Longrightarrow> Q x g \<Longrightarrow> step y g = (g', Inr ()) \<Longrightarrow> Q x g'"
  shows "I f' \<and> (\<forall>x\<in>set xs. Q x f')"
proof -
  have "I f' \<and> (\<forall>x\<in>set zs \<union> set ys. Q x f')"
    if "each_step failed step i ys f = (f', Inr u)" "I f" "\<forall>x\<in>set zs. Q x f" "set zs \<union> set ys \<subseteq> set xs" for ys zs i f
    using that
  proof (induction ys arbitrary: i f zs)
    case (Cons y ys)
    obtain g where g: "step y f = (g, Inr ())" "each_step failed step (i + 1) ys g = (f', Inr u)"
      using Cons.prems(1) by (auto split: if_splits prod.splits sum.splits)
    have s: "y \<in> set xs" "set zs \<subseteq> set xs" "set ys \<subseteq> set xs" using Cons.prems(4) by auto
    have "I g" "Q y g" using assms(3)[OF s(1) Cons.prems(2) g(1)] by auto
    moreover have "\<forall>x\<in>set zs. Q x g" using assms(4)[OF _ s(1) Cons.prems(2) _ g(1)] Cons.prems(3) s(2) by blast
    ultimately show ?case using Cons.IH[OF g(2), of "y # zs"] s by auto
  qed simp
  from this[OF assms(1,2), of "[]"] show ?thesis by simp
qed

subsection \<open>Directories\<close>

definition grown :: "fs \<Rightarrow> fs \<Rightarrow> bool" where
  "grown f g \<longleftrightarrow> fs_ok g \<and> inodes g = inodes f
     \<and> (\<forall>ns. node_at g ns = node_at f ns \<or> node_at f ns = None \<and> node_at g ns = Some FDir)"

lemma create_step_grown:
  assumes "grown f g" "list_all name_ok ns" "plain f ns" "create_step (abs_path ns) g = (g', r)"
  shows "grown f g' \<and> (r = Inr () \<longrightarrow> node_at g' ns = Some FDir)"
proof (cases "create_dir (abs_path ns) g")
  case (Inr h)
  have "plain g ns" using assms(1,3) unfolding plain_def grown_def by metis
  note c = create_dir_plain[OF assms(2) this Inr]
  have "ns \<noteq> []" using c(2) by auto
  moreover have "fs_ok h" using fs_ok_set_node[of g ns FDir] assms(1,2) c \<open>ns \<noteq> []\<close> by (simp add: grown_def)
  moreover have "node_at f ns = None" using assms(1) c(2) unfolding grown_def by (metis option.distinct(1))
  ultimately have "grown f h" using assms(1) c by (auto simp: grown_def)
  then show ?thesis using assms(4) Inr c(1) \<open>ns \<noteq> []\<close> by (auto simp: create_step_def)
qed (use assms in \<open>auto simp: create_step_def\<close>)

lemma create_phase:
  assumes "planned config f plan" "fs_ok f"
  shows "grown f (fst (each_step failed create_step i (tp_create plan) f))"
    "each_step failed create_step i (tp_create plan) f = (g, Inr ()) \<Longrightarrow> list_all name_ok ns \<Longrightarrow> path_member (abs_path ns) (tp_create plan)
      \<Longrightarrow> node_at g ns = Some FDir"
proof -
  have init: "grown f f" using assms(2) by (simp add: grown_def)
  have named: "\<exists>ns. p = abs_path ns \<and> list_all name_ok ns \<and> plain f ns" if "p \<in> set (tp_create plan)" for p
    using assms(1) that by (simp add: planned_def)
  have step: "grown f g' \<and> (r = Inr () \<longrightarrow> node_at g' (path_names p) = Some FDir)"
    if x: "p \<in> set (tp_create plan)" "grown f g" "create_step p g = (g', r)" for p g g' r
  proof -
    obtain ns where ns: "p = abs_path ns" "list_all name_ok ns" "plain f ns" using named[OF x(1)] by blast
    show ?thesis using create_step_grown[OF x(2) ns(2,3)] x(3) ns(1,2) by simp
  qed
  show "grown f (fst (each_step failed create_step i (tp_create plan) f))"
    by (rule each_step_inv[where I = "grown f", OF init]) (metis step prod.collapse)
  show "node_at g ns = Some FDir" if run: "each_step failed create_step i (tp_create plan) f = (g, Inr ())" and
    nm: "list_all name_ok ns" and mem: "path_member (abs_path ns) (tp_create plan)"
  proof -
    have keep: "node_at g' ms = Some FDir" if x: "create_step q h = (g', Inr ())" "q \<in> set (tp_create plan)" "grown f h" "node_at h ms = Some FDir" for q h g' ms
    proof -
      obtain ks where ks: "q = abs_path ks" "list_all name_ok ks" "plain f ks" using named[OF x(2)] by blast
      have pl: "plain h ks" using x(3) ks(3) unfolding plain_def grown_def by metis
      obtain h' where h': "create_dir q h = Inr h'" "g' = h'" using x(1) by (auto simp: create_step_def split: sum.splits)
      have "ks \<noteq> []" using create_dir_plain[OF ks(2) pl] h'(1) ks(1) by auto
      then show ?thesis using create_dir_plain[OF ks(2) pl] h' ks(1) x(4) by auto
    qed
    have "\<forall>p\<in>set (tp_create plan). node_at g (path_names p) = Some FDir"
      using each_step_done[OF run, of "grown f" "\<lambda>p g. node_at g (path_names p) = Some FDir"] init step keep by blast
    moreover obtain p where p: "p \<in> set (tp_create plan)" "path_eq (abs_path ns) p" using mem by (auto simp: path_member_def list_ex_iff)
    moreover obtain ms where "p = abs_path ms" "list_all name_ok ms" using named[OF p(1)] by blast
    ultimately show ?thesis using path_eq_abs[OF nm] by fastforce
  qed
qed


subsection \<open>Links\<close>

text \<open>What \<open>apply_desired_link\<close> does to the names: at most the output and a fresh temporary link.\<close>

definition links_only :: "fs \<Rightarrow> string list \<Rightarrow> path \<Rightarrow> fs \<Rightarrow> bool" where
  "links_only g out target g' \<longleftrightarrow> fs_ok g' \<and> inodes g' = inodes g
     \<and> (node_at g' out = node_at g out \<or> node_at g out \<noteq> Some FDir \<and> (\<forall>i. node_at g out \<noteq> Some (FFile i)) \<and> node_at g out \<noteq> Some FOther
          \<and> node_at g' out = Some (FSymlink target))
     \<and> (\<forall>ms. ms \<noteq> out \<longrightarrow> node_at g' ms = node_at g ms \<or> node_at g ms = None \<and> (\<exists>t. node_at g' ms = Some (FSymlink t)))"

lemma temp_name_ok:
  assumes "list_all name_ok ns" "ns \<noteq> []" "CHR ''/'' \<notin> set (uuid env (abs_path ns))"
  shows "name_ok (temp_name env (abs_path ns))"
    "with_file_name (abs_path ns) (temp_name env (abs_path ns)) = abs_path (butlast ns @ [temp_name env (abs_path ns)])"
proof -
  have f: "file_name (abs_path ns) = Some (last ns)" using assms(1,2) by (simp add: file_name_def components_abs_path last_map)
  have "CHR ''/'' \<notin> set (last ns)" using assms(1,2) by (auto simp: list_all_iff name_ok_def)
  then show ok: "name_ok (temp_name env (abs_path ns))" using assms(3) by (simp add: temp_name_def name_ok_def f)
  have "path_parent (abs_path ns) = Some (abs_path (butlast ns))" using path_parent_abs[of "butlast ns" "last ns"] assms(1,2) by simp
  moreover have "list_all name_ok (butlast ns @ [temp_name env (abs_path ns)])" using ok assms(1) by (auto simp: list_all_iff dest: in_set_butlastD)
  ultimately show "with_file_name (abs_path ns) (temp_name env (abs_path ns)) = abs_path (butlast ns @ [temp_name env (abs_path ns)])"
    using path_join_abs_join[of "butlast ns" "[temp_name env (abs_path ns)]"] by (simp add: with_file_name_def)
qed

lemma real_parents_butlast:
  assumes "real_parents g ns" "ns \<noteq> []"
  shows "real_parents g (butlast ns @ [x])" "node_at g (butlast ns) = Some FDir"
proof -
  show b: "node_at g (butlast ns) = Some FDir" using assms by (simp add: real_parents_def butlast_conv_take)
  have "take i ns = take i (butlast ns)" if "i < length ns" for i using that by (simp add: butlast_conv_take min_def)
  then show "real_parents g (butlast ns @ [x])" using assms b by (auto simp: real_parents_def less_Suc_eq)
qed

definition link_done :: "fs \<Rightarrow> desired_link \<Rightarrow> fs \<Rightarrow> bool" where
  "link_done g d g' \<longleftrightarrow> (\<forall>ms. ms \<noteq> out_names d \<longrightarrow> node_at g' ms = node_at g ms)
     \<and> (\<exists>t. node_at g' (out_names d) = Some (FSymlink t) \<and> path_eq t (dl_target d))"

lemma replace_link_spec:
  assumes "fs_ok g" "list_all name_ok tmp" "plain g tmp" "list_all name_ok (out_names d)" "plain g (out_names d)"
    "dl_output d = abs_path (out_names d)" "node_at g (out_names d) = Some (FSymlink t)" "node_at g (butlast (out_names d)) = Some FDir"
    "replace_link (abs_path tmp) d g = (g', r)"
  shows "links_only g (out_names d) (dl_target d) g' \<and> (r = Inr () \<longrightarrow> link_done g d g')"
proof (cases "symlink (dl_target d) (abs_path tmp) g")
  case (Inr g1)
  let ?ns = "out_names d" let ?l = "FSymlink (dl_target d)"
  note s = symlink_plain[OF assms(2,3) Inr]
  have ne: "tmp \<noteq> ?ns" "tmp \<noteq> []" "?ns \<noteq> []" using s(2) assms(7) by auto
  have ok1: "fs_ok g1" using fs_ok_set_node[OF assms(1) ne(2) assms(2) s(3)] s(1,2) by simp
  have pl1: "plain g1 tmp" "plain g1 ?ns"
  proof -
    have "take i tmp \<noteq> tmp" if "i < length tmp" for i using that by (metis length_take min.absorb4 nat_less_le)
    then show "plain g1 tmp" using assms(3) s(1) ne(2) by (auto simp: plain_def)
    have "take i ?ns \<noteq> tmp" if "i < length ?ns" for i
    proof
      assume "take i ?ns = tmp"
      moreover have "real_parents g ?ns" by (rule fs_ok_real_parents[OF assms(1,7)])
      ultimately show False using s(2) that unfolding real_parents_def by (metis option.distinct(1))
    qed
    then show "plain g1 ?ns" using assms(5) s(1) ne(2) by (auto simp: plain_def)
  qed
  have n1: "node_at g1 ?ns = Some (FSymlink t)" "node_at g1 tmp = Some ?l" "inodes g1 = inodes g" using s(1) ne assms(7) by auto
  show ?thesis
  proof (cases "rename (abs_path tmp) (dl_output d) g1")
    case (Inr g2)
    obtain n where n: "node_at g1 tmp = Some n" "g2 = set_node ?ns n (clear_node tmp g1)" "node_at g1 (butlast ?ns) = Some FDir"
      using rename_plain[OF assms(2) pl1(1) assms(4) pl1(2) ne(1)] Inr unfolding assms(6) by blast
    have g': "g' = set_node ?ns ?l (clear_node tmp g1)" "r = Inr ()"
      using assms(9) \<open>symlink _ _ _ = _\<close> Inr n n1(2) by (auto simp: replace_link_def)
    have "fs_ok (clear_node tmp g1)" using fs_ok_clear_node[OF ok1 ne(2)] n1(2) by simp
    moreover have "node_at (clear_node tmp g1) (butlast ?ns) = Some FDir" using n(3) n1(2) ne(2) by auto
    ultimately have "fs_ok g'" using fs_ok_set_node[OF _ ne(3) assms(4), of "clear_node tmp g1" ?l] n1(1) ne g'(1) by simp
    then show ?thesis using g' s(1,2) ne assms(7) by (auto simp: links_only_def link_done_def path_eq_def)
  next
    case (Inl e)
    have r: "r \<noteq> Inr ()" using assms(9) \<open>symlink _ _ _ = _\<close> Inl by (auto simp: replace_link_def split: sum.splits)
    show ?thesis
    proof (cases "remove_file (abs_path tmp) g1")
      case Inl2: (Inl e')
      then have "g' = g1" using assms(9) \<open>symlink _ _ _ = _\<close> Inl by (simp add: replace_link_def)
      then show ?thesis using r ok1 s(1,2) ne by (auto simp: links_only_def)
    next
      case (Inr g2)
      then have g': "g' = clear_node tmp g1"
        using assms(9) \<open>symlink _ _ _ = _\<close> Inl remove_file_plain[OF assms(2) pl1(1)] by (simp add: replace_link_def)
      then have "fs_ok g'" using fs_ok_clear_node[OF ok1 ne(2)] n1(2) by simp
      then show ?thesis using r g' s(1,2) ne by (auto simp: links_only_def)
    qed
  qed
qed (use assms in \<open>auto simp: replace_link_def links_only_def\<close>)

lemma apply_link_spec:
  assumes "desired_named config d" "real_parents g (out_names d)" "fs_ok g" "\<forall>p. CHR ''/'' \<notin> set (uuid env p)"
    "apply_desired_link env d g = (g', r)"
  shows "links_only g (out_names d) (dl_target d) g' \<and> (r = Inr () \<longrightarrow> link_done g d g')"
proof -
  let ?ns = "out_names d" let ?tmp = "butlast ?ns @ [temp_name env (dl_output d)]"
  have n: "list_all name_ok ?ns" "dl_output d = abs_path ?ns" "?ns \<noteq> []" using assms(1) by (auto simp: desired_named_def)
  have pl: "plain g ?ns" "plain g ?tmp" using real_parents_butlast[OF assms(2) n(3)] assms(2) real_parents_plain by blast+
  have dir: "node_at g (butlast ?ns) = Some FDir" by (rule real_parents_butlast(2)[OF assms(2) n(3)])
  have tmp: "list_all name_ok ?tmp" "with_file_name (dl_output d) (temp_name env (dl_output d)) = abs_path ?tmp"
    using temp_name_ok[OF n(1,3)] n(1,2) assms(4) by (auto simp: list_all_iff dest: in_set_butlastD)
  have same: "links_only g ?ns (dl_target d) g" using assms(3) by (simp add: links_only_def)
  have stop: ?thesis if "g' = g" "r \<noteq> Inr ()" using that same by simp
  show ?thesis
  proof (cases "symlink_metadata (dl_output d) g")
    case (Inl e)
    show ?thesis
    proof (cases "e = NotFound \<and> (\<exists>g1. symlink (dl_target d) (dl_output d) g = Inr g1)")
      case True
      then obtain g1 where g1: "symlink (dl_target d) (dl_output d) g = Inr g1" by blast
      then have "g' = g1" "r = Inr ()" using assms(5) Inl True by (auto simp: apply_desired_link_def)
      moreover note s = symlink_plain[OF n(1) pl(1) g1[unfolded n(2)]]
      moreover have "fs_ok g1" using fs_ok_set_node[OF assms(3) n(3,1) dir] s by simp
      ultimately show ?thesis using n(3) by (auto simp: links_only_def link_done_def path_eq_def)
    next
      case False
      then have "g' = g" "r \<noteq> Inr ()" using assms(5) Inl by (auto simp: apply_desired_link_def split: sum.splits if_splits)
      then show ?thesis by (rule stop)
    qed
  next
    case (Inr m)
    show ?thesis
    proof (cases "md_kind m = KSymlink")
      case True
      then obtain t where t: "node_at g ?ns = Some (FSymlink t)" using symlink_metadata_plain_Inr[OF n(1) pl(1)] Inr n(2) by auto
      show ?thesis
      proof (cases "read_link (dl_output d) g")
        case Inl2: (Inl e)
        have "g' = g" "r \<noteq> Inr ()" using assms(5) Inr True Inl2 by (auto simp: apply_desired_link_def)
        then show ?thesis by (rule stop)
      next
        case Inr2: (Inr t')
        have "t' = t" using read_link_plain[OF n(1) pl(1) t] n(2) Inr2 by simp
        then have run: "(if path_eq t (dl_target d) then (g, Inr ()) else replace_link (abs_path ?tmp) d g) = (g', r)"
          using assms(5) Inr True Inr2 unfolding tmp(2)[symmetric] by (simp add: apply_desired_link_def)
        show ?thesis
        proof (cases "path_eq t (dl_target d)")
          case True
          then show ?thesis using run same t by (auto simp: link_done_def)
        next
          case False
          then show ?thesis using run replace_link_spec[OF assms(3) tmp(1) pl(2) n(1) pl(1) n(2) t dir] by simp
        qed
      qed
    next
      case False
      then have "g' = g" "r \<noteq> Inr ()" using assms(5) Inr by (auto simp: apply_desired_link_def)
      then show ?thesis by (rule stop)
    qed
  qed
qed


text \<open>What holds while links are made and stale links are removed: nothing foreign has changed.\<close>

definition untouched :: "build_tree_config \<Rightarrow> fs \<Rightarrow> fs \<Rightarrow> bool" where
  "untouched config f g \<longleftrightarrow> fs_ok g \<and> inodes g = inodes f
     \<and> (\<forall>ns. node_at f ns = Some FDir \<longrightarrow> node_at g ns = Some FDir)
     \<and> (\<forall>ns n. node_at f ns = Some n \<and> n \<noteq> FDir \<and> \<not> tree_link config f ns \<longrightarrow> node_at g ns = Some n)"

definition linking :: "build_tree_config \<Rightarrow> fs \<Rightarrow> tree_plan \<Rightarrow> fs \<Rightarrow> bool" where
  "linking config f plan g \<longleftrightarrow> untouched config f g \<and> (\<forall>d\<in>set (tp_desired plan). real_parents g (out_names d))"

lemma links_only_linking:
  assumes "planned config f plan" "d \<in> set (tp_desired plan)" "linking config f plan g" "links_only g (out_names d) t g'"
  shows "linking config f plan g'"
proof -
  have dirs: "node_at g' ns = Some FDir" if "node_at g ns = Some FDir" for ns
    using assms(4) that unfolding links_only_def by (metis option.distinct(1))
  have "node_at f (out_names d) = None \<or> tree_link config f (out_names d)"
    using assms(1,2) by (auto simp: planned_def tree_link_def desired_named_def)
  then have "node_at g' ns = Some n" if "node_at f ns = Some n" "n \<noteq> FDir" "\<not> tree_link config f ns" for ns n
    using assms(3,4) that unfolding links_only_def linking_def untouched_def by (metis option.distinct(1))
  then show ?thesis using assms(3,4) dirs by (simp add: linking_def untouched_def links_only_def real_parents_def)
qed

lemma link_phase:
  assumes "planned config f plan" "linking config f plan g0" "\<forall>p. CHR ''/'' \<notin> set (uuid env p)"
  shows "linking config f plan (fst (each_step failed (apply_desired_link env) i (tp_desired plan) g0))"
    "each_step failed (apply_desired_link env) i (tp_desired plan) g0 = (g, Inr ()) \<Longrightarrow>
       (\<forall>ms. ms \<notin> out_names ` set (tp_desired plan) \<longrightarrow> node_at g ms = node_at g0 ms)
       \<and> (\<forall>d\<in>set (tp_desired plan). \<exists>t. node_at g (out_names d) = Some (FSymlink t) \<and> path_eq t (dl_target d))"
proof -
  have spec: "links_only g (out_names d) (dl_target d) g' \<and> (r = Inr () \<longrightarrow> link_done g d g')"
    if x: "d \<in> set (tp_desired plan)" "linking config f plan g" "apply_desired_link env d g = (g', r)" for d g g' r
    by (rule apply_link_spec[of config]) (use x assms(1,3) in \<open>auto simp: planned_def linking_def untouched_def\<close>)
  have step: "linking config f plan g'"
    if x: "d \<in> set (tp_desired plan)" "linking config f plan g" "apply_desired_link env d g = (g', r)" for d g g' r
    using links_only_linking[OF assms(1) x(1,2)] spec[OF x] by blast
  show "linking config f plan (fst (each_step failed (apply_desired_link env) i (tp_desired plan) g0))"
    by (rule each_step_inv[where I = "linking config f plan", OF assms(2)]) (metis step prod.collapse)
  assume run: "each_step failed (apply_desired_link env) i (tp_desired plan) g0 = (g, Inr ())"
  let ?I = "\<lambda>g. linking config f plan g \<and> (\<forall>ms. ms \<notin> out_names ` set (tp_desired plan) \<longrightarrow> node_at g ms = node_at g0 ms)"
  let ?Q = "\<lambda>d g. \<exists>t. node_at g (out_names d) = Some (FSymlink t) \<and> path_eq t (dl_target d)"
  have "?I g \<and> (\<forall>d\<in>set (tp_desired plan). ?Q d g)"
  proof (rule each_step_done[OF run])
    show "?I g0" using assms(2) by simp
  next
    fix d g g' assume d: "d \<in> set (tp_desired plan)" "?I g" "apply_desired_link env d g = (g', Inr ())"
    then have "link_done g d g'" "linking config f plan g'" using spec[OF d(1) _ d(3)] step[OF d(1) _ d(3)] by auto
    then show "?I g' \<and> ?Q d g'" using d(1,2) unfolding link_done_def by auto
  next
    fix d e g g' assume d: "d \<in> set (tp_desired plan)" "e \<in> set (tp_desired plan)" "?I g" "?Q d g" "apply_desired_link env e g = (g', Inr ())"
    have "link_done g e g'" using spec[OF d(2) _ d(5)] d(3) by auto
    moreover have "out_names d = out_names e \<longrightarrow> d = e" using assms(1) d(1,2) by (auto simp: planned_def distinct_map inj_on_def)
    ultimately show "?Q d g'" using d(4) unfolding link_done_def by metis
  qed
  then show "(\<forall>ms. ms \<notin> out_names ` set (tp_desired plan) \<longrightarrow> node_at g ms = node_at g0 ms)
       \<and> (\<forall>d\<in>set (tp_desired plan). ?Q d g)" by blast
qed

subsection \<open>Stale links and empty directories\<close>

lemma unlink_step_spec:
  assumes "fs_ok f" "untouched config f g" "tree_link config f ns" "list_all name_ok ns" "unlink_step (abs_path ns) g = (g', r)"
  shows "untouched config f g'" "r = Inr () \<Longrightarrow> g' = clear_node ns g \<and> ns \<noteq> []" "r \<noteq> Inr () \<Longrightarrow> g' = g"
proof -
  obtain t where t: "node_at f ns = Some (FSymlink t)" using assms(3) by (auto simp: tree_link_def owned_link_def)
  have ne: "ns \<noteq> []" using t by auto
  have "real_parents g ns" using fs_ok_real_parents[OF assms(1) t] assms(2) by (simp add: real_parents_def untouched_def)
  then have c: "h = clear_node ns g \<and> node_at g ns \<noteq> Some FDir" if "remove_file (abs_path ns) g = Inr h" for h
    using remove_file_Inr[OF assms(4) _ that] by blast
  show g': "r = Inr () \<Longrightarrow> g' = clear_node ns g \<and> ns \<noteq> []" "r \<noteq> Inr () \<Longrightarrow> g' = g"
    using assms(5) c ne by (auto simp: unlink_step_def split: sum.splits)
  have "untouched config f (clear_node ns g)" if "node_at g ns \<noteq> Some FDir"
    using assms(2,3) t ne fs_ok_clear_node[of g ns] that by (auto simp: untouched_def)
  then show "untouched config f g'" using assms(2,5) c by (auto simp: unlink_step_def split: sum.splits)
qed

lemma stale_phase:
  assumes "planned config f plan" "fs_ok f" "untouched config f g0"
  shows "untouched config f (fst (each_step failed unlink_step i (tp_stale plan) g0))"
    "each_step failed unlink_step i (tp_stale plan) g0 = (g, Inr ()) \<Longrightarrow>
       (\<forall>ms. node_at g ms = node_at g0 ms \<or> node_at g ms = None \<and> ms \<notin> out_names ` set (tp_desired plan))
       \<and> (\<forall>p\<in>set (tp_stale plan). node_at g (path_names p) = None)"
proof -
  have named: "\<exists>ns. p = abs_path ns \<and> path_names p = ns \<and> list_all name_ok ns \<and> tree_link config f ns \<and> ns \<notin> out_names ` set (tp_desired plan)"
    if "p \<in> set (tp_stale plan)" for p
    using assms(1) that path_names_abs_path unfolding planned_def by metis
  have step: "untouched config f g' \<and> (r = Inr () \<longrightarrow> g' = clear_node (path_names p) g \<and> path_names p \<noteq> [] \<and> path_names p \<notin> out_names ` set (tp_desired plan))"
    if x: "p \<in> set (tp_stale plan)" "untouched config f g" "unlink_step p g = (g', r)" for p g g' r
  proof -
    obtain ns where ns: "p = abs_path ns" "path_names p = ns" "list_all name_ok ns" "tree_link config f ns" "ns \<notin> out_names ` set (tp_desired plan)"
      using named[OF x(1)] by blast
    show ?thesis using unlink_step_spec[OF assms(2) x(2) ns(4,3) x(3)[unfolded ns(1)]] ns(2,5) by blast
  qed
  show "untouched config f (fst (each_step failed unlink_step i (tp_stale plan) g0))"
    by (rule each_step_inv[where I = "untouched config f", OF assms(3)]) (metis step prod.collapse)
  assume run: "each_step failed unlink_step i (tp_stale plan) g0 = (g, Inr ())"
  let ?I = "\<lambda>g. untouched config f g \<and> (\<forall>ms. node_at g ms = node_at g0 ms \<or> node_at g ms = None \<and> ms \<notin> out_names ` set (tp_desired plan))"
  have "?I g \<and> (\<forall>p\<in>set (tp_stale plan). node_at g (path_names p) = None)"
  proof (rule each_step_done[OF run])
    show "?I g0" using assms(3) by simp
  next
    fix p g g' assume p: "p \<in> set (tp_stale plan)" "?I g" "unlink_step p g = (g', Inr ())"
    then show "?I g' \<and> node_at g' (path_names p) = None" using step[OF p(1) _ p(3)] by auto
  next
    fix p q g g' assume p: "p \<in> set (tp_stale plan)" "q \<in> set (tp_stale plan)" "?I g" "node_at g (path_names p) = None" "unlink_step q g = (g', Inr ())"
    then show "node_at g' (path_names p) = None" using step[OF p(2) _ p(5)] by auto
  qed
  then show "(\<forall>ms. node_at g ms = node_at g0 ms \<or> node_at g ms = None \<and> ms \<notin> out_names ` set (tp_desired plan))
       \<and> (\<forall>p\<in>set (tp_stale plan). node_at g (path_names p) = None)" by blast
qed

definition pruned :: "fs \<Rightarrow> fs \<Rightarrow> bool" where
  "pruned g g' \<longleftrightarrow> inodes g' = inodes g \<and> (\<forall>ms. node_at g' ms = node_at g ms \<or> node_at g ms = Some FDir \<and> node_at g' ms = None)"

lemma pruned_trans: "pruned g h \<Longrightarrow> pruned h k \<Longrightarrow> pruned g k"
  unfolding pruned_def by metis

lemma prune_dir_step_pruned: "pruned g (fst (prune_dir_step p g))"
  by (auto simp: prune_dir_step_def remove_dir_def pruned_def io_bind_def split: sum.splits option.splits node.splits if_splits)

lemma prune_phase: "pruned g (fst (each_step failed prune_dir_step i ps g))"
proof (rule each_step_inv[where I = "pruned g"])
  show "pruned g g" by (simp add: pruned_def)
qed (use pruned_trans prune_dir_step_pruned in blast)

definition prunable :: "build_tree_config \<Rightarrow> fs \<Rightarrow> string list \<Rightarrow> bool" where
  "prunable config f ns \<longleftrightarrow> strict_prefix (root_names config) ns \<and> (\<exists>ms. strict_prefix ns ms \<and> tree_link config f ms)"

lemma prune_dirs:
  assumes "planned config f plan" "fs_ok f" "untouched config f h"
  defines "I \<equiv> \<lambda>g. fs_ok g \<and> inodes g = inodes h
    \<and> (\<forall>ns. node_at g ns = node_at h ns \<or> node_at h ns = Some FDir \<and> node_at g ns = None \<and> prunable config f ns)"
  shows "I (fst (each_step failed prune_dir_step i (tp_prune plan) h))"
proof (rule each_step_inv[where I = I])
  show "I h" using assms(3) by (simp add: I_def untouched_def)
next
  fix p g assume p: "p \<in> set (tp_prune plan)" and I: "I g"
  obtain ms ns where ms: "p = abs_path ms" "list_all name_ok ms" "strict_prefix (root_names config) ms" "strict_prefix ms ns" "tree_link config f ns"
    using assms(1) p unfolding planned_def by blast
  obtain t where "node_at f ns = Some (FSymlink t)" using ms(5) by (auto simp: tree_link_def owned_link_def)
  then have "real_parents f ns" by (rule fs_ok_real_parents[OF assms(2)])
  moreover obtain zs where "ns = ms @ zs" using ms(4) by (auto simp: strict_prefix_def prefix_def)
  ultimately have "node_at h (take j ms) = Some FDir" if "j < length ms" for j
    using that assms(3) unfolding real_parents_def untouched_def by (metis length_append less_imp_le take_append trans_less_add1 diff_is_0_eq take0 append_Nil2)
  then have pl: "plain g ms" using I unfolding plain_def I_def by metis
  show "I (fst (prune_dir_step p g))"
  proof (cases "remove_dir p g")
    case (Inr g')
    note r = remove_dir_plain[OF ms(2) pl Inr[unfolded ms(1)]]
    have "fs_ok g'" using fs_ok_clear_node[of g ms] I r by (simp add: I_def)
    moreover have "prunable config f ms" using ms(3-5) by (auto simp: prunable_def)
    moreover have "node_at h ms = Some FDir" using I r(2) unfolding I_def by (metis option.distinct(1))
    ultimately have "I g'" using I r by (auto simp: I_def)
    then show ?thesis using Inr by (simp add: prune_dir_step_def)
  qed (use I in \<open>simp add: prune_dir_step_def\<close>)
qed

subsection \<open>The whole run\<close>

text \<open>A plan is applied phase by phase; the first failure stops the run.\<close>

lemma created_linking:
  assumes "tree_ok config f" "planned config f plan" "each_step failed create_step i (tp_create plan) f = (g, Inr ())"
  shows "linking config f plan g"
proof -
  have ok: "fs_ok f" using assms(1) by (simp add: tree_ok_def)
  have gr: "grown f g" using create_phase(1)[OF assms(2) ok] assms(3) by (metis fst_conv)
  note made = create_phase(2)[OF assms(2) ok assms(3)]
  have root: "node_at g (root_names config) = Some FDir"
    using assms(2) made root_named[OF assms(1)] gr unfolding planned_def grown_def by metis
  have "real_parents g (out_names d)" if d: "d \<in> set (tp_desired plan)" for d
    unfolding real_parents_def
  proof (intro allI impI)
    fix k assume k: "k < length (out_names d)"
    have nm: "desired_named config d" "\<forall>ns\<in>parents_of config d. node_at f ns = Some FDir \<or> path_member (abs_path ns) (tp_create plan)"
      using assms(2) d by (auto simp: planned_def)
    obtain qs where q: "out_names d = root_names config @ qs" "qs \<noteq> []" using nm(1) by (auto simp: desired_named_def elim!: strict_prefixE')
    consider "k < length (root_names config)" | "k = length (root_names config)" | "length (root_names config) < k" by linarith
    then show "node_at g (take k (out_names d)) = Some FDir"
    proof cases
      case 1
      then have "node_at f (take k (root_names config)) = Some FDir" using assms(1) by (simp add: tree_ok_def real_parents_def)
      then show ?thesis using gr 1 q(1) unfolding grown_def by (simp) (metis option.distinct(1))
    next
      case 3
      then have "take k (out_names d) \<in> parents_of config d"
        unfolding parents_of_take[OF q(1)] using k q(1) by (intro CollectI exI[of _ "k - length (root_names config)"]) auto
      moreover have "list_all name_ok (take k (out_names d))" using nm(1) by (auto simp: desired_named_def list_all_iff dest: in_set_takeD)
      ultimately show ?thesis using nm(2) made gr unfolding grown_def by (metis option.distinct(1))
    qed (use root q(1) in simp)
  qed
  moreover have "untouched config f g" using gr unfolding untouched_def grown_def by (metis option.distinct(1))
  ultimately show ?thesis by (simp add: linking_def)
qed

definition foreign_kept :: "build_tree_config \<Rightarrow> fs \<Rightarrow> fs \<Rightarrow> bool" where
  "foreign_kept config f g \<longleftrightarrow> fs_ok g \<and> inodes g = inodes f
     \<and> (\<forall>ns n. node_at f ns = Some n \<and> n \<noteq> FDir \<and> \<not> tree_link config f ns \<longrightarrow> node_at g ns = Some n)
     \<and> (\<forall>ns. node_at f ns = Some FDir \<longrightarrow> node_at g ns = Some FDir \<or> node_at g ns = None \<and> prunable config f ns)"

lemma untouched_foreign: "untouched config f g \<Longrightarrow> foreign_kept config f g"
  by (simp add: untouched_def foreign_kept_def)

text \<open>Since the result is a tree again, a directory that is gone held nothing foreign.\<close>

lemma foreign_kept_entry:
  assumes "foreign_kept config f g" "node_at f ns = Some n" "\<not> tree_link config f ns"
  shows "node_at g ns = Some n \<or> n = FDir \<and> node_at g ns = None \<and> only_links config f ns"
proof (cases "n = FDir \<and> node_at g ns \<noteq> Some FDir")
  case True
  then have gone: "node_at g ns = None" "prunable config f ns" using assms(1,2) unfolding foreign_kept_def by blast+
  have "m = FDir \<or> tree_link config f ms" if "strict_prefix ns ms" "node_at f ms = Some m" for ms m
  proof (rule ccontr)
    assume "\<not> (m = FDir \<or> tree_link config f ms)"
    then have "node_at g ms = Some m" "fs_ok g" using assms(1) that(2) unfolding foreign_kept_def by blast+
    then have "real_parents g ms" by (rule fs_ok_real_parents[rotated])
    moreover have "ns = take (length ns) ms" "length ns < length ms" using that(1) by (auto elim: strict_prefixE')
    ultimately show False using gone(1) unfolding real_parents_def by (metis option.distinct(1))
  qed
  then show ?thesis using True gone by (auto simp: only_links_def prunable_def)
next
  case False
  then show ?thesis using assms unfolding foreign_kept_def by auto
qed

lemma then_step_cases:
  assumes "then_step (each_step failed step i xs f) k = (g, r)"
  obtains "g = fst (each_step failed step i xs f)" | h where "each_step failed step i xs f = (h, Inr ())" "k h = (g, r)"
  using assms by (auto simp: then_step_def split: prod.splits sum.splits)

lemma apply_keeps_foreign:
  assumes "tree_ok config f" "planned config f plan" "\<forall>p. CHR ''/'' \<notin> set (uuid env p)" "apply_tree env plan f = (g, r)"
  shows "foreign_kept config f g"
proof -
  have ok: "fs_ok f" using assms(1) by (simp add: tree_ok_def)
  have grown: "foreign_kept config f h" if "grown f h" for h
    using that unfolding grown_def foreign_kept_def by (metis option.distinct(1))
  have pruned: "foreign_kept config f (fst (each_step failed prune_dir_step i (tp_prune plan) h))" if "untouched config f h" for failed i h
    using prune_dirs[OF assms(2) ok that] that unfolding untouched_def foreign_kept_def by (metis option.inject)
  show ?thesis using assms(4)[unfolded apply_tree_def]
  proof (cases rule: then_step_cases)
    case 1
    then show ?thesis using grown[OF create_phase(1)[OF assms(2) ok]] by simp
  next
    case (2 h1)
    note L = created_linking[OF assms(1,2) 2(1)]
    show ?thesis using 2(2)
    proof (cases rule: then_step_cases)
      case 1
      then show ?thesis using link_phase(1)[OF assms(2) L assms(3)] untouched_foreign by (simp add: linking_def)
    next
      case (2 h2)
      then have U: "untouched config f h2" using link_phase(1)[OF assms(2) L assms(3)] unfolding linking_def by (metis fst_conv)
      show ?thesis using 2(2)
      proof (cases rule: then_step_cases)
        case 1
        then show ?thesis using stale_phase(1)[OF assms(2) ok U] untouched_foreign by simp
      next
        case (2 h3)
        then have "untouched config f h3" using stale_phase(1)[OF assms(2) ok U] by (metis fst_conv)
        then show ?thesis using pruned 2(2) by (metis fst_conv)
      qed
    qed
  qed
qed

lemma apply_success:
  assumes "tree_ok config f" "planned config f plan" "\<forall>p. CHR ''/'' \<notin> set (uuid env p)" "apply_tree env plan f = (g, Inr ())"
  shows "d \<in> set (tp_desired plan) \<Longrightarrow> \<exists>t. node_at g (out_names d) = Some (FSymlink t) \<and> path_eq t (dl_target d)"
    "node_at g ns = Some (FSymlink t) \<Longrightarrow> ns \<notin> out_names ` set (tp_desired plan) \<Longrightarrow> node_at f ns = Some (FSymlink t) \<and> abs_path ns \<notin> set (tp_stale plan)"
proof -
  obtain h1 h2 h3 where H: "each_step (\<lambda>i. tree_failed env (ApplyDir i)) create_step 0 (tp_create plan) f = (h1, Inr ())"
    "each_step (\<lambda>i. tree_failed env (ApplyLink i)) (apply_desired_link env) 0 (tp_desired plan) h1 = (h2, Inr ())"
    "each_step (\<lambda>i. tree_failed env (ApplyStale i)) unlink_step 0 (tp_stale plan) h2 = (h3, Inr ())"
    "each_step (\<lambda>i. tree_failed env (ApplyPrune i)) prune_dir_step 0 (tp_prune plan) h3 = (g, Inr ())"
    using assms(4) unfolding apply_tree_def then_step_Inr by blast
  have ok: "fs_ok f" using assms(1) by (simp add: tree_ok_def)
  have G: "grown f h1" using create_phase(1)[OF assms(2) ok] H(1) by (metis fst_conv)
  note L0 = created_linking[OF assms(1,2) H(1)]
  note L = link_phase(2)[OF assms(2) L0 assms(3) H(2)]
  have U: "untouched config f h2" using link_phase(1)[OF assms(2) L0 assms(3)] H(2) unfolding linking_def by (metis fst_conv)
  note S = stale_phase(2)[OF assms(2) ok U H(3)]
  have P: "pruned h3 g" using prune_phase H(4) by (metis fst_conv)
  show "\<exists>t. node_at g (out_names d) = Some (FSymlink t) \<and> path_eq t (dl_target d)" if d: "d \<in> set (tp_desired plan)"
  proof -
    obtain t where t: "node_at h2 (out_names d) = Some (FSymlink t)" "path_eq t (dl_target d)" using L d by blast
    have "node_at h3 (out_names d) = Some (FSymlink t)" using S t(1) d by (metis imageI)
    then have "node_at g (out_names d) = Some (FSymlink t)" using P unfolding pruned_def by (metis node.distinct(7) option.inject)
    then show ?thesis using t(2) by blast
  qed
  show "node_at f ns = Some (FSymlink t) \<and> abs_path ns \<notin> set (tp_stale plan)"
    if n: "node_at g ns = Some (FSymlink t)" "ns \<notin> out_names ` set (tp_desired plan)"
  proof -
    have "node_at h3 ns = Some (FSymlink t)" using P n(1) unfolding pruned_def by (metis option.distinct(1))
    moreover from this have "node_at h2 ns = Some (FSymlink t)" using S by (metis option.distinct(1))
    moreover from this have "node_at h1 ns = Some (FSymlink t)" using L n(2) by metis
    ultimately have f: "node_at h3 ns = Some (FSymlink t)" "node_at f ns = Some (FSymlink t)"
      using G unfolding grown_def by (metis node.distinct(7) option.inject)+
    have "path_names (abs_path ns) = ns" using ok f(2) path_names_abs_path
      by (auto simp: fs_ok_def node_at_def list_all_iff dest!: map_of_SomeD split: if_splits)
    then show ?thesis using f S by auto
  qed
qed


section \<open>Properties\<close>

lemma count_desired:
  assumes "fold_result (check_desired env config f) (i, rep) ds = Inr (j, rep')"
  shows "links_created rep' + links_unchanged rep' + links_replaced rep' = links_created rep + links_unchanged rep + links_replaced rep + of_nat (length ds)
    \<and> desired_links rep' = desired_links rep \<and> bt_dry_run rep' = bt_dry_run rep"
  using assms
proof (induction ds arbitrary: i rep)
  case (Cons d ds)
  obtain k rep1 where k: "check_desired env config f (i, rep) d = Inr (k, rep1)" "fold_result (check_desired env config f) (k, rep1) ds = Inr (j, rep')"
    using Cons.prems by (auto simp: bind_result_eq_Inr)
  have "links_created rep1 + links_unchanged rep1 + links_replaced rep1 = links_created rep + links_unchanged rep + links_replaced rep + 1
    \<and> desired_links rep1 = desired_links rep \<and> bt_dry_run rep1 = bt_dry_run rep"
    using k(1) by (cases "symlink_metadata (dl_output d) f") (auto simp: check_desired_def bind_result_eq_Inr split: if_splits)
  then show ?case using Cons.IH[OF k(2)] by (simp add: algebra_simps)
qed simp

lemma plan_entries_length: "fold_result (plan_entry env config f) xs es = Inr ds \<Longrightarrow> length ds = length xs + length es"
proof (induction es arbitrary: xs)
  case (Cons e es)
  obtain ys where y: "plan_entry env config f xs e = Inr ys" "fold_result (plan_entry env config f) ys es = Inr ds"
    using Cons.prems(1) by (auto simp: bind_result_eq_Inr)
  have "length ys = Suc (length xs)" using y(1) by (auto simp: plan_entry_def Let_def bind_result_eq_Inr split: if_splits)
  then show ?case using Cons.IH[OF y(2)] by simp
qed simp

text \<open>The store and the tree share no path, so that purging staging does not touch the tree.\<close>

definition apart :: "build_tree_config \<Rightarrow> bool" where
  "apart config \<longleftrightarrow> \<not> starts_with (bt_root config) (store_path (bt_store config)) \<and> \<not> starts_with (store_path (bt_store config)) (bt_root config)"

lemma apart_names:
  assumes "tree_ok config f" "apart config" "prefix (staging_names (bt_store config)) ns"
  shows "\<not> prefix (root_names config) ns" "\<not> prefix ns (root_names config)"
proof -
  have st: "store_path (bt_store config) = abs_path (store_names (bt_store config))" "list_all name_ok (store_names (bt_store config))"
    using assms(1) store_names_ok by (auto simp: tree_ok_def)
  note rt = root_named[OF assms(1)]
  have "\<not> prefix (store_names (bt_store config)) (root_names config)" "\<not> prefix (root_names config) (store_names (bt_store config))"
    using assms(2) starts_with_abs_path[OF rt(2) st(2)] starts_with_abs_path[OF st(2) rt(2)] by (simp_all add: apart_def rt(1)[symmetric] st(1)[symmetric])
  moreover have "prefix (store_names (bt_store config)) ns" using assms(3) by (auto simp: staging_names_def prefix_def)
  ultimately show "\<not> prefix (root_names config) ns" "\<not> prefix ns (root_names config)"
    by (metis prefix_same_cases, metis prefix_order.trans)
qed

lemma purged_tree:
  assumes "tree_ok config f" "store_ok (bt_store config) f" "apart config" "purge_existing_staging (bt_store config) f = Some (h, r)"
  shows "tree_ok config h" "inodes h = inodes f" "\<not> strict_prefix (staging_names (bt_store config)) ns \<Longrightarrow> node_at h ns = node_at f ns"
    "prefix (root_names config) ns \<Longrightarrow> node_at h ns = node_at f ns"
proof -
  have r: "removed_in {ms. strict_prefix (staging_names (bt_store config)) ms} f h" by (rule purge_existing_staging_removes[OF assms(2,4)])
  then show i: "inodes h = inodes f" "\<not> strict_prefix (staging_names (bt_store config)) ns \<Longrightarrow> node_at h ns = node_at f ns" for ns
    by (simp_all add: removed_in_def)
  show "node_at h ns = node_at f ns" if "prefix (root_names config) ns" for ns
    using i(2) apart_names(1)[OF assms(1,3)] that by (metis strict_prefix_def)
  have "node_at h ms = node_at f ms" if "prefix ms (root_names config)" for ms
    using i(2) apart_names(2)[OF assms(1,3)] that by (metis strict_prefix_def)
  then show "tree_ok config h" using assms(1) r by (auto simp: tree_ok_def removed_in_def honest_def real_parents_def take_is_prefix)
qed

lemma build_tree_cases:
  assumes "build_tree env config db f = Some (g, r)"
  obtains "g = f" | h u where "purge_existing_staging (bt_store config) f = Some (h, u)" "g = h"
  | h u plan v where "purge_existing_staging (bt_store config) f = Some (h, u)" "plan_tree env config db h = Inr plan" "apply_tree env plan h = (g, v)"
  using assms by (auto simp: build_tree_def split: option.splits prod.splits sum.splits if_splits)


text \<open>
  C9 (functional). A build that succeeds leaves exactly the tree the catalog asks for: every
  live entry has a link at its hashed name whose text is the relative path from that directory
  to the blob, and every link of the tree into the blobs is one of those.
\<close>

theorem tree_links_are_the_live_entries:
  assumes "tree_ok config f" "walk_sound env config f" "walk_complete env config f" "\<forall>p. CHR ''/'' \<notin> set (uuid env p)"
    "live_materialization_entries db = Inr entries" "plan_tree env config db f = Inr plan" "apply_tree env plan f = (g, Inr ())"
  shows "(\<forall>e\<in>set entries. \<exists>out ns text t. output_relative_path (le_rel e) (le_hash e) (bt_digits config) = Inr out
            \<and> path_join (bt_root config) out = abs_path ns \<and> node_at g ns = Some (FSymlink t) \<and> path_eq t text
            \<and> relative_symlink_target (abs_path (butlast ns)) (blob_path (bt_store config) (le_hash e)) = Inr text)
     \<and> (\<forall>ns. prefix (root_names config) ns \<and> owned_link config g ns \<longrightarrow>
          (\<exists>e\<in>set entries. \<exists>out. output_relative_path (le_rel e) (le_hash e) (bt_digits config) = Inr out
             \<and> path_join (bt_root config) out = abs_path ns))"
proof -
  obtain ds owned where P: "fold_result (plan_entry env config f) [] entries = Inr ds" "tp_desired plan = sort_key (\<lambda>d. path_key (dl_output d)) ds"
    "collect_owned_symlinks env config f = Inr owned" "tp_stale plan = filter (\<lambda>p. \<not> path_member p (map dl_output (tp_desired plan))) owned"
    using plan_tree_parts[OF assms(6)] assms(5) by (metis Inr_inject)
  have E: "list_all2 (link_for config) entries ds" "list_all (desired_named config) ds"
    using plan_entries_Inr[OF assms(1) live_entries_ok[OF assms(5)] P(1)] by auto
  note A = apply_success[OF assms(1) plan_tree_planned[OF assms(1,2,6)] assms(4,7)]
  have set: "set (tp_desired plan) = set ds" using P(2) by simp
  have out: "dl_output d = abs_path (out_names d)" "list_all name_ok (out_names d)" if "d \<in> set ds" for d
    using E(2) that by (auto simp: list_all_iff desired_named_def)
  have "\<exists>out ns text t. output_relative_path (le_rel e) (le_hash e) (bt_digits config) = Inr out
            \<and> path_join (bt_root config) out = abs_path ns \<and> node_at g ns = Some (FSymlink t) \<and> path_eq t text
            \<and> relative_symlink_target (abs_path (butlast ns)) (blob_path (bt_store config) (le_hash e)) = Inr text" if "e \<in> set entries" for e
  proof -
    obtain d where d: "d \<in> set ds" "link_for config e d" using E(1) \<open>e \<in> set entries\<close> by (metis list_all2_conv_all_nth in_set_conv_nth)
    then show ?thesis using A(1)[of d] set out(1) unfolding link_for_def by metis
  qed
  moreover have "\<exists>e\<in>set entries. \<exists>out. output_relative_path (le_rel e) (le_hash e) (bt_digits config) = Inr out
             \<and> path_join (bt_root config) out = abs_path ns" if o: "prefix (root_names config) ns" "owned_link config g ns" for ns
  proof (cases "ns \<in> out_names ` set ds")
    case True
    then obtain d where d: "d \<in> set ds" "ns = out_names d" by blast
    then obtain e where "e \<in> set entries" "link_for config e d" using E(1) by (metis list_all2_conv_all_nth in_set_conv_nth)
    then show ?thesis using d out(1) unfolding link_for_def by metis
  next
    case False
    obtain t where t: "node_at g ns = Some (FSymlink t)" "points_inside_blobs (abs_path (butlast ns)) t (bt_store config) = Inr True"
      using o(2) by (auto simp: owned_link_def)
    have f: "node_at f ns = Some (FSymlink t)" "abs_path ns \<notin> set (tp_stale plan)" using A(2)[OF t(1)] False set by auto
    have "abs_path ns \<in> set owned"
      by (rule collect_owned_Inr(2)[OF assms(1,2) P(3) assms(3) o(1)]) (use f(1) t(2) in \<open>simp add: owned_link_def\<close>)
    then have "path_member (abs_path ns) (map dl_output (tp_desired plan))" using f(2) P(4) by simp
    then obtain d where d: "d \<in> set ds" "path_eq (abs_path ns) (dl_output d)" using set by (auto simp: path_member_def list_ex_iff)
    have "list_all name_ok ns" using assms(1) f(1) by (auto simp: tree_ok_def fs_ok_def node_at_def list_all_iff dest!: map_of_SomeD split: if_splits)
    then have "ns = out_names d" using d out path_eq_abs by metis
    then show ?thesis using False d(1) by blast
  qed
  ultimately show ?thesis by blast
qed

text \<open>
  The report of a build accounts for every desired link: the links created,
  unchanged and replaced add up to the number of live entries, and the counts of removed links,
  created and pruned directories are those of the plan. A dry run changes nothing.
\<close>

theorem build_tree_report_adds_up:
  assumes "build_tree env config db f = Some (g, Inr report)"
  shows "links_created report + links_unchanged report + links_replaced report = desired_links report
    \<and> (\<exists>h entries. live_materialization_entries db = Inr entries \<and> desired_links report = of_nat (length entries)
         \<and> (\<exists>plan. plan_tree env config db h = Inr plan \<and> stale_links_removed report = of_nat (length (tp_stale plan))
              \<and> directories_created report = of_nat (length (tp_create plan)) \<and> directories_pruned report = of_nat (length (tp_prune plan))
              \<and> (if bt_dry config then h = f \<and> g = f else apply_tree env plan h = (g, Inr ()))))"
proof -
  obtain h plan where h: "plan_tree env config db h = Inr plan" "report = tp_report plan"
    "if bt_dry config then h = f \<and> g = f else apply_tree env plan h = (g, Inr ())"
    using assms by (auto simp: build_tree_def split: option.splits prod.splits sum.splits if_splits)
  obtain entries ds n rep where P: "live_materialization_entries db = Inr entries"
    "fold_result (plan_entry env config h) [] entries = Inr ds" "tp_desired plan = sort_key (\<lambda>d. path_key (dl_output d)) ds"
    "fold_result (check_desired env config h) (0, empty_report (bt_dry config) (of_nat (length (tp_desired plan)))) (tp_desired plan) = Inr (n, rep)"
    "tp_report plan = rep\<lparr>stale_links_removed := of_nat (length (tp_stale plan)), directories_created := of_nat (length (tp_create plan)),
                                    directories_pruned := of_nat (length (tp_prune plan))\<rparr>"
    using plan_tree_parts[OF h(1)] by metis
  have len: "length (tp_desired plan) = length entries" using plan_entries_length[OF P(2)] P(3) by simp
  note c = count_desired[OF P(4)]
  have "links_created report + links_unchanged report + links_replaced report = desired_links report"
    "desired_links report = of_nat (length entries)" using c len unfolding h(2) P(5) by (simp_all add: empty_report_def)
  moreover have "stale_links_removed report = of_nat (length (tp_stale plan))" "directories_created report = of_nat (length (tp_create plan))"
    "directories_pruned report = of_nat (length (tp_prune plan))" unfolding h(2) P(5) by simp_all
  ultimately show ?thesis using h(1,3) P(1) by metis
qed


section \<open>A sample tree\<close>

text \<open>One live source, a stale link to a blob and a file of the user's in the tree.\<close>

definition sample_walk :: "path \<Rightarrow> fs \<Rightarrow> (path \<times> entry_kind) io list" where
  "sample_walk p f = map (\<lambda>(ns, n). Inr (abs_path ns, md_kind (metadata_of f n)))
     (filter (\<lambda>(ns, n). node_at f ns = Some n \<and> take (length (path_names p)) ns = path_names p) (([], FDir) # nodes f))"

definition tree_env1 :: tree_env where
  "tree_env1 = \<lparr>tree_failed = (\<lambda>_. False), uuid = (\<lambda>_. ''0''), walkdir = sample_walk, tree_lock = (\<lambda>_ _. Inr ())\<rparr>"

definition tree_config1 :: build_tree_config where
  "tree_config1 = \<lparr>bt_store = sample_root, bt_root = ''/t'', bt_digits = 6, bt_dry = False\<rparr>"

definition tree_db1 :: database where
  "tree_db1 = sample_db\<lparr>blobs := [\<lparr>b_rowid = 1, b_hash = SText (as_str (sample_hash CHR ''a'')), b_size = SInteger 3,
     b_created = SInteger 10, b_deleted = SNull\<rparr>], source_files := source_files sample_known_db\<rparr>"

definition tree_fs1 :: fs where
  "tree_fs1 = sample_fs2\<lparr>nodes := nodes sample_fs2 @ [([''s'', ''blobs'', ''aa''], FDir), ([''s'', ''blobs'', ''aa'', ''aa''], FDir),
     ([''s'', ''blobs'', ''aa'', ''aa'', as_str (sample_hash CHR ''a'')], FFile 0), ([''t''], FDir), ([''t'', ''keep''], FFile 0),
     ([''t'', ''old''], FSymlink ''../s/blobs/x'')], inodes := (\<lambda>_. \<lparr>fd_content = ''abc'', fd_mtime = None, fd_readonly = False\<rparr>)\<rparr>"

lemma sample_walk_ok:
  assumes "fs_ok f" "walkdir env = sample_walk"
  shows "walk_sound env config f" "walk_complete env config f"
proof -
  have named: "list_all name_ok ns" if "node_at f ns = Some n" for ns n
    using assms(1) that by (auto simp: fs_ok_def list_all_iff node_at_def dest!: map_of_SomeD split: if_splits)
  have at: "node_at f ns = Some n \<longleftrightarrow> (ns, n) \<in> set (([], FDir) # nodes f) \<and> node_at f ns = Some n" for ns n
    by (auto simp: node_at_def dest: map_of_SomeD split: if_splits)
  have pre: "prefix (root_names config) ns \<longleftrightarrow> take (length (path_names (bt_root config))) ns = path_names (bt_root config)" for ns
    by (metis append_eq_conv_conj prefix_def root_names_def take_is_prefix)
  have item: "x \<in> set (walkdir env (bt_root config) f) \<longleftrightarrow>
      (\<exists>ns n. node_at f ns = Some n \<and> prefix (root_names config) ns \<and> x = Inr (abs_path ns, md_kind (metadata_of f n)))" for x
    unfolding pre assms(2) sample_walk_def set_map set_filter using at
    by (auto simp only: image_iff Bex_def mem_Collect_eq split_paired_Ex prod.case)
  show "walk_sound env config f" unfolding walk_sound_def item using named by blast
  show "walk_complete env config f" unfolding walk_complete_def item by blast
qed

lemma tree_sample_ok: "tree_ok tree_config1 tree_fs1" "walk_sound tree_env1 tree_config1 tree_fs1" "walk_complete tree_env1 tree_config1 tree_fs1"
  "\<forall>p. CHR ''/'' \<notin> set (uuid tree_env1 p)"
proof -
  have ok: "fs_ok tree_fs1" by code_simp
  have "canonical (bt_root tree_config1)" "root_names tree_config1 = [''t'']" by code_simp+
  then show "tree_ok tree_config1 tree_fs1" using ok sample_names(2)
    by (simp add: tree_ok_def tree_config1_def honest_def real_parents_def tree_fs1_def sample_fs2_def sample_fs_def node_at_def)
  show "walk_sound tree_env1 tree_config1 tree_fs1" "walk_complete tree_env1 tree_config1 tree_fs1"
    by (rule sample_walk_ok[OF ok]; simp add: tree_env1_def)+
qed (simp add: tree_env1_def)

lemma tree_sample_run:
  "\<exists>plan g. plan_tree tree_env1 tree_config1 tree_db1 tree_fs1 = Inr plan \<and> apply_tree tree_env1 plan tree_fs1 = (g, Inr ())"
proof -
  have "case plan_tree tree_env1 tree_config1 tree_db1 tree_fs1 of Inr plan \<Rightarrow> (case apply_tree tree_env1 plan tree_fs1 of (g, r) \<Rightarrow> r = Inr ()) | _ \<Rightarrow> False"
    by code_simp
  then show ?thesis by (auto split: sum.splits prod.splits)
qed

lemma tree_sample_entry: "live_materialization_entries tree_db1 = Inr [\<lparr>le_rel = SourceRelativePath ''x'', le_hash = sample_hash CHR ''a'', le_size = 3\<rparr>]"
  by code_simp


theorem tree_links_are_the_live_entries_witness:
  "\<exists>plan g ns t. plan_tree tree_env1 tree_config1 tree_db1 tree_fs1 = Inr plan \<and> apply_tree tree_env1 plan tree_fs1 = (g, Inr ())
     \<and> abs_path ns = ''/t/x_aaaaaa'' \<and> node_at g ns = Some (FSymlink t)"
proof -
  obtain plan g where r: "plan_tree tree_env1 tree_config1 tree_db1 tree_fs1 = Inr plan" "apply_tree tree_env1 plan tree_fs1 = (g, Inr ())"
    using tree_sample_run by blast
  have o: "output_relative_path (SourceRelativePath ''x'') (sample_hash CHR ''a'') (bt_digits tree_config1) = Inr ''x_aaaaaa''"
    "path_join (bt_root tree_config1) ''x_aaaaaa'' = ''/t/x_aaaaaa''" by code_simp+
  from tree_links_are_the_live_entries[OF tree_sample_ok tree_sample_entry r] obtain ns t where "''/t/x_aaaaaa'' = abs_path ns" "node_at g ns = Some (FSymlink t)"
    using o by auto
  then show ?thesis using r by metis
qed

theorem build_tree_report_adds_up_witness:
  "\<exists>g report. build_tree tree_env1 tree_config1 tree_db1 tree_fs1 = Some (g, Inr report) \<and> desired_links report = 1
     \<and> links_created report + links_unchanged report + links_replaced report = 1"
proof -
  have "case build_tree tree_env1 tree_config1 tree_db1 tree_fs1 of Some (g, Inr report) \<Rightarrow> True | _ \<Rightarrow> False" by code_simp
  then obtain g report where r: "build_tree tree_env1 tree_config1 tree_db1 tree_fs1 = Some (g, Inr report)"
    by (auto split: option.splits prod.splits sum.splits)
  then show ?thesis using build_tree_report_adds_up[OF r] tree_sample_entry by auto
qed

end
