(* ===== verification/Config.thy ===== *)
theory Config
  imports BrowseTree
begin

text \<open>
  \<^verbatim>\<open>config.rs\<close> and the validated roots of \<^verbatim>\<open>paths.rs\<close>: how options become a configuration, against
  the file system. Relative paths are resolved from the root directory.
\<close>

section \<open>Validated roots\<close>

text \<open>\<open>Path::canonicalize\<close>, \<open>Path::is_dir\<close>.\<close>

definition canonicalize :: "path \<Rightarrow> fs \<Rightarrow> path result" where
  "canonicalize p f = of_io (io_bind (locate True p f) (\<lambda>ns. if node_at f ns = None then Inl NotFound else Inr (abs_path ns)))"

definition is_dir :: "path \<Rightarrow> fs \<Rightarrow> bool" where
  "is_dir p f = (case locate True p f of Inl _ \<Rightarrow> False | Inr ns \<Rightarrow> node_at f ns = Some FDir)"

definition validate_real_directory :: "path \<Rightarrow> fs \<Rightarrow> unit result" where
  "validate_real_directory p f =
     bind_result (of_io (symlink_metadata p f)) (\<lambda>m.
     if md_kind m = KSymlink then Inl (ConfigError NotARealDirectory)
     else if md_kind m \<noteq> KDirectory then Inl (ConfigError NotARealDirectory)
     else Inr ())"

text \<open>The canonical parent with the name put back.\<close>

definition in_canonical_parent :: "path \<Rightarrow> path \<Rightarrow> fs \<Rightarrow> path result" where
  "in_canonical_parent parent p f =
     bind_result (canonicalize parent f) (\<lambda>canonical_parent.
     bind_result (ok_or (PathError MissingFileName) (file_name p)) (\<lambda>name.
     Inr (path_join canonical_parent name)))"

definition store_root_validate :: "path \<Rightarrow> fs \<Rightarrow> store_root result" where
  "store_root_validate p f =
     (if path_exists p f then
        bind_result (canonicalize p f) (\<lambda>canonical_path.
        if \<not> is_dir canonical_path f then Inl (ConfigError NotARealDirectory)
        else Inr \<lparr>store_path = canonical_path\<rparr>)
      else
        bind_result (ok_or (PathError MissingParent) (parent_dir p)) (\<lambda>parent.
        bind_result (in_canonical_parent parent p f) (\<lambda>q. Inr \<lparr>store_path = q\<rparr>)))"

definition store_root_validate_existing :: "path \<Rightarrow> fs \<Rightarrow> store_root result" where
  "store_root_validate_existing p f =
     bind_result (of_io (symlink_metadata p f)) (\<lambda>m.
     if md_kind m = KSymlink then Inl (ConfigError NotARealDirectory)
     else if md_kind m \<noteq> KDirectory then Inl (ConfigError NotARealDirectory)
     else bind_result (canonicalize p f) (\<lambda>canonical_path.
          bind_result (validate_real_directory (blobs_dir \<lparr>store_path = canonical_path\<rparr>) f) (\<lambda>_.
          Inr \<lparr>store_path = canonical_path\<rparr>)))"

definition browse_tree_root_validate :: "path \<Rightarrow> fs \<Rightarrow> path result" where
  "browse_tree_root_validate p f =
     (case symlink_metadata p f of
        Inr m \<Rightarrow>
          if md_kind m = KSymlink then Inl (ConfigError NotARealDirectory)
          else if md_kind m \<noteq> KDirectory then Inl (ConfigError NotARealDirectory)
          else canonicalize p f
      | Inl e \<Rightarrow>
          if e = NotFound then
            bind_result (ok_or (PathError MissingParent) (parent_dir p)) (\<lambda>parent.
            bind_result (validate_real_directory parent f) (\<lambda>_. in_canonical_parent parent p f))
          else Inl (Io e))"

definition source_root_validate :: "path \<Rightarrow> fs \<Rightarrow> path result" where
  "source_root_validate p f =
     bind_result (canonicalize p f) (\<lambda>canonical_path.
     if \<not> is_dir canonical_path f then Inl (ConfigError NotARealDirectory) else Inr canonical_path)"

definition validate_db_path :: "path \<Rightarrow> fs \<Rightarrow> path result" where
  "validate_db_path p f =
     bind_result (ok_or (PathError MissingParent) (parent_dir p)) (\<lambda>parent. in_canonical_parent parent p f)"

definition validate_existing_catalog :: "path \<Rightarrow> fs \<Rightarrow> unit result" where
  "validate_existing_catalog p f =
     bind_result (of_io (symlink_metadata p f)) (\<lambda>m.
     if md_kind m = KSymlink \<or> md_kind m \<noteq> KFile then Inl (ConfigError NotARegularFile) else Inr ())"


section \<open>Options and configurations\<close>

record import_config =
  ic_store :: store_root
  ic_db :: path
  ic_source :: path
  ic_dry_run :: bool
  ic_metadata_skip :: bool
  ic_chunk_size :: nat
  ic_workers_per_mount :: nat

record import_options =
  io_store :: path
  io_source :: path
  io_db :: "path option"
  io_dry_run :: bool
  io_metadata_skip :: bool
  io_chunk_size :: nat
  io_workers_per_mount :: nat

record audit_config =
  ac_store :: store_root
  ac_db :: path
  ac_chunk_size :: nat

record audit_options =
  ao_store :: path
  ao_db :: "path option"
  ao_chunk_size :: nat

record gc_config =
  gcc_store :: store_root
  gcc_db :: path
  gcc_dry_run :: bool
  gcc_chunk_size :: nat

record gc_options =
  go_store :: path
  go_db :: "path option"
  go_dry_run :: bool
  go_chunk_size :: nat

record build_tree_options =
  bo_store :: path
  bo_browse_tree :: path
  bo_db :: "path option"
  bo_dry_run :: bool
  bo_hash_digits :: nat

definition audit_config_from_options :: "audit_options \<Rightarrow> fs \<Rightarrow> audit_config result" where
  "audit_config_from_options options f =
     bind_result (store_root_validate_existing (ao_store options) f) (\<lambda>root.
     let db = (case ao_db options of Some p \<Rightarrow> p | None \<Rightarrow> default_db_path root)
     in bind_result (validate_existing_catalog db f) (\<lambda>_.
        Inr \<lparr>ac_store = root, ac_db = db, ac_chunk_size = ao_chunk_size options\<rparr>))"

definition gc_config_from_options :: "gc_options \<Rightarrow> fs \<Rightarrow> gc_config result" where
  "gc_config_from_options options f =
     (if go_chunk_size options = 0 then Inl (ConfigError ZeroChunkSize)
      else bind_result (store_root_validate_existing (go_store options) f) (\<lambda>root.
           let db = (case go_db options of Some p \<Rightarrow> p | None \<Rightarrow> default_db_path root)
           in bind_result (validate_existing_catalog db f) (\<lambda>_.
              Inr \<lparr>gcc_store = root, gcc_db = db, gcc_dry_run = go_dry_run options, gcc_chunk_size = go_chunk_size options\<rparr>)))"

definition import_config_from_options :: "import_options \<Rightarrow> fs \<Rightarrow> import_config result" where
  "import_config_from_options options f =
     bind_result (source_root_validate (io_source options) f) (\<lambda>source.
     bind_result (store_root_validate (io_store options) f) (\<lambda>root.
     bind_result (case io_db options of Some p \<Rightarrow> validate_db_path p f | None \<Rightarrow> Inr (default_db_path root)) (\<lambda>db.
     bind_result (validate_no_overlaps source root db (io_db options \<noteq> None) (path_exists (store_path root) f)) (\<lambda>_.
     Inr \<lparr>ic_store = root, ic_db = db, ic_source = source, ic_dry_run = io_dry_run options,
          ic_metadata_skip = io_metadata_skip options, ic_chunk_size = io_chunk_size options,
          ic_workers_per_mount = io_workers_per_mount options\<rparr>))))"

text \<open>The database path of a build is passed on separately.\<close>

definition build_tree_config_from_options :: "build_tree_options \<Rightarrow> fs \<Rightarrow> (build_tree_config \<times> path) result" where
  "build_tree_config_from_options options f =
     (if bo_hash_digits options > 64 then Inl (ConfigError HashDigitsRange)
      else
        bind_result (store_root_validate_existing (bo_store options) f) (\<lambda>root.
        bind_result (browse_tree_root_validate (bo_browse_tree options) f) (\<lambda>tree.
        bind_result (case bo_db options of Some p \<Rightarrow> validate_db_path p f | None \<Rightarrow> Inr (default_db_path root)) (\<lambda>db.
        bind_result (validate_build_tree_no_overlaps root tree db (bo_db options \<noteq> None)) (\<lambda>_.
        Inr (\<lparr>bt_store = root, bt_root = tree, bt_digits = bo_hash_digits options, bt_dry = bo_dry_run options\<rparr>, db))))))"


section \<open>Resolution gives canonical names\<close>

lemma fs_ok_butlast:
  assumes "fs_ok f" "node_at f ns = Some n" "ns \<noteq> []"
  shows "node_at f (butlast ns) = Some FDir"
  using fs_ok_parent[OF assms(1), of "butlast ns" "last ns"] assms(2,3) by simp

lemma resolve_names:
  assumes "fs_ok f" "resolve f links follow base cs = Inr ns" "list_all name_ok base" "\<forall>v. Normal v \<in> set cs \<longrightarrow> name_ok v"
    "node_at f base = Some FDir"
  shows "list_all name_ok ns \<and> (ns = [] \<or> node_at f (butlast ns) = Some FDir)"
  using assms
proof (induction f links follow base cs rule: resolve.induct)
  case (1 f links follow base)
  then show ?case using fs_ok_butlast[OF 1(1,5)] by auto
next
  case (4 f links follow base cs)
  have "node_at f (butlast base) = Some FDir" using fs_ok_butlast[OF 4(2,6)] 4(6) by (cases "base = []") auto
  moreover have "list_all name_ok (butlast base)" using 4(4) by (auto simp: list_all_iff dest: in_set_butlastD)
  ultimately show ?case using 4 by simp
next
  case (5 f links follow base n cs)
  have n: "name_ok n" using 5(6) by simp
  show ?case
  proof (cases "node_at f (base @ [n])")
    case None
    then show ?thesis using 5 n by (auto split: if_splits)
  next
    case (Some k)
    have k: "k = FDir \<or> (\<exists>t. k = FSymlink t) \<or> ((\<exists>i. k = FFile i) \<or> k = FOther)" by (cases k) auto
    then show ?thesis
    proof (elim disjE)
      assume "k = FDir"
      then show ?thesis using 5(1)[OF Some] 5(3-) n Some by simp
    next
      assume "\<exists>t. k = FSymlink t"
      then obtain t where t: "k = FSymlink t" by blast
      show ?thesis
      proof (cases "cs = [] \<and> \<not> follow")
        case True
        then show ?thesis using 5(4,5,7) n Some t by auto
      next
        case False
        then have "links \<noteq> 0" using 5(4) Some t by (auto split: if_splits)
        moreover have "\<forall>v. Normal v \<in> set (components t @ cs) \<longrightarrow> name_ok v" using 5(6) components_Normal_ok by auto
        ultimately show ?thesis using 5(2)[OF Some t False] 5(3-) Some t False by (auto split: if_splits)
      qed
    qed (use 5 n Some in \<open>auto split: if_splits\<close>)
  qed
qed auto

lemma locate_names:
  assumes "fs_ok f" "locate follow p f = Inr ns"
  shows "list_all name_ok ns" "ns = [] \<or> node_at f (butlast ns) = Some FDir" "real_parents f ns"
proof -
  have r: "list_all name_ok ns \<and> (ns = [] \<or> node_at f (butlast ns) = Some FDir)"
    using resolve_names[OF assms(1), of 40 follow "[]" "components p" ns] assms(2) components_Normal_ok by (auto simp: locate_def)
  then show "list_all name_ok ns" "ns = [] \<or> node_at f (butlast ns) = Some FDir" by blast+
  show "real_parents f ns"
  proof (cases "ns = []")
    case False
    have "real_parents f (butlast ns)" "node_at f (butlast ns) = Some FDir" using r False fs_ok_real_parents[OF assms(1)] by auto
    then have "real_parents f (butlast ns @ [last ns])" by (simp only: real_parents_snoc real_dir_def)
    then show ?thesis using False by simp
  qed (simp add: real_parents_def)
qed

text \<open>A name below a path that resolves to a directory.\<close>

lemma resolve_snoc:
  assumes "resolve f links True base cs = Inr ns" "node_at f ns = Some FDir"
  shows "resolve f links False base (cs @ [Normal n]) = Inr (ns @ [n])"
  using assms
proof (induction f links True base cs rule: resolve.induct)
  case (1 f links base)
  then show ?case by (auto split: option.splits node.splits)
next
  case (5 f links base m cs)
  then show ?case by (auto split: option.splits node.splits if_splits)
qed auto

lemma resolve_follow_dir:
  assumes "resolve f links False base cs = Inr ns" "node_at f ns = Some FDir"
  shows "resolve f links True base cs = Inr ns"
  using assms
proof (induction f links False base cs rule: resolve.induct)
  case (5 f links base m cs)
  then show ?case by (auto split: option.splits node.splits if_splits)
qed auto

lemma canonicalize_Inr: "canonicalize p f = Inr q \<longleftrightarrow> (\<exists>ns. locate True p f = Inr ns \<and> node_at f ns \<noteq> None \<and> q = abs_path ns)"
  by (auto simp: canonicalize_def of_io_Inr io_bind_Inr)

lemma directory_canonicalize:
  assumes "fs_ok f" "symlink_metadata p f = Inr m" "md_kind m = KDirectory" "canonicalize p f = Inr q"
  obtains ns where "locate True p f = Inr ns" "q = abs_path ns" "list_all name_ok ns" "real_dir f ns"
proof -
  obtain ns' where n: "locate False p f = Inr ns'" "node_at f ns' = Some FDir"
    using assms(2,3) by (auto simp: symlink_metadata_def io_bind_Inr split: option.splits)
  have l: "locate True p f = Inr ns'" using resolve_follow_dir n by (simp add: locate_def)
  then show ?thesis using that[OF l] assms(4) locate_names[OF assms(1) l] n(2) by (auto simp: canonicalize_Inr real_dir_def)
qed

text \<open>The text of a prefix of a path's components has these components.\<close>

lemma components_alt:
  "components p = (let h = hd (split_on CHR ''/'' p) in
     if is_absolute p then RootDir # part_component h else if h = ''.'' then [CurDir] else part_component h)
     @ concat (map part_component (tl (split_on CHR ''/'' p)))"
  by (cases "split_on CHR ''/'' p") (auto simp: components_def)

lemma components_join_part:
  assumes "CHR ''/'' \<notin> set s" "s \<noteq> []" "s \<noteq> ''.''"
  shows "components (path_join p s) = components p @ part_component s"
proof -
  have s: "split_on CHR ''/'' s = [s]" "\<not> is_absolute s" using assms(1,2) by (auto simp: split_on_free is_absolute_def split: list.splits)
  show ?thesis
  proof (cases "p = []")
    case True
    then show ?thesis using s assms(2,3) by (simp add: path_join_def components_def part_component_def)
  next
    case False
    obtain q where q: "path_join p s = q @ CHR ''/'' # s" "p = q \<or> p = q @ ''/''" "p = q \<longrightarrow> q \<noteq> []"
    proof (cases "last p = CHR ''/''")
      case True
      then have "p = butlast p @ ''/''" using False by (metis append_butlast_last_id)
      then show ?thesis using that[of "butlast p"] True False s(2) by (simp add: path_join_def)
    next
      case ends: False
      then show ?thesis using that[of p] False s(2) by (simp add: path_join_def)
    qed
    have abs: "is_absolute (q @ CHR ''/'' # s) = is_absolute p" using q(2,3) by (cases q) (auto simp: is_absolute_def)
    have p: "hd (split_on CHR ''/'' p) = hd (split_on CHR ''/'' q)"
      "concat (map part_component (tl (split_on CHR ''/'' p))) = concat (map part_component (tl (split_on CHR ''/'' q)))"
      using q(2) split_on_append_gen[of "CHR ''/''" q "[]"] by (auto simp: part_component_def)
    show ?thesis unfolding q(1) components_alt[of p] components_alt[of "q @ CHR ''/'' # s"] abs p split_on_append_gen s(1) by simp
  qed
qed


definition inner :: "component \<Rightarrow> bool" where
  "inner c \<longleftrightarrow> c = ParentDir \<or> (\<exists>v. c = Normal v \<and> name_ok v)"

definition proper :: "component list \<Rightarrow> bool" where
  "proper cs \<longleftrightarrow> (\<forall>c\<in>set (tl cs). inner c) \<and> (cs \<noteq> [] \<longrightarrow> hd cs = RootDir \<or> hd cs = CurDir \<or> inner (hd cs))"

lemma proper_append: "proper cs \<Longrightarrow> \<forall>c\<in>set ys. inner c \<Longrightarrow> proper (cs @ ys)"
  by (cases cs; cases ys) (auto simp: proper_def)

lemma inner_part: "s \<in> set (split_on CHR ''/'' p) \<Longrightarrow> c \<in> set (part_component s) \<Longrightarrow> inner c"
  using set_split_on[of s "CHR ''/''" p] by (auto simp: part_component_def name_ok_def inner_def split: if_splits)

lemma proper_components: "proper (components p)"
  unfolding components_alt
proof (rule proper_append)
  let ?h = "hd (split_on CHR ''/'' p)"
  have "\<forall>c\<in>set (part_component ?h). inner c" using inner_part[OF hd_in_set[OF split_on_ne]] by blast
  moreover have "part_component ?h = [] \<or> (\<exists>c. part_component ?h = [c])" by (simp add: part_component_def)
  ultimately show "proper (let h = ?h in if is_absolute p then RootDir # part_component h else if h = ''.'' then [CurDir] else part_component h)"
    by (auto simp: Let_def proper_def)
  show "\<forall>c\<in>set (concat (map part_component (tl (split_on CHR ''/'' p)))). inner c"
    using inner_part[OF list.set_sel(2)[OF split_on_ne]] by auto
qed

lemma components_render: "proper cs \<Longrightarrow> components (render cs) = cs"
proof (induction cs rule: rev_induct)
  case Nil
  then show ?case by (simp add: render_def components_def part_component_def)
next
  case (snoc c cs)
  have r: "render (cs @ [c]) = path_join (render cs) (component_text c)" by (simp add: render_def)
  show ?case
  proof (cases cs)
    case Nil
    then show ?thesis using snoc.prems by (auto simp: proper_def inner_def render_def path_join_def component_text_def components_def part_component_def
        name_ok_def split_on_free is_absolute_def split: list.splits)
  next
    case (Cons d ds)
    have c: "c = ParentDir \<or> (\<exists>v. c = Normal v \<and> name_ok v)" using snoc.prems Cons by (simp add: proper_def inner_def)
    have "proper cs" using snoc.prems Cons by (simp add: proper_def)
    moreover have "components (path_join (render cs) (component_text c)) = components (render cs) @ part_component (component_text c)"
      by (rule components_join_part) (use c in \<open>auto simp: component_text_def name_ok_def\<close>)
    moreover have "part_component (component_text c) = [c]" using c by (auto simp: component_text_def part_component_def name_ok_def)
    ultimately show ?thesis using snoc.IH r by simp
  qed
qed

lemma parent_dir_resolve:
  assumes "parent_dir p = Some d" "file_name p = Some n"
  shows "components p = butlast (components p) @ [Normal n]" "locate True d f = resolve f 40 True [] (butlast (components p))"
proof -
  let ?cs = "components p"
  have c: "?cs \<noteq> []" "last ?cs = Normal n" using assms(2) by (auto simp: file_name_def Let_def split: if_splits component.splits)
  show "?cs = butlast ?cs @ [Normal n]" using c by (metis append_butlast_last_id)
  have d: "d = (if render (butlast ?cs) = [] then ''.'' else render (butlast ?cs))"
    using assms(1) by (auto simp: parent_dir_def path_parent_def Let_def split: if_splits)
  have "proper (butlast ?cs)" using proper_components[of p] by (cases ?cs rule: rev_cases) (auto simp: proper_def butlast_append hd_append split: if_splits)
  then have "components (render (butlast ?cs)) = butlast ?cs" by (rule components_render)
  moreover have "components ''.'' = [CurDir]" "components [] = []" by code_simp+
  ultimately show "locate True d f = resolve f 40 True [] (butlast ?cs)" unfolding locate_def d by (auto split: if_splits)
qed



section \<open>What a configuration guarantees\<close>

lemma store_validate_existing_ok:
  assumes "fs_ok f" "store_root_validate_existing p f = Inr root"
  shows "store_ok root f \<and> node_at f (store_names root @ [''blobs'']) = Some FDir"
proof -
  obtain m q where m: "symlink_metadata p f = Inr m" "md_kind m = KDirectory" "canonicalize p f = Inr q" "root = \<lparr>store_path = q\<rparr>"
    "validate_real_directory (blobs_dir root) f = Inr ()"
    using assms(2) by (auto simp: store_root_validate_existing_def bind_result_eq_Inr of_io_Inr split: if_splits)
  obtain ns where ns: "q = abs_path ns" "list_all name_ok ns" "real_dir f ns" using directory_canonicalize[OF assms(1) m(1-3)] by metis
  have c: "canonical (store_path root)" "store_names root = ns" using ns(1,2) m(4) by (simp_all add: canonical_def store_names_def)
  have bn: "list_all name_ok (ns @ [''blobs''])" using ns(2) by (simp add: name_ok_def)
  have "real_parents f (ns @ [''blobs''])" using ns(3) by (simp only: real_parents_snoc)
  moreover have "blobs_dir root = abs_path (ns @ [''blobs''])" using blobs_dir_abs[OF ns(2), of root] m(4) ns(1) by simp
  moreover obtain mb where "symlink_metadata (blobs_dir root) f = Inr mb" "md_kind mb = KDirectory"
    using m(5) by (auto simp: validate_real_directory_def bind_result_eq_Inr of_io_Inr split: if_splits)
  ultimately have "node_at f (ns @ [''blobs'']) = Some FDir" using symlink_metadata_Inr[OF bn] by fastforce
  then show ?thesis using c ns(3) assms(1) by (simp add: store_ok_def)
qed

lemma browse_tree_validate_ok:
  assumes "fs_ok f" "honest f" "browse_tree_root_validate p f = Inr q"
  shows "\<exists>ns. q = abs_path ns \<and> list_all name_ok ns \<and> real_parents f ns \<and> (node_at f ns = None \<or> node_at f ns = Some FDir)"
proof (cases "symlink_metadata p f")
  case (Inr m)
  then have "md_kind m = KDirectory" "canonicalize p f = Inr q" using assms(3) by (auto simp: browse_tree_root_validate_def split: if_splits)
  from directory_canonicalize[OF assms(1) Inr this] show ?thesis by (metis real_dir_def)
next
  case (Inl e)
  then obtain d cp n where d: "e = NotFound" "parent_dir p = Some d" "validate_real_directory d f = Inr ()" "canonicalize d f = Inr cp"
    "file_name p = Some n" "q = path_join cp n"
    using assms(3) by (auto simp: browse_tree_root_validate_def in_canonical_parent_def bind_result_eq_Inr ok_or_eq_Inr split: if_splits)
  obtain m where m: "symlink_metadata d f = Inr m" "md_kind m = KDirectory"
    using d(3) by (auto simp: validate_real_directory_def bind_result_eq_Inr of_io_Inr split: if_splits)
  obtain ns where ns: "locate True d f = Inr ns" "cp = abs_path ns" "list_all name_ok ns" "real_dir f ns"
    using directory_canonicalize[OF assms(1) m d(4)] by metis
  note P = parent_dir_resolve[OF d(2,5)]
  have "resolve f 40 False [] (butlast (components p) @ [Normal n]) = Inr (ns @ [n])"
    using resolve_snoc[of f 40 "[]" "butlast (components p)" ns n] ns(1,4) P(2) by (simp add: real_dir_def)
  then have l: "locate False p f = Inr (ns @ [n])" using P(1) by (simp add: locate_def)
  have n: "name_ok n" using locate_names(1)[OF assms(1) l] by simp
  have "fault_free OpLstat p f \<noteq> Inl NotFound" using assms(2) by (auto simp: fault_free_def honest_def split: option.splits)
  then have "node_at f (ns @ [n]) = None" using Inl d(1) l by (auto simp: symlink_metadata_def io_bind_def split: sum.splits option.splits)
  moreover have "q = abs_path (ns @ [n])" using d(6) ns(2,3) n path_join_abs_join[of ns "[n]"] by simp
  moreover have "real_parents f (ns @ [n])" using ns(4) by (simp only: real_parents_snoc)
  ultimately show ?thesis using ns(3) n by (intro exI[of _ "ns @ [n]"]) simp
qed


definition tree_options1 :: build_tree_options where
  "tree_options1 = \<lparr>bo_store = ''/s/.'', bo_browse_tree = ''/t/../t'', bo_db = None, bo_dry_run = False, bo_hash_digits = 6\<rparr>"


end
