(* ===== verification/Writer.thy ===== *)
theory Writer
  imports Gc
begin

text \<open>
  The catalog writer of \<^verbatim>\<open>catalog.rs\<close>: one thread owns the connection, gathers import records
  into batches, commits a batch as one transaction, and runs garbage collection sessions. The
  thread's receives, the clock and the results SQLite gives are the environment's; responses and
  events are logs.
\<close>

section \<open>Types\<close>

record catalog_writer_config =
  channel_capacity :: nat
  max_batch_records :: nat
  max_batch_latency :: nat
  checkpoint_every_batches :: nat

definition default_writer_config :: catalog_writer_config where
  "default_writer_config = \<lparr>channel_capacity = 64, max_batch_records = 32, max_batch_latency = 25, checkpoint_every_batches = 8\<rparr>"

record catalog_writer_report =
  committed_batches :: u64
  committed_records :: u64
  committed_gc_sessions :: u64
  checkpoints :: u64

record import_write_failure =
  iwf_sequence :: u64
  iwf_context :: string

datatype import_write_outcome = Imported blob_outcome source_outcome | ObservedKnown

type_synonym import_write_response = "import_write_failure + import_write_outcome"

datatype catalog_writer_event = BatchOpened nat u64 | BatchCommitted nat u64 | BatchRolledBack nat u64
  | RecordCommitted u64 import_write_outcome | CheckpointRequested u64 bool | CheckpointCompleted int int int
  | GcBegun | GcCommitted | GcPartiallyCommitted | GcRolledBack | ShutdownFlush nat

text \<open>A response channel is a number; its messages are in the log of responses.\<close>

datatype catalog_write_request =
    ImportedRequest u64 blob_record source_observation nat
  | KnownRequest u64 source_observation u64 nat
  | GcBeginRequest nat
  | GcMarkRequest catalog_blob int nat
  | GcResurrectRequest catalog_blob nat
  | GcSweepRequest catalog_blob nat
  | GcFinishRequest bool bool nat

datatype pending_import_request = PendingImported blob_record source_observation | PendingKnown source_observation u64

record pending_import =
  pi_sequence :: u64
  pi_request :: pending_import_request
  pi_response :: nat

datatype writer_response = ImportResponse import_write_response | GcResponse "unit result" | GcSnapshotResponse "catalog_audit_snapshot result"

text \<open>
  \<open>w_db\<close> is what the connection sees, \<open>w_durable\<close> what has been committed; they differ only
  while a garbage collection transaction is open.
\<close>

record writer_state =
  w_db :: database
  w_durable :: database
  w_pending :: "pending_import list"
  first_pending_at :: "nat option"
  w_report :: catalog_writer_report
  gc_active :: bool
  w_events :: "catalog_writer_event list"
  w_responses :: "(nat \<times> writer_response) list"

text \<open>Each call into SQLite that can fail, named by when it is made.\<close>

datatype writer_point = BatchBegin u64 | BatchRecord u64 u64 | BatchCommit u64 | BatchCheckpoint u64 | GcBeginAt nat | GcStageAt nat | GcCommitAt nat | GcRollbackAt nat
  | GcCheckpoint u64 | ShutdownCheckpoint

record writer_env =
  sql_call :: "writer_point \<Rightarrow> unit result"
  checkpoint_row :: "writer_point \<Rightarrow> (int \<times> int \<times> int) result"

definition emit :: "catalog_writer_event \<Rightarrow> writer_state \<Rightarrow> writer_state" where
  "emit e s = s\<lparr>w_events := w_events s @ [e]\<rparr>"

definition respond :: "nat \<Rightarrow> writer_response \<Rightarrow> writer_state \<Rightarrow> writer_state" where
  "respond ch r s = s\<lparr>w_responses := w_responses s @ [(ch, r)]\<rparr>"


section \<open>Batches\<close>

definition checkpoint :: "writer_env \<Rightarrow> writer_point \<Rightarrow> writer_state \<Rightarrow> writer_state \<times> unit result" where
  "checkpoint env point s =
     (case checkpoint_row env point of
        Inl e \<Rightarrow> (s, Inl e)
      | Inr (busy, log, checkpointed) \<Rightarrow>
          if busy < 0 \<or> log < 0 \<or> checkpointed < 0 then (s, Inl (WriterError CheckpointFailed))
          else case checked_add (checkpoints (w_report s)) 1 of
            None \<Rightarrow> (s, Inl CounterOverflow)
          | Some n \<Rightarrow> (emit (CheckpointCompleted busy log checkpointed) (s\<lparr>w_report := (w_report s)\<lparr>checkpoints := n\<rparr>\<rparr>), Inr ()))"

text \<open>One record inside the transaction of its batch.\<close>

definition apply_pending :: "pending_import \<Rightarrow> database \<Rightarrow> (database \<times> import_write_outcome) result" where
  "apply_pending p db =
     (case pi_request p of
        PendingImported blob obs \<Rightarrow>
          bind_result (record_imported_file_in_transaction db blob obs) (\<lambda>(db', b, s). Inr (db', Imported b s))
      | PendingKnown obs sz \<Rightarrow>
          bind_result (observe_known_source_file_in_transaction db obs sz) (\<lambda>db'. Inr (db', ObservedKnown)))"

text \<open>
  The loop over a batch; an error carries the sequence of the record that failed. \<open>run_batch\<close> is
  the loop of the writer, where executing the statements of a record may fail; \<open>apply_batch\<close> is
  the same loop without such failures.
\<close>

fun run_batch :: "(u64 \<Rightarrow> unit result) \<Rightarrow> pending_import list \<Rightarrow> database \<Rightarrow> (u64 \<times> error) + (database \<times> import_write_outcome list)" where
  "run_batch call [] db = Inr (db, [])"
| "run_batch call (p # ps) db =
     (case bind_result (call (pi_sequence p)) (\<lambda>_. apply_pending p db) of
        Inl e \<Rightarrow> Inl (pi_sequence p, e)
      | Inr (db1, out) \<Rightarrow> (case run_batch call ps db1 of Inl e \<Rightarrow> Inl e | Inr (db2, outs) \<Rightarrow> Inr (db2, out # outs)))"

fun apply_batch :: "pending_import list \<Rightarrow> database \<Rightarrow> (u64 \<times> error) + (database \<times> import_write_outcome list)" where
  "apply_batch [] db = Inr (db, [])"
| "apply_batch (p # ps) db =
     (case apply_pending p db of
        Inl e \<Rightarrow> Inl (pi_sequence p, e)
      | Inr (db1, out) \<Rightarrow> (case apply_batch ps db1 of Inl e \<Rightarrow> Inl e | Inr (db2, outs) \<Rightarrow> Inr (db2, out # outs)))"

text \<open>Every record of a batch that rolled back gets the same failure.\<close>

definition fail_all :: "u64 \<Rightarrow> string \<Rightarrow> writer_state \<Rightarrow> writer_state" where
  "fail_all sequence context s =
     s\<lparr>w_pending := [], w_responses := w_responses s @
         map (\<lambda>p. (pi_response p, ImportResponse (Inl \<lparr>iwf_sequence = sequence, iwf_context = context\<rparr>))) (w_pending s)\<rparr>"

text \<open>The tail of \<open>flush_imports\<close>, after the commit.\<close>

definition acknowledge :: "import_write_outcome list \<Rightarrow> writer_state \<Rightarrow> writer_state" where
  "acknowledge outs s =
     s\<lparr>w_pending := [],
       w_events := w_events s @ map (\<lambda>(p, out). RecordCommitted (pi_sequence p) out) (zip (w_pending s) outs),
       w_responses := w_responses s @ map (\<lambda>(p, out). (pi_response p, ImportResponse (Inr out))) (zip (w_pending s) outs)\<rparr>"

definition after_commit :: "writer_env \<Rightarrow> catalog_writer_config \<Rightarrow> u64 \<Rightarrow> nat \<Rightarrow> import_write_outcome list \<Rightarrow> writer_state \<Rightarrow> writer_state \<times> unit result" where
  "after_commit env config commit_sequence batch_size outs s =
     (case checked_add (committed_batches (w_report s)) 1 of
        None \<Rightarrow> (s, Inl CounterOverflow)
      | Some nb \<Rightarrow>
          let s1 = s\<lparr>w_report := (w_report s)\<lparr>committed_batches := nb\<rparr>\<rparr>
          in case checked_add (committed_records (w_report s1)) (of_nat (length outs)) of
               None \<Rightarrow> (s1, Inl CounterOverflow)
             | Some nr \<Rightarrow>
                 let s2 = emit (BatchCommitted batch_size commit_sequence) (acknowledge outs (s1\<lparr>w_report := (w_report s1)\<lparr>committed_records := nr\<rparr>\<rparr>))
                 in if nb mod of_nat (checkpoint_every_batches config) = 0
                    then checkpoint env (BatchCheckpoint commit_sequence) (emit (CheckpointRequested commit_sequence False) s2)
                    else (s2, Inr ()))"

definition flush_imports :: "writer_env \<Rightarrow> catalog_writer_config \<Rightarrow> writer_state \<Rightarrow> writer_state \<times> unit result" where
  "flush_imports env config s =
     (case w_pending s of
        [] \<Rightarrow> (s, Inr ())
      | p0 # _ \<Rightarrow>
          let batch_size = length (w_pending s); commit_sequence = committed_batches (w_report s) + 1;
              s1 = emit (BatchOpened batch_size commit_sequence) s
          in case sql_call env (BatchBegin commit_sequence) of
               Inl e \<Rightarrow> (emit (BatchRolledBack batch_size (pi_sequence p0)) s1, Inl e)
             | Inr _ \<Rightarrow>
                 (case run_batch (\<lambda>q. sql_call env (BatchRecord commit_sequence q)) (w_pending s) (w_db s) of
                    Inl (sequence, e) \<Rightarrow>
                      (fail_all sequence ''catalog import batch rolled back'' (emit (BatchRolledBack batch_size sequence) s1), Inl e)
                  | Inr (db', outs) \<Rightarrow>
                      (case sql_call env (BatchCommit commit_sequence) of
                         Inl e \<Rightarrow>
                           (fail_all (pi_sequence p0) ''catalog import batch commit failed and was rolled back''
                              (emit (BatchRolledBack batch_size (pi_sequence p0)) s1), Inl e)
                       | Inr _ \<Rightarrow> after_commit env config commit_sequence batch_size outs (s1\<lparr>w_db := db', w_durable := db'\<rparr>))))"


section \<open>Requests\<close>

definition pending_from :: "catalog_write_request \<Rightarrow> pending_import option" where
  "pending_from request =
     (case request of
        ImportedRequest sequence blob obs ch \<Rightarrow> Some \<lparr>pi_sequence = sequence, pi_request = PendingImported blob obs, pi_response = ch\<rparr>
      | KnownRequest sequence obs sz ch \<Rightarrow> Some \<lparr>pi_sequence = sequence, pi_request = PendingKnown obs sz, pi_response = ch\<rparr>
      | _ \<Rightarrow> None)"

definition reject_import :: "pending_import \<Rightarrow> string \<Rightarrow> writer_state \<Rightarrow> writer_state" where
  "reject_import p why s = respond (pi_response p) (ImportResponse (Inl \<lparr>iwf_sequence = pi_sequence p, iwf_context = why\<rparr>)) s"

definition reject_terminal_request :: "catalog_write_request \<Rightarrow> writer_state \<Rightarrow> writer_state" where
  "reject_terminal_request request s =
     (case request of
        ImportedRequest sequence _ _ ch \<Rightarrow>
          respond ch (ImportResponse (Inl \<lparr>iwf_sequence = sequence, iwf_context = ''catalog writer terminated before completing request''\<rparr>)) s
      | KnownRequest sequence _ _ ch \<Rightarrow>
          respond ch (ImportResponse (Inl \<lparr>iwf_sequence = sequence, iwf_context = ''catalog writer terminated before completing request''\<rparr>)) s
      | GcBeginRequest ch \<Rightarrow> respond ch (GcSnapshotResponse (Inl (WriterError WriterTerminated))) s
      | GcMarkRequest _ _ ch \<Rightarrow> respond ch (GcResponse (Inl (WriterError WriterTerminated))) s
      | GcResurrectRequest _ ch \<Rightarrow> respond ch (GcResponse (Inl (WriterError WriterTerminated))) s
      | GcSweepRequest _ ch \<Rightarrow> respond ch (GcResponse (Inl (WriterError WriterTerminated))) s
      | GcFinishRequest _ _ ch \<Rightarrow> respond ch (GcResponse (Inl (WriterError WriterTerminated))) s)"

text \<open>
  \<open>BEGIN IMMEDIATE\<close>, the version check and the inspection; an error is returned after a
  rollback, whose own failure only changes the error's text.
\<close>

definition gc_begin :: "writer_env \<Rightarrow> nat \<Rightarrow> nat \<Rightarrow> writer_state \<Rightarrow> writer_state" where
  "gc_begin env i ch s =
     (if gc_active s then respond ch (GcSnapshotResponse (Inl (WriterError SessionActive))) s
      else case bind_result (sql_call env (GcBeginAt i)) (\<lambda>_.
                bind_result (require_current_schema (w_db s)) (\<lambda>_. inspect_catalog_connection (w_db s))) of
             Inl e \<Rightarrow> respond ch (GcSnapshotResponse (Inl e)) s
           | Inr snapshot \<Rightarrow> respond ch (GcSnapshotResponse (Inr snapshot)) (emit GcBegun (s\<lparr>gc_active := True\<rparr>)))"

definition gc_stage :: "nat \<Rightarrow> database result \<Rightarrow> writer_state \<Rightarrow> writer_state" where
  "gc_stage ch r s =
     (case r of Inl e \<Rightarrow> respond ch (GcResponse (Inl e)) s | Inr db' \<Rightarrow> respond ch (GcResponse (Inr ())) (s\<lparr>w_db := db'\<rparr>))"

definition gc_finish :: "writer_env \<Rightarrow> catalog_writer_config \<Rightarrow> nat \<Rightarrow> bool \<Rightarrow> bool \<Rightarrow> nat \<Rightarrow> writer_state \<Rightarrow> writer_state \<times> unit result" where
  "gc_finish env config i commit partial ch s =
     (let answer = respond ch (GcResponse (Inr ()))
      in if \<not> gc_active s then (respond ch (GcResponse (Inl (WriterError NoActiveSession))) s, Inr ())
         else if commit then
           (case sql_call env (GcCommitAt i) of
              Inl e \<Rightarrow> (respond ch (GcResponse (Inl e)) s, Inr ())
            | Inr _ \<Rightarrow>
                let s1 = s\<lparr>gc_active := False, w_durable := w_db s\<rparr>
                in case checked_add (committed_gc_sessions (w_report s1)) 1 of
                     None \<Rightarrow> (s1, Inl CounterOverflow)
                   | Some n \<Rightarrow>
                       let s2 = emit (if partial then GcPartiallyCommitted else GcCommitted) (s1\<lparr>w_report := (w_report s1)\<lparr>committed_gc_sessions := n\<rparr>\<rparr>)
                       in then_step (if n mod of_nat (checkpoint_every_batches config) = 0
                                     then checkpoint env (GcCheckpoint n) (emit (CheckpointRequested (committed_batches (w_report s2)) False) s2)
                                     else (s2, Inr ()))
                            (\<lambda>s3. (answer s3, Inr ())))
         else
           (case sql_call env (GcRollbackAt i) of
              Inl e \<Rightarrow> (respond ch (GcResponse (Inl e)) s, Inr ())
            | Inr _ \<Rightarrow> (answer (emit GcRolledBack (s\<lparr>gc_active := False, w_db := w_durable s\<rparr>)), Inr ())))"

definition gc_request :: "writer_env \<Rightarrow> catalog_writer_config \<Rightarrow> nat \<Rightarrow> catalog_write_request \<Rightarrow> writer_state \<Rightarrow> writer_state \<times> unit result" where
  "gc_request env config i request s =
     (case request of
        GcBeginRequest ch \<Rightarrow> (gc_begin env i ch s, Inr ())
      | GcMarkRequest blob now ch \<Rightarrow> (gc_stage ch (stage_gc_mark (gc_active s) (sql_call env (GcStageAt i)) blob now (w_db s)) s, Inr ())
      | GcResurrectRequest blob ch \<Rightarrow> (gc_stage ch (stage_gc_resurrect (gc_active s) (sql_call env (GcStageAt i)) blob (w_db s)) s, Inr ())
      | GcSweepRequest blob ch \<Rightarrow> (gc_stage ch (stage_gc_sweep (gc_active s) (sql_call env (GcStageAt i)) blob (w_db s)) s, Inr ())
      | GcFinishRequest commit partial ch \<Rightarrow> gc_finish env config i commit partial ch s
      | _ \<Rightarrow> (s, Inr ()))"


section \<open>The loop\<close>

datatype received = Received catalog_write_request | Timeout | Disconnected

text \<open>One turn of the loop: the clock before the receive, what was received, the clock after.\<close>

record turn =
  t_before :: nat
  t_received :: received
  t_after :: nat

definition expired :: "catalog_writer_config \<Rightarrow> writer_state \<Rightarrow> nat \<Rightarrow> bool" where
  "expired config s now = (case first_pending_at s of None \<Rightarrow> False | Some first \<Rightarrow> now - first \<ge> max_batch_latency config)"

definition flush_and_reset :: "writer_env \<Rightarrow> catalog_writer_config \<Rightarrow> writer_state \<Rightarrow> writer_state \<times> unit result" where
  "flush_and_reset env config s = then_step (flush_imports env config s) (\<lambda>s1. (s1\<lparr>first_pending_at := None\<rparr>, Inr ()))"

definition accept_import :: "writer_env \<Rightarrow> catalog_writer_config \<Rightarrow> nat \<Rightarrow> pending_import \<Rightarrow> writer_state \<Rightarrow> writer_state \<times> unit result" where
  "accept_import env config now p s =
     then_step (if expired config s now then flush_and_reset env config s else (s, Inr ())) (\<lambda>s1.
     if gc_active s1 then (reject_import p ''catalog writer rejects import records during an active GC session'' s1, Inr ())
     else let s2 = s1\<lparr>w_pending := w_pending s1 @ [p],
                      first_pending_at := (case first_pending_at s1 of None \<Rightarrow> Some now | Some t \<Rightarrow> Some t)\<rparr>
          in if length (w_pending s2) \<ge> max_batch_records config then flush_and_reset env config s2 else (s2, Inr ()))"

definition shutdown :: "writer_env \<Rightarrow> catalog_writer_config \<Rightarrow> nat \<Rightarrow> writer_state \<Rightarrow> writer_state \<times> unit result" where
  "shutdown env config i s =
     (if gc_active s then
        (case sql_call env (GcRollbackAt i) of
           Inl _ \<Rightarrow> (s, Inl (WriterError ShutdownWithActiveSession))
         | Inr _ \<Rightarrow> (s\<lparr>w_db := w_durable s\<rparr>, Inl (WriterError ShutdownWithActiveSession)))
      else
        then_step (if w_pending s \<noteq> []
                   then then_step (flush_imports env config s) (\<lambda>s1. (emit (ShutdownFlush (length (w_pending s))) s1, Inr ()))
                   else (s, Inr ())) (\<lambda>s1.
        checkpoint env ShutdownCheckpoint (emit (CheckpointRequested (committed_batches (w_report s1)) True) s1)))"

text \<open>
  A turn in which the deadline has passed flushes first and then receives, as the \<open>continue\<close>
  does. The result says whether the loop returns.
\<close>

definition writer_step :: "writer_env \<Rightarrow> catalog_writer_config \<Rightarrow> nat \<Rightarrow> turn \<Rightarrow> writer_state \<Rightarrow> writer_state \<times> bool result" where
  "writer_step env config i t s =
     then_step (if expired config s (t_before t) then flush_and_reset env config s else (s, Inr ())) (\<lambda>s1.
     case t_received t of
       Received request \<Rightarrow>
         (case pending_from request of
            Some p \<Rightarrow> then_step (accept_import env config (t_after t) p s1) (\<lambda>s2. (s2, Inr False))
          | None \<Rightarrow>
              then_step (if w_pending s1 \<noteq> [] then flush_and_reset env config s1 else (s1, Inr ())) (\<lambda>s2.
              then_step (gc_request env config i request s2) (\<lambda>s3. (s3, Inr False))))
     | Timeout \<Rightarrow> then_step (flush_and_reset env config s1) (\<lambda>s2. (s2, Inr False))
     | Disconnected \<Rightarrow> then_step (shutdown env config i s1) (\<lambda>s2. (s2, Inr True)))"

text \<open>The loop over the turns; \<open>Inr False\<close> is a loop that still waits for a request.\<close>

fun writer_loop_inner :: "writer_env \<Rightarrow> catalog_writer_config \<Rightarrow> nat \<Rightarrow> turn list \<Rightarrow> writer_state \<Rightarrow> (writer_state \<times> bool result) \<times> turn list" where
  "writer_loop_inner env config i [] s = ((s, Inr False), [])"
| "writer_loop_inner env config i (t # ts) s =
     (case writer_step env config i t s of
        (s1, Inl e) \<Rightarrow> ((s1, Inl e), ts)
      | (s1, Inr True) \<Rightarrow> ((s1, Inr True), ts)
      | (s1, Inr False) \<Rightarrow> writer_loop_inner env config (i + 1) ts s1)"

text \<open>After an error the requests still queued are rejected.\<close>

fun reject_queued :: "turn list \<Rightarrow> writer_state \<Rightarrow> writer_state" where
  "reject_queued [] s = s"
| "reject_queued (t # ts) s =
     (case t_received t of Received request \<Rightarrow> reject_queued ts (reject_terminal_request request s) | _ \<Rightarrow> reject_queued ts s)"

definition writer_loop :: "writer_env \<Rightarrow> catalog_writer_config \<Rightarrow> turn list \<Rightarrow> writer_state \<Rightarrow> writer_state \<times> bool result" where
  "writer_loop env config ts s =
     (case writer_loop_inner env config 0 ts s of
        ((s1, Inl e), rest) \<Rightarrow> (reject_queued rest s1, Inl e)
      | (r, _) \<Rightarrow> r)"

definition writer_start :: "database \<Rightarrow> writer_state" where
  "writer_start db = \<lparr>w_db = db, w_durable = db, w_pending = [], first_pending_at = None,
     w_report = \<lparr>committed_batches = 0, committed_records = 0, committed_gc_sessions = 0, checkpoints = 0\<rparr>,
     gc_active = False, w_events = [], w_responses = []\<rparr>"

text \<open>\<open>ImportWriteTicket::resolve_detailed\<close>, once the writer has stopped: a channel nobody answered is closed.\<close>

definition resolve_detailed :: "u64 \<Rightarrow> nat \<Rightarrow> writer_state \<Rightarrow> import_write_response" where
  "resolve_detailed sequence ch s =
     (case map_of (w_responses s) ch of
        Some (ImportResponse r) \<Rightarrow> r
      | _ \<Rightarrow> Inl \<lparr>iwf_sequence = sequence, iwf_context = ''wait for catalog writer record outcome''\<rparr>)"

end
