(* ===== verification/WriterRuns.thy ===== *)
theory WriterRuns
  imports Writer "HOL-Library.Sublist" "HOL-Library.Multiset"
begin

text \<open>
  What the catalog writer guarantees, whatever the clock and SQLite do: the durable catalog is
  that of a serial history of whole transactions, and every import ticket is answered once.
\<close>

section \<open>The serial history\<close>

text \<open>
  What the writer does to the durable catalog, without batching, deadlines and failures: a
  history of transactions, each a whole batch of imports or a whole garbage collection session.
\<close>

datatype writer_tx = TxImports "pending_import list" | TxGc "catalog_write_request list"

definition stage_op :: "database \<Rightarrow> catalog_write_request \<Rightarrow> database" where
  "stage_op db request =
     (case (case request of
              GcMarkRequest blob now _ \<Rightarrow> stage_gc_mark True (Inr ()) blob now db
            | GcResurrectRequest blob _ \<Rightarrow> stage_gc_resurrect True (Inr ()) blob db
            | GcSweepRequest blob _ \<Rightarrow> stage_gc_sweep True (Inr ()) blob db
            | _ \<Rightarrow> Inr db) of Inl _ \<Rightarrow> db | Inr db' \<Rightarrow> db')"

fun replay :: "writer_tx list \<Rightarrow> database \<Rightarrow> (database \<times> import_write_outcome list) option" where
  "replay [] db = Some (db, [])"
| "replay (TxImports ps # txs) db =
     (case apply_batch ps db of Inl _ \<Rightarrow> None | Inr (db1, outs) \<Rightarrow> map_option (\<lambda>(db2, outs'). (db2, outs @ outs')) (replay txs db1))"
| "replay (TxGc ops # txs) db = replay txs (foldl stage_op db ops)"

fun tx_imports :: "writer_tx list \<Rightarrow> pending_import list" where
  "tx_imports [] = []"
| "tx_imports (TxImports ps # txs) = ps @ tx_imports txs"
| "tx_imports (TxGc ops # txs) = tx_imports txs"

fun tx_batches :: "writer_tx list \<Rightarrow> nat" where
  "tx_batches [] = 0"
| "tx_batches (TxImports ps # txs) = Suc (tx_batches txs)"
| "tx_batches (TxGc ops # txs) = tx_batches txs"

definition ok_of :: "nat \<times> writer_response \<Rightarrow> (nat \<times> import_write_outcome) option" where
  "ok_of = (\<lambda>(ch, r). case r of ImportResponse (Inr out) \<Rightarrow> Some (ch, out) | _ \<Rightarrow> None)"

lemma ok_of_simps [simp]: "ok_of (ch, ImportResponse (Inr out)) = Some (ch, out)" "ok_of (ch, ImportResponse (Inl f)) = None"
  "ok_of (ch, GcResponse g) = None" "ok_of (ch, GcSnapshotResponse h) = None"
  by (simp_all add: ok_of_def)

definition ok_responses :: "writer_state \<Rightarrow> (nat \<times> import_write_outcome) list" where
  "ok_responses s = List.map_filter ok_of (w_responses s)"

definition import_requests :: "turn list \<Rightarrow> pending_import list" where
  "import_requests ts = List.map_filter (\<lambda>t. case t_received t of Received request \<Rightarrow> pending_from request | _ \<Rightarrow> None) ts"

lemma replay_append: "replay (txs @ txs') db = (case replay txs db of None \<Rightarrow> None | Some (db1, outs) \<Rightarrow> map_option (\<lambda>(db2, outs'). (db2, outs @ outs')) (replay txs' db1))"
proof (induction txs arbitrary: db)
  case (Cons t txs)
  show ?case by (cases t) (auto simp: Cons.IH map_option_case split: sum.splits option.splits)
qed (auto simp: map_option_case split: option.splits)

lemma tx_append [simp]: "tx_imports (txs @ txs') = tx_imports txs @ tx_imports txs'" "tx_batches (txs @ txs') = tx_batches txs + tx_batches txs'"
  by (induction txs rule: tx_imports.induct) auto

lemma run_batch_Inr: "run_batch call ps db = Inr x \<Longrightarrow> apply_batch ps db = Inr x"
  by (induction ps arbitrary: db x) (auto simp: bind_result_eq_Inr split: sum.splits)

lemma run_batch_quiet: "(\<And>q. call q = Inr ()) \<Longrightarrow> run_batch call ps db = apply_batch ps db"
  by (induction ps arbitrary: db) (auto split: sum.splits)

lemma apply_batch_length: "apply_batch ps db = Inr (db', outs) \<Longrightarrow> length outs = length ps"
  by (induction ps arbitrary: db outs) (auto split: sum.splits)

lemma replay_length: "replay txs db = Some (db', outs) \<Longrightarrow> length outs = length (tx_imports txs)"
  by (induction txs arbitrary: db outs rule: tx_imports.induct) (auto split: sum.splits dest: apply_batch_length)

definition batch_sizes :: "nat \<Rightarrow> writer_tx list \<Rightarrow> bool" where
  "batch_sizes mx txs \<longleftrightarrow> list_all (\<lambda>tx. case tx of TxImports ps \<Rightarrow> ps \<noteq> [] \<and> length ps \<le> mx | TxGc _ \<Rightarrow> True) txs"

lemma batch_sizes_count: "batch_sizes mx txs \<Longrightarrow> tx_batches txs \<le> length (tx_imports txs)"
proof (induction txs rule: tx_imports.induct)
  case (2 ps txs)
  then show ?case by (cases ps) (auto simp: batch_sizes_def)
qed (auto simp: batch_sizes_def)

lemma map_filter_append: "List.map_filter f (xs @ ys) = List.map_filter f xs @ List.map_filter f ys"
  by (induction xs) (auto simp: List.map_filter_simps split: option.splits)

text \<open>The invariant: the durable catalog and the acknowledgements are those of a history.\<close>

definition ledger :: "bool \<Rightarrow> database \<Rightarrow> nat \<Rightarrow> pending_import list \<Rightarrow> pending_import list \<Rightarrow> writer_state \<Rightarrow> bool" where
  "ledger gc db mx reqs pend s \<longleftrightarrow> (\<exists>txs outs. replay txs db = Some (w_durable s, outs)
     \<and> ok_responses s = zip (map pi_response (tx_imports txs)) outs \<and> subseq (tx_imports txs @ pend) reqs \<and> batch_sizes mx txs
     \<and> unat (committed_records (w_report s)) = length (tx_imports txs) \<and> unat (committed_batches (w_report s)) = tx_batches txs
     \<and> (gc \<or> (\<forall>ops. TxGc ops \<notin> set txs)))"

definition session :: "writer_state \<Rightarrow> bool" where
  "session s \<longleftrightarrow> (if gc_active s then w_pending s = [] \<and> (\<exists>ops. w_db s = foldl stage_op (w_durable s) ops) else w_db s = w_durable s)"

lemma ledger_drop: "ledger gc db mx reqs pend s \<Longrightarrow> ledger gc db mx reqs [] s"
  unfolding ledger_def by (metis append_Nil2 prefixI prefix_imp_subseq subseq_order.trans)

lemma ledger_mono: "ledger gc db mx reqs pend s \<Longrightarrow> subseq reqs reqs' \<Longrightarrow> ledger gc db mx reqs' pend s"
  unfolding ledger_def using subseq_order.trans by blast

text \<open>The parts of the state the invariants read.\<close>

lemma ledger_cong:
  "w_durable s' = w_durable s \<Longrightarrow> ok_responses s' = ok_responses s \<Longrightarrow> w_report s' = w_report s \<Longrightarrow> ledger gc db mx reqs pend s' = ledger gc db mx reqs pend s"
  by (simp add: ledger_def)

lemma emit_fields [simp]: "w_db (emit e s) = w_db s" "w_durable (emit e s) = w_durable s" "w_pending (emit e s) = w_pending s"
  "first_pending_at (emit e s) = first_pending_at s" "w_report (emit e s) = w_report s" "gc_active (emit e s) = gc_active s"
  "w_responses (emit e s) = w_responses s" "ok_responses (emit e s) = ok_responses s"
  by (simp_all add: emit_def ok_responses_def)

lemma respond_fields [simp]: "w_db (respond c r s) = w_db s" "w_durable (respond c r s) = w_durable s" "w_pending (respond c r s) = w_pending s"
  "first_pending_at (respond c r s) = first_pending_at s" "w_report (respond c r s) = w_report s" "gc_active (respond c r s) = gc_active s"
  "w_responses (respond c r s) = w_responses s @ [(c, r)]"
  by (simp_all add: respond_def)

lemma ok_respond [simp]: "(\<And>out. r \<noteq> ImportResponse (Inr out)) \<Longrightarrow> ok_responses (respond c r s) = ok_responses s"
proof -
  assume "\<And>out. r \<noteq> ImportResponse (Inr out)"
  then have "ok_of (c, r) = None" by (auto simp: ok_of_def split: writer_response.splits sum.splits)
  then show ?thesis by (simp add: ok_responses_def map_filter_append List.map_filter_simps)
qed

lemma ledger_simps [simp]:
  "ledger gc db mx reqs pend (s\<lparr>w_db := x\<rparr>) = ledger gc db mx reqs pend s" "ledger gc db mx reqs pend (s\<lparr>gc_active := b\<rparr>) = ledger gc db mx reqs pend s"
  "ledger gc db mx reqs pend (s\<lparr>w_pending := ps\<rparr>) = ledger gc db mx reqs pend s" "ledger gc db mx reqs pend (s\<lparr>first_pending_at := t\<rparr>) = ledger gc db mx reqs pend s"
  "ledger gc db mx reqs pend (emit e s) = ledger gc db mx reqs pend s"
  "(\<And>out. r \<noteq> ImportResponse (Inr out)) \<Longrightarrow> ledger gc db mx reqs pend (respond c r s) = ledger gc db mx reqs pend s"
  by (simp_all add: ledger_def) (simp_all add: ok_responses_def)

lemma checkpoint_spec:
  assumes "checkpoint env point s = (s', r)"
  shows "w_db s' = w_db s \<and> w_durable s' = w_durable s \<and> w_pending s' = w_pending s \<and> first_pending_at s' = first_pending_at s
    \<and> gc_active s' = gc_active s \<and> w_responses s' = w_responses s \<and> committed_batches (w_report s') = committed_batches (w_report s)
    \<and> committed_records (w_report s') = committed_records (w_report s)"
  using assms by (auto simp: checkpoint_def split: sum.splits if_splits option.splits)


text \<open>A batch that commits appends one transaction to the history.\<close>

lemma ok_acknowledge:
  assumes "length outs = length (w_pending s)"
  shows "ok_responses (acknowledge outs s) = ok_responses s @ zip (map pi_response (w_pending s)) outs"
proof -
  have "List.map_filter ok_of
      (map (\<lambda>(p, out). (pi_response p, ImportResponse (Inr out))) (zip ps outs)) = zip (map pi_response ps) outs" if "length outs = length ps" for ps
    using that by (induction outs ps rule: list_induct2) (auto simp: List.map_filter_simps)
  from this[OF assms] show ?thesis by (simp add: ok_responses_def acknowledge_def map_filter_append)
qed

lemma ok_fail_all [simp]: "ok_responses (fail_all sequence context s) = ok_responses s"
proof -
  have "List.map_filter ok_of
      (map (\<lambda>p. (pi_response p, ImportResponse (Inl f))) ps) = []" for f ps
    by (induction ps) (auto simp: List.map_filter_simps)
  then show ?thesis by (simp add: ok_responses_def fail_all_def map_filter_append)
qed

lemma fail_all_fields [simp]: "w_db (fail_all q c s) = w_db s" "w_durable (fail_all q c s) = w_durable s" "w_pending (fail_all q c s) = []"
  "first_pending_at (fail_all q c s) = first_pending_at s" "w_report (fail_all q c s) = w_report s" "gc_active (fail_all q c s) = gc_active s"
  by (simp_all add: fail_all_def)

lemma acknowledge_fields [simp]: "w_db (acknowledge o1 s) = w_db s" "w_durable (acknowledge o1 s) = w_durable s" "w_pending (acknowledge o1 s) = []"
  "first_pending_at (acknowledge o1 s) = first_pending_at s" "w_report (acknowledge o1 s) = w_report s" "gc_active (acknowledge o1 s) = gc_active s"
  by (simp_all add: acknowledge_def)

lemma after_commit_spec:
  assumes "after_commit env config q n outs s = (s', r)" "length outs = length (w_pending s)"
    "unat (committed_batches (w_report s)) + 1 < 2 ^ 64" "unat (committed_records (w_report s)) + length outs < 2 ^ 64"
  shows "w_db s' = w_db s" "w_durable s' = w_durable s" "w_pending s' = []" "first_pending_at s' = first_pending_at s" "gc_active s' = gc_active s"
    "unat (committed_batches (w_report s')) = unat (committed_batches (w_report s)) + 1"
    "unat (committed_records (w_report s')) = unat (committed_records (w_report s)) + length outs"
    "w_responses s' = w_responses (acknowledge outs s)"
proof -
  let ?rep = "(w_report s)\<lparr>committed_batches := committed_batches (w_report s) + 1, committed_records := committed_records (w_report s) + of_nat (length outs)\<rparr>"
  let ?s2 = "emit (BatchCommitted n q) (acknowledge outs (s\<lparr>w_report := ?rep\<rparr>))"
  have l: "unat (of_nat (length outs) :: u64) = length outs" using assms(4) by (intro unat_of_nat_u64) simp
  have a: "checked_add (committed_batches (w_report s)) 1 = Some (committed_batches (w_report s) + 1)"
    "checked_add (committed_records (w_report s)) (of_nat (length outs)) = Some (committed_records (w_report s) + of_nat (length outs))"
    using assms(3,4) l by (simp_all add: checked_add_Some_iff)
  have "(if (committed_batches (w_report s) + 1) mod of_nat (checkpoint_every_batches config) = 0
      then checkpoint env (BatchCheckpoint q) (emit (CheckpointRequested q False) ?s2) else (?s2, Inr ())) = (s', r)"
    using assms(1) a by (simp add: after_commit_def Let_def)
  then have s': "w_db s' = w_db ?s2 \<and> w_durable s' = w_durable ?s2 \<and> w_pending s' = w_pending ?s2 \<and> first_pending_at s' = first_pending_at ?s2
    \<and> gc_active s' = gc_active ?s2 \<and> w_responses s' = w_responses ?s2 \<and> committed_batches (w_report s') = committed_batches (w_report ?s2)
    \<and> committed_records (w_report s') = committed_records (w_report ?s2)"
    by (auto split: if_splits dest: checkpoint_spec)
  then show "w_db s' = w_db s" "w_durable s' = w_durable s" "w_pending s' = []" "first_pending_at s' = first_pending_at s" "gc_active s' = gc_active s"
    "w_responses s' = w_responses (acknowledge outs s)" by (simp_all add: acknowledge_def)
  show "unat (committed_batches (w_report s')) = unat (committed_batches (w_report s)) + 1"
    "unat (committed_records (w_report s')) = unat (committed_records (w_report s)) + length outs"
    using s' assms(3,4) l by (simp_all add: unat_add_bounded)
qed

lemma flush_cases:
  assumes "flush_imports env config s = (s', r)" "w_pending s \<noteq> []"
  obtains (rolled) "w_durable s' = w_durable s" "w_db s' = w_db s" "ok_responses s' = ok_responses s" "w_report s' = w_report s"
      "gc_active s' = gc_active s" "first_pending_at s' = first_pending_at s" "r \<noteq> Inr ()"
  | (committed) db' outs where "apply_batch (w_pending s) (w_db s) = Inr (db', outs)"
      "after_commit env config (committed_batches (w_report s) + 1) (length (w_pending s)) outs
         (emit (BatchOpened (length (w_pending s)) (committed_batches (w_report s) + 1)) s\<lparr>w_db := db', w_durable := db'\<rparr>) = (s', r)"
proof -
  let ?q = "committed_batches (w_report s) + 1"
  obtain p0 ps where p: "w_pending s = p0 # ps" using assms(2) by (cases "w_pending s") auto
  note run = assms(1)[unfolded flush_imports_def p list.case, folded p, unfolded Let_def]
  show ?thesis
  proof (cases "sql_call env (BatchBegin ?q)")
    case (Inl e)
    then show ?thesis using run by (intro rolled) auto
  next
    case b: (Inr u)
    show ?thesis
    proof (cases "run_batch (\<lambda>q. sql_call env (BatchRecord ?q q)) (w_pending s) (w_db s)")
      case (Inl e)
      then show ?thesis using run b by (intro rolled) (auto split: prod.splits)
    next
      case a: (Inr x)
      show ?thesis
      proof (cases "sql_call env (BatchCommit ?q)")
        case (Inl e)
        then show ?thesis using run b a by (intro rolled) (auto split: prod.splits)
      next
        case (Inr v)
        then show ?thesis using run b a run_batch_Inr[OF a] by (intro committed[of "fst x" "snd x"]) (auto split: prod.splits)
      qed
    qed
  qed
qed

lemma flush_spec:
  assumes "flush_imports env config s = (s', r)" "ledger gc db mx reqs (w_pending s) s" "w_db s = w_durable s" "length (w_pending s) \<le> mx" "length reqs < 2 ^ 64"
  shows "ledger gc db mx reqs [] s' \<and> gc_active s' = gc_active s \<and> first_pending_at s' = first_pending_at s \<and> w_db s' = w_durable s'
    \<and> (r = Inr () \<longrightarrow> w_pending s' = [])"
proof -
  have L: "ledger gc db mx reqs [] s" by (rule ledger_drop[OF assms(2)])
  show ?thesis
  proof (cases "w_pending s")
    case Nil
    then show ?thesis using assms L by (simp add: flush_imports_def)
  next
    case (Cons p0 ps)
    let ?q = "committed_batches (w_report s) + 1"
    let ?s1 = "emit (BatchOpened (length (w_pending s)) ?q) s"
    have ne: "w_pending s \<noteq> []" using Cons by simp
    show ?thesis using assms(1) ne
    proof (cases rule: flush_cases)
      case rolled
      then show ?thesis using L assms(3) ledger_cong[of s' s] by simp
    next
      case (committed db' outs)
      have len: "length outs = length (w_pending s)" by (rule apply_batch_length[OF committed(1)])
      obtain txs outs0 where t: "replay txs db = Some (w_durable s, outs0)" "ok_responses s = zip (map pi_response (tx_imports txs)) outs0"
        "subseq (tx_imports txs @ w_pending s) reqs" "batch_sizes mx txs"
        "unat (committed_records (w_report s)) = length (tx_imports txs)" "unat (committed_batches (w_report s)) = tx_batches txs"
        "gc \<or> (\<forall>ops. TxGc ops \<notin> set txs)"
        using assms(2) unfolding ledger_def by blast
      have "length (tx_imports txs @ w_pending s) < 2 ^ 64" using list_emb_length[OF t(3)] assms(5) by simp
      then have b: "unat (committed_batches (w_report s)) + 1 < 2 ^ 64" "unat (committed_records (w_report s)) + length outs < 2 ^ 64"
        using batch_sizes_count[OF t(4)] t(5,6) len Cons by auto
      note c = after_commit_spec[OF committed(2)]
      have c': "w_durable s' = db'" "w_db s' = db'" "w_pending s' = []" "gc_active s' = gc_active s" "first_pending_at s' = first_pending_at s"
        "unat (committed_batches (w_report s')) = tx_batches txs + 1" "unat (committed_records (w_report s')) = length (tx_imports txs) + length outs"
        using c len b t(5,6) by simp_all
      have "ok_responses s' = ok_responses (acknowledge outs ?s1)" using c(8) len b by (simp add: ok_responses_def acknowledge_def)
      then have ok: "ok_responses s' = ok_responses s @ zip (map pi_response (w_pending s)) outs" using len by (simp add: ok_acknowledge)
      have "ledger gc db mx reqs [] s'" unfolding ledger_def
      proof (intro exI conjI)
        show "replay (txs @ [TxImports (w_pending s)]) db = Some (w_durable s', outs0 @ outs)"
          using t(1) committed(1) assms(3) c'(1) by (simp add: replay_append)
        show "ok_responses s' = zip (map pi_response (tx_imports (txs @ [TxImports (w_pending s)]))) (outs0 @ outs)"
          using ok t(2) replay_length[OF t(1)] by (simp add: zip_append)
        show "batch_sizes mx (txs @ [TxImports (w_pending s)])" using t(4) Cons assms(4) by (simp add: batch_sizes_def)
      qed (use t(3,7) c' len in simp_all)
      then show ?thesis using c' by simp
    qed
  qed
qed


definition good :: "bool \<Rightarrow> database \<Rightarrow> nat \<Rightarrow> pending_import list \<Rightarrow> writer_state \<Rightarrow> bool" where
  "good gc db mx reqs s \<longleftrightarrow> ledger gc db mx reqs (w_pending s) s \<and> session s \<and> length (w_pending s) < mx"

lemma flush_reset_spec:
  assumes "flush_and_reset env config s = (s', r)" "ledger gc db mx reqs (w_pending s) s" "session s" "length (w_pending s) \<le> mx" "0 < mx" "length reqs < 2 ^ 64"
  shows "ledger gc db mx reqs [] s' \<and> (r = Inr () \<longrightarrow> good gc db mx reqs s' \<and> w_pending s' = [] \<and> gc_active s' = gc_active s)"
proof (cases "gc_active s")
  case True
  then have "w_pending s = []" using assms(3) by (simp add: session_def)
  then have "s' = s\<lparr>first_pending_at := None\<rparr>" using assms(1) by (simp add: flush_and_reset_def flush_imports_def)
  then show ?thesis using assms(2,3,5) \<open>w_pending s = []\<close> by (simp add: good_def ledger_def session_def ok_responses_def)
next
  case False
  obtain s1 r1 where f: "flush_imports env config s = (s1, r1)" by fastforce
  have w: "w_db s = w_durable s" using False assms(3) by (simp add: session_def)
  note F = flush_spec[OF f assms(2) w assms(4,6)]
  show ?thesis
  proof (cases r1)
    case (Inl e)
    then show ?thesis using assms(1) f F by (auto simp: flush_and_reset_def)
  next
    case (Inr u)
    then have "s' = s1\<lparr>first_pending_at := None\<rparr>" using assms(1) f by (simp add: flush_and_reset_def)
    then show ?thesis using F False Inr assms(5) by (simp add: good_def ledger_def session_def ok_responses_def)
  qed
qed

lemma ledger_push:
  assumes "ledger gc db mx reqs pend s"
  shows "ledger gc db mx (reqs @ [p]) (pend @ [p]) s"
proof -
  have "subseq (xs @ [p]) (reqs @ [p])" if "subseq xs reqs" for xs using that by (intro list_emb_append_mono) auto
  from this[of "_ @ pend"] show ?thesis using assms unfolding ledger_def by (metis append.assoc)
qed

lemma subseq_extend: "subseq reqs (reqs @ xs)"
  by (simp add: prefix_imp_subseq)

lemma accept_import_spec:
  assumes "accept_import env config now p s = (s', r)" "good gc db mx reqs s" "mx = max_batch_records config" "0 < mx" "length reqs + 1 < 2 ^ 64"
  shows "ledger gc db mx (reqs @ [p]) [] s' \<and> (r = Inr () \<longrightarrow> good gc db mx (reqs @ [p]) s')"
proof -
  have len: "length reqs < 2 ^ 64" "length (reqs @ [p]) < 2 ^ 64" using assms(5) by simp_all
  obtain s1 r1 where 1: "(if expired config s now then flush_and_reset env config s else (s, Inr ())) = (s1, r1)" by fastforce
  have L1: "ledger gc db mx reqs [] s1 \<and> (r1 = Inr () \<longrightarrow> good gc db mx reqs s1)"
  proof (cases "expired config s now")
    case True
    then show ?thesis using flush_reset_spec[of env config s s1 r1 gc db mx reqs] 1 assms(2,4) len(1) by (simp add: good_def)
  next
    case False
    then show ?thesis using 1 assms(2) by (auto simp: good_def dest: ledger_drop)
  qed
  show ?thesis
  proof (cases "r1 = Inr ()")
    case False
    then obtain e where "r1 = Inl e" by (cases r1) auto
    then have "s' = s1 \<and> r \<noteq> Inr ()" using assms(1) 1 by (auto simp: accept_import_def)
    then show ?thesis using ledger_mono[OF _ subseq_extend] L1 by blast
  next
    case True
    let ?s2 = "s1\<lparr>w_pending := w_pending s1 @ [p], first_pending_at := (case first_pending_at s1 of None \<Rightarrow> Some now | Some t \<Rightarrow> Some t)\<rparr>"
    have G: "ledger gc db mx reqs (w_pending s1) s1" "session s1" "length (w_pending s1) < mx" using L1 True by (auto simp: good_def)
    have run: "(if gc_active s1 then (reject_import p ''catalog writer rejects import records during an active GC session'' s1, Inr ())
        else if length (w_pending ?s2) \<ge> mx then flush_and_reset env config ?s2 else (?s2, Inr ())) = (s', r)"
      using assms(1) unfolding accept_import_def 1 True then_step_simps Let_def assms(3) by simp
    show ?thesis
    proof (cases "gc_active s1")
      case True
      have "ledger gc db mx (reqs @ [p]) (w_pending s1) s1" by (rule ledger_mono[OF G(1) subseq_extend])
      moreover have "s' = reject_import p ''catalog writer rejects import records during an active GC session'' s1" using run True by simp
      ultimately show ?thesis using G ledger_cong[of s' s1] ledger_drop by (auto simp: good_def session_def reject_import_def)
    next
      case False
      have "ledger gc db mx (reqs @ [p]) (w_pending ?s2) s1" using ledger_push[OF G(1)] by simp
      then have L: "ledger gc db mx (reqs @ [p]) (w_pending ?s2) ?s2" using ledger_cong[of ?s2 s1] by (simp add: ok_responses_def)
      have S: "session ?s2" using G(2) False by (simp add: session_def)
      show ?thesis
      proof (cases "length (w_pending ?s2) \<ge> mx")
        case True
        then show ?thesis using run False flush_reset_spec[OF _ L S _ assms(4) len(2), of env config s' r] G(3) by auto
      next
        case full: False
        then have "s' = ?s2" using run False by auto
        then show ?thesis using L S full ledger_drop[OF L] by (auto simp: good_def)
      qed
    qed
  qed
qed


lemma gc_session_staged:
  assumes "session s" "gc_active s"
  shows "session (s\<lparr>w_db := stage_op (w_db s) request\<rparr>)"
proof -
  obtain ops where "w_db s = foldl stage_op (w_durable s) ops" using assms by (auto simp: session_def)
  then have "\<exists>ops. stage_op (w_db s) request = foldl stage_op (w_durable s) ops" by (intro exI[of _ "ops @ [request]"]) simp
  then show ?thesis using assms by (simp add: session_def)
qed

lemma gc_stage_spec:
  assumes "session s" "r = (if gc_active s then r0 else Inl (WriterError NoActiveSession))"
    "stage_op (w_db s) request = (case r0 of Inl _ \<Rightarrow> w_db s | Inr db' \<Rightarrow> db')"
  shows "session (gc_stage ch r s) \<and> w_durable (gc_stage ch r s) = w_durable s \<and> ok_responses (gc_stage ch r s) = ok_responses s
    \<and> w_report (gc_stage ch r s) = w_report s \<and> w_pending (gc_stage ch r s) = w_pending s"
proof (cases "gc_active s \<and> (\<exists>db'. r0 = Inr db')")
  case True
  then obtain db' where d: "r = Inr db'" "r0 = Inr db'" "gc_active s" using assms(2) by auto
  have s: "s\<lparr>w_db := db'\<rparr> = s\<lparr>w_db := stage_op (w_db s) request\<rparr>" using d assms(3) by simp
  have "session (s\<lparr>w_db := db'\<rparr>)" unfolding s by (rule gc_session_staged[OF assms(1) d(3)])
  then show ?thesis by (simp add: gc_stage_def d session_def) (simp add: ok_responses_def)
next
  case False
  then obtain e where "r = Inl e" using assms(2) by (cases r0; cases "gc_active s") auto
  then show ?thesis using assms(1) by (simp add: gc_stage_def session_def)
qed

text \<open>A session that commits appends one transaction.\<close>

lemma ledger_gc_commit:
  assumes "ledger gc db mx reqs [] s" "gc" "session s" "gc_active s" "w_durable s' = w_db s" "ok_responses s' = ok_responses s"
    "committed_records (w_report s') = committed_records (w_report s)" "committed_batches (w_report s') = committed_batches (w_report s)"
  shows "ledger gc db mx reqs [] s'"
proof -
  obtain ops where ops: "w_db s = foldl stage_op (w_durable s) ops" using assms(3,4) by (auto simp: session_def)
  obtain txs outs where t: "replay txs db = Some (w_durable s, outs)" "ok_responses s = zip (map pi_response (tx_imports txs)) outs"
    "subseq (tx_imports txs @ []) reqs" "batch_sizes mx txs"
    "unat (committed_records (w_report s)) = length (tx_imports txs)" "unat (committed_batches (w_report s)) = tx_batches txs"
    using assms(1) unfolding ledger_def by blast
  show ?thesis unfolding ledger_def
    by (rule exI[of _ "txs @ [TxGc ops]"], rule exI[of _ outs])
      (use t ops assms(2) assms(5-8) in \<open>simp add: replay_append batch_sizes_def\<close>)
qed

lemma gc_finish_spec:
  assumes "gc_finish env config i commit partial ch s = (s', r)" "ledger gc db mx reqs [] s" "gc" "session s" "w_pending s = []"
  shows "ledger gc db mx reqs [] s' \<and> w_pending s' = [] \<and> session s'"
proof (cases "gc_active s \<and> commit \<and> (\<exists>u. sql_call env (GcCommitAt i) = Inr u)")
  case True
  then obtain u where u: "gc_active s" "commit" "sql_call env (GcCommitAt i) = Inr u" by blast
  let ?s1 = "s\<lparr>gc_active := False, w_durable := w_db s\<rparr>"
  have "w_db s' = w_db ?s1 \<and> w_durable s' = w_durable ?s1 \<and> gc_active s' = gc_active ?s1 \<and> w_pending s' = w_pending ?s1 \<and> ok_responses s' = ok_responses ?s1
      \<and> committed_batches (w_report s') = committed_batches (w_report ?s1) \<and> committed_records (w_report s') = committed_records (w_report ?s1)"
  proof (cases "checked_add (committed_gc_sessions (w_report ?s1)) 1")
    case None
    then show ?thesis using assms(1) u by (auto simp: gc_finish_def Let_def)
  next
    case (Some n)
    let ?s2 = "emit (if partial then GcPartiallyCommitted else GcCommitted) (?s1\<lparr>w_report := (w_report s)\<lparr>committed_gc_sessions := n\<rparr>\<rparr>)"
    obtain s3 r3 where 3: "(if n mod of_nat (checkpoint_every_batches config) = 0
        then checkpoint env (GcCheckpoint n) (emit (CheckpointRequested (committed_batches (w_report ?s2)) False) ?s2) else (?s2, Inr ())) = (s3, r3)" by fastforce
    have a: "w_db s3 = w_db ?s2 \<and> w_durable s3 = w_durable ?s2 \<and> gc_active s3 = gc_active ?s2 \<and> w_pending s3 = w_pending ?s2 \<and> w_responses s3 = w_responses ?s2
      \<and> committed_batches (w_report s3) = committed_batches (w_report ?s2) \<and> committed_records (w_report s3) = committed_records (w_report ?s2)"
      using 3 by (auto split: if_splits dest!: checkpoint_spec)
    have run: "then_step (s3, r3) (\<lambda>s3. (respond ch (GcResponse (Inr ())) s3, Inr ())) = (s', r)"
      using assms(1) u Some unfolding 3[symmetric] by (simp add: gc_finish_def Let_def split del: if_split)
    have ok: "ok_responses s3 = ok_responses ?s1" using a by (simp add: ok_responses_def)
    show ?thesis using run a ok by (cases r3) auto
  qed
  moreover from this have "ok_responses s' = ok_responses s" by (simp add: ok_responses_def)
  ultimately show ?thesis using ledger_gc_commit[OF assms(2,3,4) u(1), of s'] assms(5) by (simp add: session_def)
next
  case False
  then show ?thesis using assms by (auto simp: gc_finish_def Let_def session_def split: sum.splits if_splits)
qed

lemma gc_request_spec:
  assumes "gc_request env config i request s = (s', r)" "ledger gc db mx reqs [] s" "gc" "session s" "w_pending s = []"
  shows "ledger gc db mx reqs [] s' \<and> w_pending s' = [] \<and> session s'"
proof -
  have stage: "ledger gc db mx reqs [] (gc_stage ch r1 s) \<and> w_pending (gc_stage ch r1 s) = [] \<and> session (gc_stage ch r1 s)"
    if "r1 = (if gc_active s then r0 else Inl (WriterError NoActiveSession))" "stage_op (w_db s) request = (case r0 of Inl _ \<Rightarrow> w_db s | Inr db' \<Rightarrow> db')"
    for ch r1 r0
    using gc_stage_spec[OF assms(4) that, of ch] assms(2,5) ledger_cong[of "gc_stage ch r1 s" s] by simp
  have fails: "ledger gc db mx reqs [] (gc_stage ch (Inl e) s) \<and> w_pending (gc_stage ch (Inl e) s) = [] \<and> session (gc_stage ch (Inl e) s)" for ch e
    using assms(2,4,5) by (simp add: gc_stage_def session_def)
  show ?thesis
  proof (cases request)
    case (GcBeginRequest ch)
    then have "s' = gc_begin env i ch s" using assms(1) by (simp add: gc_request_def)
    moreover have "ledger gc db mx reqs [] (gc_begin env i ch s) \<and> w_pending (gc_begin env i ch s) = [] \<and> session (gc_begin env i ch s)"
    proof -
      have "\<exists>ops. w_durable s = foldl stage_op (w_durable s) ops" by (rule exI[of _ "[]"]) simp
      then show ?thesis using assms(2,4,5) by (auto simp: gc_begin_def session_def split: sum.splits if_splits)
    qed
    ultimately show ?thesis by simp
  next
    case (GcMarkRequest blob now ch)
    then show ?thesis using stage[of "stage_gc_mark (gc_active s) (Inr ()) blob now (w_db s)" "stage_gc_mark True (Inr ()) blob now (w_db s)"] fails assms(1)
      by (cases "sql_call env (GcStageAt i)"; cases "sqlite_u64 (cb_size blob)") (auto simp: gc_request_def stage_op_def stage_gc_mark_def)
  next
    case (GcResurrectRequest blob ch)
    then show ?thesis using stage[of "stage_gc_resurrect (gc_active s) (Inr ()) blob (w_db s)" "stage_gc_resurrect True (Inr ()) blob (w_db s)"] fails assms(1)
      by (cases "sql_call env (GcStageAt i)"; cases "sqlite_u64 (cb_size blob)") (auto simp: gc_request_def stage_op_def stage_gc_resurrect_def)
  next
    case (GcSweepRequest blob ch)
    then show ?thesis using stage[of "stage_gc_sweep (gc_active s) (Inr ()) blob (w_db s)" "stage_gc_sweep True (Inr ()) blob (w_db s)"] fails assms(1)
      by (cases "sql_call env (GcStageAt i)"; cases "sqlite_u64 (cb_size blob)") (auto simp: gc_request_def stage_op_def stage_gc_sweep_def)
  next
    case (GcFinishRequest commit partial ch)
    then show ?thesis using gc_finish_spec[OF _ assms(2-5)] assms(1) by (simp add: gc_request_def)
  qed (use assms in \<open>auto simp: gc_request_def\<close>)
qed


lemma shutdown_ledger:
  assumes "shutdown env config i s = (s', r)" "good gc db mx reqs s" "length reqs < 2 ^ 64"
  shows "ledger gc db mx reqs [] s'"
proof -
  have L: "ledger gc db mx reqs [] s" "ledger gc db mx reqs (w_pending s) s" "length (w_pending s) \<le> mx" using assms(2) ledger_drop by (auto simp: good_def)
  show ?thesis
  proof (cases "gc_active s")
    case True
    then show ?thesis using assms(1) L(1) by (auto simp: shutdown_def split: sum.splits)
  next
    case False
    then have w: "w_db s = w_durable s" using assms(2) by (simp add: good_def session_def)
    obtain s1 r1 where 1: "(if w_pending s \<noteq> []
        then then_step (flush_imports env config s) (\<lambda>s1. (emit (ShutdownFlush (length (w_pending s))) s1, Inr ())) else (s, Inr ())) = (s1, r1)" by fastforce
    obtain s0 r0 where 0: "flush_imports env config s = (s0, r0)" by fastforce
    have "ledger gc db mx reqs [] s0" using flush_spec[OF 0 L(2) w L(3) assms(3)] by blast
    then have L1: "ledger gc db mx reqs [] s1" using 1 0 L(1) by (cases r0) (auto split: if_splits)
    have "then_step (s1, r1) (\<lambda>s1. checkpoint env ShutdownCheckpoint (emit (CheckpointRequested (committed_batches (w_report s1)) True) s1)) = (s', r)"
      using assms(1) False unfolding shutdown_def 1 by simp
    then show ?thesis
    proof (cases r1)
      case (Inr u)
      then have "checkpoint env ShutdownCheckpoint (emit (CheckpointRequested (committed_batches (w_report s1)) True) s1) = (s', r)"
        using \<open>then_step _ _ = _\<close> by simp
      then have "ledger gc db mx reqs [] s' = ledger gc db mx reqs [] s1"
        using checkpoint_spec[of env ShutdownCheckpoint _ s' r] by (simp add: ledger_def ok_responses_def)
      then show ?thesis using L1 by simp
    qed (use L1 in simp)
  qed
qed

lemma import_requests_simps [simp]:
  "import_requests [] = []"
  "import_requests (t # ts) = (case t_received t of Received request \<Rightarrow> (case pending_from request of Some p \<Rightarrow> [p] | None \<Rightarrow> []) | _ \<Rightarrow> []) @ import_requests ts"
  by (auto simp: import_requests_def List.map_filter_simps split: received.splits option.splits)

lemma expired_flush_spec:
  assumes "(if expired config s now then flush_and_reset env config s else (s, Inr ())) = (s1, r1)" "good gc db mx reqs s" "0 < mx" "length reqs < 2 ^ 64"
  shows "ledger gc db mx reqs [] s1 \<and> (r1 = Inr () \<longrightarrow> good gc db mx reqs s1)"
proof (cases "expired config s now")
  case True
  then show ?thesis using flush_reset_spec[of env config s s1 r1 gc db mx reqs] assms by (simp add: good_def)
next
  case False
  then show ?thesis using assms by (auto simp: good_def dest: ledger_drop)
qed

lemma writer_step_spec:
  assumes "writer_step env config i t s = (s', r)" "good gc db mx reqs s" "mx = max_batch_records config" "0 < mx" "length reqs + 1 < 2 ^ 64"
    "gc \<or> (\<forall>request. t_received t = Received request \<longrightarrow> pending_from request \<noteq> None)"
  shows "ledger gc db mx (reqs @ import_requests [t]) [] s' \<and> (r = Inr False \<longrightarrow> good gc db mx (reqs @ import_requests [t]) s')"
proof -
  obtain s1 r1 where 1: "(if expired config s (t_before t) then flush_and_reset env config s else (s, Inr ())) = (s1, r1)" by fastforce
  note E = expired_flush_spec[OF 1 assms(2,4)]
  show ?thesis
  proof (cases r1)
    case (Inl e)
    then have "s' = s1" "r \<noteq> Inr False" using assms(1) by (auto simp: writer_step_def 1)
    then show ?thesis using E assms(5) ledger_mono[OF _ subseq_extend] by simp
  next
    case (Inr u)
    have G: "good gc db mx reqs s1" using E assms(5) Inr by simp
    note run = assms(1)[unfolded writer_step_def 1 Inr then_step_simps]
    note reset = flush_reset_spec[of env config s1 _ _ gc db mx reqs, OF _ _ _ _ assms(4)]
    show ?thesis
    proof (cases "t_received t")
      case (Received request)
      show ?thesis
      proof (cases "pending_from request")
        case (Some p)
        obtain s2 r2 where 2: "accept_import env config (t_after t) p s1 = (s2, r2)" by fastforce
        have "s' = s2 \<and> (r = Inr False \<longrightarrow> r2 = Inr ())" using run Received Some 2 by (cases r2) auto
        then show ?thesis using accept_import_spec[OF 2 G assms(3-5)] Received Some by auto
      next
        case None
        obtain s2 r2 where 2: "(if w_pending s1 \<noteq> [] then flush_and_reset env config s1 else (s1, Inr ())) = (s2, r2)" by fastforce
        have L2: "ledger gc db mx reqs [] s2 \<and> (r2 = Inr () \<longrightarrow> good gc db mx reqs s2 \<and> w_pending s2 = [])"
          using 2 G reset[of s2 r2] assms(5) by (auto simp: good_def split: if_splits)
        obtain s3 r3 where 3: "gc_request env config i request s2 = (s3, r3)" by fastforce
        have run2: "then_step (s2, r2) (\<lambda>s2. then_step (gc_request env config i request s2) (\<lambda>s3. (s3, Inr False))) = (s', r)"
          using run Received None 2 by simp
        show ?thesis
        proof (cases r2)
          case (Inl e)
          then show ?thesis using run2 L2 Received None by auto
        next
          case (Inr u)
          then have "s' = s3" using run2 3 by (cases r3) auto
          moreover have "ledger gc db mx reqs [] s3 \<and> w_pending s3 = [] \<and> session s3"
            using gc_request_spec[OF 3, of gc db mx reqs] L2 Inr assms(6) Received None by (auto simp: good_def)
          ultimately show ?thesis using Received None assms(4) by (simp add: good_def)
        qed
      qed
    next
      case Timeout
      obtain s2 r2 where 2: "flush_and_reset env config s1 = (s2, r2)" by fastforce
      have "s' = s2 \<and> (r = Inr False \<longrightarrow> r2 = Inr ())" using run Timeout 2 by (cases r2) auto
      then show ?thesis using reset[OF 2] G assms(5) Timeout by (auto simp: good_def)
    next
      case Disconnected
      obtain s2 r2 where 2: "shutdown env config i s1 = (s2, r2)" by fastforce
      have "s' = s2 \<and> r \<noteq> Inr False" using run Disconnected 2 by (cases r2) auto
      then show ?thesis using shutdown_ledger[OF 2 G] assms(5) Disconnected by auto
    qed
  qed
qed

lemma writer_loop_ledger:
  assumes "writer_loop_inner env config i ts s = ((s', r), rest)" "good gc db mx reqs s" "mx = max_batch_records config" "0 < mx"
    "length reqs + length ts < 2 ^ 64" "gc \<or> (\<forall>t\<in>set ts. \<forall>request. t_received t = Received request \<longrightarrow> pending_from request \<noteq> None)"
  shows "ledger gc db mx (reqs @ import_requests ts) [] s'"
  using assms
proof (induction ts arbitrary: i s reqs)
  case Nil
  then show ?case by (auto simp: good_def dest: ledger_drop)
next
  case (Cons t ts)
  obtain s1 r1 where 1: "writer_step env config i t s = (s1, r1)" by fastforce
  have S: "ledger gc db mx (reqs @ import_requests [t]) [] s1 \<and> (r1 = Inr False \<longrightarrow> good gc db mx (reqs @ import_requests [t]) s1)"
    by (rule writer_step_spec[OF 1 Cons.prems(2-4)]) (use Cons.prems(5,6) in auto)
  have app: "reqs @ import_requests (t # ts) = (reqs @ import_requests [t]) @ import_requests ts" by simp
  show ?case
  proof (cases "r1 = Inr False")
    case True
    have "length (import_requests [t]) \<le> 1" by (auto split: received.splits option.splits)
    moreover have "gc \<or> (\<forall>t\<in>set ts. \<forall>request. t_received t = Received request \<longrightarrow> pending_from request \<noteq> None)" using Cons.prems(6) by auto
    ultimately show ?thesis unfolding app using Cons.IH[of "i + 1" s1 "reqs @ import_requests [t]"] Cons.prems(1-5) S True 1 by simp
  next
    case False
    then have "s' = s1" using Cons.prems(1) 1 by (auto split: sum.splits bool.splits)
    then show ?thesis unfolding app using S ledger_mono[OF _ subseq_extend] by blast
  qed
qed

lemma ledger_reject_queued: "ledger gc db mx reqs pend (reject_queued ts s) = ledger gc db mx reqs pend s"
proof (induction ts arbitrary: s)
  case (Cons t ts)
  have "ledger gc db mx reqs pend (reject_terminal_request request s) = ledger gc db mx reqs pend s" for request s
    by (cases request) (simp_all add: reject_terminal_request_def)
  then show ?case using Cons.IH by (simp split: received.splits)
qed simp

lemma good_start: "0 < mx \<Longrightarrow> good gc db mx [] (writer_start db)"
proof -
  assume "0 < mx"
  have "ledger gc db mx [] [] (writer_start db)" unfolding ledger_def
    by (rule exI[of _ "[]"], rule exI[of _ "[]"]) (simp add: writer_start_def ok_responses_def List.map_filter_simps batch_sizes_def)
  then show ?thesis using \<open>0 < mx\<close> by (simp add: good_def session_def) (simp add: writer_start_def)
qed



section \<open>Tickets\<close>

text \<open>The channels on which an import has been answered, in the order of the answers.\<close>

definition import_channel :: "nat \<times> writer_response \<Rightarrow> nat option" where
  "import_channel = (\<lambda>(ch, r). case r of ImportResponse _ \<Rightarrow> Some ch | _ \<Rightarrow> None)"

lemma import_channel_simps [simp]: "import_channel (ch, ImportResponse r) = Some ch" "import_channel (ch, GcResponse g) = None"
  "import_channel (ch, GcSnapshotResponse h) = None"
  by (simp_all add: import_channel_def)

definition answered :: "writer_state \<Rightarrow> nat multiset" where
  "answered s = mset (List.map_filter import_channel (w_responses s))"

definition tickets :: "pending_import list \<Rightarrow> nat multiset" where
  "tickets ps = mset (map pi_response ps)"

lemma tickets_simps [simp]: "tickets [] = {#}" "tickets (ps @ qs) = tickets ps + tickets qs" "tickets (p # ps) = add_mset (pi_response p) (tickets ps)"
  by (simp_all add: tickets_def)

lemma answered_simps [simp]: "answered (emit e s) = answered s"
  "answered (respond ch (ImportResponse r) s) = add_mset ch (answered s)"
  "answered (respond ch (GcResponse g) s) = answered s" "answered (respond ch (GcSnapshotResponse h) s) = answered s"
  "answered (s\<lparr>w_db := x\<rparr>) = answered s" "answered (s\<lparr>w_durable := x\<rparr>) = answered s" "answered (s\<lparr>w_pending := ps\<rparr>) = answered s"
  "answered (s\<lparr>first_pending_at := t\<rparr>) = answered s" "answered (s\<lparr>w_report := rp\<rparr>) = answered s" "answered (s\<lparr>gc_active := b\<rparr>) = answered s"
  by (simp_all add: answered_def map_filter_append List.map_filter_simps)

lemma answered_fail_all [simp]: "answered (fail_all q c s) = answered s + tickets (w_pending s)"
proof -
  have "List.map_filter import_channel (map (\<lambda>p. (pi_response p, ImportResponse (Inl f))) ps) = map pi_response ps" for f and ps :: "pending_import list"
    by (induction ps) (auto simp: List.map_filter_simps)
  then show ?thesis by (simp add: answered_def tickets_def fail_all_def map_filter_append)
qed

lemma answered_acknowledge:
  assumes "length outs = length (w_pending s)"
  shows "answered (acknowledge outs s) = answered s + tickets (w_pending s)"
proof -
  have "List.map_filter import_channel
      (map (\<lambda>(p, out). (pi_response p, ImportResponse (Inr out))) (zip ps outs)) = map pi_response ps" if "length outs = length ps" for ps
    using that by (induction outs ps rule: list_induct2) (auto simp: List.map_filter_simps)
  from this[OF assms] show ?thesis by (simp add: answered_def tickets_def acknowledge_def map_filter_append)
qed

lemma checkpoint_answered: "checkpoint env point s = (s', r) \<Longrightarrow> answered s' = answered s \<and> w_pending s' = w_pending s"
  using checkpoint_spec[of env point s s' r] by (simp add: answered_def)

text \<open>A step keeps every ticket: answered, or still in the batch; one that fails may leave some unanswered.\<close>

definition issued :: "writer_state \<Rightarrow> nat multiset" where
  "issued s = answered s + tickets (w_pending s)"

definition keeps :: "pending_import list \<Rightarrow> writer_state \<Rightarrow> writer_state \<times> 'a result \<Rightarrow> bool" where
  "keeps new s = (\<lambda>(s', r). issued s' \<subseteq># issued s + tickets new \<and> (is_ok r \<longrightarrow> issued s' = issued s + tickets new))"

lemma keeps_same: "answered s' = answered s \<Longrightarrow> w_pending s' = w_pending s \<Longrightarrow> keeps [] s (s', r)"
  by (simp add: keeps_def issued_def)

lemma keeps_then:
  assumes "keeps new s r1" "\<And>s1. r1 = (s1, Inr ()) \<Longrightarrow> keeps new' s1 (k s1)"
  shows "keeps (new @ new') s (then_step r1 k)"
proof -
  obtain s1 r where r1: "r1 = (s1, r)" by fastforce
  show ?thesis
  proof (cases r)
    case (Inl e)
    have "issued s1 \<subseteq># issued s + tickets new" using assms(1) by (simp add: r1 keeps_def)
    then have "issued s1 \<subseteq># issued s + tickets new + tickets new'" using mset_subset_eq_add_left subset_mset.trans by blast
    then show ?thesis by (simp add: r1 Inl keeps_def ac_simps)
  next
    case (Inr u)
    then show ?thesis using assms r1 by (cases "k s1") (auto simp: keeps_def ac_simps)
  qed
qed

lemma keeps_then0: "keeps [] s r1 \<Longrightarrow> (\<And>s1. r1 = (s1, Inr ()) \<Longrightarrow> keeps new s1 (k s1)) \<Longrightarrow> keeps new s (then_step r1 k)"
  using keeps_then[of "[]" s r1 new k] by simp

lemma after_commit_keeps:
  assumes "length outs = length (w_pending s)"
  shows "keeps [] s (after_commit env config q n outs s)"
proof -
  have a: "answered (acknowledge outs (s\<lparr>w_report := rp\<rparr>)) = answered s + tickets (w_pending s)" for rp
    using answered_acknowledge[of outs "s\<lparr>w_report := rp\<rparr>"] assms by simp
  obtain s' r where r: "after_commit env config q n outs s = (s', r)" by fastforce
  consider "answered s' = answered s" "w_pending s' = w_pending s" | "answered s' = answered s + tickets (w_pending s)" "w_pending s' = []"
    using r a by (auto simp: after_commit_def Let_def split: option.splits if_splits dest!: checkpoint_answered)
  then show ?thesis by cases (simp_all add: r keeps_def issued_def)
qed

lemma flush_keeps: "keeps [] s (flush_imports env config s)"
proof (cases "w_pending s")
  case (Cons p0 ps)
  let ?q = "committed_batches (w_report s) + 1"
  show ?thesis
  proof (cases "sql_call env (BatchBegin ?q)")
    case b: (Inr u)
    show ?thesis
    proof (cases "run_batch (\<lambda>q. sql_call env (BatchRecord ?q q)) (w_pending s) (w_db s)")
      case (Inl e)
      then show ?thesis using b Cons by (cases e) (simp add: flush_imports_def Let_def keeps_def issued_def)
    next
      case a: (Inr x)
      obtain db' outs where x: "x = (db', outs)" by fastforce
      show ?thesis
      proof (cases "sql_call env (BatchCommit ?q)")
        case (Inl e)
        then show ?thesis using b a x Cons by (simp add: flush_imports_def Let_def keeps_def issued_def)
      next
        case (Inr v)
        let ?s1 = "emit (BatchOpened (length (w_pending s)) ?q) s\<lparr>w_db := db', w_durable := db'\<rparr>"
        have len: "length outs = length (w_pending s)" using apply_batch_length run_batch_Inr[OF a] x by blast
        have "keeps [] ?s1 (after_commit env config ?q (length (w_pending s)) outs ?s1)" using len by (intro after_commit_keeps) simp
        moreover have "flush_imports env config s = after_commit env config ?q (length (w_pending s)) outs ?s1"
          using b a x Inr Cons by (simp add: flush_imports_def Let_def)
        ultimately show ?thesis by (simp add: keeps_def issued_def)
      qed
    qed
  qed (use Cons in \<open>simp add: flush_imports_def Let_def keeps_def issued_def\<close>)
qed (simp add: flush_imports_def keeps_def issued_def)

lemma flush_reset_keeps: "keeps [] s (flush_and_reset env config s)"
  unfolding flush_and_reset_def by (rule keeps_then0[OF flush_keeps]) (simp add: keeps_def issued_def)

lemma accept_import_keeps: "keeps [p] s (accept_import env config now p s)"
  unfolding accept_import_def
proof (rule keeps_then0)
  show "keeps [] s (if expired config s now then flush_and_reset env config s else (s, Inr ()))" by (simp add: flush_reset_keeps keeps_same)
  fix s1 :: writer_state
  let ?s2 = "s1\<lparr>w_pending := w_pending s1 @ [p], first_pending_at := (case first_pending_at s1 of None \<Rightarrow> Some now | Some t \<Rightarrow> Some t)\<rparr>"
  have "keeps [p] s1 (flush_and_reset env config ?s2)" using flush_reset_keeps[of ?s2 env config] by (simp add: keeps_def issued_def)
  then show "keeps [p] s1 (if gc_active s1 then (reject_import p ''catalog writer rejects import records during an active GC session'' s1, Inr ())
     else let s2 = ?s2 in if length (w_pending s2) \<ge> max_batch_records config then flush_and_reset env config s2 else (s2, Inr ()))"
    by (simp add: Let_def keeps_def issued_def reject_import_def)
qed

lemma gc_request_keeps: "keeps [] s (gc_request env config i request s)"
proof (cases request)
  case (GcFinishRequest commit partial ch)
  obtain s' r where r: "gc_finish env config i commit partial ch s = (s', r)" by fastforce
  have "answered s' = answered s \<and> w_pending s' = w_pending s"
    using r by (auto simp: gc_finish_def Let_def then_step_def split: if_splits option.splits sum.splits prod.splits dest!: checkpoint_answered)
  then show ?thesis using r GcFinishRequest by (simp add: gc_request_def keeps_same)
qed (auto simp: gc_request_def gc_begin_def gc_stage_def keeps_def issued_def split: sum.splits)

lemma shutdown_keeps: "keeps [] s (shutdown env config i s)"
proof (cases "gc_active s")
  case False
  have c: "keeps [] s1 (checkpoint env ShutdownCheckpoint (emit e s1))" for s1 e
    using checkpoint_answered[of env ShutdownCheckpoint "emit e s1"] by (cases "checkpoint env ShutdownCheckpoint (emit e s1)") (simp add: keeps_def issued_def)
  have "keeps [] s (then_step (flush_imports env config s) (\<lambda>s1. (emit (ShutdownFlush (length (w_pending s))) s1, Inr ())))"
    by (rule keeps_then0[OF flush_keeps]) (simp add: keeps_def issued_def)
  then show ?thesis unfolding shutdown_def if_not_P[OF False] by (intro keeps_then0) (simp_all add: c keeps_same)
qed (auto simp: shutdown_def keeps_def issued_def split: sum.splits)

lemma writer_step_keeps: "keeps (import_requests [t]) s (writer_step env config i t s)"
  unfolding writer_step_def
proof (rule keeps_then0)
  show "keeps [] s (if expired config s (t_before t) then flush_and_reset env config s else (s, Inr ()))" by (simp add: flush_reset_keeps keeps_same)
  have fin: "keeps new s1 (then_step r (\<lambda>s2. (s2, Inr b)))" if "keeps new s1 r" for new s1 r and b :: bool
    using keeps_then[OF that, of "[]" "\<lambda>s2. (s2, Inr b)"] by (simp add: keeps_same)
  fix s1 :: writer_state
  have gc: "keeps [] s1 (then_step (if w_pending s1 \<noteq> [] then flush_and_reset env config s1 else (s1, Inr ())) (\<lambda>s2.
              then_step (gc_request env config i request s2) (\<lambda>s3. (s3, Inr False))))" for request
    by (rule keeps_then0) (simp_all add: flush_reset_keeps keeps_same fin gc_request_keeps)
  show "keeps (import_requests [t]) s1 (case t_received t of
       Received request \<Rightarrow>
         (case pending_from request of
            Some p \<Rightarrow> then_step (accept_import env config (t_after t) p s1) (\<lambda>s2. (s2, Inr False))
          | None \<Rightarrow>
              then_step (if w_pending s1 \<noteq> [] then flush_and_reset env config s1 else (s1, Inr ())) (\<lambda>s2.
              then_step (gc_request env config i request s2) (\<lambda>s3. (s3, Inr False))))
     | Timeout \<Rightarrow> then_step (flush_and_reset env config s1) (\<lambda>s2. (s2, Inr False))
     | Disconnected \<Rightarrow> then_step (shutdown env config i s1) (\<lambda>s2. (s2, Inr True)))"
    by (auto simp: gc fin flush_reset_keeps accept_import_keeps shutdown_keeps split: received.splits option.splits split del: if_split)
qed


lemma writer_loop_keeps:
  assumes "writer_loop_inner env config i ts s = ((s', r), rest)"
  shows "issued s' + tickets (import_requests rest) \<subseteq># issued s + tickets (import_requests ts)"
    "r = Inr True \<Longrightarrow> \<forall>t\<in>set (butlast ts). t_received t \<noteq> Disconnected \<Longrightarrow> issued s' = issued s + tickets (import_requests ts)"
proof -
  have step: "issued s1 \<subseteq># issued s + tickets (import_requests [t])" "is_ok r1 \<Longrightarrow> issued s1 = issued s + tickets (import_requests [t])"
    if "writer_step env config i t s = (s1, r1)" for i t s s1 r1
    using writer_step_keeps[of t s env config i] that by (simp_all only: keeps_def prod.case)
  have app: "tickets (import_requests (t # ts)) = tickets (import_requests [t]) + tickets (import_requests ts)" for t ts by simp
  show "issued s' + tickets (import_requests rest) \<subseteq># issued s + tickets (import_requests ts)"
    using assms
  proof (induction ts arbitrary: i s)
    case (Cons t ts)
    obtain s1 r1 where 1: "writer_step env config i t s = (s1, r1)" by fastforce
    have "issued s' + tickets (import_requests rest) \<subseteq># issued s1 + tickets (import_requests ts)"
      using Cons 1 by (cases r1) (auto split: bool.splits)
    also have "\<dots> \<subseteq># (issued s + tickets (import_requests [t])) + tickets (import_requests ts)"
      using step(1)[OF 1] by (simp only: mset_subset_eq_mono_add_right_cancel)
    finally show ?case by (simp only: app[of t ts] add.assoc)
  qed simp
  show "issued s' = issued s + tickets (import_requests ts)"
    if "r = Inr True" "\<forall>t\<in>set (butlast ts). t_received t \<noteq> Disconnected"
    using assms that
  proof (induction ts arbitrary: i s)
    case (Cons t ts)
    obtain s1 r1 where 1: "writer_step env config i t s = (s1, r1)" by fastforce
    consider "r1 = Inr True" "s' = s1" | "r1 = Inr False" "writer_loop_inner env config (i + 1) ts s1 = ((s', r), rest)"
      using Cons.prems(1,2) 1 by (auto split: sum.splits bool.splits)
    then show ?case
    proof cases
      case 1
      have "t_received t = Disconnected"
        using \<open>writer_step env config i t s = (s1, r1)\<close> 1(1)
        by (auto simp: writer_step_def then_step_def split: received.splits option.splits prod.splits sum.splits if_splits)
      then have "ts = []" using Cons.prems(3) by (auto split: if_splits)
      then show ?thesis using step(2)[OF \<open>writer_step env config i t s = (s1, r1)\<close>] 1 by simp
    next
      case 2
      then have "issued s' = issued s1 + tickets (import_requests ts)" using Cons.IH[OF 2(2) Cons.prems(2)] Cons.prems(3) by (auto split: if_splits)
      then show ?thesis unfolding app[of t ts] using step(2)[OF 1] 2(1) by (simp add: ac_simps)
    qed
  qed simp
qed

lemma reject_queued_keeps: "answered (reject_queued ts s) = answered s + tickets (import_requests ts)"
proof (induction ts arbitrary: s)
  case (Cons t ts)
  have "answered (reject_terminal_request request s) = answered s + tickets (case pending_from request of Some p \<Rightarrow> [p] | None \<Rightarrow> [])" for request s
    by (cases request) (simp_all add: reject_terminal_request_def pending_from_def)
  then show ?case using Cons.IH by (simp split: received.splits option.splits)
qed simp


lemma after_commit_ok:
  assumes "after_commit env config q n outs s = (s', Inr ())"
  shows "w_responses s' = w_responses (acknowledge outs s) \<and> w_pending s' = [] \<and> gc_active s' = gc_active s"
  using assms by (auto simp: after_commit_def Let_def acknowledge_def split: option.splits if_splits dest!: checkpoint_spec)

lemma flush_ok:
  assumes "flush_imports env config s = (s', Inr ())"
  shows "\<exists>outs. w_responses s' = w_responses (acknowledge outs s) \<and> w_pending s' = [] \<and> gc_active s' = gc_active s"
proof (cases "w_pending s = []")
  case True
  then have "s' = s" using assms by (simp add: flush_imports_def)
  then show ?thesis using True by (simp add: acknowledge_def)
next
  case False
  show ?thesis using assms False
  proof (cases rule: flush_cases)
    case (committed db' outs)
    then show ?thesis using after_commit_ok[OF committed(2)] by (auto simp: acknowledge_def)
  qed simp
qed

lemma shutdown_ok:
  assumes "shutdown env config i s = (s', Inr ())"
  obtains s1 where "\<not> gc_active s" "w_pending s = [] \<and> s1 = s \<or> (\<exists>s0. flush_imports env config s = (s0, Inr ()) \<and> s1 = emit (ShutdownFlush (length (w_pending s))) s0)"
    "checkpoint env ShutdownCheckpoint (emit (CheckpointRequested (committed_batches (w_report s1)) True) s1) = (s', Inr ())"
proof -
  have na: "\<not> gc_active s" using assms by (auto simp: shutdown_def split: if_splits sum.splits)
  obtain s1 where 1: "(if w_pending s \<noteq> [] then then_step (flush_imports env config s) (\<lambda>s1. (emit (ShutdownFlush (length (w_pending s))) s1, Inr ()))
      else (s, Inr ())) = (s1, Inr ())" "checkpoint env ShutdownCheckpoint (emit (CheckpointRequested (committed_batches (w_report s1)) True) s1) = (s', Inr ())"
    using assms unfolding shutdown_def if_not_P[OF na] then_step_Inr by blast
  show ?thesis by (rule that[OF na _ 1(2)]) (use 1(1) in \<open>auto simp: then_step_Inr split: if_splits\<close>)
qed

lemma shutdown_empty: "shutdown env config i s = (s', Inr ()) \<Longrightarrow> w_pending s' = []"
  by (erule shutdown_ok) (auto dest!: checkpoint_spec flush_ok)

lemma writer_step_returns:
  assumes "writer_step env config i t s = (s', Inr True)"
  obtains s1 where "(if expired config s (t_before t) then flush_and_reset env config s else (s, Inr ())) = (s1, Inr ())"
    "t_received t = Disconnected" "shutdown env config i s1 = (s', Inr ())"
proof -
  obtain s1 where 1: "(if expired config s (t_before t) then flush_and_reset env config s else (s, Inr ())) = (s1, Inr ())"
    "(case t_received t of
       Received request \<Rightarrow>
         (case pending_from request of
            Some p \<Rightarrow> then_step (accept_import env config (t_after t) p s1) (\<lambda>s2. (s2, Inr False))
          | None \<Rightarrow>
              then_step (if w_pending s1 \<noteq> [] then flush_and_reset env config s1 else (s1, Inr ())) (\<lambda>s2.
              then_step (gc_request env config i request s2) (\<lambda>s3. (s3, Inr False))))
     | Timeout \<Rightarrow> then_step (flush_and_reset env config s1) (\<lambda>s2. (s2, Inr False))
     | Disconnected \<Rightarrow> then_step (shutdown env config i s1) (\<lambda>s2. (s2, Inr True))) = (s', Inr True)"
    using assms unfolding writer_step_def then_step_Inr by blast
  have "t_received t = Disconnected" using 1(2) by (cases "t_received t") (auto simp: then_step_Inr split: option.splits)
  then show ?thesis using that[OF 1(1)] 1(2) by (simp add: then_step_Inr)
qed

lemma writer_loop_empty:
  assumes "writer_loop_inner env config i ts s = ((s', Inr True), rest)"
  shows "w_pending s' = []"
  using assms
proof (induction ts arbitrary: i s)
  case (Cons t ts)
  obtain s1 r1 where 1: "writer_step env config i t s = (s1, r1)" by fastforce
  then show ?case using Cons by (auto split: sum.splits bool.splits elim!: writer_step_returns dest!: shutdown_empty)
qed simp

text \<open>
  C5 (refinement). Whatever the requests, the clock and SQLite's failures, the writer's durable
  catalog is that of a serial history of whole transactions: batches of at least one and at most
  \<open>max_batch_records\<close> import records, and whole garbage collection sessions. The imports of that
  history are requests in the order they were made, exactly they have been acknowledged, each
  with the outcome its record has in the history, and the report counts them.
\<close>

theorem writer_serial_history:
  assumes "writer_loop env config ts (writer_start db) = (s, r)" "0 < max_batch_records config" "length ts < 2 ^ 64"
  shows "\<exists>txs outs. replay txs db = Some (w_durable s, outs) \<and> batch_sizes (max_batch_records config) txs
    \<and> subseq (tx_imports txs) (import_requests ts) \<and> ok_responses s = zip (map pi_response (tx_imports txs)) outs
    \<and> unat (committed_records (w_report s)) = length (tx_imports txs) \<and> unat (committed_batches (w_report s)) = tx_batches txs"
proof -
  obtain s1 r1 rest where 1: "writer_loop_inner env config 0 ts (writer_start db) = ((s1, r1), rest)" by (metis surj_pair)
  have "ledger True db (max_batch_records config) (import_requests ts) [] s1"
    using writer_loop_ledger[OF 1 good_start refl, of True] assms(2,3) by simp
  then have "ledger True db (max_batch_records config) (import_requests ts) [] s"
    using assms(1) 1 ledger_reject_queued by (auto simp: writer_loop_def split: sum.splits)
  then show ?thesis unfolding ledger_def by auto
qed

text \<open>
  C20 (liveness). No ticket is answered twice, and when the writer returns its report every
  import that was submitted has been answered.
\<close>

theorem writer_answers_each_ticket_once:
  assumes "writer_loop env config ts (writer_start db) = (s, r)" "\<forall>t\<in>set (butlast ts). t_received t \<noteq> Disconnected"
  shows "answered s \<subseteq># tickets (import_requests ts) \<and> (r = Inr True \<longrightarrow> answered s = tickets (import_requests ts))"
proof -
  obtain s1 r1 rest where 1: "writer_loop_inner env config 0 ts (writer_start db) = ((s1, r1), rest)" by (metis surj_pair)
  have z: "issued (writer_start db) = {#}" by (simp add: issued_def answered_def writer_start_def List.map_filter_simps)
  note K = writer_loop_keeps[OF 1, unfolded z]
  have "answered s1 + tickets (import_requests rest) \<subseteq># tickets (import_requests ts)"
    using K(1) by (simp add: issued_def) (metis (no_types, lifting) add.assoc add.commute mset_subset_eq_add_left subset_mset.trans)
  moreover from this have "answered s1 \<subseteq># tickets (import_requests ts)" using mset_subset_eq_add_left subset_mset.trans by blast
  ultimately have "answered s \<subseteq># tickets (import_requests ts)"
    using assms(1) 1 reject_queued_keeps[of rest s1] by (auto simp: writer_loop_def split: sum.splits)
  moreover have "answered s = tickets (import_requests ts)" if "r = Inr True"
  proof -
    have r1: "r1 = Inr True" "s = s1" using assms(1) 1 that by (auto simp: writer_loop_def split: sum.splits)
    have "w_pending s1 = []" using writer_loop_empty 1 r1(1) by blast
    then show ?thesis using K(2)[OF r1(1) assms(2)] r1(2) by (simp add: issued_def)
  qed
  ultimately show ?thesis by blast
qed

lemma run_batch_Inl:
  assumes "run_batch call ps db = Inl (q, e)"
  shows "\<exists>xs p ys db1 outs. ps = xs @ p # ys \<and> apply_batch xs db = Inr (db1, outs) \<and> (call q = Inl e \<or> apply_pending p db1 = Inl e) \<and> pi_sequence p = q"
  using assms
proof (induction ps arbitrary: db)
  case (Cons p ps)
  show ?case
  proof (cases "bind_result (call (pi_sequence p)) (\<lambda>_. apply_pending p db)")
    case (Inl e')
    then have "call q = Inl e \<or> apply_pending p db = Inl e" "pi_sequence p = q" using Cons.prems by (auto simp: bind_result_def split: sum.splits)
    then show ?thesis by (intro exI[of _ "[]"]) auto
  next
    case (Inr x)
    obtain db1 out where x: "x = (db1, out)" by fastforce
    have a: "apply_pending p db = Inr (db1, out)" using Inr x by (auto simp: bind_result_eq_Inr)
    have "run_batch call ps db1 = Inl (q, e)" using Cons.prems Inr x by (auto split: sum.splits)
    then obtain xs p' ys db2 outs where "ps = xs @ p' # ys" "apply_batch xs db1 = Inr (db2, outs)" "call q = Inl e \<or> apply_pending p' db2 = Inl e" "pi_sequence p' = q"
      using Cons.IH by blast
    then show ?thesis using a by (intro exI[of _ "p # xs"]) auto
  qed
qed simp

text \<open>
  C33 (error). A batch with a record that fails, because of what it says or because SQLite does
  not execute its statements, leaves the durable catalog unchanged and blames that record: every
  ticket of the batch is answered with the sequence of the first record that fails after the ones
  before it have been applied.
\<close>

theorem failed_batch_blames_its_record:
  assumes "run_batch (\<lambda>q. sql_call env (BatchRecord (committed_batches (w_report s) + 1) q)) (w_pending s) (w_db s) = Inl (q, e)"
    "sql_call env (BatchBegin (committed_batches (w_report s) + 1)) = Inr ()" "flush_imports env config s = (s', r)"
  shows "r = Inl e \<and> w_durable s' = w_durable s \<and> w_pending s' = []
    \<and> (\<exists>xs p ys db1 outs. w_pending s = xs @ p # ys \<and> apply_batch xs (w_db s) = Inr (db1, outs) \<and> pi_sequence p = q
          \<and> (sql_call env (BatchRecord (committed_batches (w_report s) + 1) q) = Inl e \<or> apply_pending p db1 = Inl e))
    \<and> w_responses s' = w_responses s @ map (\<lambda>p. (pi_response p, ImportResponse (Inl
          \<lparr>iwf_sequence = q, iwf_context = ''catalog import batch rolled back''\<rparr>))) (w_pending s)"
proof -
  obtain p0 ps where p: "w_pending s = p0 # ps" using assms(1) by (cases "w_pending s") auto
  have "flush_imports env config s = (fail_all q ''catalog import batch rolled back''
      (emit (BatchRolledBack (length (w_pending s)) q) (emit (BatchOpened (length (w_pending s)) (committed_batches (w_report s) + 1)) s)), Inl e)"
    using assms(1,2) p by (simp add: flush_imports_def Let_def del: run_batch.simps)
  then show ?thesis using assms(3) run_batch_Inl[OF assms(1)] by (auto simp: fail_all_def)
qed


text \<open>Runs without garbage collection.\<close>

definition all_ok :: "writer_state \<Rightarrow> bool" where
  "all_ok s \<longleftrightarrow> \<not> gc_active s \<and> list_all (\<lambda>(ch, r). \<exists>out. r = ImportResponse (Inr out)) (w_responses s)"

lemma all_ok_simps [simp]: "all_ok (emit e s) = all_ok s" "all_ok (s\<lparr>first_pending_at := t\<rparr>) = all_ok s" "all_ok (s\<lparr>w_pending := ps\<rparr>) = all_ok s"
  by (simp_all add: all_ok_def)

lemma flush_all_ok: "all_ok s \<Longrightarrow> flush_imports env config s = (s', Inr ()) \<Longrightarrow> all_ok s'"
  by (auto simp: all_ok_def acknowledge_def list_all_iff dest!: flush_ok)

lemma flush_reset_all_ok: "all_ok s \<Longrightarrow> flush_and_reset env config s = (s', Inr ()) \<Longrightarrow> all_ok s'"
  by (auto simp: flush_and_reset_def then_step_Inr dest: flush_all_ok)

lemma accept_all_ok:
  assumes "all_ok s" "accept_import env config now p s = (s', Inr ())"
  shows "all_ok s'"
proof -
  obtain s1 where 1: "(if expired config s now then flush_and_reset env config s else (s, Inr ())) = (s1, Inr ())"
    "(if gc_active s1 then (reject_import p ''catalog writer rejects import records during an active GC session'' s1, Inr ())
     else let s2 = s1\<lparr>w_pending := w_pending s1 @ [p], first_pending_at := (case first_pending_at s1 of None \<Rightarrow> Some now | Some t \<Rightarrow> Some t)\<rparr>
          in if length (w_pending s2) \<ge> max_batch_records config then flush_and_reset env config s2 else (s2, Inr ())) = (s', Inr ())"
    using assms(2) unfolding accept_import_def then_step_Inr by blast
  have a: "all_ok s1" using 1(1) assms(1) by (auto split: if_splits dest: flush_reset_all_ok)
  then have "\<not> gc_active s1" by (simp add: all_ok_def)
  then show ?thesis using 1(2) a flush_reset_all_ok[of "s1\<lparr>w_pending := w_pending s1 @ [p], first_pending_at := (case first_pending_at s1 of None \<Rightarrow> Some now | Some t \<Rightarrow> Some t)\<rparr>"]
    by (auto simp: Let_def split: if_splits)
qed

lemma shutdown_all_ok:
  assumes "all_ok s" "shutdown env config i s = (s', Inr ())"
  shows "all_ok s'"
proof -
  obtain s1 where 1: "w_pending s = [] \<and> s1 = s \<or> (\<exists>s0. flush_imports env config s = (s0, Inr ()) \<and> s1 = emit (ShutdownFlush (length (w_pending s))) s0)"
    "checkpoint env ShutdownCheckpoint (emit (CheckpointRequested (committed_batches (w_report s1)) True) s1) = (s', Inr ())"
    using shutdown_ok[OF assms(2)] by metis
  have "all_ok s1" using 1(1) assms(1) flush_all_ok by auto
  then show ?thesis using checkpoint_spec[OF 1(2)] by (simp add: all_ok_def)
qed

lemma writer_step_all_ok:
  assumes "all_ok s" "writer_step env config i t s = (s', Inr b)" "\<forall>request. t_received t = Received request \<longrightarrow> pending_from request \<noteq> None"
  shows "all_ok s'"
proof -
  obtain s1 where 1: "(if expired config s (t_before t) then flush_and_reset env config s else (s, Inr ())) = (s1, Inr ())"
    "(case t_received t of
       Received request \<Rightarrow>
         (case pending_from request of
            Some p \<Rightarrow> then_step (accept_import env config (t_after t) p s1) (\<lambda>s2. (s2, Inr False))
          | None \<Rightarrow>
              then_step (if w_pending s1 \<noteq> [] then flush_and_reset env config s1 else (s1, Inr ())) (\<lambda>s2.
              then_step (gc_request env config i request s2) (\<lambda>s3. (s3, Inr False))))
     | Timeout \<Rightarrow> then_step (flush_and_reset env config s1) (\<lambda>s2. (s2, Inr False))
     | Disconnected \<Rightarrow> then_step (shutdown env config i s1) (\<lambda>s2. (s2, Inr True))) = (s', Inr b)"
    using assms(2) unfolding writer_step_def then_step_Inr by blast
  have a: "all_ok s1" using 1(1) assms(1) by (auto split: if_splits dest: flush_reset_all_ok)
  show ?thesis
  proof (cases "t_received t")
    case (Received request)
    then obtain p where p: "pending_from request = Some p" using assms(3) by auto
    then show ?thesis using 1(2) a Received by (auto simp: then_step_Inr dest: accept_all_ok)
  qed (use 1(2) a in \<open>auto simp: then_step_Inr dest: flush_reset_all_ok shutdown_all_ok\<close>)
qed

lemma writer_loop_all_ok:
  assumes "all_ok s" "writer_loop_inner env config i ts s = ((s', Inr b), rest)"
    "\<forall>t\<in>set ts. \<forall>request. t_received t = Received request \<longrightarrow> pending_from request \<noteq> None"
  shows "all_ok s'"
  using assms
proof (induction ts arbitrary: i s)
  case (Cons t ts)
  obtain s1 r1 where 1: "writer_step env config i t s = (s1, r1)" by fastforce
  have "all_ok s1" if "r1 = Inr c" for c using writer_step_all_ok[OF Cons.prems(1), of env config i t s1 c] 1 that Cons.prems(3) by simp
  then show ?case using Cons 1 by (auto split: sum.splits bool.splits)
qed simp

lemma all_ok_counts: "all_ok s \<Longrightarrow> size (answered s) = length (ok_responses s)"
proof -
  have "length (List.map_filter import_channel rs) = length (List.map_filter ok_of rs)" if "list_all (\<lambda>(ch, r). \<exists>out. r = ImportResponse (Inr out)) rs" for rs
    using that by (induction rs) (auto simp: List.map_filter_simps)
  then show "all_ok s \<Longrightarrow> size (answered s) = length (ok_responses s)" by (simp add: all_ok_def answered_def ok_responses_def)
qed

lemma apply_batch_append:
  "apply_batch (ps @ qs) db = (case apply_batch ps db of Inl x \<Rightarrow> Inl x | Inr (db1, outs) \<Rightarrow>
     (case apply_batch qs db1 of Inl x \<Rightarrow> Inl x | Inr (db2, outs') \<Rightarrow> Inr (db2, outs @ outs')))"
  by (induction ps arbitrary: db) (auto split: sum.splits prod.splits)

lemma replay_serial:
  assumes "replay txs db = Some (db', outs)" "\<forall>ops. TxGc ops \<notin> set txs"
  shows "apply_batch (tx_imports txs) db = Inr (db', outs)"
  using assms
proof (induction txs arbitrary: db outs rule: tx_imports.induct)
  case (2 ps txs)
  obtain db1 outs1 outs2 where 1: "apply_batch ps db = Inr (db1, outs1)" "replay txs db1 = Some (db', outs2)" "outs = outs1 @ outs2"
    using 2(2) by (auto split: sum.splits)
  show ?case using 2(1)[OF 1(2)] 2(3) 1 by (simp add: apply_batch_append)
qed auto

lemma import_run_serial:
  assumes "writer_loop env config ts (writer_start db) = (s, Inr True)" "0 < max_batch_records config" "length ts < 2 ^ 64"
    "\<forall>t\<in>set ts. \<forall>request. t_received t = Received request \<longrightarrow> pending_from request \<noteq> None"
    "\<forall>t\<in>set (butlast ts). t_received t \<noteq> Disconnected"
  shows "\<exists>outs. apply_batch (import_requests ts) db = Inr (w_durable s, outs)
    \<and> ok_responses s = zip (map pi_response (import_requests ts)) outs \<and> unat (committed_records (w_report s)) = length (import_requests ts) \<and> all_ok s"
proof -
  obtain rest where 1: "writer_loop_inner env config 0 ts (writer_start db) = ((s, Inr True), rest)"
    using assms(1) by (auto simp: writer_loop_def split: prod.splits sum.splits)
  have "ledger False db (max_batch_records config) (import_requests ts) [] s"
    using writer_loop_ledger[OF 1 good_start refl, of False] assms(2-4) by simp
  then obtain txs outs where t: "replay txs db = Some (w_durable s, outs)" "ok_responses s = zip (map pi_response (tx_imports txs)) outs"
    "subseq (tx_imports txs) (import_requests ts)" "unat (committed_records (w_report s)) = length (tx_imports txs)" "\<forall>ops. TxGc ops \<notin> set txs"
    unfolding ledger_def by auto
  have z: "issued (writer_start db) = {#}" by (simp add: issued_def answered_def writer_start_def List.map_filter_simps)
  have ok: "all_ok s" using writer_loop_all_ok[OF _ 1 assms(4)] by (simp add: all_ok_def writer_start_def)
  then have "length (ok_responses s) = size (answered s)" by (rule all_ok_counts[symmetric])
  also have "\<dots> = length (import_requests ts)"
    using writer_loop_keeps(2)[OF 1 refl assms(5)] writer_loop_empty[OF 1] z by (simp add: issued_def tickets_def)
  finally have "length (tx_imports txs) = length (import_requests ts)" using t(2) replay_length[OF t(1)] by simp
  then have "tx_imports txs = import_requests ts" using t(3) by (rule subseq_same_length[rotated])
  then show ?thesis using replay_serial[OF t(1,5)] t(2,4) ok by auto
qed

text \<open>
  C14 (equivalence). An import run whose writer returns its report has committed every record
  that was submitted, and the catalog is what applying the records one at a time, in the order
  of submission, makes of it: how the clock and the batch limit cut them into batches does not
  show. Every ticket has the outcome of its record.
\<close>

theorem import_run_equals_serial_imports:
  assumes "writer_loop env config ts (writer_start db) = (s, Inr True)" "0 < max_batch_records config" "length ts < 2 ^ 64"
    "\<forall>t\<in>set ts. \<forall>request. t_received t = Received request \<longrightarrow> pending_from request \<noteq> None"
    "\<forall>t\<in>set (butlast ts). t_received t \<noteq> Disconnected"
  shows "\<exists>outs. apply_batch (import_requests ts) db = Inr (w_durable s, outs)
    \<and> ok_responses s = zip (map pi_response (import_requests ts)) outs \<and> unat (committed_records (w_report s)) = length (import_requests ts)"
  using import_run_serial[OF assms] by blast


section \<open>A sample run\<close>

definition writer_env1 :: writer_env where
  "writer_env1 = \<lparr>sql_call = (\<lambda>_. Inr ()), checkpoint_row = (\<lambda>_. Inr (0, 0, 0))\<rparr>"

definition turns1 :: "turn list" where
  "turns1 = [\<lparr>t_before = 0, t_received = Received (ImportedRequest 1 sample_blob sample_observation 7), t_after = 0\<rparr>,
     \<lparr>t_before = 1, t_received = Disconnected, t_after = 1\<rparr>]"

lemma sample_writer_run:
  "\<exists>s. writer_loop writer_env1 default_writer_config turns1 (writer_start sample_db) = (s, Inr True)"
proof -
  obtain db' bo so where "record_imported_file_in_transaction sample_db sample_blob sample_observation = Inr (db', bo, so)"
    using record_imported_succeeds[OF sample_db_ok sample_recordable] by blast
  then show ?thesis
    by (simp add: writer_loop_def turns1_def writer_step_def expired_def writer_start_def pending_from_def accept_import_def Let_def
        default_writer_config_def shutdown_def flush_imports_def writer_env1_def apply_pending_def after_commit_def checked_add_def
        acknowledge_def emit_def checkpoint_def)
qed

lemma sample_turns:
  "import_requests turns1 = [\<lparr>pi_sequence = 1, pi_request = PendingImported sample_blob sample_observation, pi_response = 7\<rparr>]"
  "\<forall>t\<in>set (butlast turns1). t_received t \<noteq> Disconnected"
  "\<forall>t\<in>set turns1. \<forall>request. t_received t = Received request \<longrightarrow> pending_from request \<noteq> None"
  "length turns1 < 2 ^ 64" "0 < max_batch_records default_writer_config"
  by (simp_all add: turns1_def pending_from_def default_writer_config_def)

theorem writer_serial_history_witness:
  "\<exists>s txs outs. writer_loop writer_env1 default_writer_config turns1 (writer_start sample_db) = (s, Inr True)
     \<and> replay txs sample_db = Some (w_durable s, outs) \<and> ok_responses s = zip (map pi_response (tx_imports txs)) outs"
proof -
  obtain s where r: "writer_loop writer_env1 default_writer_config turns1 (writer_start sample_db) = (s, Inr True)" using sample_writer_run by blast
  show ?thesis using writer_serial_history[OF r sample_turns(5,4)] r by blast
qed

theorem writer_answers_each_ticket_once_witness:
  "\<exists>s. writer_loop writer_env1 default_writer_config turns1 (writer_start sample_db) = (s, Inr True) \<and> answered s = {#7#}"
proof -
  obtain s where r: "writer_loop writer_env1 default_writer_config turns1 (writer_start sample_db) = (s, Inr True)" using sample_writer_run by blast
  show ?thesis using writer_answers_each_ticket_once[OF r sample_turns(2)] r by (auto simp: sample_turns(1))
qed

theorem import_run_equals_serial_imports_witness:
  "\<exists>s outs. writer_loop writer_env1 default_writer_config turns1 (writer_start sample_db) = (s, Inr True)
     \<and> apply_batch [\<lparr>pi_sequence = 1, pi_request = PendingImported sample_blob sample_observation, pi_response = 7\<rparr>] sample_db = Inr (w_durable s, outs)
     \<and> ok_responses s = zip [7] outs \<and> unat (committed_records (w_report s)) = 1"
proof -
  obtain s where r: "writer_loop writer_env1 default_writer_config turns1 (writer_start sample_db) = (s, Inr True)" using sample_writer_run by blast
  show ?thesis using import_run_equals_serial_imports[OF r sample_turns(5,4,3,2)] r unfolding sample_turns(1) by auto
qed

text \<open>A record whose blob and observation disagree on the size fails its batch.\<close>

definition bad_pending :: pending_import where
  "bad_pending = \<lparr>pi_sequence = 9, pi_request = PendingImported (sample_blob\<lparr>br_size := 4\<rparr>) sample_observation, pi_response = 3\<rparr>"

theorem failed_batch_blames_its_record_witness:
  "\<exists>s' e. flush_imports writer_env1 default_writer_config ((writer_start sample_db)\<lparr>w_pending := [bad_pending]\<rparr>) = (s', Inl e)
     \<and> w_durable s' = sample_db \<and> map fst (w_responses s') = [3]"
proof -
  let ?s = "(writer_start sample_db)\<lparr>w_pending := [bad_pending]\<rparr>"
  have "record_imported_file_in_transaction sample_db (sample_blob\<lparr>br_size := 4\<rparr>) sample_observation = Inl (CatalogError SizeDisagreement)"
    by (simp add: record_imported_file_in_transaction_def validate_imported_record_def sample_blob_def sample_observation_def)
  then have b: "run_batch (\<lambda>q. sql_call writer_env1 (BatchRecord (committed_batches (w_report ?s) + 1) q)) (w_pending ?s) (w_db ?s) = Inl (9, CatalogError SizeDisagreement)"
    by (simp add: bad_pending_def apply_pending_def writer_start_def writer_env1_def)
  obtain s' r where f: "flush_imports writer_env1 default_writer_config ?s = (s', r)" by fastforce
  have "sql_call writer_env1 (BatchBegin (committed_batches (w_report ?s) + 1)) = Inr ()" by (simp add: writer_env1_def)
  from failed_batch_blames_its_record[OF b this f] show ?thesis using f by (auto simp: bad_pending_def writer_start_def)
qed

end
