(* ===== verification/Ingest.thy ===== *)
theory Ingest
  imports Writer Config
begin

text \<open>
  \<^verbatim>\<open>scanner.rs\<close> and \<^verbatim>\<open>ingest.rs\<close>: how an import decides, schedules and accounts for the files of a
  source. The coordinator's loop and the source workers are steps of one transition system; the
  results of reading a file and of a catalog ticket are arbitrary.
\<close>

section \<open>The scanner\<close>

datatype mount_id = MountId u64

record source_file_candidate =
  sc_absolute :: path
  sc_relative :: source_relative_path
  sc_size :: u64
  sc_modified :: "int option"
  sc_mount :: mount_id

text \<open>Milliseconds since the epoch; a time before it counts as unavailable.\<close>

definition modified_at_ms :: "metadata \<Rightarrow> int option" where
  "modified_at_ms m = (case md_mtime m of None \<Rightarrow> None | Some t \<Rightarrow> if t < 0 then None else Some (min t i64_max))"

text \<open>\<open>fs::metadata\<close> follows links.\<close>

definition metadata_follow :: "path \<Rightarrow> fs \<Rightarrow> metadata io" where
  "metadata_follow p f =
     io_bind (fault_free OpLstat p f) (\<lambda>_.
     io_bind (locate True p f) (\<lambda>ns.
     case node_at f ns of None \<Rightarrow> Inl NotFound | Some n \<Rightarrow> Inr (metadata_of f n)))"

text \<open>One entry of the walk: \<open>None\<close> is an entry that is passed over.\<close>

definition scan_entry :: "path \<Rightarrow> fs \<Rightarrow> (path \<times> entry_kind) io \<Rightarrow> source_file_candidate result option" where
  "scan_entry root f entry =
     (case entry of
        Inl e \<Rightarrow> Some (Inl (Io e))
      | Inr (p, kind) \<Rightarrow>
          if kind \<noteq> KFile then None
          else case metadata_follow p f of
            Inl e \<Rightarrow> Some (Inl (Io e))
          | Inr m \<Rightarrow>
              if md_kind m \<noteq> KFile then None
              else Some (
                bind_result (ok_or (PathError EscapedRoot) (strip_prefix p root)) (\<lambda>relative.
                bind_result (from_path relative) (\<lambda>rel.
                Inr \<lparr>sc_absolute = p, sc_relative = rel, sc_size = md_len m, sc_modified = modified_at_ms m,
                     sc_mount = MountId (md_dev m)\<rparr>))))"

definition scan_source :: "path \<Rightarrow> fs \<Rightarrow> (path \<times> entry_kind) io list \<Rightarrow> source_file_candidate result list" where
  "scan_source root f entries = List.map_filter (scan_entry root f) entries"


section \<open>Decisions\<close>

datatype hash_reason = MetadataSkippingDisabled | NoCatalogObservation | SourceSizeChanged | ModifiedTimeUnavailable | ModifiedTimeChanged
  | CatalogSourceInconsistency | CasEntryMissingOrInvalid

datatype import_disposition = Skip blob_hash u64 bool | Hash hash_reason

definition classify_import :: "bool \<Rightarrow> source_file_candidate \<Rightarrow> known_source option \<Rightarrow> import_disposition" where
  "classify_import metadata_skip candidate known =
     (if \<not> metadata_skip then Hash MetadataSkippingDisabled
      else case known of
        None \<Rightarrow> Hash NoCatalogObservation
      | Some k \<Rightarrow>
          if ks_source_size k \<noteq> sc_size candidate then Hash SourceSizeChanged
          else case (ks_modified k, sc_modified candidate) of
            (Some recorded, Some observed) \<Rightarrow>
              if recorded \<noteq> observed then Hash ModifiedTimeChanged
              else if ks_blob_size k \<noteq> ks_source_size k then Hash CatalogSourceInconsistency
              else Skip (ks_hash k) (ks_source_size k) (ks_deleted k \<noteq> None)
          | _ \<Rightarrow> Hash ModifiedTimeUnavailable)"

definition validated_disposition :: "store_root \<Rightarrow> fs \<Rightarrow> import_disposition \<Rightarrow> import_disposition result" where
  "validated_disposition root f d =
     (case d of
        Hash _ \<Rightarrow> Inr d
      | Skip h sz _ \<Rightarrow>
          bind_result (check_blob_metadata root h sz f) (\<lambda>check.
          Inr (case check of CasPresent \<Rightarrow> d | _ \<Rightarrow> Hash CasEntryMissingOrInvalid)))"

definition source_observation_of :: "string \<Rightarrow> source_file_candidate \<Rightarrow> blob_hash \<Rightarrow> int \<Rightarrow> source_observation" where
  "source_observation_of source_root candidate h observed_at_ms =
     \<lparr>so_root = source_root, so_rel = sc_relative candidate, so_hash = h, so_size = sc_size candidate,
      so_modified = sc_modified candidate, so_observed = observed_at_ms\<rparr>"


section \<open>The report\<close>

record import_report =
  ir_dry_run :: bool
  files_seen :: u64
  blobs_created :: u64
  blobs_reused :: u64
  bytes_seen :: u64
  bytes_written :: u64
  source_records_inserted :: u64
  source_records_updated :: u64
  files_skipped :: u64
  bytes_skipped :: u64
  files_hashed :: u64
  bytes_hashed :: u64

definition empty_import_report :: "bool \<Rightarrow> import_report" where
  "empty_import_report dry = \<lparr>ir_dry_run = dry, files_seen = 0, blobs_created = 0, blobs_reused = 0, bytes_seen = 0, bytes_written = 0,
     source_records_inserted = 0, source_records_updated = 0, files_skipped = 0, bytes_skipped = 0, files_hashed = 0, bytes_hashed = 0\<rparr>"

definition report_observed_file :: "source_file_candidate \<Rightarrow> import_report \<Rightarrow> import_report" where
  "report_observed_file c r = r\<lparr>files_seen := files_seen r + 1, bytes_seen := bytes_seen r + sc_size c\<rparr>"

definition report_store_outcome :: "store_outcome \<Rightarrow> u64 \<Rightarrow> import_report \<Rightarrow> import_report" where
  "report_store_outcome out sz r =
     (case out of Created \<Rightarrow> r\<lparr>blobs_created := blobs_created r + 1, bytes_written := bytes_written r + sz\<rparr>
      | Reused \<Rightarrow> r\<lparr>blobs_reused := blobs_reused r + 1\<rparr>)"

definition report_source_outcome :: "source_outcome \<Rightarrow> import_report \<Rightarrow> import_report" where
  "report_source_outcome out r =
     (case out of SourceInserted \<Rightarrow> r\<lparr>source_records_inserted := source_records_inserted r + 1\<rparr>
      | SourceUpdated \<Rightarrow> r\<lparr>source_records_updated := source_records_updated r + 1\<rparr>)"

definition report_skip :: "u64 \<Rightarrow> import_report \<Rightarrow> import_report" where
  "report_skip sz r = r\<lparr>files_skipped := files_skipped r + 1, bytes_skipped := bytes_skipped r + sz,
     blobs_reused := blobs_reused r + 1, source_records_updated := source_records_updated r + 1\<rparr>"

definition report_hashed :: "stored_blob \<Rightarrow> import_report \<Rightarrow> import_report" where
  "report_hashed b r = report_store_outcome (sb_outcome b) (sb_size b)
     (r\<lparr>files_hashed := files_hashed r + 1, bytes_hashed := bytes_hashed r + sb_size b\<rparr>)"

definition apply_outcome :: "import_write_outcome \<Rightarrow> import_report \<Rightarrow> import_report" where
  "apply_outcome out r = (case out of Imported _ source \<Rightarrow> report_source_outcome source r | ObservedKnown \<Rightarrow> r)"


section \<open>The dry run\<close>

text \<open>
  One candidate of \<open>dry_run_import\<close>, with what the observer answers after the file was read; \<open>planned\<close> are the hashes that earlier files of the run
  would have created. Hashing a file is \<open>hash_file_read_only_with_chunk_observer\<close>; \<open>None\<close> is a
  reader that never ends.
\<close>

definition dry_run_candidate ::
    "(source_file_candidate \<Rightarrow> stored_blob result option) \<Rightarrow> import_config \<Rightarrow> string \<Rightarrow> database option \<Rightarrow> fs
     \<Rightarrow> bool \<Rightarrow> import_report \<times> blob_hash list \<Rightarrow> source_file_candidate \<Rightarrow> (import_report \<times> blob_hash list) result option" where
  "dry_run_candidate hash_file config source_root catalog f cancelled st c =
     (let (report, planned) = st; seen = report_observed_file c report
      in case (case catalog of None \<Rightarrow> Inr None | Some db \<Rightarrow> known_source_file db source_root (sc_relative c)) of
           Inl e \<Rightarrow> Some (Inl e)
         | Inr known \<Rightarrow>
             (case validated_disposition (ic_store config) f (classify_import (ic_metadata_skip config) c known) of
                Inl e \<Rightarrow> Some (Inl e)
              | Inr (Skip _ sz _) \<Rightarrow> Some (Inr (report_skip sz seen, planned))
              | Inr (Hash _) \<Rightarrow>
                  (case hash_file c of
                     None \<Rightarrow> None
                   | Some (Inl e) \<Rightarrow> Some (Inl e)
                   | Some (Inr blob) \<Rightarrow>
                       if cancelled then Some (Inl TelemetryFailed)
                       else
                       let fresh = (sb_outcome blob = Created \<and> sb_hash blob \<notin> set planned);
                           out = (if sb_outcome blob = Created \<and> \<not> fresh then Reused else sb_outcome blob);
                           counted = report_hashed (blob\<lparr>sb_outcome := out\<rparr>) seen;
                           source = (case catalog of None \<Rightarrow> SourceInserted | Some db \<Rightarrow> source_observation_outcome db source_root (sc_relative c))
                       in Some (Inr (report_source_outcome source counted, if fresh then sb_hash blob # planned else planned)))))"

text \<open>The hash of a candidate in a dry run.\<close>

definition dry_run_hash :: "'h blake3 \<Rightarrow> 'r file_io \<Rightarrow> 'o observer \<Rightarrow> 'o \<Rightarrow> import_config \<Rightarrow> fs \<Rightarrow> source_file_candidate \<Rightarrow> stored_blob result option" where
  "dry_run_hash b io obs ob config f c =
     map_option snd (hash_file_read_only_with_chunk_observer b io obs (ic_store config) (sc_absolute c) (ic_chunk_size config) f ob)"

fun dry_run_loop ::
    "(source_file_candidate \<Rightarrow> stored_blob result option) \<Rightarrow> import_config \<Rightarrow> string \<Rightarrow> database option \<Rightarrow> fs
     \<Rightarrow> (u64 \<Rightarrow> bool \<Rightarrow> bool) \<Rightarrow> u64 \<Rightarrow> import_report \<times> blob_hash list \<Rightarrow> source_file_candidate result list \<Rightarrow> import_report result option" where
  "dry_run_loop hash_file config source_root catalog f cancelled sequence st [] = Some (Inr (fst st))"
| "dry_run_loop hash_file config source_root catalog f cancelled sequence st (item # items) =
     (if cancelled sequence False then Some (Inl TelemetryFailed)
      else case item of
        Inl e \<Rightarrow> Some (Inl e)
      | Inr c \<Rightarrow>
          (case dry_run_candidate hash_file config source_root catalog f (cancelled sequence True) st c of
             None \<Rightarrow> None
           | Some (Inl e) \<Rightarrow> Some (Inl e)
           | Some (Inr st1) \<Rightarrow>
               (case add_or_fail sequence 1 of
                  Inl e \<Rightarrow> Some (Inl e)
                | Inr sequence1 \<Rightarrow> dry_run_loop hash_file config source_root catalog f cancelled sequence1 st1 items)))"

definition dry_run_import ::
    "(source_file_candidate \<Rightarrow> stored_blob result option) \<Rightarrow> import_config \<Rightarrow> database option \<Rightarrow> fs
     \<Rightarrow> (u64 \<Rightarrow> bool \<Rightarrow> bool) \<Rightarrow> source_file_candidate result list \<Rightarrow> import_report result option" where
  "dry_run_import hash_file config catalog f cancelled items =
     (case bind_result (path_to_utf8 (ic_source config)) (\<lambda>source_root.
           bind_result (open_if_exists catalog) (\<lambda>opened. Inr (source_root, opened))) of
        Inl e \<Rightarrow> Some (Inl e)
      | Inr (source_root, opened) \<Rightarrow> dry_run_loop hash_file config source_root opened f cancelled 0 (empty_import_report True, []) items)"


section \<open>The coordinator and its workers\<close>

definition max_live_source_workers :: nat where "max_live_source_workers = 8"
definition scheduler_queue_capacity :: nat where "scheduler_queue_capacity = 64"
definition worker_queue_capacity :: nat where "worker_queue_capacity = 8"
definition completion_queue_capacity :: nat where "completion_queue_capacity = 8"

lemmas capacities = max_live_source_workers_def scheduler_queue_capacity_def worker_queue_capacity_def completion_queue_capacity_def

record work =
  wk_sequence :: u64
  wk_candidate :: source_file_candidate

record completed_work =
  cw_work :: work
  cw_result :: "stored_blob result"

record pending_ticket =
  pt_sequence :: u64
  pt_source :: source_relative_path
  pt_request :: pending_import_request

text \<open>Where the coordinator is in its loop.\<close>

datatype ingest_phase = Dispatching | Admitting | Waiting | Draining | Finished | Failed error

text \<open>
  The coordinator's variables, the workers (the job queue, the files being read, the results a
  worker still holds, the completion channel), the first terminal failure, and a log of the
  requests sent to the catalog writer.
\<close>

record ingest_state =
  in_scanner :: "source_file_candidate result list"
  in_done :: bool
  in_pending :: "work list"
  in_active :: "(mount_id \<times> nat) list"
  in_last :: "mount_id option"
  in_sequence :: u64
  in_tickets :: "pending_ticket list"
  in_report :: import_report
  in_submitted :: "pending_ticket list"
  in_jobs :: "work list"
  in_readers :: "work list"
  in_held :: "completed_work list"
  in_channel :: "completed_work list"
  in_failure :: "error option"
  in_phase :: ingest_phase

text \<open>What a run cannot decide, by the sequence of the candidate it is asked for.\<close>

record ingest_env =
  ie_known :: "u64 \<Rightarrow> source_file_candidate \<Rightarrow> known_source option result"
  ie_fs :: "u64 \<Rightarrow> fs"
  ie_clock :: "u64 \<Rightarrow> int \<times> int"
  ie_answer :: "u64 \<Rightarrow> import_write_response"
  ie_submit :: "u64 \<Rightarrow> unit result"

record ingest_config =
  ig_store :: store_root
  ig_source_text :: string
  ig_metadata_skip :: bool
  ig_limit :: nat
  ig_outstanding :: nat

definition effective_workers_per_mount :: "nat \<Rightarrow> nat" where
  "effective_workers_per_mount workers_per_mount = min workers_per_mount max_live_source_workers"

definition active_count :: "mount_id \<Rightarrow> (mount_id \<times> nat) list \<Rightarrow> nat" where
  "active_count m active = (case map_of active m of None \<Rightarrow> 0 | Some n \<Rightarrow> n)"

abbreviation work_mount :: "work \<Rightarrow> mount_id" where
  "work_mount w \<equiv> sc_mount (wk_candidate w)"

text \<open>\<open>Iterator::position\<close>.\<close>

definition position :: "('a \<Rightarrow> bool) \<Rightarrow> 'a list \<Rightarrow> nat option" where
  "position P xs = (if list_ex P xs then Some (length (takeWhile (\<lambda>x. \<not> P x) xs)) else None)"

text \<open>The index of the work to dispatch: another mount than the last one when there is one.\<close>

definition dispatch_index :: "nat \<Rightarrow> (mount_id \<times> nat) list \<Rightarrow> mount_id option \<Rightarrow> work list \<Rightarrow> nat option" where
  "dispatch_index limit active last_mount pending =
     (let eligible = (\<lambda>w. active_count (work_mount w) active < limit)
      in case position (\<lambda>w. eligible w \<and> Some (work_mount w) \<noteq> last_mount) pending of
           Some i \<Rightarrow> Some i
         | None \<Rightarrow> position eligible pending)"

text \<open>One turn of the loop of \<open>dispatch_ready\<close>; a full job queue ends it.\<close>

definition dispatch_one :: "nat \<Rightarrow> ingest_state \<Rightarrow> ingest_state" where
  "dispatch_one limit s =
     (case dispatch_index limit (in_active s) (in_last s) (in_pending s) of
        None \<Rightarrow> s\<lparr>in_phase := Admitting\<rparr>
      | Some i \<Rightarrow>
          if length (in_jobs s) \<ge> worker_queue_capacity then s\<lparr>in_phase := Admitting\<rparr>
          else let w = in_pending s ! i; m = work_mount w
               in s\<lparr>in_pending := take i (in_pending s) @ drop (i + 1) (in_pending s), in_jobs := in_jobs s @ [w],
                    in_active := AList.update m (active_count m (in_active s) + 1) (in_active s), in_last := Some m\<rparr>)"

definition fail :: "error \<Rightarrow> ingest_state \<Rightarrow> ingest_state" where
  "fail e s = s\<lparr>in_phase := Failed e\<rparr>"

text \<open>
  \<open>resolve_ticket\<close> and its loop: tickets are a map ordered by sequence, and the first is awaited.
  An answer that is a failure ends the run; with a limit of zero the loop would take a ticket
  from an empty map, and the panic ends the run.
\<close>

fun drain_outcomes_to_limit :: "(u64 \<Rightarrow> import_write_response) \<Rightarrow> nat \<Rightarrow> pending_ticket list \<Rightarrow> import_report \<Rightarrow> (pending_ticket list \<times> import_report) result" where
  "drain_outcomes_to_limit answer mx [] report = (if mx = 0 then Inl (IngestError CoordinatorPanicked) else Inr ([], report))"
| "drain_outcomes_to_limit answer mx (t # ts) report =
     (if length (t # ts) \<ge> mx then
        (case answer (pt_sequence t) of
           Inl _ \<Rightarrow> Inl (WriterError BatchFailed)
         | Inr out \<Rightarrow> drain_outcomes_to_limit answer mx ts (apply_outcome out report))
      else Inr (t # ts, report))"

definition insert_ticket :: "pending_ticket \<Rightarrow> pending_ticket list \<Rightarrow> pending_ticket list" where
  "insert_ticket t ts = insort_key (\<lambda>t. unat (pt_sequence t)) t (filter (\<lambda>t'. pt_sequence t' \<noteq> pt_sequence t) ts)"

text \<open>A scanned candidate: skipped against the catalog and the store, or queued to be read.\<close>

definition admit_candidate :: "ingest_env \<Rightarrow> ingest_config \<Rightarrow> source_file_candidate \<Rightarrow> ingest_state \<Rightarrow> ingest_state" where
  "admit_candidate env config c s0 =
     (let s = s0\<lparr>in_report := report_observed_file c (in_report s0), in_phase := Dispatching\<rparr>; q = in_sequence s
      in case bind_result (ie_known env q c) (\<lambda>known.
              validated_disposition (ig_store config) (ie_fs env q) (classify_import (ig_metadata_skip config) c known)) of
           Inl e \<Rightarrow> fail e s
         | Inr (Skip h sz _) \<Rightarrow>
             (case ie_submit env q of
                Inl e \<Rightarrow> fail e s
              | Inr _ \<Rightarrow>
                  let t = \<lparr>pt_sequence = q, pt_source = sc_relative c,
                           pt_request = PendingKnown (source_observation_of (ig_source_text config) c h (snd (ie_clock env q))) sz\<rparr>;
                      s1 = s\<lparr>in_submitted := in_submitted s @ [t]\<rparr>
                  in case add_or_fail q 1 of
                       Inl e \<Rightarrow> fail e s1
                     | Inr q' \<Rightarrow>
                         let s2 = s1\<lparr>in_sequence := q', in_tickets := insert_ticket t (in_tickets s1)\<rparr>
                         in case drain_outcomes_to_limit (ie_answer env) (ig_outstanding config) (in_tickets s2) (in_report s2) of
                              Inl e \<Rightarrow> fail e s2
                            | Inr (ts, report) \<Rightarrow> s2\<lparr>in_tickets := ts, in_report := report_skip sz report\<rparr>)
         | Inr (Hash _) \<Rightarrow>
             let s1 = s\<lparr>in_pending := in_pending s @ [\<lparr>wk_sequence = q, wk_candidate = c\<rparr>]\<rparr>
             in case add_or_fail q 1 of Inl e \<Rightarrow> fail e s1 | Inr q' \<Rightarrow> s1\<lparr>in_sequence := q'\<rparr>)"

text \<open>The loop after \<open>dispatch_ready\<close>: take the next candidate, stop, or wait for a worker.\<close>

definition admit :: "ingest_env \<Rightarrow> ingest_config \<Rightarrow> ingest_state \<Rightarrow> ingest_state" where
  "admit env config s =
     (if \<not> in_done s \<and> length (in_pending s) < scheduler_queue_capacity then
        (case in_scanner s of
           [] \<Rightarrow> s\<lparr>in_done := True, in_phase := Dispatching\<rparr>
         | Inl e # rest \<Rightarrow> fail e (s\<lparr>in_scanner := rest\<rparr>)
         | Inr c # rest \<Rightarrow> admit_candidate env config c (s\<lparr>in_scanner := rest\<rparr>))
      else if in_active s = [] \<and> in_pending s = [] \<and> in_done s then s\<lparr>in_phase := Draining\<rparr>
      else s\<lparr>in_phase := Waiting\<rparr>)"

definition complete_work :: "ingest_env \<Rightarrow> ingest_config \<Rightarrow> completed_work \<Rightarrow> ingest_state \<Rightarrow> ingest_state" where
  "complete_work env config completed s =
     (let w = cw_work completed; m = work_mount w; q = wk_sequence w
      in case map_of (in_active s) m of
           None \<Rightarrow> fail (IngestError UnaccountedWork) s
         | Some 0 \<Rightarrow> fail CounterUnderflow s
         | Some (Suc n) \<Rightarrow>
             let s1 = s\<lparr>in_active := (if n = 0 then AList.delete m (in_active s) else AList.update m n (in_active s))\<rparr>
             in case cw_result completed of
                  Inl e \<Rightarrow> fail e s1
                | Inr blob \<Rightarrow>
                    let s2 = s1\<lparr>in_report := report_hashed blob (in_report s1)\<rparr>;
                        t = \<lparr>pt_sequence = q, pt_source = sc_relative (wk_candidate w),
                             pt_request = PendingImported \<lparr>br_hash = sb_hash blob, br_size = sb_size blob, br_created = fst (ie_clock env q)\<rparr>
                               (source_observation_of (ig_source_text config) (wk_candidate w) (sb_hash blob) (snd (ie_clock env q)))\<rparr>
                    in case ie_submit env q of
                         Inl e \<Rightarrow> fail e s2
                       | Inr _ \<Rightarrow>
                           let s3 = s2\<lparr>in_submitted := in_submitted s2 @ [t], in_tickets := insert_ticket t (in_tickets s2)\<rparr>
                           in case drain_outcomes_to_limit (ie_answer env) (ig_outstanding config) (in_tickets s3) (in_report s3) of
                                Inl e \<Rightarrow> fail e s3
                              | Inr (ts, report) \<Rightarrow> s3\<lparr>in_tickets := ts, in_report := report, in_phase := Dispatching\<rparr>)"

text \<open>The last loop: tickets are awaited in the order of their sequences.\<close>

definition drain_one :: "ingest_env \<Rightarrow> ingest_state \<Rightarrow> ingest_state" where
  "drain_one env s =
     (case in_tickets s of
        [] \<Rightarrow> s\<lparr>in_phase := Finished\<rparr>
      | t # ts \<Rightarrow>
          (case ie_answer env (pt_sequence t) of
             Inl _ \<Rightarrow> fail (WriterError BatchFailed) (s\<lparr>in_tickets := ts\<rparr>)
           | Inr out \<Rightarrow> s\<lparr>in_tickets := ts, in_report := apply_outcome out (in_report s)\<rparr>))"

text \<open>
  The steps of a run. A worker that fails and a writer that fails publish the first failure,
  which the coordinator may notice at any of its polls; after a failure queued work is dropped
  and the channels of the workers may be closed. A worker that read the cancellation flag before
  it was set may still take a job.
\<close>

inductive ingest_step :: "ingest_env \<Rightarrow> ingest_config \<Rightarrow> ingest_state \<Rightarrow> ingest_state \<Rightarrow> bool" for env config where
  dispatch: "in_phase s = Dispatching \<Longrightarrow> ingest_step env config s (dispatch_one (ig_limit config) s)"
| admit: "in_phase s = Admitting \<Longrightarrow> ingest_step env config s (admit env config s)"
| receive: "in_phase s = Waiting \<Longrightarrow> in_channel s = c # cs \<Longrightarrow> ingest_step env config s (complete_work env config c (s\<lparr>in_channel := cs\<rparr>))"
| drain: "in_phase s = Draining \<Longrightarrow> ingest_step env config s (drain_one env s)"
| poll: "in_phase s \<in> {Dispatching, Admitting, Waiting} \<Longrightarrow> in_failure s = Some e \<Longrightarrow> ingest_step env config s (fail e s)"
| disconnected: "in_phase s \<in> {Dispatching, Waiting} \<Longrightarrow> in_failure s \<noteq> None \<Longrightarrow> ingest_step env config s (fail (IngestError QueueClosed) s)"
| take_job: "in_jobs s = w # ws \<Longrightarrow> length (in_readers s) + length (in_held s) < max_live_source_workers
    \<Longrightarrow> ingest_step env config s (s\<lparr>in_jobs := ws, in_readers := in_readers s @ [w]\<rparr>)"
| read_done: "in_readers s = xs @ w # ys
    \<Longrightarrow> ingest_step env config s (s\<lparr>in_readers := xs @ ys, in_held := in_held s @ [\<lparr>cw_work = w, cw_result = Inr blob\<rparr>]\<rparr>)"
| send: "in_held s = xs @ c # ys \<Longrightarrow> length (in_channel s) < completion_queue_capacity
    \<Longrightarrow> ingest_step env config s (s\<lparr>in_held := xs @ ys, in_channel := in_channel s @ [c]\<rparr>)"
| read_fails: "in_readers s = xs @ w # ys
    \<Longrightarrow> ingest_step env config s (s\<lparr>in_readers := xs @ ys, in_failure := (case in_failure s of None \<Rightarrow> Some e | Some e' \<Rightarrow> Some e')\<rparr>)"
| writer_fails: "in_failure s = None \<Longrightarrow> ingest_step env config s (s\<lparr>in_failure := Some e\<rparr>)"
| cancel_job: "in_jobs s = w # ws \<Longrightarrow> in_failure s \<noteq> None \<or> in_phase s = Failed e \<Longrightarrow> ingest_step env config s (s\<lparr>in_jobs := ws\<rparr>)"
| cancel_held: "in_held s = xs @ c # ys \<Longrightarrow> in_failure s \<noteq> None \<or> in_phase s = Failed e \<Longrightarrow> ingest_step env config s (s\<lparr>in_held := xs @ ys\<rparr>)"

definition ingest_start :: "source_file_candidate result list \<Rightarrow> ingest_state" where
  "ingest_start items = \<lparr>in_scanner = items, in_done = False, in_pending = [], in_active = [], in_last = None, in_sequence = 0,
     in_tickets = [], in_report = empty_import_report False, in_submitted = [], in_jobs = [], in_readers = [], in_held = [],
     in_channel = [], in_failure = None, in_phase = Dispatching\<rparr>"

inductive ingest_reachable :: "ingest_env \<Rightarrow> ingest_config \<Rightarrow> source_file_candidate result list \<Rightarrow> ingest_state \<Rightarrow> bool" for env config items where
  start: "ingest_reachable env config items (ingest_start items)"
| step: "ingest_reachable env config items s \<Longrightarrow> ingest_step env config s s' \<Longrightarrow> ingest_reachable env config items s'"

end
