(* ===== verification/IngestRuns.thy ===== *)
theory IngestRuns
  imports Ingest "HOL-Library.Multiset"
begin

text \<open>
  Runs of the import coordinator and its workers: bounds of every queue, the accounting of a
  finished run, that it never waits in vain, and that every run ends.
\<close>

section \<open>Dispatching\<close>

lemma position_Some:
  assumes "position P xs = Some i"
  shows "i < length xs" "P (xs ! i)"
proof -
  have i: "list_ex P xs" "i = length (takeWhile (\<lambda>x. \<not> P x) xs)" using assms by (auto simp: position_def split: if_splits)
  have "takeWhile (\<lambda>x. \<not> P x) xs \<noteq> xs" using i(1) by (auto simp: list_ex_iff takeWhile_eq_all_conv)
  then have "length (takeWhile (\<lambda>x. \<not> P x) xs) < length xs"
    by (metis length_takeWhile_le le_neq_implies_less takeWhile_eq_take take_all_iff order_refl)
  then show "i < length xs" using i(2) by simp
  then show "P (xs ! i)" using nth_length_takeWhile[of "\<lambda>x. \<not> P x" xs] i(2) by simp
qed

lemma position_None: "position P xs = None \<longleftrightarrow> (\<forall>x\<in>set xs. \<not> P x)"
  by (auto simp: position_def list_ex_iff)

lemma dispatch_index_Some:
  assumes "dispatch_index limit active lm pending = Some i"
  shows "i < length pending" "active_count (work_mount (pending ! i)) active < limit"
  using assms by (auto simp: dispatch_index_def Let_def split: option.splits dest: position_Some)

lemma dispatch_index_None: "dispatch_index limit active lm pending = None \<longleftrightarrow> (\<forall>w\<in>set pending. limit \<le> active_count (work_mount w) active)"
proof
  assume "dispatch_index limit active lm pending = None"
  then show "\<forall>w\<in>set pending. limit \<le> active_count (work_mount w) active"
    by (auto simp: dispatch_index_def Let_def position_None not_less split: option.splits)
next
  assume "\<forall>w\<in>set pending. limit \<le> active_count (work_mount w) active"
  then show "dispatch_index limit active lm pending = None"
    using dispatch_index_Some[of limit active lm pending] nth_mem by (cases "dispatch_index limit active lm pending") fastforce+
qed

lemma active_count_update [simp]: "active_count m (AList.update m' k al) = (if m = m' then k else active_count m al)"
  by (simp add: active_count_def update_conv')

lemma active_count_delete [simp]: "active_count m (AList.delete m' al) = (if m = m' then 0 else active_count m al)"
  by (simp add: active_count_def delete_conv')


section \<open>Bounds\<close>

definition pipeline :: "ingest_state \<Rightarrow> work list" where
  "pipeline s = in_jobs s @ in_readers s @ map cw_work (in_held s) @ map cw_work (in_channel s)"

definition mount_load :: "mount_id \<Rightarrow> work list \<Rightarrow> nat" where
  "mount_load m ws = length (filter (\<lambda>w. work_mount w = m) ws)"

lemma mount_load_simps [simp]: "mount_load m [] = 0" "mount_load m (xs @ ys) = mount_load m xs + mount_load m ys"
  "mount_load m (w # ws) = (if work_mount w = m then 1 else 0) + mount_load m ws"
  by (simp_all add: mount_load_def)

text \<open>
  The queues respect their capacities and \<open>active\<close> bounds the work of every mount; without a
  failure it is exactly that work.
\<close>

definition in_bounds :: "ingest_config \<Rightarrow> ingest_state \<Rightarrow> bool" where
  "in_bounds config s \<longleftrightarrow> length (in_pending s) \<le> scheduler_queue_capacity \<and> length (in_jobs s) \<le> worker_queue_capacity
     \<and> length (in_readers s) + length (in_held s) \<le> max_live_source_workers \<and> length (in_channel s) \<le> completion_queue_capacity
     \<and> (\<forall>m. mount_load m (pipeline s) \<le> active_count m (in_active s) \<and> active_count m (in_active s) \<le> ig_limit config)
     \<and> (in_failure s = None \<and> (\<forall>e. in_phase s \<noteq> Failed e) \<longrightarrow> (\<forall>m. mount_load m (pipeline s) = active_count m (in_active s)))"

definition positive :: "(mount_id \<times> nat) list \<Rightarrow> bool" where
  "positive al \<longleftrightarrow> distinct (map fst al) \<and> (\<forall>(m, n) \<in> set al. 0 < n)"

lemma positive_update: "positive al \<Longrightarrow> 0 < n \<Longrightarrow> positive (AList.update m n al)"
proof -
  assume a: "positive al" "0 < n"
  have "set (AList.update m n al) \<subseteq> insert (m, n) (set al)" by (rule set_update_entries)
  then show ?thesis using a by (auto simp: positive_def distinct_update)
qed

lemma positive_delete: "positive al \<Longrightarrow> positive (AList.delete m al)"
  by (auto simp: positive_def AList.delete_eq distinct_map_filter)

text \<open>Handling a candidate or a result changes only the coordinator's variables.\<close>

lemma admit_candidate_fields:
  "in_jobs (admit_candidate env config c s) = in_jobs s" "in_readers (admit_candidate env config c s) = in_readers s"
  "in_held (admit_candidate env config c s) = in_held s" "in_channel (admit_candidate env config c s) = in_channel s"
  "in_active (admit_candidate env config c s) = in_active s" "in_failure (admit_candidate env config c s) = in_failure s"
  "length (in_pending (admit_candidate env config c s)) \<le> length (in_pending s) + 1"
  "in_scanner (admit_candidate env config c s) = in_scanner s" "in_done (admit_candidate env config c s) = in_done s"
  by (auto simp: admit_candidate_def Let_def fail_def split: sum.splits import_disposition.splits)


text \<open>The result of \<open>complete_work\<close>: an error, or one work less for its mount and a new ticket.\<close>

lemma complete_work_cases:
  obtains (failed) e where "in_phase (complete_work env config c s) = Failed e"
      "in_jobs (complete_work env config c s) = in_jobs s" "in_readers (complete_work env config c s) = in_readers s"
      "in_held (complete_work env config c s) = in_held s" "in_channel (complete_work env config c s) = in_channel s"
      "in_pending (complete_work env config c s) = in_pending s" "in_failure (complete_work env config c s) = in_failure s"
      "\<And>m. active_count m (in_active s) - (if m = work_mount (cw_work c) then 1 else 0) \<le> active_count m (in_active (complete_work env config c s))"
      "\<And>m. active_count m (in_active (complete_work env config c s)) \<le> active_count m (in_active s)"
      "positive (in_active s) \<Longrightarrow> positive (in_active (complete_work env config c s))"
      "in_scanner (complete_work env config c s) = in_scanner s" "in_done (complete_work env config c s) = in_done s"
      "length (in_tickets (complete_work env config c s)) \<le> length (in_tickets s) + 1"
  | (finished) n blob t ts report where "map_of (in_active s) (work_mount (cw_work c)) = Some (Suc n)" "cw_result c = Inr blob"
      "t = \<lparr>pt_sequence = wk_sequence (cw_work c), pt_source = sc_relative (wk_candidate (cw_work c)),
             pt_request = PendingImported \<lparr>br_hash = sb_hash blob, br_size = sb_size blob, br_created = fst (ie_clock env (wk_sequence (cw_work c)))\<rparr>
               (source_observation_of (ig_source_text config) (wk_candidate (cw_work c)) (sb_hash blob) (snd (ie_clock env (wk_sequence (cw_work c)))))\<rparr>"
      "drain_outcomes_to_limit (ie_answer env) (ig_outstanding config) (insert_ticket t (in_tickets s)) (report_hashed blob (in_report s)) = Inr (ts, report)"
      "complete_work env config c s = s\<lparr>in_active := (if n = 0 then AList.delete (work_mount (cw_work c)) (in_active s)
           else AList.update (work_mount (cw_work c)) n (in_active s)),
         in_submitted := in_submitted s @ [t], in_tickets := ts, in_report := report, in_phase := Dispatching\<rparr>"
proof -
  let ?m = "work_mount (cw_work c)"
  let ?q = "wk_sequence (cw_work c)"
  show ?thesis
  proof (cases "map_of (in_active s) ?m")
    case None
    then show ?thesis by (intro failed[of "IngestError UnaccountedWork"]) (simp_all add: complete_work_def Let_def fail_def)
  next
    case (Some k)
    show ?thesis
    proof (cases k)
      case 0
      then show ?thesis using Some by (intro failed[of CounterUnderflow]) (simp_all add: complete_work_def Let_def fail_def)
    next
      case (Suc n)
      let ?al = "if n = 0 then AList.delete ?m (in_active s) else AList.update ?m n (in_active s)"
      have al: "active_count x (in_active s) - (if x = ?m then 1 else 0) \<le> active_count x ?al" "active_count x ?al \<le> active_count x (in_active s)"
        "positive (in_active s) \<Longrightarrow> positive ?al" for x
        using Some Suc by (auto simp: positive_update positive_delete) (auto simp: active_count_def)
      have ins: "length (insert_ticket t ts) \<le> Suc (length ts)" for t ts by (simp add: insert_ticket_def)
      show ?thesis
      proof (cases "cw_result c")
        case (Inl e)
        then show ?thesis using Some Suc al by (intro failed[of e]) (simp_all add: complete_work_def Let_def fail_def)
      next
        case blob: (Inr blob)
        show ?thesis
        proof (cases "ie_submit env ?q")
          case (Inl e)
          then show ?thesis using Some Suc al blob by (intro failed[of e]) (simp_all add: complete_work_def Let_def fail_def)
        next
          case sub: (Inr u)
          let ?t = "\<lparr>pt_sequence = ?q, pt_source = sc_relative (wk_candidate (cw_work c)),
             pt_request = PendingImported \<lparr>br_hash = sb_hash blob, br_size = sb_size blob, br_created = fst (ie_clock env ?q)\<rparr>
               (source_observation_of (ig_source_text config) (wk_candidate (cw_work c)) (sb_hash blob) (snd (ie_clock env ?q)))\<rparr>"
          show ?thesis
          proof (cases "drain_outcomes_to_limit (ie_answer env) (ig_outstanding config) (insert_ticket ?t (in_tickets s)) (report_hashed blob (in_report s))")
            case (Inl e)
            then show ?thesis using Some Suc al blob sub ins by (intro failed[of e]) (simp_all add: complete_work_def Let_def fail_def)
          next
            case (Inr x)
            obtain ts report where x: "x = (ts, report)" by fastforce
            show ?thesis by (rule finished[OF Some[unfolded Suc] blob refl]) (use Some Suc blob sub Inr x in \<open>simp_all add: complete_work_def Let_def\<close>)
          qed
        qed
      qed
    qed
  qed
qed


lemma pipeline_simps [simp]:
  "pipeline (s\<lparr>in_phase := p\<rparr>) = pipeline s" "pipeline (s\<lparr>in_failure := x\<rparr>) = pipeline s" "pipeline (s\<lparr>in_scanner := sc\<rparr>) = pipeline s"
  "pipeline (s\<lparr>in_done := b\<rparr>) = pipeline s" "pipeline (fail e s) = pipeline s" "pipeline (admit_candidate env config c s) = pipeline s"
  by (simp_all add: pipeline_def fail_def admit_candidate_fields)

lemma admit_fields:
  "in_jobs (admit env config s) = in_jobs s" "in_readers (admit env config s) = in_readers s" "in_held (admit env config s) = in_held s"
  "in_channel (admit env config s) = in_channel s" "in_active (admit env config s) = in_active s" "in_failure (admit env config s) = in_failure s"
  "length (in_pending s) \<le> scheduler_queue_capacity \<Longrightarrow> length (in_pending (admit env config s)) \<le> scheduler_queue_capacity"
proof -
  show "in_jobs (admit env config s) = in_jobs s" "in_readers (admit env config s) = in_readers s" "in_held (admit env config s) = in_held s"
  "in_channel (admit env config s) = in_channel s" "in_active (admit env config s) = in_active s" "in_failure (admit env config s) = in_failure s"
    by (auto simp: admit_def fail_def admit_candidate_fields split: list.splits sum.splits)
  show "length (in_pending (admit env config s)) \<le> scheduler_queue_capacity" if "length (in_pending s) \<le> scheduler_queue_capacity"
  proof (cases "\<not> in_done s \<and> length (in_pending s) < scheduler_queue_capacity")
    case True
    have "length (in_pending (admit_candidate env config c (s\<lparr>in_scanner := rest\<rparr>))) \<le> scheduler_queue_capacity" for c rest
      using admit_candidate_fields(7)[of env config c "s\<lparr>in_scanner := rest\<rparr>"] True by simp
    then show ?thesis using that by (auto simp: admit_def fail_def split: list.splits sum.splits)
  qed (use that in \<open>auto simp: admit_def\<close>)
qed

lemma drain_one_fields:
  "in_jobs (drain_one env s) = in_jobs s" "in_readers (drain_one env s) = in_readers s" "in_held (drain_one env s) = in_held s"
  "in_channel (drain_one env s) = in_channel s" "in_active (drain_one env s) = in_active s" "in_failure (drain_one env s) = in_failure s"
  "in_pending (drain_one env s) = in_pending s" "in_scanner (drain_one env s) = in_scanner s" "in_done (drain_one env s) = in_done s"
  by (auto simp: drain_one_def fail_def split: list.splits sum.splits)

lemma pipeline_ops:
  assumes "in_jobs s' = in_jobs s" "in_readers s' = in_readers s" "in_held s' = in_held s" "in_channel s' = in_channel s"
  shows "pipeline s' = pipeline s"
  using assms by (simp add: pipeline_def)

lemma bounded_same:
  assumes "in_bounds config s" "in_jobs s' = in_jobs s" "in_readers s' = in_readers s" "in_held s' = in_held s" "in_channel s' = in_channel s"
    "in_active s' = in_active s" "length (in_pending s') \<le> scheduler_queue_capacity"
    "in_failure s' = None \<Longrightarrow> \<forall>e. in_phase s' \<noteq> Failed e \<Longrightarrow> in_failure s = None \<and> (\<forall>e. in_phase s \<noteq> Failed e)"
  shows "in_bounds config s'"
  using assms pipeline_ops[of s' s] unfolding in_bounds_def by metis

lemma bounded_dispatch:
  assumes "in_bounds config s" "in_phase s = Dispatching"
  shows "in_bounds config (dispatch_one (ig_limit config) s)"
proof (cases "dispatch_index (ig_limit config) (in_active s) (in_last s) (in_pending s)")
  case None
  then show ?thesis using assms by (auto simp: dispatch_one_def intro!: bounded_same[OF assms(1)]) (simp add: in_bounds_def)
next
  case (Some i)
  show ?thesis
  proof (cases "length (in_jobs s) \<ge> worker_queue_capacity")
    case True
    then show ?thesis using assms Some by (auto simp: dispatch_one_def intro!: bounded_same[OF assms(1)]) (simp add: in_bounds_def)
  next
    case False
    let ?w = "in_pending s ! i"
    note i = dispatch_index_Some[OF Some]
    have d: "dispatch_one (ig_limit config) s = s\<lparr>in_pending := take i (in_pending s) @ drop (i + 1) (in_pending s), in_jobs := in_jobs s @ [?w],
        in_active := AList.update (work_mount ?w) (active_count (work_mount ?w) (in_active s) + 1) (in_active s), in_last := Some (work_mount ?w)\<rparr>"
      using Some False by (simp add: dispatch_one_def Let_def)
    show ?thesis using assms i False unfolding in_bounds_def d pipeline_def by (auto simp: min_def)
  qed
qed

lemma bounded_complete:
  assumes "in_bounds config s" "in_phase s = Waiting" "in_channel s = c # cs"
  shows "in_bounds config (complete_work env config c (s\<lparr>in_channel := cs\<rparr>))"
proof -
  let ?s = "s\<lparr>in_channel := cs\<rparr>" and ?m = "work_mount (cw_work c)"
  let ?s' = "complete_work env config c ?s"
  have load: "mount_load m (pipeline s) = mount_load m (pipeline ?s) + (if m = ?m then 1 else 0)" for m using assms(3) by (auto simp: pipeline_def)
  have b: "mount_load m (pipeline s) \<le> active_count m (in_active s)" "active_count m (in_active s) \<le> ig_limit config" for m
    using assms(1) by (auto simp: in_bounds_def)
  have eq: "in_failure s = None \<Longrightarrow> mount_load m (pipeline s) = active_count m (in_active s)" for m using assms(1,2) by (auto simp: in_bounds_def)
  show ?thesis
  proof (cases rule: complete_work_cases[of env config c ?s])
    case (failed e)
    have p: "pipeline ?s' = pipeline ?s" by (rule pipeline_ops) (use failed in auto)
    have "mount_load m (pipeline ?s') \<le> active_count m (in_active ?s')" "active_count m (in_active ?s') \<le> ig_limit config" for m
      using failed(8)[of m] failed(9)[of m] b[of m] load[of m] p by (auto split: if_splits)
    then show ?thesis using failed assms(1,3) by (simp add: in_bounds_def)
  next
    case (finished n blob t ts report)
    have "active_count m (in_active s) = active_count m (in_active ?s') + (if m = ?m then 1 else 0)" for m
      using finished(1,5) by (auto simp: active_count_def delete_conv' update_conv')
    moreover have "pipeline ?s' = pipeline ?s" by (rule pipeline_ops) (simp_all add: finished(5))
    ultimately have "mount_load m (pipeline ?s') \<le> active_count m (in_active ?s')" "active_count m (in_active ?s') \<le> ig_limit config"
      "in_failure s = None \<Longrightarrow> mount_load m (pipeline ?s') = active_count m (in_active ?s')" for m
      using b[of m] load[of m] eq[of m] by auto
    moreover have "in_failure ?s' = in_failure s" "in_jobs ?s' = in_jobs s" "in_readers ?s' = in_readers s" "in_held ?s' = in_held s" "in_channel ?s' = cs"
      "in_pending ?s' = in_pending s" by (simp_all add: finished(5))
    ultimately show ?thesis using assms(1,3) by (simp add: in_bounds_def)
  qed
qed

lemma mount_load_mset: "mount_load m ws = size (filter_mset (\<lambda>w. work_mount w = m) (mset ws))"
  by (simp add: mount_load_def flip: mset_filter)

text \<open>A worker moves work along the pipeline, or drops it after a failure.\<close>

lemma bounded_worker:
  assumes "in_bounds config s" "in_active s' = in_active s" "in_pending s' = in_pending s" "in_phase s' = in_phase s"
    "length (in_jobs s') \<le> worker_queue_capacity" "length (in_readers s') + length (in_held s') \<le> max_live_source_workers"
    "length (in_channel s') \<le> completion_queue_capacity"
    "mset (pipeline s') \<subseteq># mset (pipeline s)"
    "in_failure s' = None \<Longrightarrow> \<forall>e. in_phase s' \<noteq> Failed e \<Longrightarrow> in_failure s = None \<and> mset (pipeline s') = mset (pipeline s)"
  shows "in_bounds config s'"
proof -
  have "mount_load m (pipeline s') \<le> mount_load m (pipeline s)" for m
    unfolding mount_load_mset using assms(8) by (intro size_mset_mono multiset_filter_mono)
  moreover have "in_failure s' = None \<Longrightarrow> \<forall>e. in_phase s' \<noteq> Failed e \<Longrightarrow> mount_load m (pipeline s') = mount_load m (pipeline s)" for m
    unfolding mount_load_mset using assms(9) by simp
  ultimately show ?thesis using assms unfolding in_bounds_def by (metis le_trans)
qed

lemma bounded_step:
  assumes "ingest_step env config s s'" "in_bounds config s"
  shows "in_bounds config s'"
  using assms
proof (induction rule: ingest_step.induct)
  case (dispatch s)
  then show ?case by (intro bounded_dispatch)
next
  case (admit s)
  have "length (in_pending s) \<le> scheduler_queue_capacity" using admit(2) by (simp add: in_bounds_def)
  then show ?case using admit by (intro bounded_same[OF admit(2)]) (simp_all add: admit_fields)
next
  case (receive s c cs)
  then show ?case by (intro bounded_complete)
next
  case (drain s)
  have "length (in_pending s) \<le> scheduler_queue_capacity" using drain(2) by (simp add: in_bounds_def)
  then show ?case using drain by (intro bounded_same[OF drain(2)]) (simp_all add: drain_one_fields)
next
  case (poll s e)
  then show ?case by (auto simp: in_bounds_def fail_def)
next
  case (disconnected s)
  then show ?case by (auto simp: in_bounds_def fail_def)
next
  case (take_job s w ws)
  then show ?case by (intro bounded_worker[OF take_job(3)]) (auto simp: in_bounds_def pipeline_def)
next
  case (read_done s xs w ys blob)
  then show ?case by (intro bounded_worker[OF read_done(2)]) (auto simp: in_bounds_def pipeline_def)
next
  case (send s xs c ys)
  then show ?case by (intro bounded_worker[OF send(3)]) (auto simp: in_bounds_def pipeline_def)
next
  case (read_fails s xs w ys e)
  then show ?case by (intro bounded_worker[OF read_fails(2)]) (auto simp: in_bounds_def pipeline_def split: option.splits)
next
  case (writer_fails s e)
  then show ?case by (intro bounded_worker[OF writer_fails(2)]) (auto simp: in_bounds_def pipeline_def)
next
  case (cancel_job s w ws e)
  then show ?case by (intro bounded_worker[OF cancel_job(3)]) (auto simp: in_bounds_def pipeline_def)
next
  case (cancel_held s xs c ys e)
  then show ?case by (intro bounded_worker[OF cancel_held(3)]) (auto simp: in_bounds_def pipeline_def)
qed


section \<open>Waiting\<close>

text \<open>The coordinator waits only while work of some mount is in flight.\<close>

definition attentive :: "ingest_state \<Rightarrow> bool" where
  "attentive s \<longleftrightarrow> positive (in_active s) \<and> (in_phase s \<in> {Admitting, Waiting} \<and> in_pending s \<noteq> [] \<longrightarrow> in_active s \<noteq> [])
     \<and> (in_phase s = Waiting \<longrightarrow> in_active s \<noteq> [])"

lemma active_count_ne: "0 < active_count m al \<Longrightarrow> al \<noteq> []"
  by (auto simp: active_count_def)

lemma attentive_dispatch:
  assumes "in_bounds config s" "attentive s" "0 < ig_limit config" "in_phase s = Dispatching"
  shows "attentive (dispatch_one (ig_limit config) s)"
proof (cases "dispatch_index (ig_limit config) (in_active s) (in_last s) (in_pending s)")
  case None
  then have "in_active s \<noteq> []" if "in_pending s \<noteq> []"
    using that assms(3) active_count_ne[of "work_mount (hd (in_pending s))" "in_active s"] hd_in_set[OF that] unfolding dispatch_index_None
    by (metis less_le_trans)
  then show ?thesis using None assms by (auto simp: dispatch_one_def attentive_def)
next
  case (Some i)
  show ?thesis
  proof (cases "length (in_jobs s) \<ge> worker_queue_capacity")
    case True
    then obtain w ws where "in_jobs s = w # ws" by (cases "in_jobs s") (auto simp: capacities)
    then have "0 < mount_load (work_mount w) (pipeline s)" by (simp add: pipeline_def)
    also have "\<dots> \<le> active_count (work_mount w) (in_active s)" using assms(1) by (simp add: in_bounds_def)
    finally show ?thesis using Some True assms active_count_ne by (auto simp: dispatch_one_def attentive_def)
  next
    case False
    then show ?thesis using Some assms by (auto simp: dispatch_one_def attentive_def Let_def intro: positive_update)
  qed
qed

lemma admit_phase:
  assumes "in_phase s = Admitting" "attentive s"
  shows "attentive (admit env config s)"
proof -
  have p: "in_phase (admit_candidate env config c s) = Dispatching \<or> (\<exists>e. in_phase (admit_candidate env config c s) = Failed e)" for c s
    by (auto simp: admit_candidate_def Let_def fail_def split: sum.splits import_disposition.splits)
  have "in_phase (admit env config s) = Dispatching \<or> (\<exists>e. in_phase (admit env config s) = Failed e) \<or> in_phase (admit env config s) = Draining
      \<or> in_phase (admit env config s) = Waiting \<and> in_pending (admit env config s) = in_pending s \<and> in_active s \<noteq> []"
    using p assms by (auto simp: admit_def fail_def attentive_def capacities split: list.splits sum.splits)
  then show ?thesis using assms(2) by (auto simp: attentive_def admit_fields)
qed

lemma attentive_step:
  assumes "ingest_step env config s s'" "in_bounds config s" "attentive s" "0 < ig_limit config"
  shows "attentive s'"
  using assms
proof (induction rule: ingest_step.induct)
  case (dispatch s)
  then show ?case by (intro attentive_dispatch)
next
  case (admit s)
  then show ?case by (intro admit_phase)
next
  case (receive s c cs)
  show ?case
  proof (cases rule: complete_work_cases[of env config c "s\<lparr>in_channel := cs\<rparr>"])
    case (failed e)
    then show ?thesis using receive(4) by (auto simp: attentive_def)
  next
    case (finished n blob t ts report)
    then show ?thesis using receive(4) by (auto simp: attentive_def intro: positive_update positive_delete)
  qed
next
  case (drain s)
  then show ?case by (auto simp: attentive_def drain_one_def fail_def split: list.splits sum.splits)
qed (auto simp: attentive_def fail_def)

lemma reachable_bounded:
  assumes "ingest_reachable env config items s" "0 < ig_limit config"
  shows "in_bounds config s" "attentive s"
proof -
  have "in_bounds config s \<and> attentive s"
    using assms
  proof (induction rule: ingest_reachable.induct)
    case start
    then show ?case by (simp add: in_bounds_def attentive_def ingest_start_def pipeline_def active_count_def positive_def)
  next
    case (step s s')
    then show ?case using bounded_step attentive_step by blast
  qed
  then show "in_bounds config s" "attentive s" by blast+
qed


section \<open>Every run ends\<close>

fun phase_rank :: "ingest_phase \<Rightarrow> nat" where
  "phase_rank Dispatching = 4"
| "phase_rank Admitting = 3"
| "phase_rank Waiting = 2"
| "phase_rank Draining = 1"
| "phase_rank Finished = 0"
| "phase_rank (Failed e) = 0"

text \<open>Every step moves work along, ends a phase or publishes the failure.\<close>

definition ingest_measure :: "ingest_state \<Rightarrow> nat" where
  "ingest_measure s = 30 * length (in_scanner s) + (if in_done s then 0 else 30) + 20 * length (in_pending s) + 16 * length (in_jobs s)
     + 14 * length (in_readers s) + 12 * length (in_held s) + 10 * length (in_channel s) + length (in_tickets s) + phase_rank (in_phase s)
     + (if in_failure s = None then 1 else 0)"

lemma drain_outcomes_length: "drain_outcomes_to_limit answer mx ts report = Inr (ts', report') \<Longrightarrow> length ts' \<le> length ts"
  by (induction ts arbitrary: report) (fastforce split: if_splits sum.splits)+

lemma insert_ticket_length: "length (insert_ticket t ts) \<le> Suc (length ts)"
  by (simp add: insert_ticket_def)

lemma admit_candidate_measure: "in_phase s = Admitting \<Longrightarrow> ingest_measure (admit_candidate env config c s) < ingest_measure s + 30"
proof -
  assume a: "in_phase s = Admitting"
  have insert_le: "length (insert_ticket t (in_tickets s)) \<le> length (in_tickets s) + 20" for t using insert_ticket_length[of t "in_tickets s"] by simp
  let ?s' = "admit_candidate env config c s"
  have "20 * length (in_pending ?s') + length (in_tickets ?s') \<le> 20 * length (in_pending s) + length (in_tickets s) + 20"
    by (auto simp: admit_candidate_def Let_def fail_def split: sum.splits import_disposition.splits
        intro: insert_le le_trans[OF drain_outcomes_length insert_le])
  moreover have "phase_rank (in_phase ?s') \<le> 4" by (cases "in_phase ?s'") auto
  ultimately show ?thesis using a by (simp add: ingest_measure_def admit_candidate_fields)
qed

lemma ingest_step_measure:
  assumes "ingest_step env config s s'"
  shows "ingest_measure s' < ingest_measure s"
  using assms
proof (induction rule: ingest_step.induct)
  case (dispatch s)
  show ?case
  proof (cases "dispatch_index (ig_limit config) (in_active s) (in_last s) (in_pending s)")
    case (Some i)
    then show ?thesis using dispatch dispatch_index_Some(1)[OF Some] by (auto simp: dispatch_one_def Let_def ingest_measure_def min_def)
  qed (use dispatch in \<open>simp add: dispatch_one_def ingest_measure_def\<close>)
next
  case (admit s)
  then have "ingest_measure (admit_candidate env config c (s\<lparr>in_scanner := rest\<rparr>)) < ingest_measure s" if "in_scanner s = Inr c # rest" for c rest
    using admit_candidate_measure[of "s\<lparr>in_scanner := rest\<rparr>" env config c] that by (simp add: ingest_measure_def)
  then show ?case using admit by (auto simp: admit_def fail_def ingest_measure_def split: list.splits sum.splits)
next
  case (receive s c cs)
  show ?case
  proof (cases rule: complete_work_cases[of env config c "s\<lparr>in_channel := cs\<rparr>"])
    case (failed e)
    then show ?thesis using receive by (simp add: ingest_measure_def)
  next
    case (finished n blob t ts report)
    have "length ts \<le> Suc (length (in_tickets s))" using drain_outcomes_length[OF finished(4)] insert_ticket_length[of t "in_tickets s"] by simp
    then show ?thesis using finished(5) receive by (simp add: ingest_measure_def)
  qed
next
  case (poll s e)
  then show ?case by (auto simp: fail_def ingest_measure_def)
next
  case (disconnected s)
  then show ?case by (auto simp: fail_def ingest_measure_def)
qed (auto simp: ingest_measure_def drain_one_def fail_def split: list.splits sum.splits option.splits)


section \<open>Accounting\<close>

text \<open>The outcomes of scanning one candidate.\<close>

lemma admit_candidate_cases:
  obtains (failed) e where "in_phase (admit_candidate env config c s) = Failed e"
  | (skipped) h sz t ts report q where "add_or_fail (in_sequence s) 1 = Inr q"
      "t = \<lparr>pt_sequence = in_sequence s, pt_source = sc_relative c,
         pt_request = PendingKnown (source_observation_of (ig_source_text config) c h (snd (ie_clock env (in_sequence s)))) sz\<rparr>"
      "drain_outcomes_to_limit (ie_answer env) (ig_outstanding config) (insert_ticket t (in_tickets s)) (report_observed_file c (in_report s)) = Inr (ts, report)"
      "admit_candidate env config c s = s\<lparr>in_report := report_skip sz report, in_phase := Dispatching, in_submitted := in_submitted s @ [t],
         in_sequence := q, in_tickets := ts\<rparr>"
  | (queued) q where "add_or_fail (in_sequence s) 1 = Inr q"
      "admit_candidate env config c s = s\<lparr>in_report := report_observed_file c (in_report s), in_phase := Dispatching,
         in_pending := in_pending s @ [\<lparr>wk_sequence = in_sequence s, wk_candidate = c\<rparr>], in_sequence := q\<rparr>"
proof (cases "bind_result (ie_known env (in_sequence s) c) (\<lambda>known.
    validated_disposition (ig_store config) (ie_fs env (in_sequence s)) (classify_import (ig_metadata_skip config) c known))")
  case (Inl e)
  then show ?thesis by (intro failed[of e]) (simp add: admit_candidate_def Let_def fail_def)
next
  case d: (Inr d)
  show ?thesis
  proof (cases d)
    case (Hash reason)
    show ?thesis
    proof (cases "add_or_fail (in_sequence s) 1")
      case (Inl e)
      then show ?thesis using d Hash by (intro failed[of e]) (simp add: admit_candidate_def Let_def fail_def)
    next
      case (Inr q)
      then show ?thesis using d Hash by (intro queued[of q]) (simp_all add: admit_candidate_def Let_def)
    qed
  next
    case (Skip h sz res)
    let ?t = "\<lparr>pt_sequence = in_sequence s, pt_source = sc_relative c,
         pt_request = PendingKnown (source_observation_of (ig_source_text config) c h (snd (ie_clock env (in_sequence s)))) sz\<rparr>"
    show ?thesis
    proof (cases "ie_submit env (in_sequence s)")
      case (Inl e)
      then show ?thesis using d Skip by (intro failed[of e]) (simp add: admit_candidate_def Let_def fail_def)
    next
      case sub: (Inr u)
      show ?thesis
      proof (cases "add_or_fail (in_sequence s) 1")
        case (Inl e)
        then show ?thesis using d Skip sub by (intro failed[of e]) (simp add: admit_candidate_def Let_def fail_def)
      next
        case q: (Inr q)
        show ?thesis
        proof (cases "drain_outcomes_to_limit (ie_answer env) (ig_outstanding config) (insert_ticket ?t (in_tickets s)) (report_observed_file c (in_report s))")
          case (Inl e)
          then show ?thesis using d Skip sub q by (intro failed[of e]) (simp add: admit_candidate_def Let_def fail_def)
        next
          case (Inr x)
          obtain ts report where x: "x = (ts, report)" by fastforce
          show ?thesis by (rule skipped[OF q refl Inr[unfolded x]]) (use d Skip sub q Inr x in \<open>simp add: admit_candidate_def Let_def\<close>)
        qed
      qed
    qed
  qed
qed


definition is_import :: "pending_ticket \<Rightarrow> bool" where
  "is_import t = (case pt_request t of PendingImported _ _ \<Rightarrow> True | PendingKnown _ _ \<Rightarrow> False)"

text \<open>The writer answers an import with the two outcomes of its record and an observation with none.\<close>

definition answer_fits :: "pending_ticket \<Rightarrow> import_write_response \<Rightarrow> bool" where
  "answer_fits t r = (case r of Inl _ \<Rightarrow> True | Inr out \<Rightarrow> is_import t = (case out of Imported _ _ \<Rightarrow> True | ObservedKnown \<Rightarrow> False))"

definition unresolved :: "pending_ticket list \<Rightarrow> nat" where
  "unresolved ts = length (filter is_import ts)"

definition records :: "import_report \<Rightarrow> u64" where
  "records r = source_records_inserted r + source_records_updated r"

definition active_total :: "(mount_id \<times> nat) list \<Rightarrow> nat" where
  "active_total al = sum_list (map snd al)"

lemma active_total_update: "distinct (map fst al) \<Longrightarrow> active_total (AList.update m n al) + active_count m al = active_total al + n"
  by (induction al) (auto simp: active_total_def active_count_def split: option.splits dest: map_of_SomeD)

lemma active_total_delete: "distinct (map fst al) \<Longrightarrow> active_total (AList.delete m al) + active_count m al = active_total al"
proof (induction al)
  case (Cons x al)
  then show ?case by (cases x) (auto simp: active_total_def active_count_def AList.delete_eq map_of_eq_None_iff[THEN iffD2])
qed (simp add: active_total_def active_count_def)

lemma drain_accounts:
  assumes "drain_outcomes_to_limit answer mx ts report = Inr (ts', report')" "\<forall>t\<in>set ts. answer_fits t (answer (pt_sequence t))"
  shows "records report' + of_nat (unresolved ts') = records report + of_nat (unresolved ts)"
    "files_seen report' = files_seen report" "files_skipped report' = files_skipped report" "files_hashed report' = files_hashed report"
    "blobs_created report' = blobs_created report" "blobs_reused report' = blobs_reused report"
    "\<exists>xs. ts = xs @ ts' \<and> (\<forall>t\<in>set xs. \<exists>out. answer (pt_sequence t) = Inr out)"
proof -
  have "records report' + of_nat (unresolved ts') = records report + of_nat (unresolved ts) \<and> files_seen report' = files_seen report
    \<and> files_skipped report' = files_skipped report \<and> files_hashed report' = files_hashed report
    \<and> blobs_created report' = blobs_created report \<and> blobs_reused report' = blobs_reused report
    \<and> (\<exists>xs. ts = xs @ ts' \<and> (\<forall>t\<in>set xs. \<exists>out. answer (pt_sequence t) = Inr out))"
    using assms
  proof (induction ts arbitrary: report)
    case (Cons t ts)
    show ?case
    proof (cases "length (t # ts) \<ge> mx")
      case True
      then obtain out where out: "answer (pt_sequence t) = Inr out" "drain_outcomes_to_limit answer mx ts (apply_outcome out report) = Inr (ts', report')"
        using Cons.prems(1) by (auto split: sum.splits)
      have fit: "is_import t = (case out of Imported _ _ \<Rightarrow> True | ObservedKnown \<Rightarrow> False)" using Cons.prems(2) out(1) by (simp add: answer_fits_def)
      have o: "records (apply_outcome out report) = records report + (if is_import t then 1 else 0)" "files_seen (apply_outcome out report) = files_seen report"
        "files_skipped (apply_outcome out report) = files_skipped report" "files_hashed (apply_outcome out report) = files_hashed report"
        "blobs_created (apply_outcome out report) = blobs_created report" "blobs_reused (apply_outcome out report) = blobs_reused report"
        using fit by (auto simp: apply_outcome_def report_source_outcome_def records_def split: import_write_outcome.splits source_outcome.splits)
      obtain xs where xs: "ts = xs @ ts'" "\<forall>t\<in>set xs. \<exists>out. answer (pt_sequence t) = Inr out" using Cons.IH[OF out(2)] Cons.prems(2) by auto
      then have "\<exists>xs. t # ts = xs @ ts' \<and> (\<forall>t\<in>set xs. \<exists>out. answer (pt_sequence t) = Inr out)" using out(1) by (intro exI[of _ "t # xs"]) simp
      then show ?thesis using Cons.IH[OF out(2)] Cons.prems(2) o by (simp add: unresolved_def)
    next
      case False
      then show ?thesis using Cons.prems(1) by auto
    qed
  qed (auto split: if_splits)
  then show "records report' + of_nat (unresolved ts') = records report + of_nat (unresolved ts)"
    "files_seen report' = files_seen report" "files_skipped report' = files_skipped report" "files_hashed report' = files_hashed report"
    "blobs_created report' = blobs_created report" "blobs_reused report' = blobs_reused report"
    "\<exists>xs. ts = xs @ ts' \<and> (\<forall>t\<in>set xs. \<exists>out. answer (pt_sequence t) = Inr out)" by blast+
qed

lemma insert_fresh:
  assumes "\<forall>t'\<in>set ts. pt_sequence t' \<noteq> pt_sequence t"
  shows "mset (insert_ticket t ts) = add_mset t (mset ts)"
proof -
  have "filter (\<lambda>t'. pt_sequence t' \<noteq> pt_sequence t) ts = ts" using assms by (auto simp: filter_id_conv)
  then show ?thesis by (simp add: insert_ticket_def)
qed

lemma unresolved_mset: "unresolved ts = size (filter_mset is_import (mset ts))"
  by (simp add: unresolved_def flip: mset_filter)

text \<open>The sequences in use: each once, and all below the next one.\<close>

definition sequences :: "ingest_state \<Rightarrow> u64 multiset" where
  "sequences s = mset (map pt_sequence (in_tickets s)) + mset (map wk_sequence (in_pending s)) + mset (map wk_sequence (pipeline s))"

definition fresh :: "ingest_state \<Rightarrow> bool" where
  "fresh s \<longleftrightarrow> (\<forall>q. count (sequences s) q \<le> 1) \<and> (\<forall>q\<in>#sequences s. unat q < unat (in_sequence s))"

lemma fresh_mono:
  assumes "fresh s" "sequences s' \<subseteq># sequences s" "in_sequence s' = in_sequence s"
  shows "fresh s'"
proof -
  have "count (sequences s') q \<le> 1" for q
    using mset_subset_eq_count[OF assms(2), of q] assms(1) unfolding fresh_def by (meson le_trans)
  moreover have "unat q < unat (in_sequence s')" if "q \<in># sequences s'" for q
    using mset_subset_eqD[OF assms(2) that] assms(1,3) by (simp add: fresh_def)
  ultimately show ?thesis by (simp add: fresh_def)
qed

text \<open>The invariant of a run that has not failed.\<close>

definition accounted :: "ingest_env \<Rightarrow> source_file_candidate result list \<Rightarrow> ingest_state \<Rightarrow> bool" where
  "accounted env items s \<longleftrightarrow>
     (\<exists>adm. items = map Inr adm @ in_scanner s \<and> files_seen (in_report s) = of_nat (length adm)
        \<and> length adm = length (in_submitted s) + length (in_pending s) + active_total (in_active s)
        \<and> mset (map pt_source (in_submitted s)) + mset (map (sc_relative \<circ> wk_candidate) (in_pending s @ pipeline s)) \<subseteq># mset (map sc_relative adm))
     \<and> files_skipped (in_report s) + files_hashed (in_report s) = of_nat (length (in_submitted s))
     \<and> blobs_created (in_report s) + blobs_reused (in_report s) = of_nat (length (in_submitted s))
     \<and> records (in_report s) + of_nat (unresolved (in_tickets s)) = of_nat (length (in_submitted s))
     \<and> (\<forall>t\<in>set (in_submitted s). t \<in> set (in_tickets s) \<or> (\<exists>out. ie_answer env (pt_sequence t) = Inr out))
     \<and> set (in_tickets s) \<subseteq> set (in_submitted s)
     \<and> (in_done s \<longrightarrow> in_scanner s = [])
     \<and> (in_phase s \<in> {Draining, Finished} \<longrightarrow> in_active s = [] \<and> in_pending s = [] \<and> in_done s)
     \<and> (in_phase s = Finished \<longrightarrow> in_tickets s = [])"

definition consistent_run :: "ingest_env \<Rightarrow> source_file_candidate result list \<Rightarrow> ingest_state \<Rightarrow> bool" where
  "consistent_run env items s \<longleftrightarrow> (\<forall>t\<in>set (in_submitted s). answer_fits t (ie_answer env (pt_sequence t))) \<and> (\<forall>e. in_phase s \<noteq> Failed e)
     \<longrightarrow> accounted env items s \<and> fresh s"


lemma image_pipeline_mono:
  assumes "mset (pipeline s') \<subseteq># mset (pipeline s)"
  shows "mset (map f (pipeline s')) \<subseteq># mset (map f (pipeline s))"
  using image_mset_subseteq_mono[OF assms, of f] by (simp add: mset_map)

lemma consistent_worker:
  assumes "consistent_run env items s" "in_scanner s' = in_scanner s" "in_done s' = in_done s" "in_pending s' = in_pending s" "in_active s' = in_active s"
    "in_sequence s' = in_sequence s" "in_tickets s' = in_tickets s" "in_report s' = in_report s" "in_submitted s' = in_submitted s" "in_phase s' = in_phase s"
    "mset (pipeline s') \<subseteq># mset (pipeline s)"
  shows "consistent_run env items s'"
  unfolding consistent_run_def
proof (intro impI)
  assume "(\<forall>t\<in>set (in_submitted s'). answer_fits t (ie_answer env (pt_sequence t))) \<and> (\<forall>e. in_phase s' \<noteq> Failed e)"
  then have a: "accounted env items s" "fresh s" using assms(1,9,10) by (auto simp: consistent_run_def)
  have "sequences s' \<subseteq># sequences s" using image_pipeline_mono[OF assms(11), of wk_sequence] assms(4,7) by (simp add: sequences_def)
  then have "fresh s'" by (rule fresh_mono[OF a(2)]) (rule assms(6))
  moreover have "mset (map (sc_relative \<circ> wk_candidate) (in_pending s' @ pipeline s')) \<subseteq># mset (map (sc_relative \<circ> wk_candidate) (in_pending s @ pipeline s))"
    using image_pipeline_mono[OF assms(11), of "sc_relative \<circ> wk_candidate"] assms(4) by simp
  then have "mset (map pt_source (in_submitted s')) + mset (map (sc_relative \<circ> wk_candidate) (in_pending s' @ pipeline s')) \<subseteq># M"
    if "mset (map pt_source (in_submitted s)) + mset (map (sc_relative \<circ> wk_candidate) (in_pending s @ pipeline s)) \<subseteq># M" for M
    using that assms(9) by (metis mset_subset_eq_mono_add_left_cancel subset_mset.trans)
  ultimately show "accounted env items s' \<and> fresh s'" using a(1) assms(2-10) unfolding accounted_def by metis
qed

lemma consistent_dispatch:
  assumes "consistent_run env items s" "in_phase s = Dispatching" "positive (in_active s)"
  shows "consistent_run env items (dispatch_one limit s)"
proof (cases "dispatch_index limit (in_active s) (in_last s) (in_pending s) = None \<or> length (in_jobs s) \<ge> worker_queue_capacity")
  case True
  then have "dispatch_one limit s = s\<lparr>in_phase := Admitting\<rparr>" by (auto simp: dispatch_one_def split: option.splits)
  then show ?thesis using assms(1,2) by (auto simp: consistent_run_def accounted_def fresh_def sequences_def)
next
  case False
  then obtain i where i: "dispatch_index limit (in_active s) (in_last s) (in_pending s) = Some i" "length (in_jobs s) < worker_queue_capacity" by auto
  let ?w = "in_pending s ! i"
  let ?al = "AList.update (work_mount ?w) (active_count (work_mount ?w) (in_active s) + 1) (in_active s)"
  let ?s' = "dispatch_one limit s"
  have d: "?s' = s\<lparr>in_pending := take i (in_pending s) @ drop (i + 1) (in_pending s), in_jobs := in_jobs s @ [?w],
      in_active := ?al, in_last := Some (work_mount ?w)\<rparr>"
    using i by (simp add: dispatch_one_def Let_def)
  have il: "i < length (in_pending s)" using dispatch_index_Some(1)[OF i(1)] .
  have split: "in_pending s = take i (in_pending s) @ ?w # drop (i + 1) (in_pending s)" using il by (simp add: id_take_nth_drop)
  then have m: "mset (map f (in_pending s)) = add_mset (f ?w) (mset (map f (take i (in_pending s) @ drop (i + 1) (in_pending s))))"
    for f :: "work \<Rightarrow> 'x" by (metis (no_types, lifting) list.simps(9) map_append mset.simps(2) mset_append union_mset_add_mset_right)
  have total: "active_total ?al = active_total (in_active s) + 1"
    using active_total_update[of "in_active s" "work_mount ?w" "active_count (work_mount ?w) (in_active s) + 1"] assms(3) by (simp add: positive_def)
  have len: "length (in_pending s) = length (take i (in_pending s) @ drop (i + 1) (in_pending s)) + 1" using il by simp
  have seq: "sequences ?s' = sequences s" using m[of wk_sequence] unfolding sequences_def d pipeline_def by simp
  have src: "mset (map (sc_relative \<circ> wk_candidate) (in_pending ?s' @ pipeline ?s')) = mset (map (sc_relative \<circ> wk_candidate) (in_pending s @ pipeline s))"
    using m[of "sc_relative \<circ> wk_candidate"] unfolding d pipeline_def by simp
  have ln: "length (in_submitted s) + length (in_pending s) + active_total (in_active s) = length (in_submitted ?s') + length (in_pending ?s') + active_total (in_active ?s')"
    using len total unfolding d by simp
  have same: "in_scanner ?s' = in_scanner s" "in_done ?s' = in_done s" "in_sequence ?s' = in_sequence s" "in_tickets ?s' = in_tickets s" "in_report ?s' = in_report s"
    "in_submitted ?s' = in_submitted s" "in_phase ?s' = Dispatching" using assms(2) unfolding d by simp_all
  show ?thesis using assms(1,2) unfolding consistent_run_def accounted_def fresh_def seq src ln same by simp
qed

lemma consistent_drain:
  assumes "consistent_run env items s" "in_phase s = Draining"
  shows "consistent_run env items (drain_one env s)"
proof (cases "in_tickets s")
  case Nil
  then show ?thesis using assms by (auto simp: drain_one_def consistent_run_def accounted_def fresh_def sequences_def)
next
  case (Cons t ts)
  show ?thesis
  proof (cases "ie_answer env (pt_sequence t)")
    case (Inl e)
    then show ?thesis using Cons by (simp add: drain_one_def fail_def consistent_run_def)
  next
    case (Inr out)
    let ?s' = "drain_one env s"
    have d: "?s' = s\<lparr>in_tickets := ts, in_report := apply_outcome out (in_report s)\<rparr>" using Cons Inr by (simp add: drain_one_def)
    show ?thesis unfolding consistent_run_def
    proof (intro impI)
      assume h: "(\<forall>t\<in>set (in_submitted ?s'). answer_fits t (ie_answer env (pt_sequence t))) \<and> (\<forall>e. in_phase ?s' \<noteq> Failed e)"
      have a: "accounted env items s" "fresh s" using assms h by (auto simp: consistent_run_def d)
      have "t \<in> set (in_submitted s)" using a(1) Cons by (auto simp: accounted_def)
      then have "answer_fits t (ie_answer env (pt_sequence t))" using h by (simp add: d)
      then have fit: "is_import t = (case out of Imported _ _ \<Rightarrow> True | ObservedKnown \<Rightarrow> False)" using Inr by (simp add: answer_fits_def)
      have o: "records (apply_outcome out (in_report s)) + of_nat (unresolved ts) = records (in_report s) + of_nat (unresolved (in_tickets s))"
        "files_seen (apply_outcome out (in_report s)) = files_seen (in_report s)"
        "files_skipped (apply_outcome out (in_report s)) = files_skipped (in_report s)" "files_hashed (apply_outcome out (in_report s)) = files_hashed (in_report s)"
        "blobs_created (apply_outcome out (in_report s)) = blobs_created (in_report s)" "blobs_reused (apply_outcome out (in_report s)) = blobs_reused (in_report s)"
        using fit Cons by (auto simp: apply_outcome_def report_source_outcome_def records_def unresolved_def split: import_write_outcome.splits source_outcome.splits)
      have "fresh ?s'" by (rule fresh_mono[OF a(2)]) (simp_all add: sequences_def d Cons pipeline_def)
      moreover have "pipeline ?s' = pipeline s" by (simp add: d pipeline_def)
      ultimately show "accounted env items ?s' \<and> fresh ?s'" using a(1) assms(2) o Inr Cons unfolding accounted_def by (auto simp: d)
    qed
  qed
qed


lemma fresh_ticket: "fresh s \<Longrightarrow> t \<in> set (in_tickets s) \<Longrightarrow> unat (pt_sequence t) < unat (in_sequence s)"
proof -
  assume a: "fresh s" "t \<in> set (in_tickets s)"
  then have "pt_sequence t \<in># sequences s" by (simp add: sequences_def)
  then show ?thesis using a(1) by (simp add: fresh_def)
qed

text \<open>A new ticket, and the tickets that are awaited to make room for it.\<close>

lemma ticket_drain:
  assumes "drain_outcomes_to_limit (ie_answer env) mx (insert_ticket t ts0) report = Inr (ts, report')" "\<forall>t'\<in>set ts0. pt_sequence t' \<noteq> pt_sequence t"
    "\<forall>t'\<in>insert t (set ts0). answer_fits t' (ie_answer env (pt_sequence t'))"
  shows "records report' + of_nat (unresolved ts) = records report + of_nat (unresolved ts0) + (if is_import t then 1 else 0)"
    "files_seen report' = files_seen report" "files_skipped report' = files_skipped report" "files_hashed report' = files_hashed report"
    "blobs_created report' = blobs_created report" "blobs_reused report' = blobs_reused report"
    "mset ts \<subseteq># add_mset t (mset ts0)" "\<forall>t'\<in>insert t (set ts0). t' \<in> set ts \<or> (\<exists>out. ie_answer env (pt_sequence t') = Inr out)"
proof -
  have m: "mset (insert_ticket t ts0) = add_mset t (mset ts0)" by (rule insert_fresh[OF assms(2)])
  have set: "set (insert_ticket t ts0) = insert t (set ts0)" using m by (metis set_mset_add_mset_insert set_mset_mset)
  note D = drain_accounts[OF assms(1)]
  have f: "\<forall>t'\<in>set (insert_ticket t ts0). answer_fits t' (ie_answer env (pt_sequence t'))" using assms(3) set by simp
  have "unresolved (insert_ticket t ts0) = unresolved ts0 + (if is_import t then 1 else 0)" unfolding unresolved_mset m by simp
  then show "records report' + of_nat (unresolved ts) = records report + of_nat (unresolved ts0) + (if is_import t then 1 else 0)"
    using D(1)[OF f] by auto
  show "files_seen report' = files_seen report" "files_skipped report' = files_skipped report" "files_hashed report' = files_hashed report"
    "blobs_created report' = blobs_created report" "blobs_reused report' = blobs_reused report" using D(2-6)[OF f] by auto
  obtain xs where xs: "insert_ticket t ts0 = xs @ ts" "\<forall>t\<in>set xs. \<exists>out. ie_answer env (pt_sequence t) = Inr out" using D(7)[OF f] by blast
  show "mset ts \<subseteq># add_mset t (mset ts0)" unfolding m[symmetric] xs(1) by simp
  show "\<forall>t'\<in>insert t (set ts0). t' \<in> set ts \<or> (\<exists>out. ie_answer env (pt_sequence t') = Inr out)"
    unfolding set[symmetric] xs(1) using xs(2) by auto
qed

lemma consistent_skip:
  assumes "consistent_run env items s" "in_phase s = Admitting" "in_scanner s = Inr c # rest" "\<not> in_done s"
    "add_or_fail (in_sequence s) 1 = Inr q" "pt_sequence t = in_sequence s" "pt_source t = sc_relative c" "\<not> is_import t"
    "drain_outcomes_to_limit (ie_answer env) mx (insert_ticket t (in_tickets s)) (report_observed_file c (in_report s)) = Inr (ts, report)"
  shows "consistent_run env items (s\<lparr>in_scanner := rest, in_report := report_skip sz report, in_phase := Dispatching, in_submitted := in_submitted s @ [t],
         in_sequence := q, in_tickets := ts\<rparr>)" (is "consistent_run env items ?s'")
  unfolding consistent_run_def
proof (intro impI)
  assume h: "(\<forall>t\<in>set (in_submitted ?s'). answer_fits t (ie_answer env (pt_sequence t))) \<and> (\<forall>e. in_phase ?s' \<noteq> Failed e)"
  have a: "accounted env items s" "fresh s" using assms(1,2) h by (auto simp: consistent_run_def)
  have new: "\<forall>t'\<in>set (in_tickets s). pt_sequence t' \<noteq> pt_sequence t" using fresh_ticket[OF a(2)] assms(6) by (metis less_irrefl)
  have fits: "\<forall>t'\<in>insert t (set (in_tickets s)). answer_fits t' (ie_answer env (pt_sequence t'))"
    using h a(1) by (auto simp: accounted_def)
  note T = ticket_drain[OF assms(9) new fits]
  have q: "unat q = unat (in_sequence s) + 1" using add_or_fail_unat[OF assms(5)] by simp
  have seq: "sequences ?s' \<subseteq># add_mset (in_sequence s) (sequences s)"
    using image_mset_subseteq_mono[OF T(7), of pt_sequence] assms(6) by (simp add: sequences_def pipeline_def mset_map)
  have "fresh ?s'" unfolding fresh_def
  proof (intro conjI allI ballI)
    fix x
    have "count (sequences ?s') x \<le> count (add_mset (in_sequence s) (sequences s)) x" by (rule mset_subset_eq_count[OF seq])
    moreover have "in_sequence s \<notin># sequences s" using a(2) by (auto simp: fresh_def)
    ultimately show "count (sequences ?s') x \<le> 1" using a(2) by (auto simp: fresh_def not_in_iff split: if_splits intro: le_trans)
  next
    fix x assume "x \<in># sequences ?s'"
    then have "x = in_sequence s \<or> x \<in># sequences s" using mset_subset_eqD[OF seq] by auto
    then show "unat x < unat (in_sequence ?s')" using a(2) q by (auto simp: fresh_def)
  qed
  moreover have "accounted env items ?s'"
  proof -
    obtain adm where adm: "items = map Inr adm @ in_scanner s" "files_seen (in_report s) = of_nat (length adm)"
      "length adm = length (in_submitted s) + length (in_pending s) + active_total (in_active s)"
      "mset (map pt_source (in_submitted s)) + mset (map (sc_relative \<circ> wk_candidate) (in_pending s @ pipeline s)) \<subseteq># mset (map sc_relative adm)"
      using a(1) by (auto simp: accounted_def)
    have "\<exists>adm. items = map Inr adm @ in_scanner ?s' \<and> files_seen (in_report ?s') = of_nat (length adm)
        \<and> length adm = length (in_submitted ?s') + length (in_pending ?s') + active_total (in_active ?s')
        \<and> mset (map pt_source (in_submitted ?s')) + mset (map (sc_relative \<circ> wk_candidate) (in_pending ?s' @ pipeline ?s')) \<subseteq># mset (map sc_relative adm)"
      using adm assms(3,7) T(2) by (intro exI[of _ "adm @ [c]"]) (simp add: report_skip_def report_observed_file_def pipeline_def)
    moreover have "set ts \<subseteq> insert t (set (in_tickets s))" using T(7) by (metis set_mset_add_mset_insert set_mset_mono set_mset_mset)
    moreover have "files_skipped (report_skip sz report) + files_hashed (report_skip sz report) = files_skipped (in_report s) + files_hashed (in_report s) + 1"
      "blobs_created (report_skip sz report) + blobs_reused (report_skip sz report) = blobs_created (in_report s) + blobs_reused (in_report s) + 1"
      "records (report_skip sz report) + of_nat (unresolved ts) = records (in_report s) + of_nat (unresolved (in_tickets s)) + 1"
      using T(1,3-6) assms(8) by (simp_all add: report_skip_def report_observed_file_def records_def ac_simps)
    ultimately show ?thesis using a(1) T(8) assms(4) unfolding accounted_def by auto
  qed
  ultimately show "accounted env items ?s' \<and> fresh ?s'" by blast
qed


lemma consistent_queue:
  assumes "consistent_run env items s" "in_phase s = Admitting" "in_scanner s = Inr c # rest" "\<not> in_done s" "add_or_fail (in_sequence s) 1 = Inr q"
  shows "consistent_run env items (s\<lparr>in_scanner := rest, in_report := report_observed_file c (in_report s), in_phase := Dispatching,
         in_pending := in_pending s @ [\<lparr>wk_sequence = in_sequence s, wk_candidate = c\<rparr>], in_sequence := q\<rparr>)" (is "consistent_run env items ?s'")
  unfolding consistent_run_def
proof (intro impI)
  assume h: "(\<forall>t\<in>set (in_submitted ?s'). answer_fits t (ie_answer env (pt_sequence t))) \<and> (\<forall>e. in_phase ?s' \<noteq> Failed e)"
  have a: "accounted env items s" "fresh s" using assms(1,2) h by (auto simp: consistent_run_def)
  have q: "unat q = unat (in_sequence s) + 1" using add_or_fail_unat[OF assms(5)] by simp
  have seq: "sequences ?s' = add_mset (in_sequence s) (sequences s)" by (simp add: sequences_def pipeline_def)
  have new: "in_sequence s \<notin># sequences s" using a(2) by (auto simp: fresh_def)
  have "count (sequences s) x \<le> 1" "x \<in># sequences s \<Longrightarrow> unat x < unat (in_sequence s)" for x using a(2) by (auto simp: fresh_def)
  then have "fresh ?s'" unfolding fresh_def seq using new q by (auto simp: not_in_iff less_Suc_eq)
  moreover have "accounted env items ?s'"
  proof -
    obtain adm where adm: "items = map Inr adm @ in_scanner s" "files_seen (in_report s) = of_nat (length adm)"
      "length adm = length (in_submitted s) + length (in_pending s) + active_total (in_active s)"
      "mset (map pt_source (in_submitted s)) + mset (map (sc_relative \<circ> wk_candidate) (in_pending s @ pipeline s)) \<subseteq># mset (map sc_relative adm)"
      using a(1) by (auto simp: accounted_def)
    have "\<exists>adm. items = map Inr adm @ in_scanner ?s' \<and> files_seen (in_report ?s') = of_nat (length adm)
        \<and> length adm = length (in_submitted ?s') + length (in_pending ?s') + active_total (in_active ?s')
        \<and> mset (map pt_source (in_submitted ?s')) + mset (map (sc_relative \<circ> wk_candidate) (in_pending ?s' @ pipeline ?s')) \<subseteq># mset (map sc_relative adm)"
      using adm assms(3) by (intro exI[of _ "adm @ [c]"]) (simp add: report_observed_file_def pipeline_def)
    then show ?thesis using a(1) assms(4) by (auto simp: accounted_def report_observed_file_def records_def)
  qed
  ultimately show "accounted env items ?s' \<and> fresh ?s'" by blast
qed

lemma consistent_admit:
  assumes "consistent_run env items s" "in_phase s = Admitting"
  shows "consistent_run env items (admit env config s)"
proof (cases "\<not> in_done s \<and> length (in_pending s) < scheduler_queue_capacity")
  case True
  show ?thesis
  proof (cases "in_scanner s")
    case Nil
    then show ?thesis using assms True by (auto simp: admit_def consistent_run_def accounted_def fresh_def sequences_def)
  next
    case (Cons x rest)
    show ?thesis
    proof (cases x)
      case (Inl e)
      then show ?thesis using True Cons by (simp add: admit_def fail_def consistent_run_def)
    next
      case (Inr c)
      let ?s0 = "s\<lparr>in_scanner := rest\<rparr>"
      have ad: "admit env config s = admit_candidate env config c ?s0" using True Cons Inr by (simp add: admit_def)
      show ?thesis
      proof (cases rule: admit_candidate_cases[of env config c ?s0])
        case (failed e)
        then show ?thesis by (simp add: ad consistent_run_def)
      next
        case (skipped h sz t ts report q)
        have "consistent_run env items (s\<lparr>in_scanner := rest, in_report := report_skip sz report, in_phase := Dispatching,
            in_submitted := in_submitted s @ [t], in_sequence := q, in_tickets := ts\<rparr>)"
          by (rule consistent_skip[OF assms Cons[unfolded Inr]]) (use True skipped in \<open>auto simp: is_import_def\<close>)
        then show ?thesis using skipped(4) by (simp add: ad)
      next
        case (queued q)
        then show ?thesis using consistent_queue[OF assms Cons[unfolded Inr], of q] True by (simp add: ad)
      qed
    qed
  qed
next
  case False
  then show ?thesis using assms by (auto simp: admit_def consistent_run_def accounted_def fresh_def sequences_def)
qed

lemma consistent_receive:
  assumes "consistent_run env items s" "in_phase s = Waiting" "in_channel s = c # cs" "positive (in_active s)"
  shows "consistent_run env items (complete_work env config c (s\<lparr>in_channel := cs\<rparr>))" (is "consistent_run env items ?s'")
proof (cases rule: complete_work_cases[of env config c "s\<lparr>in_channel := cs\<rparr>"])
  case (failed e)
  then show ?thesis by (simp add: consistent_run_def)
next
  case (finished n blob t ts report)
  let ?w = "cw_work c"
  let ?al = "if n = 0 then AList.delete (work_mount ?w) (in_active s) else AList.update (work_mount ?w) n (in_active s)"
  have s': "?s' = s\<lparr>in_channel := cs, in_active := ?al, in_submitted := in_submitted s @ [t], in_tickets := ts, in_report := report, in_phase := Dispatching\<rparr>"
    using finished(5) by simp
  have t: "pt_sequence t = wk_sequence ?w" "pt_source t = sc_relative (wk_candidate ?w)" "is_import t" using finished(3) by (simp_all add: is_import_def)
  show ?thesis unfolding consistent_run_def
  proof (intro impI)
    assume h: "(\<forall>t\<in>set (in_submitted ?s'). answer_fits t (ie_answer env (pt_sequence t))) \<and> (\<forall>e. in_phase ?s' \<noteq> Failed e)"
    have a: "accounted env items s" "fresh s" using assms(1,2) h by (auto simp: consistent_run_def s')
    let ?rest = "mset (map wk_sequence (in_pending s)) + mset (map wk_sequence (pipeline (s\<lparr>in_channel := cs\<rparr>)))"
    have seqs: "sequences s = add_mset (wk_sequence ?w) (mset (map pt_sequence (in_tickets s)) + ?rest)"
      using assms(3) by (simp add: sequences_def pipeline_def)
    have "wk_sequence ?w \<notin># mset (map pt_sequence (in_tickets s))"
    proof
      assume "wk_sequence ?w \<in># mset (map pt_sequence (in_tickets s))"
      then have "count (sequences s) (wk_sequence ?w) \<ge> 2" unfolding seqs by (simp add: count_greater_zero_iff Suc_le_eq)
      then show False using a(2) unfolding fresh_def by (metis Suc_1 not_less_eq_eq)
    qed
    then have new: "\<forall>t'\<in>set (in_tickets s). pt_sequence t' \<noteq> pt_sequence t" unfolding t(1) by (metis image_eqI set_map set_mset_mset)
    have fits: "\<forall>t'\<in>insert t (set (in_tickets s)). answer_fits t' (ie_answer env (pt_sequence t'))" using h a(1) by (auto simp: accounted_def s')
    have dr: "drain_outcomes_to_limit (ie_answer env) (ig_outstanding config) (insert_ticket t (in_tickets s)) (report_hashed blob (in_report s)) = Inr (ts, report)"
      using finished(4) by simp
    note T = ticket_drain[OF dr new fits]
    have pipe: "pipeline ?s' = pipeline (s\<lparr>in_channel := cs\<rparr>)" by (simp add: s' pipeline_def)
    have "mset (map pt_sequence ts) \<subseteq># add_mset (wk_sequence ?w) (mset (map pt_sequence (in_tickets s)))"
      using image_mset_subseteq_mono[OF T(7), of pt_sequence] t(1) by (simp add: mset_map)
    from subset_mset.add_right_mono[OF this, of ?rest]
    have "mset (map pt_sequence ts) + ?rest \<subseteq># sequences s" unfolding seqs by simp
    moreover have "sequences ?s' = mset (map pt_sequence ts) + ?rest" unfolding sequences_def pipe by (simp add: s')
    ultimately have "sequences ?s' \<subseteq># sequences s" by simp
    then have "fresh ?s'" by (rule fresh_mono[OF a(2)]) (simp add: s')
    moreover have "accounted env items ?s'"
    proof -
      have cnt: "active_count (work_mount ?w) (in_active s) = Suc n" using finished(1) by (simp add: active_count_def)
      have tot: "active_total (in_active s) = active_total ?al + 1"
        using active_total_delete[of "in_active s" "work_mount ?w"] active_total_update[of "in_active s" "work_mount ?w" n] assms(4) cnt by (auto simp: positive_def)
      have src: "mset (map pt_source (in_submitted ?s')) + mset (map (sc_relative \<circ> wk_candidate) (in_pending ?s' @ pipeline ?s'))
          = mset (map pt_source (in_submitted s)) + mset (map (sc_relative \<circ> wk_candidate) (in_pending s @ pipeline s))"
        using assms(3) t(2) by (simp add: s' pipeline_def)
      have len: "length (in_submitted ?s') + length (in_pending ?s') + active_total (in_active ?s')
          = length (in_submitted s) + length (in_pending s) + active_total (in_active s)" using tot by (simp add: s')
      have "\<exists>adm. items = map Inr adm @ in_scanner ?s' \<and> files_seen (in_report ?s') = of_nat (length adm)
        \<and> length adm = length (in_submitted ?s') + length (in_pending ?s') + active_total (in_active ?s')
        \<and> mset (map pt_source (in_submitted ?s')) + mset (map (sc_relative \<circ> wk_candidate) (in_pending ?s' @ pipeline ?s')) \<subseteq># mset (map sc_relative adm)"
        unfolding src len using a(1) T(2)
        by (auto simp: accounted_def s' report_hashed_def report_store_outcome_def split: store_outcome.splits)
      moreover have "set ts \<subseteq> insert t (set (in_tickets s))" using T(7) by (metis set_mset_add_mset_insert set_mset_mono set_mset_mset)
      moreover have "files_skipped report + files_hashed report = files_skipped (in_report s) + files_hashed (in_report s) + 1"
        "blobs_created report + blobs_reused report = blobs_created (in_report s) + blobs_reused (in_report s) + 1"
        "records report + of_nat (unresolved ts) = records (in_report s) + of_nat (unresolved (in_tickets s)) + 1"
        using T(1,3-6) t(3) by (auto simp: report_hashed_def report_store_outcome_def records_def split: store_outcome.splits)
      ultimately show ?thesis using a(1) T(8) unfolding accounted_def by (auto simp: s')
    qed
    ultimately show "accounted env items ?s' \<and> fresh ?s'" by blast
  qed
qed

lemma consistent_step:
  assumes "ingest_step env config s s'" "consistent_run env items s" "positive (in_active s)"
  shows "consistent_run env items s'"
  using assms
proof (induction rule: ingest_step.induct)
  case (dispatch s)
  then show ?case by (intro consistent_dispatch)
next
  case (admit s)
  then show ?case by (intro consistent_admit)
next
  case (receive s c cs)
  then show ?case by (intro consistent_receive)
next
  case (drain s)
  then show ?case by (intro consistent_drain)
next
  case (poll s e)
  then show ?case by (simp add: consistent_run_def fail_def)
next
  case (disconnected s)
  then show ?case by (simp add: consistent_run_def fail_def)
next
  case (take_job s w ws)
  then show ?case by (intro consistent_worker[OF take_job(3)]) (auto simp: pipeline_def)
next
  case (read_done s xs w ys blob)
  then show ?case by (intro consistent_worker[OF read_done(2)]) (auto simp: pipeline_def)
next
  case (send s xs c ys)
  then show ?case by (intro consistent_worker[OF send(3)]) (auto simp: pipeline_def)
next
  case (read_fails s xs w ys e)
  then show ?case by (intro consistent_worker[OF read_fails(2)]) (auto simp: pipeline_def)
next
  case (writer_fails s e)
  then show ?case by (intro consistent_worker[OF writer_fails(2)]) (auto simp: pipeline_def)
next
  case (cancel_job s w ws e)
  then show ?case by (intro consistent_worker[OF cancel_job(3)]) (auto simp: pipeline_def)
next
  case (cancel_held s xs c ys e)
  then show ?case by (intro consistent_worker[OF cancel_held(3)]) (auto simp: pipeline_def)
qed

lemma reachable_consistent:
  assumes "ingest_reachable env config items s" "0 < ig_limit config"
  shows "consistent_run env items s"
  using assms
proof (induction rule: ingest_reachable.induct)
  case start
  have "accounted env items (ingest_start items)"
    unfolding accounted_def
    by (intro conjI exI[of _ "[]"]) (simp_all add: ingest_start_def pipeline_def active_total_def empty_import_report_def records_def unresolved_def)
  then show ?case by (simp add: consistent_run_def fresh_def sequences_def ingest_start_def pipeline_def)
next
  case (step s s')
  then show ?case using consistent_step reachable_bounded(2)[OF step(1)] by (auto simp: attentive_def)
qed


section \<open>Skipping\<close>

text \<open>What a ticket of a run says of its candidate.\<close>

definition skip_is_sound :: "ingest_env \<Rightarrow> ingest_config \<Rightarrow> pending_ticket \<Rightarrow> source_file_candidate \<Rightarrow> bool" where
  "skip_is_sound env config t c \<longleftrightarrow>
     (case pt_request t of
        PendingImported b obs \<Rightarrow>
          so_hash obs = br_hash b \<and> so_root obs = ig_source_text config \<and> so_rel obs = sc_relative c \<and> so_size obs = sc_size c \<and> so_modified obs = sc_modified c
      | PendingKnown obs sz \<Rightarrow>
          ig_metadata_skip config \<and> so_root obs = ig_source_text config \<and> so_rel obs = sc_relative c \<and> so_size obs = sc_size c \<and> so_modified obs = sc_modified c \<and> sz = sc_size c
          \<and> (\<exists>k. ie_known env (pt_sequence t) c = Inr (Some k) \<and> ks_hash k = so_hash obs \<and> ks_source_size k = sc_size c \<and> ks_blob_size k = sc_size c
                 \<and> ks_modified k = sc_modified c \<and> sc_modified c \<noteq> None
                 \<and> check_blob_metadata (ig_store config) (ks_hash k) (sc_size c) (ie_fs env (pt_sequence t)) = Inr CasPresent))"

lemma validated_skip:
  assumes "validated_disposition root f (classify_import ms c known) = Inr (Skip h sz r)"
  shows "ms" "\<exists>k. known = Some k \<and> ks_hash k = h \<and> ks_source_size k = sc_size c \<and> ks_blob_size k = sc_size c \<and> ks_modified k = sc_modified c
    \<and> sc_modified c \<noteq> None \<and> sz = sc_size c \<and> check_blob_metadata root h (sc_size c) f = Inr CasPresent"
proof -
  obtain d where d: "classify_import ms c known = d" by blast
  have "d = Skip h sz r \<and> check_blob_metadata root h sz f = Inr CasPresent"
    using assms unfolding d validated_disposition_def
    by (cases d) (auto simp: bind_result_def split: sum.splits cas_metadata_check.splits)
  then show "ms" "\<exists>k. known = Some k \<and> ks_hash k = h \<and> ks_source_size k = sc_size c \<and> ks_blob_size k = sc_size c \<and> ks_modified k = sc_modified c
    \<and> sc_modified c \<noteq> None \<and> sz = sc_size c \<and> check_blob_metadata root h (sc_size c) f = Inr CasPresent"
    using d by (auto simp: classify_import_def split: if_splits option.splits)
qed

lemma admit_candidate_submits:
  "in_submitted (admit_candidate env config c s) = in_submitted s
   \<or> (\<exists>t. in_submitted (admit_candidate env config c s) = in_submitted s @ [t] \<and> pt_source t = sc_relative c \<and> skip_is_sound env config t c)"
proof (cases "bind_result (ie_known env (in_sequence s) c) (\<lambda>known.
    validated_disposition (ig_store config) (ie_fs env (in_sequence s)) (classify_import (ig_metadata_skip config) c known))")
  case d: (Inr d)
  show ?thesis
  proof (cases d)
    case (Skip h sz r)
    let ?t = "\<lparr>pt_sequence = in_sequence s, pt_source = sc_relative c,
         pt_request = PendingKnown (source_observation_of (ig_source_text config) c h (snd (ie_clock env (in_sequence s)))) sz\<rparr>"
    obtain known where "ie_known env (in_sequence s) c = Inr known"
      "validated_disposition (ig_store config) (ie_fs env (in_sequence s)) (classify_import (ig_metadata_skip config) c known) = Inr (Skip h sz r)"
      using d Skip by (auto simp: result_simps)
    then have "skip_is_sound env config ?t c" using validated_skip[of "ig_store config" "ie_fs env (in_sequence s)" "ig_metadata_skip config" c known h sz r]
      by (auto simp: skip_is_sound_def source_observation_of_def)
    moreover have "in_submitted (admit_candidate env config c s) = in_submitted s \<or> in_submitted (admit_candidate env config c s) = in_submitted s @ [?t]"
      using d Skip by (auto simp: admit_candidate_def Let_def fail_def split: sum.splits)
    ultimately show ?thesis by auto
  qed (use d in \<open>auto simp: admit_candidate_def Let_def fail_def split: sum.splits\<close>)
qed (simp add: admit_candidate_def Let_def fail_def)

lemma admit_candidate_pending:
  "set (in_pending (admit_candidate env config c s)) \<subseteq> insert \<lparr>wk_sequence = in_sequence s, wk_candidate = c\<rparr> (set (in_pending s))"
  by (auto simp: admit_candidate_def Let_def fail_def split: sum.splits import_disposition.splits)

lemma complete_work_submits:
  "in_submitted (complete_work env config c s) = in_submitted s
   \<or> (\<exists>t. in_submitted (complete_work env config c s) = in_submitted s @ [t] \<and> pt_source t = sc_relative (wk_candidate (cw_work c))
        \<and> skip_is_sound env config t (wk_candidate (cw_work c)))"
  by (auto simp: complete_work_def Let_def fail_def skip_is_sound_def source_observation_of_def split: option.splits nat.splits sum.splits)

lemma complete_work_fields:
  "in_pending (complete_work env config c s) = in_pending s" "pipeline (complete_work env config c s) = pipeline s"
  "in_scanner (complete_work env config c s) = in_scanner s"
  by (cases rule: complete_work_cases[of env config c s]; simp add: pipeline_def)+

definition sourced :: "ingest_env \<Rightarrow> ingest_config \<Rightarrow> source_file_candidate result list \<Rightarrow> ingest_state \<Rightarrow> bool" where
  "sourced env config items s \<longleftrightarrow> set (in_scanner s) \<subseteq> set items \<and> (\<forall>w\<in>set (in_pending s @ pipeline s). Inr (wk_candidate w) \<in> set items)
     \<and> (\<forall>t\<in>set (in_submitted s). \<exists>c. Inr c \<in> set items \<and> pt_source t = sc_relative c \<and> skip_is_sound env config t c)"

lemma sourced_mono:
  assumes "sourced env config items s" "in_scanner s' = in_scanner s" "in_submitted s' = in_submitted s"
    "set (in_pending s' @ pipeline s') \<subseteq> set (in_pending s @ pipeline s)"
  shows "sourced env config items s'"
  using assms(1) subsetD[OF assms(4)] unfolding sourced_def assms(2,3) by blast

lemma sourced_admit:
  assumes "sourced env config items s"
  shows "sourced env config items (admit env config s)"
proof -
  have "sourced env config items (admit_candidate env config c (s\<lparr>in_scanner := rest\<rparr>))" if x: "in_scanner s = Inr c # rest" for c rest
  proof -
    let ?s0 = "s\<lparr>in_scanner := rest\<rparr>"
    let ?s' = "admit_candidate env config c ?s0"
    have c: "Inr c \<in> set items" using assms x by (auto simp: sourced_def)
    have "\<forall>t\<in>set (in_submitted ?s'). t \<in> set (in_submitted s) \<or> pt_source t = sc_relative c \<and> skip_is_sound env config t c"
      using admit_candidate_submits[of env config c ?s0] by auto
    then have "\<forall>t\<in>set (in_submitted ?s'). \<exists>c. Inr c \<in> set items \<and> pt_source t = sc_relative c \<and> skip_is_sound env config t c"
      using assms c unfolding sourced_def by metis
    moreover have "\<forall>w\<in>set (in_pending ?s' @ pipeline ?s'). Inr (wk_candidate w) \<in> set items"
      using assms c admit_candidate_pending[of env config c ?s0] by (auto simp: sourced_def)
    ultimately show ?thesis using assms x by (auto simp: sourced_def admit_candidate_fields)
  qed
  then show ?thesis using assms
    by (auto simp: admit_def fail_def split: list.splits sum.splits) (auto simp: sourced_def)
qed

lemma sourced_dispatch:
  assumes "sourced env config items s"
  shows "sourced env config items (dispatch_one limit s)"
proof -
  have "in_scanner (dispatch_one limit s) = in_scanner s" "in_submitted (dispatch_one limit s) = in_submitted s"
    by (simp_all add: dispatch_one_def Let_def split: option.splits)
  moreover have "set (in_pending (dispatch_one limit s) @ pipeline (dispatch_one limit s)) \<subseteq> set (in_pending s @ pipeline s)"
    using dispatch_index_Some(1)[of limit "in_active s" "in_last s" "in_pending s"] nth_mem[of _ "in_pending s"]
    by (auto simp: dispatch_one_def Let_def pipeline_def split: option.splits if_splits dest: in_set_takeD in_set_dropD)
  ultimately show ?thesis by (rule sourced_mono[OF assms])
qed

lemma sourced_receive:
  assumes "sourced env config items s" "in_channel s = c # cs"
  shows "sourced env config items (complete_work env config c (s\<lparr>in_channel := cs\<rparr>))"
proof -
  let ?s' = "complete_work env config c (s\<lparr>in_channel := cs\<rparr>)"
  have c: "Inr (wk_candidate (cw_work c)) \<in> set items" using assms by (auto simp: sourced_def pipeline_def)
  have "\<forall>t\<in>set (in_submitted ?s'). t \<in> set (in_submitted s)
      \<or> pt_source t = sc_relative (wk_candidate (cw_work c)) \<and> skip_is_sound env config t (wk_candidate (cw_work c))"
    using complete_work_submits[of env config c "s\<lparr>in_channel := cs\<rparr>"] by auto
  then have "\<forall>t\<in>set (in_submitted ?s'). \<exists>c. Inr c \<in> set items \<and> pt_source t = sc_relative c \<and> skip_is_sound env config t c"
    using assms(1) c unfolding sourced_def by metis
  moreover have "set (pipeline (s\<lparr>in_channel := cs\<rparr>)) \<subseteq> set (pipeline s)" using assms(2) by (auto simp: pipeline_def)
  ultimately show ?thesis using assms(1) by (auto simp: sourced_def complete_work_fields)
qed

lemma sourced_step:
  assumes "ingest_step env config s s'" "sourced env config items s"
  shows "sourced env config items s'"
  using assms
proof (induction rule: ingest_step.induct)
  case (dispatch s)
  then show ?case by (intro sourced_dispatch)
next
  case (admit s)
  then show ?case by (intro sourced_admit)
next
  case (receive s c cs)
  then show ?case by (intro sourced_receive)
next
  case (drain s)
  then show ?case by (intro sourced_mono[OF drain(2)]) (auto simp: drain_one_def fail_def pipeline_def split: list.splits sum.splits)
qed (auto elim!: sourced_mono simp: fail_def pipeline_def)

lemma reachable_sourced: "ingest_reachable env config items s \<Longrightarrow> sourced env config items s"
proof (induction rule: ingest_reachable.induct)
  case start
  show ?case by (simp add: sourced_def ingest_start_def pipeline_def)
next
  case (step s s')
  then show ?case using sourced_step by blast
qed


section \<open>What a run guarantees\<close>

text \<open>
  C24 (bounds): every queue of a run stays within its capacity: at most 64 candidates wait for a
  worker, 8 jobs are queued, 8 files are read or held by a worker and 8 results are in the
  completion channel; and no mount ever has more files in flight than its limit of workers.
\<close>

theorem ingest_queues_bounded:
  assumes "ingest_reachable env config items s" "0 < ig_limit config"
  shows "length (in_pending s) \<le> 64 \<and> length (in_jobs s) \<le> 8 \<and> length (in_readers s) + length (in_held s) \<le> 8 \<and> length (in_channel s) \<le> 8
    \<and> (\<forall>m. length (filter (\<lambda>w. work_mount w = m) (in_jobs s @ in_readers s @ map cw_work (in_held s) @ map cw_work (in_channel s))) \<le> ig_limit config)"
proof -
  have b: "in_bounds config s" by (rule reachable_bounded(1)[OF assms])
  then have "mount_load m (pipeline s) \<le> ig_limit config" for m unfolding in_bounds_def by (meson le_trans)
  then show ?thesis using b by (simp add: in_bounds_def capacities mount_load_def pipeline_def)
qed

lemma finished_accounts:
  assumes "ingest_reachable env config items s" "0 < ig_limit config" "in_phase s = Finished"
    "\<forall>t\<in>set (in_submitted s). answer_fits t (ie_answer env (pt_sequence t))"
  shows "\<exists>adm. items = map Inr adm \<and> mset (map pt_source (in_submitted s)) = mset (map sc_relative adm)
    \<and> files_seen (in_report s) = of_nat (length adm)
    \<and> files_skipped (in_report s) + files_hashed (in_report s) = of_nat (length adm)
    \<and> blobs_created (in_report s) + blobs_reused (in_report s) = of_nat (length adm)
    \<and> source_records_inserted (in_report s) + source_records_updated (in_report s) = of_nat (length adm)
    \<and> (\<forall>t\<in>set (in_submitted s). \<exists>out. ie_answer env (pt_sequence t) = Inr out)"
proof -
  have a: "accounted env items s" using reachable_consistent[OF assms(1,2)] assms(3,4) by (simp add: consistent_run_def)
  then have e: "in_tickets s = []" "in_active s = []" "in_pending s = []" "in_scanner s = []" using assms(3) by (auto simp: accounted_def)
  obtain adm where adm: "items = map Inr adm @ in_scanner s" "files_seen (in_report s) = of_nat (length adm)"
    "length adm = length (in_submitted s) + length (in_pending s) + active_total (in_active s)"
    "mset (map pt_source (in_submitted s)) + mset (map (sc_relative \<circ> wk_candidate) (in_pending s @ pipeline s)) \<subseteq># mset (map sc_relative adm)"
    using a by (auto simp: accounted_def)
  have len: "length adm = length (in_submitted s)" using adm(3) e by (simp add: active_total_def)
  have "mset (map pt_source (in_submitted s)) \<subseteq># mset (map sc_relative adm)" using adm(4) by (metis mset_subset_eq_add_left subset_mset.trans)
  then have "mset (map pt_source (in_submitted s)) = mset (map sc_relative adm)"
    using len mset_subset_size by (metis less_irrefl size_mset length_map subset_mset.le_imp_less_or_eq)
  moreover have "files_skipped (in_report s) + files_hashed (in_report s) = of_nat (length adm)"
    "blobs_created (in_report s) + blobs_reused (in_report s) = of_nat (length adm)"
    "records (in_report s) = of_nat (length adm)"
    "\<forall>t\<in>set (in_submitted s). \<exists>out. ie_answer env (pt_sequence t) = Inr out"
    using a e len by (auto simp: accounted_def unresolved_def)
  ultimately show ?thesis using adm(1,2) e(4) by (intro exI[of _ adm]) (simp add: records_def)
qed

text \<open>
  C6 (functional): when an import finishes, the scanner gave no error and every scanned file has
  exactly one request in the catalog, all of them answered with success; the report counts every
  file once as seen, once as skipped or hashed, once as a created or a reused blob and once as an
  inserted or an updated source record. The hypothesis on answers is the writer's contract: an
  import is answered with its outcomes, an observation of a known file without.
\<close>

theorem ingest_finished_accounts:
  assumes "ingest_reachable env config items s" "0 < ig_limit config" "in_phase s = Finished"
    "\<forall>t\<in>set (in_submitted s). answer_fits t (ie_answer env (pt_sequence t))"
  shows "\<exists>adm. items = map Inr adm \<and> mset (map pt_source (in_submitted s)) = mset (map sc_relative adm)
    \<and> files_seen (in_report s) = of_nat (length adm)
    \<and> files_skipped (in_report s) + files_hashed (in_report s) = of_nat (length adm)
    \<and> blobs_created (in_report s) + blobs_reused (in_report s) = of_nat (length adm)
    \<and> source_records_inserted (in_report s) + source_records_updated (in_report s) = of_nat (length adm)
    \<and> (\<forall>t\<in>set (in_submitted s). \<exists>out. ie_answer env (pt_sequence t) = Inr out)"
  by (rule finished_accounts[OF assms])

text \<open>
  C26 (liveness): the coordinator never waits in vain. While it waits for a worker and nothing
  has failed, a result is in the channel, or a worker can send the result it holds, or a file is
  being read, or a worker is free to take a queued job.
\<close>

theorem ingest_never_waits_in_vain:
  assumes "ingest_reachable env config items s" "0 < ig_limit config" "in_phase s = Waiting" "in_failure s = None"
  shows "in_channel s \<noteq> [] \<or> in_held s \<noteq> [] \<and> length (in_channel s) < completion_queue_capacity \<or> in_readers s \<noteq> []
    \<or> in_jobs s \<noteq> [] \<and> length (in_readers s) + length (in_held s) < max_live_source_workers"
proof -
  note r = reachable_bounded[OF assms(1,2)]
  have "in_active s \<noteq> []" "positive (in_active s)" using r(2) assms(3) by (auto simp: attentive_def)
  then obtain m n al where "in_active s = (m, n) # al" "0 < n" by (cases "in_active s") (auto simp: positive_def)
  then have "0 < active_count m (in_active s)" by (simp add: active_count_def)
  also have "\<dots> = mount_load m (pipeline s)" using r(1) assms(3,4) by (simp add: in_bounds_def)
  finally have "pipeline s \<noteq> []" by auto
  then show ?thesis by (cases "in_held s"; cases "in_channel s") (auto simp: pipeline_def capacities)
qed

text \<open>
  C27 (termination): there is no infinite run: every interleaving of the coordinator, the workers
  and the failures ends.
\<close>

theorem ingest_runs_end: "wf {(s', s). ingest_step env config s s'}"
proof (rule wf_subset[OF wf_measure[of ingest_measure]])
  show "{(s', s). ingest_step env config s s'} \<subseteq> measure ingest_measure" using ingest_step_measure by auto
qed

text \<open>
  C15 (safety): a file is skipped without being read only if skipping is enabled, the catalog
  knows it with the same size and the same available modification time, its blob has that size,
  and the store holds an entry for it. The observation written then names the blob of the catalog.
\<close>

theorem ingest_skips_only_unchanged:
  assumes "ingest_reachable env config items s" "t \<in> set (in_submitted s)" "pt_request t = PendingKnown obs sz"
  shows "ig_metadata_skip config \<and> (\<exists>c k. Inr c \<in> set items \<and> pt_source t = sc_relative c \<and> so_rel obs = sc_relative c
    \<and> ie_known env (pt_sequence t) c = Inr (Some k) \<and> so_hash obs = ks_hash k \<and> sz = sc_size c
    \<and> ks_source_size k = sc_size c \<and> ks_blob_size k = sc_size c \<and> ks_modified k = sc_modified c \<and> sc_modified c \<noteq> None
    \<and> check_blob_metadata (ig_store config) (ks_hash k) (sc_size c) (ie_fs env (pt_sequence t)) = Inr CasPresent)"
proof -
  obtain c where "Inr c \<in> set items" "pt_source t = sc_relative c" "skip_is_sound env config t c"
    using reachable_sourced[OF assms(1)] assms(2) unfolding sourced_def by blast
  then show ?thesis using assms(3) by (auto simp: skip_is_sound_def intro!: exI[of _ c])
qed


section \<open>A run\<close>

lemmas reach_dispatch = ingest_reachable.step[OF _ ingest_step.dispatch]
lemmas reach_admit = ingest_reachable.step[OF _ ingest_step.admit]
lemmas reach_drain = ingest_reachable.step[OF _ ingest_step.drain]

lemma reach_receive:
  "ingest_reachable env config items s \<Longrightarrow> in_phase s = Waiting \<Longrightarrow> in_channel s \<noteq> []
   \<Longrightarrow> ingest_reachable env config items (complete_work env config (hd (in_channel s)) (s\<lparr>in_channel := tl (in_channel s)\<rparr>))"
  by (rule ingest_reachable.step, assumption, rule ingest_step.receive) simp_all

lemma reach_take:
  "ingest_reachable env config items s \<Longrightarrow> in_jobs s \<noteq> [] \<Longrightarrow> length (in_readers s) + length (in_held s) < max_live_source_workers
   \<Longrightarrow> ingest_reachable env config items (s\<lparr>in_jobs := tl (in_jobs s), in_readers := in_readers s @ [hd (in_jobs s)]\<rparr>)"
  by (rule ingest_reachable.step, assumption, rule ingest_step.take_job) simp_all

lemma reach_read:
  "ingest_reachable env config items s \<Longrightarrow> in_readers s \<noteq> []
   \<Longrightarrow> ingest_reachable env config items (s\<lparr>in_readers := tl (in_readers s), in_held := in_held s @ [\<lparr>cw_work = hd (in_readers s), cw_result = Inr blob\<rparr>]\<rparr>)"
  using ingest_reachable.step[OF _ ingest_step.read_done[of s "[]" "hd (in_readers s)" "tl (in_readers s)" env config blob]] by simp

lemma reach_send:
  "ingest_reachable env config items s \<Longrightarrow> in_held s \<noteq> [] \<Longrightarrow> length (in_channel s) < completion_queue_capacity
   \<Longrightarrow> ingest_reachable env config items (s\<lparr>in_held := tl (in_held s), in_channel := in_channel s @ [hd (in_held s)]\<rparr>)"
  using ingest_reachable.step[OF _ ingest_step.send[of s "[]" "hd (in_held s)" "tl (in_held s)" env config]] by simp

definition kept_hash :: blob_hash where
  "kept_hash = BlobHash (replicate 64 CHR ''0'')"

definition sample_candidate :: source_file_candidate where
  "sample_candidate = \<lparr>sc_absolute = ''/src/a'', sc_relative = SourceRelativePath ''a'', sc_size = 2, sc_modified = Some 7, sc_mount = MountId 0\<rparr>"

definition stored_fs :: fs where
  "stored_fs = sample_fs\<lparr>nodes := nodes sample_fs @ [([''s'', ''blobs''], FDir), ([''s'', ''blobs'', ''00''], FDir),
     ([''s'', ''blobs'', ''00'', ''00''], FDir), (blob_file sample_root kept_hash, FFile 0)]\<rparr>"

definition sample_known :: known_source where
  "sample_known = \<lparr>ks_hash = kept_hash, ks_source_size = 2, ks_modified = Some 7, ks_blob_size = 2, ks_deleted = None\<rparr>"

definition sample_env :: ingest_env where
  "sample_env =\<lparr>ie_known = (\<lambda>_ _. Inr (Some sample_known)), ie_fs = (\<lambda>_. stored_fs), ie_clock = (\<lambda>_. (0, 0)),
     ie_answer = (\<lambda>_. Inr (Imported BlobInserted SourceInserted)), ie_submit = (\<lambda>_. Inr ())\<rparr>"

definition sample_config :: "bool \<Rightarrow> ingest_config" where
  "sample_config skip = \<lparr>ig_store = sample_root, ig_source_text = ''/src'', ig_metadata_skip = skip, ig_limit = 2, ig_outstanding = 32\<rparr>"

lemma stored_blob_present: "check_blob_metadata sample_root kept_hash 2 stored_fs = Inr CasPresent"
proof -
  have h: "hash_ok kept_hash" by (simp add: kept_hash_def hash_ok_def is_lower_hex_def list_all_iff)
  have b: "blob_file sample_root kept_hash = [''s'', ''blobs'', ''00'', ''00'', as_str kept_hash]"
    by (simp add: blob_file_def sample_names blob_names_def kept_hash_def shard1_def shard2_def numeral_eq_Suc)
  note p = blob_path_names[OF sample_names(2) h]
  have "real_parents stored_fs (blob_file sample_root kept_hash)" unfolding b
    by (auto simp: real_parents_def node_at_def stored_fs_def sample_fs_def b less_Suc_eq)
  then have l: "locate False (blob_path sample_root kept_hash) stored_fs = Inr (blob_file sample_root kept_hash)"
    using locate_real[OF p(2), of stored_fs False] p(1) by simp
  have n: "node_at stored_fs (blob_file sample_root kept_hash) = Some (FFile 0)" by (simp add: node_at_def stored_fs_def sample_fs_def b)
  show ?thesis unfolding check_blob_metadata_def open_no_follow_def handle_metadata_def
    using l n by (simp add: fault_free_def stored_fs_def sample_fs_def metadata_of_def)
qed


lemmas sample_run_simps = ingest_start_def sample_env_def sample_config_def dispatch_one_def dispatch_index_def position_def active_count_def
  admit_def admit_candidate_def complete_work_def drain_one_def validated_disposition_def classify_import_def
  add_or_fail_def checked_add_def insert_ticket_def capacities sample_candidate_def empty_import_report_def Let_def


text \<open>A file that is read: the run waits for its reader, and later finishes.\<close>

lemma sample_waiting:
  "\<exists>s. ingest_reachable sample_env (sample_config False) [Inr sample_candidate] s \<and> in_phase s = Waiting \<and> in_failure s = None"
  "\<exists>s t. ingest_reachable sample_env (sample_config False) [Inr sample_candidate] s \<and> in_phase s = Finished \<and> in_submitted s = [t] \<and> is_import t
     \<and> pt_request t = PendingImported \<lparr>br_hash = kept_hash, br_size = 2, br_created = 0\<rparr> (source_observation_of ''/src'' sample_candidate kept_hash 0)"
proof -
  note s0 = ingest_reachable.start[of sample_env "sample_config False" "[Inr sample_candidate]"]
  note s1 = reach_dispatch[OF s0, simplified sample_run_simps, simplified]
  note s2 = reach_admit[OF s1, simplified sample_run_simps, simplified]
  note s3 = reach_dispatch[OF s2, simplified sample_run_simps, simplified]
  note s4 = reach_dispatch[OF s3, simplified sample_run_simps, simplified]
  note s5 = reach_admit[OF s4, simplified admit_def, simplified capacities, simplified]
  note s6 = reach_dispatch[OF s5, simplified dispatch_one_def dispatch_index_def position_def Let_def, simplified capacities active_count_def, simplified]
  note s7 = reach_admit[OF s6, simplified admit_def, simplified capacities, simplified]
  note s8 = reach_take[OF s7, simplified capacities, simplified]
  note s9 = reach_read[OF s8, of "\<lparr>sb_hash = kept_hash, sb_size = 2, sb_outcome = Created\<rparr>", simplified]
  note s10 = reach_send[OF s9, simplified capacities, simplified]
  note s11 = reach_receive[OF s10, simplified complete_work_def Let_def, simplified, simplified insert_ticket_def, simplified]
  note s12 = reach_dispatch[OF s11, simplified dispatch_one_def dispatch_index_def position_def Let_def, simplified capacities active_count_def, simplified]
  note s13 = reach_admit[OF s12, simplified admit_def, simplified capacities, simplified]
  note s14 = reach_drain[OF s13, simplified drain_one_def, simplified]
  note s15 = reach_drain[OF s14, simplified drain_one_def, simplified]
  show "\<exists>s. ingest_reachable sample_env (sample_config False) [Inr sample_candidate] s \<and> in_phase s = Waiting \<and> in_failure s = None"
    unfolding sample_env_def sample_config_def sample_candidate_def
    by (rule exI, intro conjI, rule s7) simp_all
  show "\<exists>s t. ingest_reachable sample_env (sample_config False) [Inr sample_candidate] s \<and> in_phase s = Finished \<and> in_submitted s = [t] \<and> is_import t
     \<and> pt_request t = PendingImported \<lparr>br_hash = kept_hash, br_size = 2, br_created = 0\<rparr> (source_observation_of ''/src'' sample_candidate kept_hash 0)"
    unfolding sample_env_def sample_config_def sample_candidate_def
    by (rule exI, rule exI, intro conjI, rule s15, simp, simp, simp add: is_import_def, simp)
qed

text \<open>A file that the catalog knows unchanged is skipped when it is scanned.\<close>

lemma sample_skip:
  "\<exists>s t obs. ingest_reachable sample_env (sample_config True) [Inr sample_candidate] s \<and> t \<in> set (in_submitted s) \<and> pt_request t = PendingKnown obs 2"
proof -
  note s0 = ingest_reachable.start[of sample_env "sample_config True" "[Inr sample_candidate]"]
  have d: "validated_disposition sample_root stored_fs (classify_import True sample_candidate (Some sample_known)) = Inr (Skip kept_hash 2 False)"
    using stored_blob_present by (simp add: validated_disposition_def classify_import_def sample_candidate_def sample_known_def)
  note s1 = reach_dispatch[OF s0, simplified ingest_start_def dispatch_one_def dispatch_index_def position_def Let_def, simplified]
  note s2 = reach_admit[OF s1, simplified admit_def admit_candidate_def sample_env_def sample_config_def capacities
    add_or_fail_def checked_add_def insert_ticket_def Let_def, simplified, simplified d, simplified, simplified sample_env_def insert_ticket_def, simplified]
  show ?thesis
    unfolding sample_env_def sample_config_def
    by (rule exI, rule exI, rule exI, intro conjI, rule s2, simp, rule pending_ticket.select_convs(3))
qed

theorem ingest_queues_bounded_witness:
  "\<exists>s. ingest_reachable sample_env (sample_config False) [Inr sample_candidate] s \<and> in_phase s = Waiting \<and> length (in_jobs s) \<le> 8"
  using sample_waiting(1) ingest_queues_bounded[of sample_env "sample_config False" "[Inr sample_candidate]"] by (auto simp: sample_config_def)

theorem ingest_finished_accounts_witness:
  "\<exists>s. ingest_reachable sample_env (sample_config False) [Inr sample_candidate] s \<and> in_phase s = Finished
     \<and> files_seen (in_report s) = 1 \<and> source_records_inserted (in_report s) + source_records_updated (in_report s) = 1"
proof -
  obtain s t where s: "ingest_reachable sample_env (sample_config False) [Inr sample_candidate] s" "in_phase s = Finished" "in_submitted s = [t]" "is_import t"
    using sample_waiting(2) by blast
  have "\<forall>t\<in>set (in_submitted s). answer_fits t (ie_answer sample_env (pt_sequence t))" using s(3,4) by (simp add: answer_fits_def sample_env_def)
  then show ?thesis using ingest_finished_accounts[OF s(1) _ s(2)] s by (auto simp: sample_config_def)
qed

theorem ingest_never_waits_in_vain_witness:
  "\<exists>s. ingest_reachable sample_env (sample_config False) [Inr sample_candidate] s \<and> in_phase s = Waiting
     \<and> (in_channel s \<noteq> [] \<or> in_held s \<noteq> [] \<and> length (in_channel s) < completion_queue_capacity \<or> in_readers s \<noteq> []
        \<or> in_jobs s \<noteq> [] \<and> length (in_readers s) + length (in_held s) < max_live_source_workers)"
proof -
  obtain s where s: "ingest_reachable sample_env (sample_config False) [Inr sample_candidate] s" "in_phase s = Waiting" "in_failure s = None"
    using sample_waiting(1) by blast
  show ?thesis using ingest_never_waits_in_vain[OF s(1) _ s(2,3)] s(1,2) by (auto simp: sample_config_def)
qed

theorem ingest_skips_only_unchanged_witness:
  "\<exists>s t obs. ingest_reachable sample_env (sample_config True) [Inr sample_candidate] s \<and> t \<in> set (in_submitted s)
     \<and> pt_request t = PendingKnown obs 2 \<and> so_hash obs = kept_hash"
proof -
  obtain s t obs where s: "ingest_reachable sample_env (sample_config True) [Inr sample_candidate] s" "t \<in> set (in_submitted s)" "pt_request t = PendingKnown obs 2"
    using sample_skip by blast
  have "so_hash obs = kept_hash" using ingest_skips_only_unchanged[OF s] by (auto simp: sample_env_def sample_known_def)
  then show ?thesis using s by blast
qed

end
