(* ===== verification/StoreAudit.thy ===== *)
theory StoreAudit
  imports GcRuns RunLock
begin

text \<open>
  \<^verbatim>\<open>audit.rs\<close>: the audit that compares catalog, blob tree and file contents, under the shared lock of
  the store.
\<close>

section \<open>The audit\<close>

record audit_report =
  ar_catalog_blobs :: u64
  ar_cas_files :: u64
  ar_hashed :: u64
  ar_gc_candidates :: u64
  ar_findings :: "integrity_finding list"

definition is_clean :: "audit_report \<Rightarrow> bool" where
  "is_clean r \<longleftrightarrow> ar_findings r = []"

text \<open>Where telemetry is asked whether it has failed.\<close>

datatype audit_point = AuditBlob nat | AfterRead nat | AuditFinding nat

text \<open>A catalogued blob that the walk did not list.\<close>

definition unlisted_finding :: "store_root \<Rightarrow> fs \<Rightarrow> blob_hash \<Rightarrow> integrity_finding" where
  "unlisted_finding root f h =
     (case symlink_metadata (blob_path root h) f of
        Inr m \<Rightarrow> if md_kind m \<noteq> KFile then blob_finding ''NON_REGULAR_BLOB'' h (at_path root h)
                 else blob_finding ''MISSING_BLOB'' h (at_path root h)
      | Inl e \<Rightarrow> if e = NotFound then blob_finding ''MISSING_BLOB'' h (at_path root h)
                 else blob_finding ''BLOB_IO_ERROR'' h (at_path root h @ '' reason=stat-failed''))"

text \<open>The comparison of a file that was read to its end.\<close>

definition content_findings :: "catalog_blob option \<Rightarrow> blob_identity \<Rightarrow> hash_result \<Rightarrow> blob_hash \<Rightarrow> integrity_finding list" where
  "content_findings catalog ident actual h =
     (let expected_size = (case catalog of Some blob \<Rightarrow> cb_size blob | None \<Rightarrow> id_len ident)
      in (if expected_size \<noteq> hr_size actual \<or> id_len ident \<noteq> hr_size actual
          then [blob_finding ''SIZE_MISMATCH'' h
                  (''expected='' @ u64_text expected_size @ '' metadata='' @ u64_text (id_len ident) @ '' actual='' @ u64_text (hr_size actual))]
          else [])
       @ (if hr_hash actual \<noteq> h
          then [blob_finding ''HASH_MISMATCH'' h (''expected='' @ as_str h @ '' actual='' @ as_str (hr_hash actual))]
          else []))"

definition audit_blob ::
    "'h blake3 \<Rightarrow> 'r file_io \<Rightarrow> (unit \<Rightarrow> u64 \<Rightarrow> unit \<times> unit result) \<Rightarrow> (audit_point \<Rightarrow> bool) \<Rightarrow> store_root \<Rightarrow> nat \<Rightarrow> fs
     \<Rightarrow> catalog_audit_snapshot \<Rightarrow> cas_inspection \<Rightarrow> nat \<Rightarrow> blob_hash \<Rightarrow> u64 \<times> integrity_finding list
     \<Rightarrow> (u64 \<times> integrity_finding list) result option" where
  "audit_blob b io obs failed root chunk f snap cas i h st =
     (let (hashed, findings) = st; catalog = map_of (valid_blobs snap) h
      in if failed (AuditBlob i) then Some (Inl TelemetryFailed)
         else if h \<notin> set (ci_valid cas) then Some (Inr (hashed, findings @ [unlisted_finding root f h]))
         else let found = findings @ (if catalog = None then [blob_finding ''ORPHAN_BLOB'' h (at_path root h)] else [])
              in case open_blob_no_follow root h f of
                   Inl _ \<Rightarrow> Some (Inr (hashed, found @ [blob_finding ''BLOB_IO_ERROR'' h (at_path root h @ '' reason=open-failed'')]))
                 | Inr opened \<Rightarrow>
                     (case hash_reader_with_chunk_observer b (read_chunk io) (open_read io (ob_content opened)) chunk obs () of
                        None \<Rightarrow> None
                      | Some (_, Inr actual) \<Rightarrow>
                          Some (bind_result (add_or_fail hashed 1) (\<lambda>hashed1.
                                Inr (hashed1, found @ content_findings catalog (ob_identity opened) actual h)))
                      | Some (_, Inl e) \<Rightarrow>
                          if e = TelemetryFailed \<or> failed (AfterRead i) then Some (Inl e)
                          else Some (Inr (hashed, found @ [blob_finding ''BLOB_IO_ERROR'' h (at_path root h @ '' reason=read-failed'')]))))"

fun audit_blobs ::
    "'h blake3 \<Rightarrow> 'r file_io \<Rightarrow> (unit \<Rightarrow> u64 \<Rightarrow> unit \<times> unit result) \<Rightarrow> (audit_point \<Rightarrow> bool) \<Rightarrow> store_root \<Rightarrow> nat \<Rightarrow> fs
     \<Rightarrow> catalog_audit_snapshot \<Rightarrow> cas_inspection \<Rightarrow> nat \<Rightarrow> blob_hash list \<Rightarrow> u64 \<times> integrity_finding list
     \<Rightarrow> (u64 \<times> integrity_finding list) result option" where
  "audit_blobs b io obs failed root chunk f snap cas i [] st = Some (Inr st)"
| "audit_blobs b io obs failed root chunk f snap cas i (h # hs) st =
     (case audit_blob b io obs failed root chunk f snap cas i h st of
        None \<Rightarrow> None
      | Some (Inl e) \<Rightarrow> Some (Inl e)
      | Some (Inr st1) \<Rightarrow> audit_blobs b io obs failed root chunk f snap cas (i + 1) hs st1)"

definition audit_keys :: "catalog_audit_snapshot \<Rightarrow> cas_inspection \<Rightarrow> blob_hash list" where
  "audit_keys snap cas = remdups_adj (sort (map fst (valid_blobs snap) @ ci_valid cas))"

definition audit_store ::
    "'h blake3 \<Rightarrow> 'r file_io \<Rightarrow> (unit \<Rightarrow> u64 \<Rightarrow> unit \<times> unit result) \<Rightarrow> (audit_point \<Rightarrow> bool) \<Rightarrow> (lock_mode \<Rightarrow> path \<Rightarrow> unit io)
     \<Rightarrow> store_root \<Rightarrow> nat \<Rightarrow> database \<Rightarrow> fs \<Rightarrow> audit_report result option" where
  "audit_store b io obs failed lock root chunk db f =
     (case bind_result (acquire lock root LockShared f) (\<lambda>_. inspect_catalog_for_audit db) of
        Inl e \<Rightarrow> Some (Inl e)
      | Inr snap \<Rightarrow>
          (case inspect_cas root f of
             None \<Rightarrow> None
           | Some cas \<Rightarrow>
               (case u64_of_len (length (ci_valid cas)) of
                  Inl e \<Rightarrow> Some (Inl e)
                | Inr cas_files \<Rightarrow>
                    (case audit_blobs b io obs failed root chunk f snap cas 0 (audit_keys snap cas) (0, snap_findings snap @ ci_findings cas) of
                       None \<Rightarrow> None
                     | Some (Inl e) \<Rightarrow> Some (Inl e)
                     | Some (Inr (hashed, findings)) \<Rightarrow>
                         let sorted = sort_and_deduplicate findings
                         in if list_ex (\<lambda>i. failed (AuditFinding i)) [0..<length sorted] then Some (Inl TelemetryFailed)
                            else Some (Inr \<lparr>ar_catalog_blobs = blob_rows_seen snap, ar_cas_files = cas_files, ar_hashed = hashed,
                                       ar_gc_candidates = gc_candidates snap, ar_findings = sorted\<rparr>)))))"


section \<open>What a clean audit has checked\<close>

definition blob_sound :: "'h blake3 \<Rightarrow> store_root \<Rightarrow> fs \<Rightarrow> catalog_audit_snapshot \<Rightarrow> blob_hash \<Rightarrow> bool" where
  "blob_sound b root f snap h \<longleftrightarrow> (\<exists>blob i. map_of (valid_blobs snap) h = Some blob \<and> node_at f (blob_file root h) = Some (FFile i)
     \<and> digest b (fd_content (inodes f i)) = h \<and> length (fd_content (inodes f i)) = unat (cb_size blob))"

lemma open_listed_blob:
  assumes "store_ok root f" "hash_ok h" "node_at f (blob_file root h) = Some (FFile i)"
  shows "open_blob_no_follow root h f = Inr opened \<Longrightarrow>
      opened = \<lparr>ob_content = fd_content (inodes f i), ob_identity = identity_of (metadata_of f (FFile i))\<rparr>"
    "no_faults f \<Longrightarrow> open_blob_no_follow root h f = Inr \<lparr>ob_content = fd_content (inodes f i), ob_identity = identity_of (metadata_of f (FFile i))\<rparr>"
proof -
  have can: "canonical (store_path root)" and ok: "fs_ok f" using assms(1) by (auto simp: store_ok_def)
  note n = blob_path_names[OF can assms(2)]
  have l: "locate False (blob_path root h) f = Inr (blob_file root h)"
    using locate_real[OF n(2) fs_ok_real_parents[OF ok assms(3)], of False] by (simp add: n(1))
  show "open_blob_no_follow root h f = Inr opened \<Longrightarrow>
      opened = \<lparr>ob_content = fd_content (inodes f i), ob_identity = identity_of (metadata_of f (FFile i))\<rparr>"
    using l assms(3) by (auto simp: open_blob_no_follow_def open_no_follow_def io_bind_Inr handle_metadata_def)
  show "no_faults f \<Longrightarrow> open_blob_no_follow root h f = Inr \<lparr>ob_content = fd_content (inodes f i), ob_identity = identity_of (metadata_of f (FFile i))\<rparr>"
    using l assms(3) by (simp add: open_blob_no_follow_def open_no_follow_def handle_metadata_def)
qed

lemma audit_blob_spec:
  assumes "store_ok root f" "reads_contents io chunk" "blake3_laws b" "permits obs" "\<forall>p. \<not> failed p"
    "\<forall>i. length (fd_content (inodes f i)) < 2 ^ 64" "h \<in> set (ci_valid cas) \<Longrightarrow> blob_at f (store_names root @ [''blobs'']) h"
    "unat n + (if h \<in> set (ci_valid cas) then 1 else 0) < 2 ^ 64"
  obtains n' fs where "audit_blob b io obs failed root chunk f snap cas i h (n, found) = Some (Inr (n', found @ fs))"
    "unat n' \<le> unat n + (if h \<in> set (ci_valid cas) then 1 else 0)"
    "fs = [] \<Longrightarrow> blob_sound b root f snap h" "no_faults f \<Longrightarrow> h \<in> set (ci_valid cas) \<Longrightarrow> blob_sound b root f snap h \<Longrightarrow> fs = []"
proof (cases "h \<in> set (ci_valid cas)")
  case False
  then show ?thesis using assms(5) by (intro that[of n "[unlisted_finding root f h]"]) (auto simp: audit_blob_def)
next
  case True
  obtain k where k: "hash_ok h" "node_at f (blob_file root h) = Some (FFile k)"
    using assms(7)[OF True] by (auto simp: blob_at_def blob_file_def)
  let ?orphan = "if map_of (valid_blobs snap) h = None then [blob_finding ''ORPHAN_BLOB'' h (at_path root h)] else []"
  show ?thesis
  proof (cases "open_blob_no_follow root h f")
    case (Inl e)
    then have "\<not> no_faults f" using open_listed_blob(2)[OF assms(1) k] by auto
    then show ?thesis using assms(5) True Inl
      by (intro that[of n "?orphan @ [blob_finding ''BLOB_IO_ERROR'' h (at_path root h @ '' reason=open-failed'')]"]) (auto simp: audit_blob_def Let_def)
  next
    case (Inr opened)
    let ?c = "fd_content (inodes f k)"
    have o: "opened = \<lparr>ob_content = ?c, ob_identity = identity_of (metadata_of f (FFile k))\<rparr>" by (rule open_listed_blob(1)[OF assms(1) k Inr])
    let ?actual = "\<lparr>hr_hash = digest b ?c, hr_size = of_nat (length ?c)\<rparr>"
    obtain u where u: "hash_reader_with_chunk_observer b (read_chunk io) (open_read io (ob_content opened)) chunk obs () = Some (u, Inr ?actual)"
      using hash_reader_content[OF _ assms(3,4), of "read_chunk io" chunk "open_read io ?c" ?c "()"] assms(2,6) o by auto
    let ?fs = "?orphan @ content_findings (map_of (valid_blobs snap) h) (ob_identity opened) ?actual h"
    obtain n' where n': "add_or_fail n 1 = Inr n'" "unat n' = unat n + 1" using assms(8) True by (auto simp: add_or_fail_def checked_add_def unat_word_ariths)
    have sz: "unat (of_nat (length ?c) :: u64) = length ?c" using assms(6) by (simp add: unat_of_nat_u64)
    have "?fs = [] \<longleftrightarrow> blob_sound b root f snap h"
      using k(2) sz o by (auto simp: blob_sound_def content_findings_def Let_def identity_of_def metadata_of_def word_unat_eq_iff split: option.splits)
    moreover have "audit_blob b io obs failed root chunk f snap cas i h (n, found) = Some (Inr (n', found @ ?fs))"
      using assms(5) True Inr u n'(1) by (simp add: audit_blob_def Let_def)
    ultimately show ?thesis using n'(2) True by (intro that[of n' ?fs]) auto
  qed
qed


lemma audit_blobs_spec:
  assumes "store_ok root f" "reads_contents io chunk" "blake3_laws b" "permits obs" "\<forall>p. \<not> failed p"
    "\<forall>i. length (fd_content (inodes f i)) < 2 ^ 64" "\<forall>h\<in>set (ci_valid cas). blob_at f (store_names root @ [''blobs'']) h"
    "unat n + length (filter (\<lambda>h. h \<in> set (ci_valid cas)) hs) < 2 ^ 64"
  shows "\<exists>n' fs. audit_blobs b io obs failed root chunk f snap cas i hs (n, found) = Some (Inr (n', found @ fs))
    \<and> (fs = [] \<longrightarrow> (\<forall>h\<in>set hs. blob_sound b root f snap h))
    \<and> (no_faults f \<and> (\<forall>h\<in>set hs. h \<in> set (ci_valid cas) \<and> blob_sound b root f snap h) \<longrightarrow> fs = [])"
  using assms(8)
proof (induction hs arbitrary: i n found)
  case (Cons h hs)
  have "unat n + (if h \<in> set (ci_valid cas) then 1 else 0) < 2 ^ 64" using Cons.prems by (auto split: if_splits)
  then obtain n1 fs1 where 1: "audit_blob b io obs failed root chunk f snap cas i h (n, found) = Some (Inr (n1, found @ fs1))"
    "unat n1 \<le> unat n + (if h \<in> set (ci_valid cas) then 1 else 0)"
    "fs1 = [] \<Longrightarrow> blob_sound b root f snap h" "no_faults f \<Longrightarrow> h \<in> set (ci_valid cas) \<Longrightarrow> blob_sound b root f snap h \<Longrightarrow> fs1 = []"
    using audit_blob_spec[OF assms(1-6), of h cas n snap i found] assms(7) by blast
  have "unat n1 + length (filter (\<lambda>h. h \<in> set (ci_valid cas)) hs) < 2 ^ 64" using Cons.prems 1(2) by (auto split: if_splits)
  from Cons.IH[OF this, of "i + 1" "found @ fs1"] obtain n2 fs2 where
    2: "audit_blobs b io obs failed root chunk f snap cas (i + 1) hs (n1, found @ fs1) = Some (Inr (n2, found @ fs1 @ fs2))"
    "fs2 = [] \<longrightarrow> (\<forall>h\<in>set hs. blob_sound b root f snap h)"
    "no_faults f \<and> (\<forall>h\<in>set hs. h \<in> set (ci_valid cas) \<and> blob_sound b root f snap h) \<longrightarrow> fs2 = []" by auto
  show ?case by (rule exI[of _ n2], rule exI[of _ "fs1 @ fs2"]) (use 1 2 in auto)
qed simp

lemma distinct_remdups_adj_sorted: "sorted (xs :: 'a :: linorder list) \<Longrightarrow> distinct (remdups_adj xs)"
  by (induction xs rule: remdups_adj.induct) (auto simp: less_le)

lemma audit_keys_set: "set (audit_keys snap cas) = fst ` set (valid_blobs snap) \<union> set (ci_valid cas)"
  by (simp add: audit_keys_def)

lemma audit_keys_listed: "length (filter (\<lambda>h. h \<in> set (ci_valid cas)) (audit_keys snap cas)) \<le> length (ci_valid cas)"
proof -
  have "distinct (audit_keys snap cas)" by (simp add: audit_keys_def distinct_remdups_adj_sorted)
  then have "length (filter (\<lambda>h. h \<in> set (ci_valid cas)) (audit_keys snap cas)) = card (set (filter (\<lambda>h. h \<in> set (ci_valid cas)) (audit_keys snap cas)))"
    by (metis distinct_card distinct_filter)
  also have "\<dots> \<le> card (set (ci_valid cas))" by (intro card_mono) auto
  also have "\<dots> \<le> length (ci_valid cas)" by (rule card_length)
  finally show ?thesis .
qed

text \<open>The catalog and the blob tree describe the same blobs, each with its content.\<close>

definition store_matches_catalog :: "'h blake3 \<Rightarrow> store_root \<Rightarrow> database \<Rightarrow> fs \<Rightarrow> bool" where
  "store_matches_catalog b root db f \<longleftrightarrow>
     (\<forall>h. blob_at f (store_names root @ [''blobs'']) h \<longleftrightarrow> hash_ok h \<and> blob_entry db h \<noteq> None)
     \<and> (\<forall>h blob i. hash_ok h \<and> blob_entry db h = Some blob \<and> node_at f (blob_file root h) = Some (FFile i) \<longrightarrow>
          digest b (fd_content (inodes f i)) = h \<and> length (fd_content (inodes f i)) = unat (cb_size blob))"

lemma sound_keys_match:
  assumes "\<And>h. map_of (valid_blobs snap) h = (if hash_ok h then blob_entry db h else None)"
    "set (ci_valid cas) = {h. blob_at f (store_names root @ [''blobs'']) h}"
  shows "(\<forall>h\<in>set (audit_keys snap cas). blob_sound b root f snap h) \<longleftrightarrow> store_matches_catalog b root db f"
proof -
  have k: "h \<in> set (audit_keys snap cas) \<longleftrightarrow> (hash_ok h \<and> blob_entry db h \<noteq> None) \<or> blob_at f (store_names root @ [''blobs'']) h" for h
    using assms(1)[of h] assms(2) map_of_eq_None_iff[of "valid_blobs snap" h] unfolding audit_keys_set by (metis UnCI UnE mem_Collect_eq)
  have at: "blob_at f (store_names root @ [''blobs'']) h \<longleftrightarrow> hash_ok h \<and> (\<exists>i. node_at f (blob_file root h) = Some (FFile i))" for h
    by (simp add: blob_at_def blob_file_def)
  have s: "blob_sound b root f snap h \<longleftrightarrow> (\<exists>blob i. hash_ok h \<and> blob_entry db h = Some blob \<and> node_at f (blob_file root h) = Some (FFile i)
     \<and> digest b (fd_content (inodes f i)) = h \<and> length (fd_content (inodes f i)) = unat (cb_size blob))" for h
    using assms(1)[of h] by (auto simp: blob_sound_def)
  show ?thesis
  proof
    assume all: "\<forall>h\<in>set (audit_keys snap cas). blob_sound b root f snap h"
    have "blob_at f (store_names root @ [''blobs'']) h \<longleftrightarrow> hash_ok h \<and> blob_entry db h \<noteq> None" for h
      using all k[of h] s[of h] at[of h] by auto
    moreover have "digest b (fd_content (inodes f i)) = h \<and> length (fd_content (inodes f i)) = unat (cb_size blob)"
      if "hash_ok h" "blob_entry db h = Some blob" "node_at f (blob_file root h) = Some (FFile i)" for h blob i
      using all k[of h] s[of h] that by auto
    ultimately show "store_matches_catalog b root db f" unfolding store_matches_catalog_def by blast
  next
    assume m: "store_matches_catalog b root db f"
    show "\<forall>h\<in>set (audit_keys snap cas). blob_sound b root f snap h"
    proof
      fix h assume "h \<in> set (audit_keys snap cas)"
      then have "hash_ok h" "blob_entry db h \<noteq> None" "blob_at f (store_names root @ [''blobs'']) h"
        using m k[of h] by (auto simp: store_matches_catalog_def)
      then show "blob_sound b root f snap h" using m unfolding s at store_matches_catalog_def by blast
    qed
  qed
qed

lemma audit_report_spec:
  assumes "store_ok root f" "real_dir f (store_names root @ [''blobs''])" "reads_contents io chunk" "blake3_laws b"
    "permits obs" "\<forall>p. \<not> failed p" "acquire lock root LockShared f = Inr ()" "require_current_schema db = Inr ()"
    "db_ok db" "sizes_fit db" "length (blobs db) < 2 ^ 64" "\<forall>i. length (fd_content (inodes f i)) < 2 ^ 64"
    "inspect_cas root f = Some ins" "length (ci_valid ins) < 2 ^ 64"
  shows "\<exists>r. audit_store b io obs failed lock root chunk db f = Some (Inr r)
    \<and> (is_clean r \<longrightarrow> catalog_consistent db \<and> ci_findings ins = [] \<and> store_matches_catalog b root db f)
    \<and> (no_faults f \<and> catalog_consistent db \<and> ci_findings ins = [] \<and> store_matches_catalog b root db f \<longrightarrow> is_clean r)
    \<and> unat (ar_catalog_blobs r) = length (blobs db) \<and> unat (ar_cas_files r) = length (ci_valid ins)"
proof -
  obtain snap where snap: "inspect_catalog_connection db = Inr snap" "snap_findings snap = [] \<longleftrightarrow> catalog_consistent db"
    "\<And>h. map_of (valid_blobs snap) h = (if hash_ok h then blob_entry db h else None)" "unat (blob_rows_seen snap) = length (blobs db)"
    using inspection_consistent[OF assms(9-11)] by blast
  have listed: "\<forall>h\<in>set (ci_valid ins). blob_at f (store_names root @ [''blobs'']) h"
    "ci_findings ins = [] \<Longrightarrow> set (ci_valid ins) = {h. blob_at f (store_names root @ [''blobs'']) h}"
  proof -
    obtain ins' where "inspect_cas root f = Some ins'"
      and i: "\<forall>h\<in>set (ci_valid ins'). blob_at f (store_names root @ [''blobs'']) h"
        "ci_complete ins' \<longrightarrow> (\<forall>h. blob_at f (store_names root @ [''blobs'']) h \<longrightarrow> h \<in> set (ci_valid ins'))"
        "\<not> ci_complete ins' \<longrightarrow> ci_findings ins' \<noteq> []"
      using inspect_cas_spec[OF assms(1,2)] by metis
    then have e: "ins' = ins" using assms(13) by simp
    show "\<forall>h\<in>set (ci_valid ins). blob_at f (store_names root @ [''blobs'']) h" using i(1) e by blast
    show "ci_findings ins = [] \<Longrightarrow> set (ci_valid ins) = {h. blob_at f (store_names root @ [''blobs'']) h}" using i e by blast
  qed
  have "unat (0 :: u64) + length (filter (\<lambda>h. h \<in> set (ci_valid ins)) (audit_keys snap ins)) < 2 ^ 64"
    using audit_keys_listed[of ins snap] assms(14) by simp
  from audit_blobs_spec[OF assms(1,3-6,12) listed(1) this, of snap 0 "snap_findings snap @ ci_findings ins"]
  obtain n fs where a: "audit_blobs b io obs failed root chunk f snap ins 0 (audit_keys snap ins) (0, snap_findings snap @ ci_findings ins)
      = Some (Inr (n, (snap_findings snap @ ci_findings ins) @ fs))"
    "fs = [] \<Longrightarrow> \<forall>h\<in>set (audit_keys snap ins). blob_sound b root f snap h"
    "no_faults f \<Longrightarrow> \<forall>h\<in>set (audit_keys snap ins). h \<in> set (ci_valid ins) \<and> blob_sound b root f snap h \<Longrightarrow> fs = []" by blast
  let ?r = "\<lparr>ar_catalog_blobs = blob_rows_seen snap, ar_cas_files = of_nat (length (ci_valid ins)), ar_hashed = n,
     ar_gc_candidates = gc_candidates snap, ar_findings = sort_and_deduplicate ((snap_findings snap @ ci_findings ins) @ fs)\<rparr>"
  have r: "audit_store b io obs failed lock root chunk db f = Some (Inr ?r)"
    using assms(6-8,13,14) snap(1) a(1) by (simp add: audit_store_def inspect_catalog_for_audit_def u64_of_len_def list_ex_iff Let_def)
  note match = sound_keys_match[OF snap(3) listed(2)]
  have "is_clean ?r \<longleftrightarrow> catalog_consistent db \<and> ci_findings ins = [] \<and> fs = []" by (auto simp: is_clean_def snap(2))
  moreover have "fs = [] \<Longrightarrow> ci_findings ins = [] \<Longrightarrow> store_matches_catalog b root db f" using a(2) match by blast
  moreover have "fs = []" if "no_faults f" "ci_findings ins = []" "store_matches_catalog b root db f"
  proof (rule a(3)[OF that(1)], intro ballI conjI)
    fix h assume h: "h \<in> set (audit_keys snap ins)"
    show "blob_sound b root f snap h" using match[OF that(2)] that(3) h by blast
    then show "h \<in> set (ci_valid ins)" unfolding listed(2)[OF that(2)]
      using snap(3)[of h] by (auto simp: blob_sound_def blob_at_def blob_file_def split: if_splits)
  qed
  ultimately show ?thesis using r snap(4) assms(14) by (intro exI[of _ ?r]) (auto simp: unat_of_nat_u64)
qed

text \<open>A sample store whose catalog lists a blob that the tree does not have.\<close>

lemma sample_audit:
  "acquire (\<lambda>_ _. Inr ()) sample_root LockShared sample_fs2 = Inr ()" "require_current_schema sample_gc_db = Inr ()"
  "db_ok sample_gc_db" "sizes_fit sample_gc_db" "length (blobs sample_gc_db) = 1" "\<not> store_matches_catalog toy_blake3 sample_root sample_gc_db sample_fs2"
  "\<forall>i. length (fd_content (inodes sample_fs2 i)) < 2 ^ 64"
proof -
  have ok: "list_all name_ok [''s'']" by (simp add: name_ok_def)
  have "real_parents sample_fs2 [''s'']" by (auto simp: real_parents_def node_at_def sample_fs2_def sample_fs_def)
  then have "open_no_follow (store_path sample_root) sample_fs2 = Inr FDir"
    using locate_real[OF ok, of sample_fs2 False] unfolding sample_root_abs
    by (simp add: open_no_follow_def fault_free_def sample_fs2_def sample_fs_def node_at_def)
  then show "acquire (\<lambda>_ _. Inr ()) sample_root LockShared sample_fs2 = Inr ()"
    by (simp add: acquire_def open_store_directory_def handle_metadata_def fault_free_def sample_fs2_def sample_fs_def of_io_def)
  show "require_current_schema sample_gc_db = Inr ()"
    by (simp add: require_current_schema_def current_schema_version_def sample_gc_db_def sample_db_def)
  show "db_ok sample_gc_db" "sizes_fit sample_gc_db" "length (blobs sample_gc_db) = 1" using sample_gc_ok(1) by (auto simp: db_inv_def sample_gc_db_def sample_db_def)
  show "\<not> store_matches_catalog toy_blake3 sample_root sample_gc_db sample_fs2"
  proof
    assume m: "store_matches_catalog toy_blake3 sample_root sample_gc_db sample_fs2"
    have "hash_ok (sample_hash CHR ''a'')" using hash_ok_sample is_lower_hex_ab by blast
    moreover have "blob_entry sample_gc_db (sample_hash CHR ''a'') \<noteq> None"
      by (simp add: blob_entry_def lookup_blob_def sample_gc_db_def sample_db_def blob_row_ok_def cell_hash_ok cell_size_def)
    ultimately have "blob_at sample_fs2 (store_names sample_root @ [''blobs'']) (sample_hash CHR ''a'')"
      using m by (simp add: store_matches_catalog_def)
    then show False by (simp add: blob_at_def sample_names node_at_def sample_fs2_def sample_fs_def blob_names_def)
  qed
  show "\<forall>i. length (fd_content (inodes sample_fs2 i)) < 2 ^ 64" by (simp add: sample_fs2_def sample_fs_def)
qed

text \<open>
  C12 (equivalence). An audit with working telemetry returns a report. A clean report means, even
  if calls of the file system failed on the way, that the catalog is consistent, that the blob
  tree holds nothing foreign, and that catalog and tree describe the same blobs, each with the
  content its hash and its recorded size say; and on a file system without faults such a store
  always gets a clean report.
\<close>

theorem audit_clean_iff_sound:
  assumes "store_ok root f" "real_dir f (store_names root @ [''blobs''])" "reads_contents io chunk" "blake3_laws b"
    "permits obs" "\<forall>p. \<not> failed p" "acquire lock root LockShared f = Inr ()" "require_current_schema db = Inr ()"
    "db_ok db" "sizes_fit db" "length (blobs db) < 2 ^ 64" "\<forall>i. length (fd_content (inodes f i)) < 2 ^ 64"
    "inspect_cas root f = Some ins" "length (ci_valid ins) < 2 ^ 64"
  shows "\<exists>r. audit_store b io obs failed lock root chunk db f = Some (Inr r)
    \<and> (is_clean r \<longrightarrow> catalog_consistent db \<and> ci_findings ins = [] \<and> store_matches_catalog b root db f)
    \<and> (no_faults f \<and> catalog_consistent db \<and> ci_findings ins = [] \<and> store_matches_catalog b root db f \<longrightarrow> is_clean r)
    \<and> unat (ar_catalog_blobs r) = length (blobs db) \<and> unat (ar_cas_files r) = length (ci_valid ins)"
  by (rule audit_report_spec[OF assms])

theorem audit_clean_iff_sound_witness:
  "\<exists>r. audit_store toy_blake3 plain_io silent (\<lambda>_. False) (\<lambda>_ _. Inr ()) sample_root 4096 sample_gc_db sample_fs2 = Some (Inr r)
     \<and> \<not> is_clean r \<and> unat (ar_catalog_blobs r) = 1"
  using audit_clean_iff_sound[OF sample_gc_ok(3-5) toy_blake3_laws permits_silent _ sample_audit(1-4) _ sample_audit(7) sample_cas_empty, of "\<lambda>_. False"]
    sample_audit(5,6) by auto

end
