(* ===== verification/Telemetry.thy ===== *)
theory Telemetry
  imports Ingest Integrity
begin

text \<open>
  \<^verbatim>\<open>telemetry.rs\<close> and the observer of \<^verbatim>\<open>ingest.rs\<close>: events, the bounded transport to the renderer
  thread with its coalescing of counters and gauges, and the counters of the dashboard. Producers
  call the transport one after the other; the renderer may take events before every operation on
  the channel, as many as a schedule says, and may fail after any event.
\<close>

section \<open>Events\<close>

datatype telemetry_value = Boolean bool | Count u64 | Text string

record telemetry_event =
  te_command :: string
  te_event :: string
  te_fields :: "(string \<times> telemetry_value) list"

definition event_new :: "string \<Rightarrow> string \<Rightarrow> telemetry_event" where
  "event_new command event = \<lparr>te_command = command, te_event = event, te_fields = []\<rparr>"

definition field :: "telemetry_event \<Rightarrow> string \<Rightarrow> telemetry_value \<Rightarrow> telemetry_event" where
  "field e name v = e\<lparr>te_fields := te_fields e @ [(name, v)]\<rparr>"

definition as_u64 :: "telemetry_value \<Rightarrow> u64 option" where
  "as_u64 v = (case v of Count n \<Rightarrow> Some n | _ \<Rightarrow> None)"

definition count_field :: "telemetry_event \<Rightarrow> string \<Rightarrow> u64" where
  "count_field e name = (case map_of (te_fields e) name of None \<Rightarrow> 0 | Some v \<Rightarrow> (case as_u64 v of None \<Rightarrow> 0 | Some n \<Rightarrow> n))"


section \<open>The transport\<close>

type_synonym delta_key = "string \<times> string \<times> string"

text \<open>
  The inbox is the channel; \<open>tr_rendered\<close> logs what the renderer was given and \<open>tr_waited\<close> counts the
  sends that had to wait for room. \<open>tr_gone\<close> says that the receiver was dropped. The two maps are
  kept in the order of their keys.
\<close>

record transport =
  tr_open :: bool
  tr_failed :: bool
  tr_gone :: bool
  tr_inbox :: "telemetry_event list"
  tr_deltas :: "(delta_key \<times> u64) list"
  tr_gauges :: "(delta_key \<times> telemetry_event) list"
  tr_failures :: "telemetry_event list"
  tr_rendered :: "telemetry_event list"
  tr_waited :: nat
  tr_clock :: nat

record render_env =
  pace :: "nat \<Rightarrow> nat"
  breaks :: "nat \<Rightarrow> bool"
  finish_breaks :: bool

definition inbox_capacity :: nat where "inbox_capacity = 256"

definition transport_new :: transport where
  "transport_new = \<lparr>tr_open = True, tr_failed = False, tr_gone = False, tr_inbox = [], tr_deltas = [], tr_gauges = [], tr_failures = [],
     tr_rendered = [], tr_waited = 0, tr_clock = 0\<rparr>"

text \<open>One turn of \<open>render_events\<close>: a renderer that fails drops the receiver.\<close>

definition render_one :: "render_env \<Rightarrow> transport \<Rightarrow> transport" where
  "render_one env s =
     (if tr_gone s then s
      else case tr_inbox s of
        [] \<Rightarrow> s
      | e # es \<Rightarrow>
          let s1 = s\<lparr>tr_inbox := es, tr_rendered := tr_rendered s @ [e]\<rparr>
          in if breaks env (length (tr_rendered s)) then s1\<lparr>tr_failed := True, tr_gone := True\<rparr> else s1)"

fun render_some :: "render_env \<Rightarrow> nat \<Rightarrow> transport \<Rightarrow> transport" where
  "render_some env 0 s = s"
| "render_some env (Suc n) s = render_some env n (render_one env s)"

definition tick :: "render_env \<Rightarrow> transport \<Rightarrow> transport" where
  "tick env s = (render_some env (pace env (tr_clock s)) s)\<lparr>tr_clock := tr_clock s + 1\<rparr>"

datatype sent = Sent | Full | Disconnected

definition push :: "telemetry_event \<Rightarrow> transport \<Rightarrow> transport" where
  "push e s = s\<lparr>tr_inbox := tr_inbox s @ [e]\<rparr>"

definition try_send :: "render_env \<Rightarrow> telemetry_event \<Rightarrow> transport \<Rightarrow> transport \<times> sent" where
  "try_send env e s =
     (let s1 = tick env s
      in if tr_gone s1 then (s1, Disconnected)
         else if length (tr_inbox s1) \<ge> inbox_capacity then (s1, Full)
         else (push e s1, Sent))"

text \<open>A blocking send waits until the renderer has made room or has gone; the flag is set on an error.\<close>

definition send :: "render_env \<Rightarrow> telemetry_event \<Rightarrow> transport \<Rightarrow> transport" where
  "send env e s =
     (let s1 = tick env s;
          s2 = (if \<not> tr_gone s1 \<and> length (tr_inbox s1) \<ge> inbox_capacity then (render_one env s1)\<lparr>tr_waited := tr_waited s1 + 1\<rparr> else s1)
      in if tr_gone s2 then s2\<lparr>tr_failed := True\<rparr> else push e s2)"

definition delta_event :: "delta_key \<Rightarrow> u64 \<Rightarrow> telemetry_event" where
  "delta_event k v = (case k of (command, event, name) \<Rightarrow> field (event_new command event) name (Count v))"

definition map_insert :: "delta_key \<Rightarrow> 'v \<Rightarrow> (delta_key \<times> 'v) list \<Rightarrow> (delta_key \<times> 'v) list" where
  "map_insert k v m = insort_key fst (k, v) (filter (\<lambda>(k', _). k' \<noteq> k) m)"

text \<open>Adding to one pending counter; an overflow is a failure.\<close>

definition add_delta :: "delta_key \<Rightarrow> u64 \<Rightarrow> transport \<Rightarrow> transport \<times> bool" where
  "add_delta k v s =
     (case map_of (tr_deltas s) k of
        None \<Rightarrow> (s\<lparr>tr_deltas := map_insert k v (tr_deltas s)\<rparr>, True)
      | Some old \<Rightarrow>
          (case checked_add old v of
             None \<Rightarrow> (s\<lparr>tr_failed := True\<rparr>, False)
           | Some next \<Rightarrow> (s\<lparr>tr_deltas := map_insert k next (tr_deltas s)\<rparr>, True)))"

fun add_fields :: "string \<Rightarrow> string \<Rightarrow> (string \<times> telemetry_value) list \<Rightarrow> bool \<Rightarrow> transport \<Rightarrow> transport \<times> bool" where
  "add_fields command event [] has_count s = (s, has_count)"
| "add_fields command event ((name, v) # rest) has_count s =
     (case as_u64 v of
        None \<Rightarrow> add_fields command event rest has_count s
      | Some n \<Rightarrow>
          (case add_delta (command, event, name) n s of
             (s1, False) \<Rightarrow> (s1, False)
           | (s1, True) \<Rightarrow> add_fields command event rest True s1))"

definition coalesce_delta :: "telemetry_event \<Rightarrow> transport \<Rightarrow> transport \<times> bool" where
  "coalesce_delta e s =
     (if \<not> suffix ''_delta'' (te_event e) then (s, False)
      else add_fields (te_command e) (te_event e) (te_fields e) False s)"

definition coalesce_gauge :: "telemetry_event \<Rightarrow> transport \<Rightarrow> transport \<times> bool" where
  "coalesce_gauge e s =
     (let discriminator = (case map_of (te_fields e) ''stage'' of Some (Text t) \<Rightarrow> t | _ \<Rightarrow> [])
      in (s\<lparr>tr_gauges := map_insert (te_command e, te_event e, discriminator) e (tr_gauges s)\<rparr>, True))"

definition coalesce_worker_failure :: "telemetry_event \<Rightarrow> transport \<Rightarrow> transport \<times> bool" where
  "coalesce_worker_failure e s =
     (if length (tr_failures s) < 8 then (s\<lparr>tr_failures := tr_failures s @ [e]\<rparr>, True)
      else (s\<lparr>tr_failed := True\<rparr>, False))"

definition counted_facts :: "string list" where
  "counted_facts = [''file_discovered'', ''file_skipped'', ''file_hashed'', ''cas_blob_created'', ''cas_blob_reused'']"

definition gauge_events :: "string list" where
  "gauge_events = [''active_content_workers'', ''queue_occupancy'', ''queue_backpressure'']"

definition coalesce_worker_fact :: "telemetry_event \<Rightarrow> transport \<Rightarrow> transport \<times> bool" where
  "coalesce_worker_fact e s =
     (if te_event e \<in> set counted_facts then add_delta (te_command e, te_event e @ ''_delta'', ''count'') 1 s
      else if te_event e = ''blob_hashed'' then
        (let bytes_read = count_field e ''bytes_read''
         in case add_delta (te_command e, ''blob_hashed_delta'', ''count'') 1 s of
              (s1, False) \<Rightarrow> (s1, False)
            | (s1, True) \<Rightarrow> if bytes_read = 0 then (s1, True) else add_delta (te_command e, ''audit_bytes_delta'', ''bytes'') bytes_read s1)
      else if te_event e \<in> set gauge_events then coalesce_gauge e s
      else if te_event e = ''operational_failure'' then coalesce_worker_failure e s
      else if te_event e \<in> {''source_bytes_delta'', ''staging_bytes_delta''} then coalesce_delta e s
      else (s, False))"

text \<open>
  Sending pending events without waiting: what is left when the inbox is full or the renderer has
  gone. An event that meets a closed channel is lost.
\<close>

fun flush_list :: "render_env \<Rightarrow> ('a \<Rightarrow> telemetry_event) \<Rightarrow> 'a list \<Rightarrow> transport \<Rightarrow> transport \<times> 'a list" where
  "flush_list env mk [] s = (s, [])"
| "flush_list env mk (x # xs) s =
     (case try_send env (mk x) s of
        (s1, Sent) \<Rightarrow> flush_list env mk xs s1
      | (s1, Full) \<Rightarrow> (s1, x # xs)
      | (s1, Disconnected) \<Rightarrow> (s1\<lparr>tr_failed := True\<rparr>, xs))"

abbreviation pending_delta :: "delta_key \<times> u64 \<Rightarrow> telemetry_event" where
  "pending_delta p \<equiv> delta_event (fst p) (snd p)"

definition flush_deltas :: "render_env \<Rightarrow> transport \<Rightarrow> transport" where
  "flush_deltas env s = (case flush_list env pending_delta (tr_deltas s) s of (s1, rest) \<Rightarrow> s1\<lparr>tr_deltas := rest\<rparr>)"

definition flush_failures :: "render_env \<Rightarrow> transport \<Rightarrow> transport" where
  "flush_failures env s = (case flush_list env id (tr_failures s) s of (s1, rest) \<Rightarrow> s1\<lparr>tr_failures := rest\<rparr>)"

definition flush_gauges :: "render_env \<Rightarrow> transport \<Rightarrow> transport" where
  "flush_gauges env s = (case flush_list env snd (tr_gauges s) s of (s1, rest) \<Rightarrow> s1\<lparr>tr_gauges := rest\<rparr>)"

text \<open>Failures are tried even when a counter met a full inbox; gauges only after all failures were sent.\<close>

definition flush_pending :: "render_env \<Rightarrow> transport \<Rightarrow> transport" where
  "flush_pending env s =
     (let s1 = flush_deltas env s
      in if tr_failed s1 then s1
         else let s2 = flush_failures env s1
              in if tr_failures s2 \<noteq> [] \<or> tr_gone s2 then s2 else flush_gauges env s2)"

fun send_list :: "render_env \<Rightarrow> ('a \<Rightarrow> telemetry_event) \<Rightarrow> 'a list \<Rightarrow> transport \<Rightarrow> transport \<times> 'a list" where
  "send_list env mk [] s = (s, [])"
| "send_list env mk (x # xs) s = (let s1 = send env (mk x) s in if tr_gone s1 then (s1, xs) else send_list env mk xs s1)"

text \<open>
  \<open>drain_pending\<close> waits for room; when the renderer has gone it returns at once. Counters are taken
  one by one, failures and gauges all at once.
\<close>

definition drain_pending :: "render_env \<Rightarrow> transport \<Rightarrow> transport" where
  "drain_pending env s =
     (case send_list env pending_delta (tr_deltas s) s of
        (s0, rest) \<Rightarrow>
          let s1 = s0\<lparr>tr_deltas := rest\<rparr>
          in if tr_gone s1 then s1
             else let s2 = (fst (send_list env id (tr_failures s1) s1))\<lparr>tr_failures := []\<rparr>
                  in if tr_gone s2 then s2
                     else (fst (send_list env snd (tr_gauges s2) s2))\<lparr>tr_gauges := []\<rparr>)"

definition emit_event :: "render_env \<Rightarrow> telemetry_event \<Rightarrow> transport \<Rightarrow> transport" where
  "emit_event env e s =
     (if tr_failed s \<or> \<not> tr_open s then s
      else if te_event e \<in> {''command_summary'', ''command_failed''} then
        (let s1 = drain_pending env s in if tr_failed s1 then s1 else send env e s1)
      else case try_send env e (flush_pending env s) of
        (s1, Sent) \<Rightarrow> s1
      | (s1, Disconnected) \<Rightarrow> s1\<lparr>tr_failed := True\<rparr>
      | (s1, Full) \<Rightarrow>
          (case coalesce_delta e s1 of
             (s2, True) \<Rightarrow> s2
           | (s2, False) \<Rightarrow>
               (case coalesce_worker_fact e s2 of
                  (s3, True) \<Rightarrow> s3
                | (s3, False) \<Rightarrow> send env e s3)))"

text \<open>Closing drains what is pending, drops the sender and joins the renderer, which renders its inbox to the end.\<close>

definition close_transport :: "render_env \<Rightarrow> transport \<Rightarrow> transport" where
  "close_transport env s =
     (let s1 = (if tr_open s then drain_pending env s else s);
          s2 = render_some env (length (tr_inbox s1)) (s1\<lparr>tr_open := False\<rparr>)
      in if finish_breaks env then s2\<lparr>tr_failed := True\<rparr> else s2)"

definition emit_all :: "render_env \<Rightarrow> telemetry_event list \<Rightarrow> transport \<Rightarrow> transport" where
  "emit_all env es s = fold (emit_event env) es s"


section \<open>The dashboard\<close>

record dashboard =
  d_command :: string
  d_files :: u64
  d_completed :: u64
  d_skipped :: u64
  d_read :: u64
  d_written :: u64
  d_created :: u64
  d_reused :: u64
  d_active :: u64
  d_mounts :: u64
  d_committed :: u64
  d_batches :: u64
  d_checkpoints :: u64
  d_queue :: u64
  d_gc_candidates :: u64
  d_reclaimable :: u64
  d_unlinked :: u64
  d_tree_directories :: u64

definition dashboard_new :: "string \<Rightarrow> dashboard" where
  "dashboard_new command = \<lparr>d_command = command, d_files = 0, d_completed = 0, d_skipped = 0, d_read = 0, d_written = 0, d_created = 0,
     d_reused = 0, d_active = 0, d_mounts = 0, d_committed = 0, d_batches = 0, d_checkpoints = 0, d_queue = 0, d_gc_candidates = 0,
     d_reclaimable = 0, d_unlinked = 0, d_tree_directories = 0\<rparr>"

text \<open>The counters of \<open>HumanTelemetrySink::emit\<close>; when it redraws is not modelled.\<close>

definition dashboard_step :: "telemetry_event \<Rightarrow> dashboard \<Rightarrow> dashboard" where
  "dashboard_step e d =
     (let n = te_event e; c = count_field e in
      if n = ''command_started'' then d\<lparr>d_command := te_command e\<rparr>
      else if n = ''file_discovered'' \<or> n = ''blob_discovered'' then d\<lparr>d_files := d_files d + 1\<rparr>
      else if n = ''file_discovered_delta'' then d\<lparr>d_files := d_files d + c ''count''\<rparr>
      else if n = ''file_skipped'' then d\<lparr>d_skipped := d_skipped d + 1, d_completed := d_completed d + 1\<rparr>
      else if n = ''file_skipped_delta'' then d\<lparr>d_skipped := d_skipped d + c ''count'', d_completed := d_completed d + c ''count''\<rparr>
      else if n = ''file_hashed'' \<or> n = ''blob_hashed'' then
        d\<lparr>d_completed := d_completed d + 1, d_read := d_read d + c ''bytes_read'', d_written := d_written d + c ''staging_bytes''\<rparr>
      else if n = ''file_hashed_delta'' \<or> n = ''blob_hashed_delta'' then d\<lparr>d_completed := d_completed d + c ''count''\<rparr>
      else if n = ''cas_blob_created'' then d\<lparr>d_created := d_created d + 1\<rparr>
      else if n = ''cas_blob_created_delta'' then d\<lparr>d_created := d_created d + c ''count''\<rparr>
      else if n = ''cas_blob_reused'' then d\<lparr>d_reused := d_reused d + 1\<rparr>
      else if n = ''cas_blob_reused_delta'' then d\<lparr>d_reused := d_reused d + c ''count''\<rparr>
      else if n = ''catalog_record_committed'' then d\<lparr>d_committed := d_committed d + 1\<rparr>
      else if n = ''catalog_batch_committed'' then d\<lparr>d_batches := d_batches d + 1\<rparr>
      else if n = ''catalog_checkpoint_completed'' then d\<lparr>d_checkpoints := d_checkpoints d + 1\<rparr>
      else if n = ''catalog_final_checkpoint'' then d\<lparr>d_checkpoints := c ''checkpoints''\<rparr>
      else if n = ''source_bytes_delta'' \<or> n = ''audit_bytes_delta'' then d\<lparr>d_read := d_read d + c ''bytes''\<rparr>
      else if n = ''staging_bytes_delta'' then d\<lparr>d_written := d_written d + c ''bytes''\<rparr>
      else if n = ''active_content_workers'' then d\<lparr>d_active := c ''active'', d_mounts := c ''mounts''\<rparr>
      else if n = ''queue_occupancy'' then d\<lparr>d_queue := c ''occupancy''\<rparr>
      else if n = ''audit_catalog_scanned'' then d\<lparr>d_committed := c ''catalog_blobs'', d_gc_candidates := c ''gc_candidates''\<rparr>
      else if n = ''audit_cas_scanned'' then d\<lparr>d_created := c ''cas_blob_files''\<rparr>
      else if n = ''finding'' then d\<lparr>d_skipped := d_skipped d + 1\<rparr>
      else if n = ''gc_preflight_started'' then
        d\<lparr>d_files := c ''sweep_candidates'', d_gc_candidates := c ''sweep_candidates'', d_completed := 0\<rparr>
      else if n = ''gc_blob_hashed'' then d\<lparr>d_read := d_read d + c ''bytes_read'', d_created := d_created d + 1\<rparr>
      else if n = ''gc_preflight_complete'' then
        d\<lparr>d_files := c ''planned_actions'', d_skipped := c ''findings'', d_committed := c ''catalog_blobs'', d_completed := 0,
          d_reclaimable := c ''bytes_reclaimable''\<rparr>
      else if n = ''gc_action'' then d\<lparr>d_completed := d_completed d + 1\<rparr>
      else if n = ''gc_catalog_committed'' then d\<lparr>d_batches := d_batches d + 1, d_unlinked := d_unlinked d + c ''bytes_unlinked''\<rparr>
      else if n = ''tree_entry_planned'' then d\<lparr>d_files := d_files d + 1\<rparr>
      else if n = ''tree_link_applied'' then d\<lparr>d_completed := d_completed d + 1\<rparr>
      else if n = ''tree_directory_applied'' then d\<lparr>d_tree_directories := d_tree_directories d + 1\<rparr>
      else if n = ''tree_planned'' then d\<lparr>d_files := c ''entries''\<rparr>
      else if n = ''tree_applied'' then
        d\<lparr>d_completed := c ''links_created'' + c ''links_replaced'' + c ''stale_links_removed'', d_created := c ''links_created'',
          d_written := c ''links_replaced'', d_skipped := c ''stale_links_removed'',
          d_tree_directories := c ''directories_created'' + c ''directories_pruned''\<rparr>
      else d)"

definition dashboard_after :: "telemetry_event list \<Rightarrow> dashboard \<Rightarrow> dashboard" where
  "dashboard_after es d = fold dashboard_step es d"


section \<open>The observer of an import\<close>

datatype queue_stage = ScannerToScheduler | PerMountWork | CompletedBlobs | CatalogRequests | CatalogOutcomes

fun telemetry_name :: "queue_stage \<Rightarrow> string" where
  "telemetry_name ScannerToScheduler = ''scanner_to_scheduler''"
| "telemetry_name PerMountWork = ''per_mount_work''"
| "telemetry_name CompletedBlobs = ''completed_blobs''"
| "telemetry_name CatalogRequests = ''catalog_requests''"
| "telemetry_name CatalogOutcomes = ''catalog_outcomes''"

datatype ingest_event =
    CandidateDiscovered u64 source_relative_path mount_id
  | MetadataSkipped u64 source_relative_path u64
  | WorkQueued u64 source_relative_path mount_id
  | WorkDequeued u64 source_relative_path mount_id
  | SourceReadStarted u64 source_relative_path mount_id
  | SourceReadCompleted u64 source_relative_path mount_id u64
  | SourceChunkStaged u64 source_relative_path mount_id u64
  | WorkCancelled u64 source_relative_path mount_id
  | WorkFailed u64 source_relative_path mount_id string
  | CasStored u64 source_relative_path store_outcome blob_hash
  | ActiveWorkers mount_id nat
  | QueueOccupancy queue_stage "mount_id option" nat nat
  | QueueBackpressure
  | CatalogSubmitted u64 source_relative_path
  | CatalogCommitted u64 source_relative_path
  | CatalogBatchCommitted nat
  | CatalogCheckpointCompleted int int int
  | CatalogCheckpointRequested
  | CatalogWriterFinished u64
  | Cancellation
  | Shutdown

abbreviation import_event :: "string \<Rightarrow> telemetry_event" where
  "import_event n \<equiv> event_new ''import'' n"

definition path_field :: "telemetry_event \<Rightarrow> source_relative_path \<Rightarrow> telemetry_event" where
  "path_field e p = field e ''path'' (Text (escape_path (rel_str p)))"

text \<open>What \<open>TelemetryObserver\<close> emits for an event, and the active readers of each mount that it remembers.\<close>

definition observe :: "bool \<Rightarrow> ingest_event \<Rightarrow> (mount_id \<times> nat) list \<Rightarrow> telemetry_event list \<times> (mount_id \<times> nat) list" where
  "observe dry_run ev mounts =
     (case ev of
        CandidateDiscovered _ p _ \<Rightarrow> ([path_field (import_event ''file_discovered'') p], mounts)
      | MetadataSkipped _ p sz \<Rightarrow>
          ([field (field (path_field (import_event ''file_skipped'') p) ''size_bytes'' (Count sz)) ''dry_run'' (Boolean dry_run)], mounts)
      | SourceReadCompleted _ p _ sz \<Rightarrow>
          ([field (field (path_field (import_event ''file_hashed'') p) ''size_bytes'' (Count sz)) ''dry_run'' (Boolean dry_run)], mounts)
      | SourceChunkStaged _ _ _ sz \<Rightarrow>
          (field (field (import_event ''source_bytes_delta'') ''bytes'' (Count sz)) ''dry_run'' (Boolean dry_run)
             # (if dry_run then [] else [field (field (import_event ''staging_bytes_delta'') ''bytes'' (Count sz)) ''dry_run'' (Boolean False)]), mounts)
      | CasStored _ p out h \<Rightarrow>
          ([field (field (path_field (import_event (case out of Created \<Rightarrow> ''cas_blob_created'' | Reused \<Rightarrow> ''cas_blob_reused'')) p)
               ''hash'' (Text (as_str h))) ''dry_run'' (Boolean dry_run)], mounts)
      | ActiveWorkers m active \<Rightarrow>
          (let mounts1 = (if active = 0 then AList.delete m mounts else AList.update m active mounts)
           in ([field (field (import_event ''active_content_workers'') ''active'' (Count (of_nat (sum_list (map snd mounts1)))))
                  ''mounts'' (Count (of_nat (length mounts1)))], mounts1))
      | QueueOccupancy stage _ occupancy capacity \<Rightarrow>
          ([field (field (field (import_event ''queue_occupancy'') ''stage'' (Text (telemetry_name stage))) ''occupancy'' (Count (of_nat occupancy)))
               ''capacity'' (Count (of_nat capacity))], mounts)
      | QueueBackpressure \<Rightarrow> ([import_event ''queue_backpressure''], mounts)
      | CatalogCommitted _ _ \<Rightarrow> ([import_event ''catalog_record_committed''], mounts)
      | CatalogBatchCommitted n \<Rightarrow> ([field (import_event ''catalog_batch_committed'') ''records'' (Count (of_nat n))], mounts)
      | CatalogCheckpointCompleted busy log checkpointed \<Rightarrow>
          ([field (field (field (import_event ''catalog_checkpoint_completed'') ''busy'' (Count (of_int busy))) ''log'' (Count (of_int log)))
               ''checkpointed'' (Count (of_int checkpointed))], mounts)
      | CatalogCheckpointRequested \<Rightarrow> ([import_event ''catalog_checkpoint_requested''], mounts)
      | CatalogWriterFinished n \<Rightarrow> ([field (import_event ''catalog_final_checkpoint'') ''checkpoints'' (Count n)], mounts)
      | Cancellation \<Rightarrow> ([import_event ''cancelled''], mounts)
      | WorkFailed q _ _ _ \<Rightarrow>
          ([field (field (import_event ''operational_failure'') ''sequence'' (Count q)) ''context'' (Text ''source_worker_failed'')], mounts)
      | _ \<Rightarrow> ([], mounts))"

fun observe_all :: "bool \<Rightarrow> (mount_id \<times> nat) list \<Rightarrow> ingest_event list \<Rightarrow> telemetry_event list" where
  "observe_all dry_run mounts [] = []"
| "observe_all dry_run mounts (ev # evs) = (case observe dry_run ev mounts of (es, mounts1) \<Rightarrow> es @ observe_all dry_run mounts1 evs)"

end
