(* ===== verification/TelemetryRuns.thy ===== *)
theory TelemetryRuns
  imports Telemetry
begin

text \<open>
  What the telemetry transport keeps: every counter exactly, every plain fact in its order, and
  the source workers from waiting, whatever the pace of the renderer.
\<close>

section \<open>Channel operations\<close>

definition trace :: "transport \<Rightarrow> telemetry_event list" where
  "trace s = tr_rendered s @ tr_inbox s"

text \<open>Progress of the renderer and of sends: what is pending stays, and \<open>xs\<close> entered the channel.\<close>

definition evolves :: "transport \<Rightarrow> telemetry_event list \<Rightarrow> transport \<Rightarrow> bool" where
  "evolves s xs s' \<longleftrightarrow> trace s' = trace s @ xs \<and> tr_deltas s' = tr_deltas s \<and> tr_gauges s' = tr_gauges s \<and> tr_failures s' = tr_failures s
     \<and> tr_open s' = tr_open s \<and> (tr_failed s \<longrightarrow> tr_failed s') \<and> ((tr_gone s \<longrightarrow> tr_failed s) \<longrightarrow> (tr_gone s' \<longrightarrow> tr_failed s'))"

lemma evolves_refl [intro!]: "evolves s [] s"
  by (simp add: evolves_def)

lemma evolves_trans: "evolves s xs s1 \<Longrightarrow> evolves s1 ys s2 \<Longrightarrow> evolves s (xs @ ys) s2"
  by (simp add: evolves_def)

lemma evolves_fields:
  "evolves s xs s' \<Longrightarrow> tr_deltas s' = tr_deltas s" "evolves s xs s' \<Longrightarrow> tr_gauges s' = tr_gauges s" "evolves s xs s' \<Longrightarrow> tr_failures s' = tr_failures s"
  "evolves s xs s' \<Longrightarrow> tr_open s' = tr_open s" "evolves s xs s' \<Longrightarrow> trace s' = trace s @ xs"
  by (simp_all add: evolves_def)

lemma render_one_evolves: "evolves s [] (render_one env s)"
  by (auto simp: render_one_def evolves_def trace_def Let_def split: list.splits)

lemma render_some_evolves: "evolves s [] (render_some env n s)"
proof (induction n arbitrary: s)
  case (Suc n)
  show ?case using evolves_trans[OF render_one_evolves Suc] by simp
qed auto

lemma tick_evolves: "evolves s [] (tick env s)"
  using render_some_evolves[of s env "pace env (tr_clock s)"] by (simp add: tick_def evolves_def trace_def)

lemma push_evolves: "evolves s [e] (push e s)"
  by (simp add: push_def evolves_def trace_def)

lemma push_after: "evolves s [] s1 \<Longrightarrow> evolves s [e] (push e s1)"
  using evolves_trans[OF _ push_evolves, of s "[]" s1 e] by simp

lemma try_send_evolves:
  assumes "try_send env e s = (s', r)"
  shows "evolves s (if r = Sent then [e] else []) s'" "r = Disconnected \<Longrightarrow> tr_gone s'"
  using assms tick_evolves[of s env] push_after[OF tick_evolves[of s env], of e]
  by (auto simp: try_send_def Let_def split: if_splits)

lemma send_evolves:
  assumes "\<not> tr_failed (send env e s)"
  shows "evolves s [e] (send env e s)"
proof -
  let ?s1 = "tick env s"
  let ?s2 = "if \<not> tr_gone ?s1 \<and> length (tr_inbox ?s1) \<ge> inbox_capacity then (render_one env ?s1)\<lparr>tr_waited := tr_waited ?s1 + 1\<rparr> else ?s1"
  have "evolves ?s1 [] ?s2" using render_one_evolves[of ?s1 env] by (simp add: evolves_def trace_def)
  then have "evolves s [] ?s2" using evolves_trans[OF tick_evolves[of s env]] by simp
  from push_after[OF this, of e] show ?thesis using assms unfolding send_def Let_def by (auto split: if_splits)
qed

lemma failed_mono:
  "tr_failed s \<Longrightarrow> tr_failed (render_one env s)" "tr_failed s \<Longrightarrow> tr_failed (tick env s)" "tr_failed s \<Longrightarrow> tr_failed (send env e s)"
proof -
  have r: "tr_failed s \<Longrightarrow> tr_failed (render_one env s)" for s using render_one_evolves[of s env] by (simp add: evolves_def)
  then show "tr_failed s \<Longrightarrow> tr_failed (render_one env s)" .
  show t: "tr_failed s \<Longrightarrow> tr_failed (tick env s)" using tick_evolves[of s env] by (simp add: evolves_def)
  then show "tr_failed s \<Longrightarrow> tr_failed (send env e s)" using r[of "tick env s"] by (simp add: send_def Let_def push_def)
qed

lemma flush_list_evolves:
  assumes "flush_list env mk xs s = (s', rest)"
  shows "tr_failed s \<Longrightarrow> tr_failed s'" "\<not> tr_failed s' \<Longrightarrow> \<exists>sent. xs = sent @ rest \<and> evolves s (map mk sent) s'"
proof -
  have "(tr_failed s \<longrightarrow> tr_failed s') \<and> (\<not> tr_failed s' \<longrightarrow> (\<exists>sent. xs = sent @ rest \<and> evolves s (map mk sent) s'))"
    using assms
  proof (induction xs arbitrary: s)
    case (Cons x xs)
    obtain s1 r where t: "try_send env (mk x) s = (s1, r)" by fastforce
    note ev = try_send_evolves[OF t]
    show ?case
    proof (cases r)
      case Sent
      then have f: "flush_list env mk xs s1 = (s', rest)" "evolves s [mk x] s1" using Cons.prems t ev by auto
      have "\<exists>sent. x # xs = sent @ rest \<and> evolves s (map mk sent) s'" if "xs = sent @ rest" "evolves s1 (map mk sent) s'" for sent
        using that evolves_trans[OF f(2) that(2)] by (intro exI[of _ "x # sent"]) simp
      then show ?thesis using Cons.IH[OF f(1)] f(2) by (auto simp: evolves_def[of s "[mk x]"])
    next
      case Full
      then have "s' = s1" "rest = x # xs" using Cons.prems t by auto
      then show ?thesis using ev(1) Full by (auto simp: evolves_def)
    next
      case Disconnected
      then show ?thesis using Cons.prems t by auto
    qed
  qed auto
  then show "tr_failed s \<Longrightarrow> tr_failed s'" "\<not> tr_failed s' \<Longrightarrow> \<exists>sent. xs = sent @ rest \<and> evolves s (map mk sent) s'" by blast+
qed

text \<open>Flushing moves pending events into the channel and loses none.\<close>

lemma flush_pending_moves:
  assumes "\<not> tr_failed (flush_pending env s)" "tr_gone s \<longrightarrow> tr_failed s"
  obtains ds fs gs where "tr_deltas s = ds @ tr_deltas (flush_pending env s)" "tr_failures s = fs @ tr_failures (flush_pending env s)"
    "tr_gauges s = gs @ tr_gauges (flush_pending env s)" "trace (flush_pending env s) = trace s @ map pending_delta ds @ fs @ map snd gs"
    "tr_open (flush_pending env s) = tr_open s" "\<not> tr_failed s" "\<not> tr_gone (flush_pending env s)"
proof -
  let ?s' = "flush_pending env s"
  obtain s1 rd where 1: "flush_list env pending_delta (tr_deltas s) s = (s1, rd)" by fastforce
  let ?s1 = "s1\<lparr>tr_deltas := rd\<rparr>"
  obtain s2 rf where 2: "flush_list env id (tr_failures ?s1) ?s1 = (s2, rf)" by fastforce
  let ?s2 = "s2\<lparr>tr_failures := rf\<rparr>"
  obtain s3 rg where 3: "flush_list env snd (tr_gauges ?s2) ?s2 = (s3, rg)" by fastforce
  let ?s3 = "s3\<lparr>tr_gauges := rg\<rparr>"
  note F = flush_list_evolves
  have e: "?s' = (if tr_failed ?s1 then ?s1 else if tr_failures ?s2 \<noteq> [] \<or> tr_gone ?s2 then ?s2 else ?s3)"
    unfolding flush_pending_def flush_deltas_def flush_failures_def flush_gauges_def Let_def using 1 2 3 by (cases "rf = []") simp_all
  have f1: "\<not> tr_failed s1" using assms(1) e by (auto split: if_splits)
  have f2: "\<not> tr_failed s2" using assms(1) e f1 F(1)[OF 3] by (auto split: if_splits)
  obtain ds where ds: "tr_deltas s = ds @ rd" "evolves s (map pending_delta ds) s1" using F(2)[OF 1 f1] by blast
  obtain fs where fs: "tr_failures ?s1 = fs @ rf" "evolves ?s1 (map id fs) s2" using F(2)[OF 2 f2] by blast
  have s1: "tr_failures s1 = tr_failures s" "tr_gauges s1 = tr_gauges s" "tr_open s1 = tr_open s" "trace s1 = trace s @ map pending_delta ds"
    using evolves_fields[OF ds(2)] by auto
  have s2: "tr_deltas s2 = rd" "tr_gauges s2 = tr_gauges s" "tr_open s2 = tr_open s" "trace s2 = trace s @ map pending_delta ds @ fs"
    using evolves_fields[OF fs(2)] s1 by (auto simp: trace_def)
  have g2: "\<not> tr_gone s2" using ds(2) fs(2) assms(2) f1 f2 by (auto simp: evolves_def)
  have nf: "\<not> tr_failed s" using ds(2) f1 by (auto simp: evolves_def)
  show thesis
  proof (cases "rf = []")
    case False
    then have s': "?s' = ?s2" using e f1 by simp
    show thesis by (rule that[of ds fs "[]"]) (use s' ds fs s1 s2 g2 nf in \<open>auto simp: trace_def\<close>)
  next
    case True
    then have s': "?s' = ?s3" using e f1 g2 by simp
    have f3: "\<not> tr_failed s3" using assms(1) s' by simp
    obtain gs where gs: "tr_gauges ?s2 = gs @ rg" "evolves ?s2 (map snd gs) s3" using F(2)[OF 3 f3] by blast
    have s3: "tr_deltas s3 = rd" "tr_failures s3 = []" "tr_open s3 = tr_open s" "trace s3 = trace s @ map pending_delta ds @ fs @ map snd gs"
      using evolves_fields[OF gs(2)] s2 True by (auto simp: trace_def)
    have g3: "\<not> tr_gone s3" using gs(2) g2 f2 f3 by (auto simp: evolves_def)
    show thesis by (rule that[of ds fs gs]) (use s' ds fs gs s1 s2 s3 g3 nf True in \<open>auto simp: trace_def\<close>)
  qed
qed

lemma send_list_evolves:
  assumes "send_list env mk xs s = (s', rest)" "tr_gone s \<longrightarrow> tr_failed s"
  shows "tr_failed s \<Longrightarrow> tr_failed s'" "\<not> tr_failed s' \<Longrightarrow> rest = [] \<and> evolves s (map mk xs) s'"
proof -
  have "(tr_failed s \<longrightarrow> tr_failed s') \<and> (\<not> tr_failed s' \<longrightarrow> rest = [] \<and> evolves s (map mk xs) s')"
    using assms
  proof (induction xs arbitrary: s)
    case (Cons x xs)
    let ?s1 = "send env (mk x) s"
    show ?case
    proof (cases "tr_failed ?s1")
      case True
      have "tr_failed s'"
      proof (cases "tr_gone ?s1")
        case False
        then show ?thesis using Cons True by (simp add: Let_def)
      qed (use Cons.prems True in \<open>simp add: Let_def\<close>)
      then show ?thesis by simp
    next
      case False
      note ev = send_evolves[OF False]
      have inv: "tr_gone ?s1 \<longrightarrow> tr_failed ?s1" using ev Cons.prems(2) by (simp add: evolves_def)
      then have f: "send_list env mk xs ?s1 = (s', rest)" using Cons.prems False by (simp add: Let_def)
      show ?thesis using Cons.IH[OF f inv] evolves_trans[OF ev] ev failed_mono(3)[of s env "mk x"] False by auto
    qed
  qed auto
  then show "tr_failed s \<Longrightarrow> tr_failed s'" "\<not> tr_failed s' \<Longrightarrow> rest = [] \<and> evolves s (map mk xs) s'" by blast+
qed

lemma drain_pending_moves:
  assumes "\<not> tr_failed (drain_pending env s)" "tr_gone s \<longrightarrow> tr_failed s"
  shows "tr_deltas (drain_pending env s) = [] \<and> tr_failures (drain_pending env s) = [] \<and> tr_gauges (drain_pending env s) = []
    \<and> trace (drain_pending env s) = trace s @ map pending_delta (tr_deltas s) @ tr_failures s @ map snd (tr_gauges s)
    \<and> tr_open (drain_pending env s) = tr_open s \<and> \<not> tr_failed s \<and> \<not> tr_gone (drain_pending env s)"
proof -
  let ?s' = "drain_pending env s"
  obtain s1 rd where 1: "send_list env pending_delta (tr_deltas s) s = (s1, rd)" by fastforce
  let ?s1 = "s1\<lparr>tr_deltas := rd\<rparr>"
  obtain s2 rf where 2: "send_list env id (tr_failures ?s1) ?s1 = (s2, rf)" by fastforce
  let ?s2 = "s2\<lparr>tr_failures := []\<rparr>"
  obtain s3 rg where 3: "send_list env snd (tr_gauges ?s2) ?s2 = (s3, rg)" by fastforce
  let ?s3 = "s3\<lparr>tr_gauges := []\<rparr>"
  have e: "?s' = (if tr_gone s1 then ?s1 else if tr_gone s2 then ?s2 else ?s3)"
    unfolding drain_pending_def Let_def using 1 2 3 by simp
  note S1 = send_list_evolves[OF 1 assms(2)]
  have f1: "\<not> tr_failed s1"
  proof
    assume a: "tr_failed s1"
    show False
    proof (cases "tr_gone s1")
      case False
      then have "tr_failed s2" using send_list_evolves(1)[OF 2] a by simp
      then show False using assms(1) e False send_list_evolves(1)[OF 3] by (auto split: if_splits)
    qed (use assms(1) e a in auto)
  qed
  then have ev1: "rd = []" "evolves s (map pending_delta (tr_deltas s)) s1" using S1(2) by auto
  have g1: "\<not> tr_gone s1" using ev1(2) assms(2) f1 by (simp add: evolves_def)
  have f2: "\<not> tr_failed s2" using assms(1) e g1 send_list_evolves(1)[OF 3] by (auto split: if_splits)
  have ev2: "evolves ?s1 (map id (tr_failures ?s1)) s2" using send_list_evolves(2)[OF 2] g1 f2 by simp
  have g2: "\<not> tr_gone s2" using ev2 g1 f2 by (simp add: evolves_def)
  have f3: "\<not> tr_failed s3" using assms(1) e g1 g2 by simp
  have ev3: "evolves ?s2 (map snd (tr_gauges ?s2)) s3" using send_list_evolves(2)[OF 3] g2 f3 by simp
  have g3: "\<not> tr_gone s3" using ev3 g2 f3 by (simp add: evolves_def)
  have s': "?s' = ?s3" using e g1 g2 by simp
  have n: "\<not> tr_failed s" using S1(1) f1 by blast
  show ?thesis using evolves_fields[OF ev1(2)] evolves_fields[OF ev2] evolves_fields[OF ev3] s' ev1(1) g3 n by (auto simp: trace_def)
qed


section \<open>Coalescing\<close>

definition coalesce :: "telemetry_event \<Rightarrow> transport \<Rightarrow> transport \<times> bool" where
  "coalesce e s = (case coalesce_delta e s of (s1, True) \<Rightarrow> (s1, True) | (s1, False) \<Rightarrow> coalesce_worker_fact e s1)"

text \<open>The keys of pending counters are distinct and of counters, and the other buffers hold what they are for.\<close>

definition pending_ok :: "transport \<Rightarrow> bool" where
  "pending_ok s \<longleftrightarrow> distinct (map fst (tr_deltas s)) \<and> (\<forall>p\<in>set (tr_deltas s). suffix ''_delta'' (fst (snd (fst p))))
     \<and> (\<forall>p\<in>set (tr_gauges s). te_event (snd p) \<in> set gauge_events) \<and> (\<forall>e\<in>set (tr_failures s). te_event e = ''operational_failure'')
     \<and> length (tr_failures s) \<le> 8 \<and> (tr_gone s \<longrightarrow> tr_failed s)"

definition pending_name :: "string \<Rightarrow> bool" where
  "pending_name n \<longleftrightarrow> suffix ''_delta'' n \<or> n \<in> set gauge_events \<or> n = ''operational_failure''"

definition pending :: "transport \<Rightarrow> telemetry_event list" where
  "pending s = map pending_delta (tr_deltas s) @ tr_failures s @ map snd (tr_gauges s)"

lemma pending_names: "pending_ok s \<Longrightarrow> e \<in> set (pending s) \<Longrightarrow> pending_name (te_event e)"
  by (auto simp: pending_def pending_ok_def pending_name_def delta_event_def field_def event_new_def split: prod.splits)

lemma set_map_insert: "set (map_insert k v m) = insert (k, v) {p \<in> set m. fst p \<noteq> k}"
  by (auto simp: map_insert_def set_insort_key)

lemma distinct_map_insert: "distinct (map fst m) \<Longrightarrow> distinct (map fst (map_insert k v m))"
proof -
  assume "distinct (map fst m)"
  then have "distinct (map fst (filter (\<lambda>(k', _). k' \<noteq> k) m))" by (rule distinct_map_filter)
  moreover have "mset (map fst (map_insert k v m)) = add_mset k (mset (map fst (filter (\<lambda>(k', _). k' \<noteq> k) m)))"
    by (simp add: map_insert_def)
  moreover have "k \<notin> set (map fst (filter (\<lambda>(k', _). k' \<noteq> k) m))" by auto
  ultimately show ?thesis by (metis distinct.simps(2) mset.simps(2) mset_eq_imp_distinct_iff)
qed

lemma add_delta_fields:
  assumes "add_delta k v s = (s', True)"
  shows "\<exists>ds. s' = s\<lparr>tr_deltas := ds\<rparr>" "distinct (map fst (tr_deltas s)) \<Longrightarrow> distinct (map fst (tr_deltas s'))"
    "fst ` set (tr_deltas s') \<subseteq> insert k (fst ` set (tr_deltas s))"
  using assms by (auto simp: add_delta_def set_map_insert distinct_map_insert split: option.splits)

lemma add_delta_False: "add_delta k v s = (s', False) \<Longrightarrow> tr_failed s'"
  by (auto simp: add_delta_def split: option.splits)

lemma sum_map_insert: "(\<Sum>(k', w)\<leftarrow>map_insert k v m. (h k' w :: 'w :: comm_monoid_add)) = h k v + (\<Sum>(k', w)\<leftarrow>filter (\<lambda>(k', _). k' \<noteq> k) m. h k' w)"
proof -
  have "(\<Sum>p\<leftarrow>insort_key fst x xs. g p) = g x + (\<Sum>p\<leftarrow>xs. g p)" for g :: "delta_key \<times> 'a \<Rightarrow> 'w" and x xs
    by (induction xs) (auto simp: ac_simps)
  from this[of "\<lambda>(k', w). h k' w"] show ?thesis by (simp add: map_insert_def)
qed

lemma sum_without_key:
  assumes "distinct (map fst m)"
  shows "(\<Sum>(k', w)\<leftarrow>m. (h k' w :: 'w :: comm_monoid_add)) = (case map_of m k of None \<Rightarrow> 0 | Some v \<Rightarrow> h k v) + (\<Sum>(k', w)\<leftarrow>filter (\<lambda>(k', _). k' \<noteq> k) m. h k' w)"
  using assms
proof (induction m)
  case (Cons p m)
  obtain k' w where p: "p = (k', w)" by fastforce
  show ?case
  proof (cases "k' = k")
    case True
    then have "map_of m k = None" using Cons.prems p by (auto simp: map_of_eq_None_iff)
    then show ?thesis using Cons p True by (simp add: ac_simps)
  next
    case False
    then show ?thesis using Cons p by (simp add: ac_simps)
  qed
qed simp

lemma add_delta_sum:
  assumes "add_delta k v s = (s', True)" "distinct (map fst (tr_deltas s))" "\<And>x y. h k (x + y) = h k x + (h k y :: 'w :: comm_monoid_add)"
  shows "(\<Sum>(k', w)\<leftarrow>tr_deltas s'. h k' w) = (\<Sum>(k', w)\<leftarrow>tr_deltas s. h k' w) + h k v"
proof (cases "map_of (tr_deltas s) k")
  case None
  then show ?thesis using assms(1) sum_without_key[OF assms(2), of h k] by (auto simp: add_delta_def sum_map_insert ac_simps)
next
  case (Some old)
  then have "s' = s\<lparr>tr_deltas := map_insert k (old + v) (tr_deltas s)\<rparr>"
    using assms(1) by (auto simp: add_delta_def checked_add_Some_iff split: option.splits)
  then show ?thesis using Some sum_without_key[OF assms(2), of h k] assms(3) by (simp add: sum_map_insert ac_simps)
qed

lemma same_deltas: "\<exists>ds. s = s\<lparr>tr_deltas := ds\<rparr>"
  by (rule exI[of _ "tr_deltas s"]) simp

lemma add_fields_fields:
  assumes "add_fields c n fs has s = (s', r)"
  shows "r \<Longrightarrow> (\<exists>ds. s' = s\<lparr>tr_deltas := ds\<rparr>) \<and> (distinct (map fst (tr_deltas s)) \<longrightarrow> distinct (map fst (tr_deltas s')))
      \<and> (\<forall>k\<in>fst ` set (tr_deltas s'). k \<in> fst ` set (tr_deltas s) \<or> (\<exists>f. k = (c, n, f)))"
    "\<not> r \<Longrightarrow> \<not> tr_failed s' \<Longrightarrow> s' = s \<and> \<not> has \<and> (\<forall>(f, v)\<in>set fs. as_u64 v = None)" "tr_failed s \<Longrightarrow> tr_failed s'"
proof -
  have "(r \<longrightarrow> (\<exists>ds. s' = s\<lparr>tr_deltas := ds\<rparr>) \<and> (distinct (map fst (tr_deltas s)) \<longrightarrow> distinct (map fst (tr_deltas s')))
      \<and> (\<forall>k\<in>fst ` set (tr_deltas s'). k \<in> fst ` set (tr_deltas s) \<or> (\<exists>f. k = (c, n, f))))
    \<and> (\<not> r \<longrightarrow> \<not> tr_failed s' \<longrightarrow> s' = s \<and> \<not> has \<and> (\<forall>(f, v)\<in>set fs. as_u64 v = None)) \<and> (tr_failed s \<longrightarrow> tr_failed s')"
    using assms
  proof (induction c n fs has s arbitrary: s' r rule: add_fields.induct)
    case (2 c n f v fs has s)
    show ?case
    proof (cases "as_u64 v")
      case None
      then show ?thesis using 2(1)[OF None, of s' r] 2(3) by auto
    next
      case (Some x)
      obtain s1 ok where a: "add_delta (c, n, f) x s = (s1, ok)" by fastforce
      show ?thesis
      proof (cases ok)
        case False
        then show ?thesis using 2(3) Some a add_delta_False[of "(c, n, f)" x s s1] by auto
      next
        case True
        then have r: "add_fields c n fs True s1 = (s', r)" using 2(3) Some a by simp
        have a': "add_delta (c, n, f) x s = (s1, True)" using a True by simp
        note A = add_delta_fields[OF a']
        have IH: "(r \<longrightarrow> (\<exists>ds. s' = s1\<lparr>tr_deltas := ds\<rparr>) \<and> (distinct (map fst (tr_deltas s1)) \<longrightarrow> distinct (map fst (tr_deltas s')))
            \<and> (\<forall>k\<in>fst ` set (tr_deltas s'). k \<in> fst ` set (tr_deltas s1) \<or> (\<exists>f. k = (c, n, f))))
          \<and> (\<not> r \<longrightarrow> \<not> tr_failed s' \<longrightarrow> s' = s1 \<and> \<not> True \<and> (\<forall>(f, v)\<in>set fs. as_u64 v = None)) \<and> (tr_failed s1 \<longrightarrow> tr_failed s')"
          using 2(2)[OF Some a'[symmetric]] r by simp
        obtain ds where ds: "s1 = s\<lparr>tr_deltas := ds\<rparr>" using A(1) by blast
        show ?thesis
        proof (intro conjI impI)
          assume r
          then obtain ds' where "s' = s1\<lparr>tr_deltas := ds'\<rparr>" using IH by blast
          then show "\<exists>ds. s' = s\<lparr>tr_deltas := ds\<rparr>" using ds by auto
          show "distinct (map fst (tr_deltas s'))" if "distinct (map fst (tr_deltas s))" using IH \<open>r\<close> A(2) that by blast
          show "\<forall>k\<in>fst ` set (tr_deltas s'). k \<in> fst ` set (tr_deltas s) \<or> (\<exists>f. k = (c, n, f))" using IH \<open>r\<close> A(3) by blast
        qed (use IH ds in auto)
      qed
    qed
  qed (simp add: same_deltas)
  then show "r \<Longrightarrow> (\<exists>ds. s' = s\<lparr>tr_deltas := ds\<rparr>) \<and> (distinct (map fst (tr_deltas s)) \<longrightarrow> distinct (map fst (tr_deltas s')))
      \<and> (\<forall>k\<in>fst ` set (tr_deltas s'). k \<in> fst ` set (tr_deltas s) \<or> (\<exists>f. k = (c, n, f)))"
    "\<not> r \<Longrightarrow> \<not> tr_failed s' \<Longrightarrow> s' = s \<and> \<not> has \<and> (\<forall>(f, v)\<in>set fs. as_u64 v = None)" "tr_failed s \<Longrightarrow> tr_failed s'" by blast+
qed

lemma add_fields_sum:
  assumes "add_fields c n fs has s = (s', True)" "distinct (map fst (tr_deltas s))" "\<And>f x y. h (c, n, f) (x + y) = h (c, n, f) x + (h (c, n, f) y :: 'w :: comm_monoid_add)"
  shows "(\<Sum>(k, w)\<leftarrow>tr_deltas s'. h k w) = (\<Sum>(k, w)\<leftarrow>tr_deltas s. h k w) + (\<Sum>(f, v)\<leftarrow>fs. case as_u64 v of None \<Rightarrow> 0 | Some x \<Rightarrow> h (c, n, f) x)"
  using assms
proof (induction c n fs has s arbitrary: s' rule: add_fields.induct)
  case (2 c n f v fs has s)
  show ?case
  proof (cases "as_u64 v")
    case None
    then show ?thesis using 2(1)[OF None] 2(3-) by simp
  next
    case (Some x)
    obtain s1 where a: "add_delta (c, n, f) x s = (s1, True)" "add_fields c n fs True s1 = (s', True)"
      using 2(3) Some by (auto split: prod.splits bool.splits)
    have "(\<Sum>(k, w)\<leftarrow>tr_deltas s1. h k w) = (\<Sum>(k, w)\<leftarrow>tr_deltas s. h k w) + h (c, n, f) x" by (rule add_delta_sum[OF a(1) 2(4)]) (rule 2(5))
    then show ?thesis using 2(2)[OF Some a(1)[symmetric] _ a(2)] add_delta_fields(2)[OF a(1) 2(4)] 2(5) Some by (simp add: ac_simps)
  qed
qed simp


text \<open>An event that could not be coalesced left no trace, unless the transport has failed.\<close>

lemma coalesce_False:
  assumes "coalesce e s = (s', False)" "\<not> tr_failed s'"
  shows "s' = s"
proof -
  obtain s1 r where d: "coalesce_delta e s = (s1, r)" by fastforce
  have r: "\<not> r" and w: "coalesce_worker_fact e s1 = (s', False)" using assms(1) d by (auto simp: coalesce_def split: bool.splits)
  have cd: "t = s0" if "coalesce_delta e s0 = (t, False)" "\<not> tr_failed t" for s0 t
    using that add_fields_fields(2)[of "te_command e" "te_event e" "te_fields e" False s0 t False] by (auto simp: coalesce_delta_def split: if_splits)
  have "s' = s1" using w assms(2) cd[of s1 s'] add_delta_False unfolding coalesce_worker_fact_def
    by (auto simp: Let_def coalesce_gauge_def coalesce_worker_failure_def split: if_splits prod.splits bool.splits)
  moreover have "s1 = s" using cd[of s s1] d r assms(2) calculation by simp
  ultimately show ?thesis by simp
qed

lemma coalesce_failed:
  assumes "coalesce e s = (s', r)" "tr_failed s"
  shows "tr_failed s'"
proof -
  have ad: "tr_failed t" if "add_delta k v s0 = (t, b)" "tr_failed s0" for k v s0 t b
    using that by (auto simp: add_delta_def split: option.splits)
  have cd: "tr_failed t" if "coalesce_delta e s0 = (t, b)" "tr_failed s0" for s0 t b
    using that add_fields_fields(3)[of "te_command e" "te_event e" "te_fields e" False s0 t b] by (auto simp: coalesce_delta_def split: if_splits)
  have cw: "tr_failed t" if "coalesce_worker_fact e s0 = (t, b)" "tr_failed s0" for s0 t b
    using that ad cd unfolding coalesce_worker_fact_def
    by (auto simp: Let_def coalesce_gauge_def coalesce_worker_failure_def split: if_splits prod.splits bool.splits)
  show ?thesis using assms cd cw by (auto simp: coalesce_def split: prod.splits bool.splits)
qed

lemma delta_names: "n \<in> set counted_facts \<Longrightarrow> suffix ''_delta'' (n @ ''_delta'')" "suffix ''_delta'' ''blob_hashed_delta''" "suffix ''_delta'' ''audit_bytes_delta''"
  by (simp_all add: suffix_def)

lemma pending_ok_deltas:
  assumes "pending_ok s" "distinct (map fst ds)" "\<forall>k\<in>fst ` set ds. k \<in> fst ` set (tr_deltas s) \<or> suffix ''_delta'' (fst (snd k))"
  shows "pending_ok (s\<lparr>tr_deltas := ds\<rparr>)"
  using assms unfolding pending_ok_def by fastforce

lemma pending_ok_add_delta:
  assumes "pending_ok s" "add_delta k v s = (s', True)" "suffix ''_delta'' (fst (snd k))"
  shows "pending_ok s'"
proof -
  obtain ds where ds: "s' = s\<lparr>tr_deltas := ds\<rparr>" using add_delta_fields(1)[OF assms(2)] by blast
  show ?thesis unfolding ds using pending_ok_deltas[OF assms(1), of ds] add_delta_fields(2,3)[OF assms(2)] assms(1,3) ds
    by (auto simp: pending_ok_def)
qed

lemma pending_ok_coalesce_delta:
  assumes "pending_ok s" "coalesce_delta e s = (s', True)"
  shows "pending_ok s'"
proof -
  have sf: "suffix ''_delta'' (te_event e)" and a: "add_fields (te_command e) (te_event e) (te_fields e) False s = (s', True)"
    using assms(2) by (auto simp: coalesce_delta_def split: if_splits)
  note F = add_fields_fields(1)[OF a, simplified]
  obtain ds where ds: "s' = s\<lparr>tr_deltas := ds\<rparr>" using F by blast
  have "distinct (map fst ds)" using F assms(1) ds by (simp add: pending_ok_def)
  moreover have "\<forall>k\<in>fst ` set ds. k \<in> fst ` set (tr_deltas s) \<or> suffix ''_delta'' (fst (snd k))"
  proof
    fix k assume "k \<in> fst ` set ds"
    then have "k \<in> fst ` set (tr_deltas s')" by (simp add: ds)
    then have "k \<in> fst ` set (tr_deltas s) \<or> (\<exists>f. k = (te_command e, te_event e, f))" using F by blast
    then show "k \<in> fst ` set (tr_deltas s) \<or> suffix ''_delta'' (fst (snd k))" using sf by auto
  qed
  ultimately show ?thesis unfolding ds by (rule pending_ok_deltas[OF assms(1)])
qed

text \<open>How an event was coalesced.\<close>

lemma coalesce_cases:
  assumes "coalesce e s = (s', True)" "\<not> tr_failed s'"
  obtains (delta) "coalesce_delta e s = (s', True)"
  | (fact) "te_event e \<in> set counted_facts" "add_delta (te_command e, te_event e @ ''_delta'', ''count'') 1 s = (s', True)"
  | (blob) s1 where "te_event e = ''blob_hashed''" "add_delta (te_command e, ''blob_hashed_delta'', ''count'') 1 s = (s1, True)"
      "s' = s1 \<and> count_field e ''bytes_read'' = 0 \<or> add_delta (te_command e, ''audit_bytes_delta'', ''bytes'') (count_field e ''bytes_read'') s1 = (s', True)"
  | (gauge) "te_event e \<in> set gauge_events" "coalesce_gauge e s = (s', True)"
  | (failure) "te_event e = ''operational_failure''" "coalesce_worker_failure e s = (s', True)"
proof -
  obtain s1 r where d: "coalesce_delta e s = (s1, r)" by fastforce
  show thesis
  proof (cases r)
    case True
    then show thesis using assms(1) d delta by (simp add: coalesce_def)
  next
    case False
    then have w: "coalesce_worker_fact e s1 = (s', True)" using assms(1) d by (simp add: coalesce_def)
    have "\<not> tr_failed s1"
    proof
      assume f: "tr_failed s1"
      show False using w f assms(2) unfolding coalesce_worker_fact_def add_delta_def
        by (auto simp: Let_def coalesce_gauge_def coalesce_worker_failure_def coalesce_delta_def dest: add_fields_fields(3) split: if_splits option.splits prod.splits bool.splits)
    qed
    then have s1: "s1 = s" using d False add_fields_fields(2)[of "te_command e" "te_event e" "te_fields e" False s s1 r]
      by (auto simp: coalesce_delta_def split: if_splits)
    have blob': thesis if b: "te_event e = ''blob_hashed''"
    proof -
      obtain s2 where "add_delta (te_command e, ''blob_hashed_delta'', ''count'') 1 s = (s2, True)"
        "s' = s2 \<and> count_field e ''bytes_read'' = 0 \<or> add_delta (te_command e, ''audit_bytes_delta'', ''bytes'') (count_field e ''bytes_read'') s2 = (s', True)"
        using w s1 b by (auto simp: coalesce_worker_fact_def counted_facts_def Let_def split: prod.splits bool.splits if_splits)
      then show thesis using blob[OF b] by blast
    qed
    show thesis using w s1 blob' fact gauge failure delta unfolding coalesce_worker_fact_def by (auto split: if_splits)
  qed
qed

lemma pending_ok_coalesce:
  assumes "pending_ok s" "coalesce e s = (s', True)" "\<not> tr_failed s'"
  shows "pending_ok s'"
  using assms(2,3)
proof (cases rule: coalesce_cases)
  case delta
  then show ?thesis by (rule pending_ok_coalesce_delta[OF assms(1)])
next
  case fact
  then show ?thesis using pending_ok_add_delta[OF assms(1) fact(2)] delta_names(1) by simp
next
  case (blob s1)
  have "pending_ok s1" using pending_ok_add_delta[OF assms(1) blob(2)] delta_names(2) by simp
  then show ?thesis using blob(3) pending_ok_add_delta[of s1 "(te_command e, ''audit_bytes_delta'', ''bytes'')"] delta_names(3) by auto
next
  case gauge
  then show ?thesis using assms(1) unfolding pending_ok_def coalesce_gauge_def by (auto simp: Let_def set_map_insert)
next
  case failure
  then show ?thesis using assms(1) unfolding pending_ok_def coalesce_worker_failure_def by (auto split: if_splits)
qed

lemma coalesce_same:
  assumes "coalesce e s = (s', True)" "\<not> tr_failed s'"
  shows "trace s' = trace s" "tr_open s' = tr_open s" "tr_waited s' = tr_waited s" "length (tr_inbox s') = length (tr_inbox s)"
proof -
  have a: "trace t = trace u \<and> tr_open t = tr_open u \<and> tr_waited t = tr_waited u \<and> length (tr_inbox t) = length (tr_inbox u)"
    if "\<exists>ds. t = u\<lparr>tr_deltas := ds\<rparr>" for t u
    using that by (auto simp: trace_def)
  have "trace s' = trace s \<and> tr_open s' = tr_open s \<and> tr_waited s' = tr_waited s \<and> length (tr_inbox s') = length (tr_inbox s)"
    using assms
  proof (cases rule: coalesce_cases)
    case delta
    then have "add_fields (te_command e) (te_event e) (te_fields e) False s = (s', True)" by (simp add: coalesce_delta_def split: if_splits)
    then have "\<exists>ds. s' = s\<lparr>tr_deltas := ds\<rparr>" using add_fields_fields(1) by blast
    from a[OF this] show ?thesis .
  next
    case fact
    from a[OF add_delta_fields(1)[OF fact(2)]] show ?thesis .
  next
    case (blob s1)
    note 1 = a[OF add_delta_fields(1)[OF blob(2)]]
    from blob(3) show ?thesis
    proof
      assume "add_delta (te_command e, ''audit_bytes_delta'', ''bytes'') (count_field e ''bytes_read'') s1 = (s', True)"
      from a[OF add_delta_fields(1)[OF this]] 1 show ?thesis by simp
    qed (use 1 in simp)
  qed (auto simp: trace_def coalesce_gauge_def coalesce_worker_failure_def Let_def split: if_splits)
  then show "trace s' = trace s" "tr_open s' = tr_open s" "tr_waited s' = tr_waited s" "length (tr_inbox s') = length (tr_inbox s)" by blast+
qed


section \<open>Emitting\<close>

text \<open>Pending events have moved into the channel.\<close>

definition moved :: "transport \<Rightarrow> transport \<Rightarrow> bool" where
  "moved s s' \<longleftrightarrow> (\<exists>ds fs gs. tr_deltas s = ds @ tr_deltas s' \<and> tr_failures s = fs @ tr_failures s' \<and> tr_gauges s = gs @ tr_gauges s'
     \<and> trace s' = trace s @ map pending_delta ds @ fs @ map snd gs \<and> tr_open s' = tr_open s \<and> \<not> tr_failed s' \<and> \<not> tr_gone s')"

definition same_pending :: "transport \<Rightarrow> transport \<Rightarrow> bool" where
  "same_pending s s' \<longleftrightarrow> tr_deltas s' = tr_deltas s \<and> tr_failures s' = tr_failures s \<and> tr_gauges s' = tr_gauges s \<and> tr_open s' = tr_open s
     \<and> (tr_gone s' \<longrightarrow> tr_failed s')"

lemma moved_ok:
  assumes "pending_ok s" "moved s s'"
  shows "pending_ok s'"
proof -
  obtain ds fs gs where "tr_deltas s = ds @ tr_deltas s'" "tr_failures s = fs @ tr_failures s'" "tr_gauges s = gs @ tr_gauges s'" "\<not> tr_gone s'"
    using assms(2) by (auto simp: moved_def)
  then show ?thesis using assms(1) by (auto simp: pending_ok_def)
qed

lemma moved_evolves: "moved s s1 \<Longrightarrow> evolves s1 [] s2 \<Longrightarrow> \<not> tr_failed s2 \<Longrightarrow> moved s s2"
  unfolding moved_def evolves_def by auto

lemma emit_event_failed: "tr_failed s \<Longrightarrow> emit_event env e s = s"
  by (simp add: emit_event_def)

lemma emit_event_cases:
  assumes "\<not> tr_failed (emit_event env e s)" "tr_open s" "tr_gone s \<longrightarrow> tr_failed s"
  obtains (passed) s1 where "moved s s1" "evolves s1 [e] (emit_event env e s)"
      "te_event e \<in> {''command_summary'', ''command_failed''} \<Longrightarrow> tr_deltas s1 = [] \<and> tr_failures s1 = [] \<and> tr_gauges s1 = []"
  | (coalesced) s1 where "moved s s1" "coalesce e s1 = (emit_event env e s, True)" "te_event e \<notin> {''command_summary'', ''command_failed''}"
proof -
  let ?s' = "emit_event env e s"
  have nf: "\<not> tr_failed s" using assms(1) emit_event_failed by metis
  show thesis
  proof (cases "te_event e \<in> {''command_summary'', ''command_failed''}")
    case True
    let ?d = "drain_pending env s"
    have e: "?s' = (if tr_failed ?d then ?d else send env e ?d)" using True nf assms(2) by (auto simp: emit_event_def Let_def)
    then have f: "\<not> tr_failed ?d" "?s' = send env e ?d" using assms(1) by (auto split: if_splits)
    note D = drain_pending_moves[OF f(1) assms(3)]
    have "moved s ?d" using D f(1) by (auto simp: moved_def)
    moreover have "evolves ?d [e] ?s'" using send_evolves[of env e ?d] assms(1) f(2) by simp
    ultimately show thesis using passed D by blast
  next
    case False
    let ?f = "flush_pending env s"
    obtain s1 r where t: "try_send env e ?f = (s1, r)" by fastforce
    note T = try_send_evolves[OF t]
    have e: "?s' = (case r of Sent \<Rightarrow> s1 | Disconnected \<Rightarrow> s1\<lparr>tr_failed := True\<rparr>
        | Full \<Rightarrow> (case coalesce e s1 of (s3, True) \<Rightarrow> s3 | (s3, False) \<Rightarrow> send env e s3))"
      using False nf assms(2) t by (auto simp: emit_event_def coalesce_def split: sent.splits prod.splits bool.splits)
    have s1f: "tr_failed s1 \<Longrightarrow> tr_failed ?s'"
      using e coalesce_failed[of e s1] failed_mono(3) by (auto split: sent.splits prod.splits bool.splits)
    have ff: "\<not> tr_failed ?f" using T(1) s1f assms(1) by (auto simp: evolves_def)
    obtain ds fs gs where M: "tr_deltas s = ds @ tr_deltas ?f" "tr_failures s = fs @ tr_failures ?f" "tr_gauges s = gs @ tr_gauges ?f"
        "trace ?f = trace s @ map pending_delta ds @ fs @ map snd gs" "tr_open ?f = tr_open s" "\<not> tr_failed s" "\<not> tr_gone ?f"
      by (rule flush_pending_moves[OF ff assms(3)])
    then have m: "moved s ?f" using ff by (auto simp: moved_def)
    show thesis
    proof (cases r)
      case Sent
      then show thesis using passed[OF m] T(1) e False by simp
    next
      case Disconnected
      then show thesis using e assms(1) by simp
    next
      case Full
      have m1: "moved s s1" by (rule moved_evolves[OF m]) (use T(1) Full s1f assms(1) in auto)
      obtain s3 c where c: "coalesce e s1 = (s3, c)" by fastforce
      show thesis
      proof (cases c)
        case True
        then show thesis using coalesced[OF m1] c e Full False by simp
      next
        case nc: False
        then have s': "?s' = send env e s3" using c e Full by simp
        then have "\<not> tr_failed s3" using assms(1) failed_mono(3) by metis
        then have "s3 = s1" using coalesce_False c nc by simp
        then show thesis using passed[OF m1] send_evolves[of env e s1] s' assms(1) False by simp
      qed
    qed
  qed
qed

lemma emit_event_ok:
  assumes "\<not> tr_failed (emit_event env e s)" "tr_open s" "pending_ok s"
  shows "pending_ok (emit_event env e s) \<and> tr_open (emit_event env e s)"
proof -
  have g: "tr_gone s \<longrightarrow> tr_failed s" using assms(3) by (simp add: pending_ok_def)
  from assms(1,2) g show ?thesis
  proof (cases rule: emit_event_cases)
    case (passed s1)
    have "pending_ok s1" by (rule moved_ok[OF assms(3) passed(1)])
    then show ?thesis using passed(1,2) assms(2) by (auto simp: pending_ok_def evolves_def moved_def)
  next
    case (coalesced s1)
    have "tr_open s1" using coalesced(1) assms(2) by (auto simp: moved_def)
    moreover have "tr_open (emit_event env e s) = tr_open s1" by (rule coalesce_same(2)[OF coalesced(2) assms(1)])
    ultimately show ?thesis using pending_ok_coalesce[OF moved_ok[OF assms(3) coalesced(1)] coalesced(2) assms(1)] coalesced(2) by blast
  qed
qed

lemma emit_all_failed: "tr_failed s \<Longrightarrow> emit_all env es s = s"
  by (induction es arbitrary: s) (auto simp: emit_all_def emit_event_failed)

lemma emit_all_Cons: "emit_all env (e # es) s = emit_all env es (emit_event env e s)"
  by (simp add: emit_all_def)

lemma render_all:
  assumes "\<not> tr_failed (render_some env n s)" "tr_gone s \<longrightarrow> tr_failed s"
  shows "length (tr_inbox (render_some env n s)) = length (tr_inbox s) - n"
  using assms
proof (induction n arbitrary: s)
  case (Suc n)
  have m: "tr_failed (render_one env s) \<Longrightarrow> tr_failed (render_some env n (render_one env s))"
    using render_some_evolves[of "render_one env s" env n] by (simp add: evolves_def)
  then have nf: "\<not> tr_failed (render_one env s)" using Suc.prems by auto
  have "\<not> tr_gone s" using Suc.prems nf failed_mono(1) by metis
  then have "length (tr_inbox (render_one env s)) = length (tr_inbox s) - 1" by (auto simp: render_one_def Let_def split: list.splits)
  moreover have "tr_gone (render_one env s) \<longrightarrow> tr_failed (render_one env s)" using render_one_evolves[of s env] Suc.prems(2) by (simp add: evolves_def)
  ultimately show ?case using Suc.IH[of "render_one env s"] Suc.prems by simp
qed simp

text \<open>A transport that closed without a failure has rendered everything that was pending.\<close>

lemma close_renders:
  assumes "\<not> tr_failed (close_transport env s)" "tr_open s" "tr_gone s \<longrightarrow> tr_failed s"
  shows "tr_rendered (close_transport env s) = trace s @ map pending_delta (tr_deltas s) @ tr_failures s @ map snd (tr_gauges s)" "\<not> tr_failed s"
proof -
  let ?d = "drain_pending env s"
  let ?r = "render_some env (length (tr_inbox ?d)) (?d\<lparr>tr_open := False\<rparr>)"
  have c: "close_transport env s = ?r" using assms(1,2) by (auto simp: close_transport_def Let_def split: if_splits)
  note R = render_some_evolves[of "?d\<lparr>tr_open := False\<rparr>" env "length (tr_inbox ?d)"]
  have f: "\<not> tr_failed ?d" using R assms(1) c by (auto simp: evolves_def)
  note D = drain_pending_moves[OF f assms(3)]
  have "length (tr_inbox ?r) = 0" using render_all[of env "length (tr_inbox ?d)" "?d\<lparr>tr_open := False\<rparr>"] assms(1) c D by simp
  then have "tr_rendered ?r = trace ?r" by (simp add: trace_def)
  also have "\<dots> = trace ?d" using evolves_fields(5)[OF R] by (simp add: trace_def)
  finally show "tr_rendered (close_transport env s) = trace s @ map pending_delta (tr_deltas s) @ tr_failures s @ map snd (tr_gauges s)" using D c by simp
  show "\<not> tr_failed s" using D by simp
qed



lemma close_failed:
  assumes "tr_failed s"
  shows "tr_failed (close_transport env s)"
proof -
  have "tr_failed (drain_pending env s)" using drain_pending_moves[of env s] assms by blast
  then show ?thesis using assms render_some_evolves[of "(if tr_open s then drain_pending env s else s)\<lparr>tr_open := False\<rparr>" env
      "length (tr_inbox (if tr_open s then drain_pending env s else s))"] by (auto simp: close_transport_def Let_def evolves_def)
qed


section \<open>Counters are exact\<close>

text \<open>
  A quantity that events carry: coalescing an event into counters keeps its weight, and gauges,
  which replace one another, weigh nothing.
\<close>

locale metric =
  fixes weight :: "telemetry_event \<Rightarrow> 'w :: cancel_comm_monoid_add" and tidy :: "telemetry_event \<Rightarrow> bool"
  assumes gauge: "te_event e \<in> set gauge_events \<Longrightarrow> weight e = 0"
    and delta_add: "suffix ''_delta'' (fst (snd k)) \<Longrightarrow> weight (delta_event k (v + w)) = weight (delta_event k v) + weight (delta_event k w)"
    and delta_split: "tidy e \<Longrightarrow> suffix ''_delta'' (te_event e) \<Longrightarrow>
      weight e = (\<Sum>(f, v)\<leftarrow>te_fields e. case as_u64 v of None \<Rightarrow> 0 | Some n \<Rightarrow> weight (delta_event (te_command e, te_event e, f) n))"
    and fact: "tidy e \<Longrightarrow> te_event e \<in> set counted_facts \<Longrightarrow> weight e = weight (delta_event (te_command e, te_event e @ ''_delta'', ''count'') 1)"
    and blob_hashed: "tidy e \<Longrightarrow> te_event e = ''blob_hashed'' \<Longrightarrow>
      weight e = weight (delta_event (te_command e, ''blob_hashed_delta'', ''count'') 1)
        + weight (delta_event (te_command e, ''audit_bytes_delta'', ''bytes'') (count_field e ''bytes_read''))"
begin

definition total :: "transport \<Rightarrow> 'w" where
  "total s = (\<Sum>e\<leftarrow>trace s. weight e) + (\<Sum>(k, v)\<leftarrow>tr_deltas s. weight (delta_event k v)) + (\<Sum>e\<leftarrow>tr_failures s. weight e)"

lemma delta_zero: "suffix ''_delta'' (fst (snd k)) \<Longrightarrow> weight (delta_event k 0) = 0"
  using delta_add[of k 0 0] by simp

lemma pending_sum: "(\<Sum>p\<leftarrow>ds. weight (pending_delta p)) = (\<Sum>(k, v)\<leftarrow>ds. weight (delta_event k v))"
  by (induction ds) auto

lemma gauge_sum: "(\<And>p. p \<in> set gs \<Longrightarrow> te_event (snd p) \<in> set gauge_events) \<Longrightarrow> (\<Sum>p\<leftarrow>gs. weight (snd p)) = 0"
  by (induction gs) (auto simp: gauge)

lemma moved_total:
  assumes "pending_ok s" "moved s s'"
  shows "total s' = total s"
proof -
  obtain ds fs gs where m: "tr_deltas s = ds @ tr_deltas s'" "tr_failures s = fs @ tr_failures s'" "tr_gauges s = gs @ tr_gauges s'"
    "trace s' = trace s @ map pending_delta ds @ fs @ map snd gs" using assms(2) by (auto simp: moved_def)
  have "(\<Sum>p\<leftarrow>gs. weight (snd p)) = 0" by (rule gauge_sum) (use assms(1) m(3) in \<open>auto simp: pending_ok_def\<close>)
  then show ?thesis using m pending_sum[of ds] by (simp add: total_def comp_def ac_simps)
qed

lemma add_delta_total:
  assumes "pending_ok s" "add_delta k v s = (s', True)" "suffix ''_delta'' (fst (snd k))"
  shows "total s' = total s + weight (delta_event k v)"
proof -
  obtain ds where ds: "s' = s\<lparr>tr_deltas := ds\<rparr>" using add_delta_fields(1)[OF assms(2)] by blast
  have "(\<Sum>(k, w)\<leftarrow>tr_deltas s'. weight (delta_event k w)) = (\<Sum>(k, w)\<leftarrow>tr_deltas s. weight (delta_event k w)) + weight (delta_event k v)"
    by (rule add_delta_sum[OF assms(2), of "\<lambda>k w. weight (delta_event k w)"]) (use assms(1,3) in \<open>auto simp: pending_ok_def delta_add\<close>)
  then show ?thesis using ds by (simp add: total_def trace_def ac_simps)
qed

lemma coalesce_total:
  assumes "pending_ok s" "coalesce e s = (s', True)" "\<not> tr_failed s'" "tidy e"
  shows "total s' = total s + weight e"
  using assms(2,3)
proof (cases rule: coalesce_cases)
  case delta
  then have sf: "suffix ''_delta'' (te_event e)" and a: "add_fields (te_command e) (te_event e) (te_fields e) False s = (s', True)"
    by (auto simp: coalesce_delta_def split: if_splits)
  obtain ds where ds: "s' = s\<lparr>tr_deltas := ds\<rparr>" using add_fields_fields(1)[OF a] by blast
  have "(\<Sum>(k, w)\<leftarrow>tr_deltas s'. weight (delta_event k w)) = (\<Sum>(k, w)\<leftarrow>tr_deltas s. weight (delta_event k w)) + weight e"
    unfolding delta_split[OF assms(4) sf]
    by (rule add_fields_sum[OF a, of "\<lambda>k w. weight (delta_event k w)"]) (use assms(1) sf in \<open>auto simp: pending_ok_def delta_add\<close>)
  then show ?thesis using ds by (simp add: total_def trace_def ac_simps)
next
  case fact
  then show ?thesis using add_delta_total[OF assms(1) fact(2)] metric.fact[OF metric_axioms assms(4)] delta_names(1) by simp
next
  case (blob s1)
  have 1: "total s1 = total s + weight (delta_event (te_command e, ''blob_hashed_delta'', ''count'') 1)" by (rule add_delta_total[OF assms(1) blob(2)]) (use delta_names(2) in simp)
  have ok: "pending_ok s1" using pending_ok_add_delta[OF assms(1) blob(2)] delta_names(2) by simp
  have "total s' = total s1 + weight (delta_event (te_command e, ''audit_bytes_delta'', ''bytes'') (count_field e ''bytes_read''))"
    using blob(3) add_delta_total[OF ok] delta_zero delta_names(3) by auto
  then show ?thesis using 1 blob_hashed[OF assms(4) blob(1)] by (simp add: ac_simps)
next
  case gauge
  then show ?thesis using metric.gauge[OF metric_axioms gauge(1)] by (auto simp: coalesce_gauge_def total_def trace_def Let_def)
next
  case failure
  then show ?thesis by (auto simp: coalesce_worker_failure_def total_def trace_def ac_simps split: if_splits)
qed

lemma emit_total:
  assumes "\<not> tr_failed (emit_event env e s)" "tr_open s" "pending_ok s" "tidy e"
  shows "total (emit_event env e s) = total s + weight e"
proof -
  have g: "tr_gone s \<longrightarrow> tr_failed s" using assms(3) by (simp add: pending_ok_def)
  from assms(1,2) g show ?thesis
  proof (cases rule: emit_event_cases)
    case (passed s1)
    then show ?thesis using moved_total[OF assms(3) passed(1)] by (simp add: total_def evolves_def ac_simps)
  next
    case (coalesced s1)
    then show ?thesis using coalesce_total[OF moved_ok[OF assms(3) coalesced(1)] coalesced(2) assms(1,4)] moved_total[OF assms(3) coalesced(1)] by simp
  qed
qed

lemma emit_all_total:
  assumes "\<not> tr_failed (emit_all env es s)" "tr_open s" "pending_ok s" "\<forall>e\<in>set es. tidy e"
  shows "total (emit_all env es s) = total s + (\<Sum>e\<leftarrow>es. weight e) \<and> pending_ok (emit_all env es s) \<and> tr_open (emit_all env es s)"
  using assms
proof (induction es arbitrary: s)
  case (Cons e es)
  have nf: "\<not> tr_failed (emit_event env e s)" using Cons.prems(1) emit_all_failed by (metis emit_all_Cons)
  note ok = emit_event_ok[OF nf Cons.prems(2,3)]
  show ?case using Cons.IH[of "emit_event env e s"] emit_total[OF nf Cons.prems(2,3)] ok Cons.prems by (simp add: emit_all_Cons ac_simps)
qed (simp add: emit_all_def)

text \<open>What the renderer was given weighs what was emitted.\<close>

lemma rendered_total:
  assumes "\<not> tr_failed (close_transport env (emit_all env es transport_new))" "\<forall>e\<in>set es. tidy e"
  shows "(\<Sum>e\<leftarrow>tr_rendered (close_transport env (emit_all env es transport_new)). weight e) = (\<Sum>e\<leftarrow>es. weight e)"
proof -
  let ?s = "emit_all env es transport_new"
  have new: "tr_open transport_new" "pending_ok transport_new" "total transport_new = 0"
    by (simp_all add: transport_new_def pending_ok_def total_def trace_def)
  have f: "\<not> tr_failed ?s"
  proof
    assume a: "tr_failed ?s"
    show False using close_failed[OF a] assms(1) by simp
  qed
  note A = emit_all_total[OF f new(1,2) assms(2)]
  have g: "tr_gone ?s \<longrightarrow> tr_failed ?s" using A by (simp add: pending_ok_def)
  note C = close_renders(1)[OF assms(1) _ g]
  have "(\<Sum>p\<leftarrow>tr_gauges ?s. weight (snd p)) = 0" by (rule gauge_sum) (use A in \<open>auto simp: pending_ok_def\<close>)
  then have "(\<Sum>e\<leftarrow>tr_rendered (close_transport env ?s). weight e) = total ?s"
    using C A pending_sum[of "tr_deltas ?s"] by (simp add: total_def comp_def ac_simps)
  then show ?thesis using A new(3) by simp
qed

end


section \<open>The dashboard\<close>

datatype counter = Files | Completed | Skipped | ReadBytes | WrittenBytes | CreatedBlobs | ReusedBlobs | CommittedRecords | Batches

fun counter_of :: "counter \<Rightarrow> dashboard \<Rightarrow> u64" where
  "counter_of Files d = d_files d"
| "counter_of Completed d = d_completed d"
| "counter_of Skipped d = d_skipped d"
| "counter_of ReadBytes d = d_read d"
| "counter_of WrittenBytes d = d_written d"
| "counter_of CreatedBlobs d = d_created d"
| "counter_of ReusedBlobs d = d_reused d"
| "counter_of CommittedRecords d = d_committed d"
| "counter_of Batches d = d_batches d"

text \<open>What an event adds to a counter.\<close>

definition adds :: "counter \<Rightarrow> telemetry_event \<Rightarrow> u64" where
  "adds k e = counter_of k (dashboard_step e (dashboard_new ''import''))"

definition tidy_fields :: "telemetry_event \<Rightarrow> bool" where
  "tidy_fields e \<longleftrightarrow> (suffix ''_delta'' (te_event e) \<longrightarrow> distinct (map fst (te_fields e))) \<and> (te_event e = ''file_hashed'' \<longrightarrow> count_field e ''bytes_read'' = 0)
     \<and> (te_event e \<in> {''file_hashed'', ''blob_hashed''} \<longrightarrow> count_field e ''staging_bytes'' = 0)"

lemma count_field_delta [simp]: "count_field (delta_event (c, n, f) v) g = (if f = g then v else 0)"
  by (simp add: delta_event_def field_def event_new_def count_field_def as_u64_def)

lemma te_event_delta [simp]: "te_event (delta_event (c, n, f) v) = n" "te_command (delta_event (c, n, f) v) = c"
  by (simp_all add: delta_event_def field_def event_new_def)

lemma count_field_sum:
  assumes "distinct (map fst (te_fields e))"
  shows "count_field e g = (\<Sum>(f, v)\<leftarrow>te_fields e. case as_u64 v of None \<Rightarrow> 0 | Some n \<Rightarrow> if f = g then n else 0)"
proof -
  have z: "(\<Sum>(f, v)\<leftarrow>fs. case as_u64 v of None \<Rightarrow> 0 | Some n \<Rightarrow> if f = g then n else 0) = 0" if "g \<notin> fst ` set fs" for fs
    using that by (induction fs) (auto split: option.splits)
  have "(case map_of fs g of None \<Rightarrow> 0 | Some v \<Rightarrow> (case as_u64 v of None \<Rightarrow> 0 | Some n \<Rightarrow> n))
      = (\<Sum>(f, v)\<leftarrow>fs. case as_u64 v of None \<Rightarrow> 0 | Some n \<Rightarrow> if f = g then n else 0)" if "distinct (map fst fs)" for fs
    using that
  proof (induction fs)
    case (Cons p fs)
    obtain f v where p: "p = (f, v)" by fastforce
    then show ?case using Cons z[of fs] by (auto split: option.splits)
  qed simp
  then show ?thesis using assms by (simp add: count_field_def)
qed

text \<open>The events that set a counter rather than add to it; an import emits none of them.\<close>

definition resetting :: "string list" where
  "resetting = [''audit_catalog_scanned'', ''audit_cas_scanned'', ''gc_preflight_started'', ''gc_preflight_complete'', ''tree_planned'', ''tree_applied'']"

definition adding :: "string list" where
  "adding = [''file_discovered'', ''blob_discovered'', ''file_discovered_delta'', ''file_skipped'', ''file_skipped_delta'', ''file_hashed'',
     ''blob_hashed'', ''file_hashed_delta'', ''blob_hashed_delta'', ''cas_blob_created'', ''cas_blob_created_delta'', ''cas_blob_reused'',
     ''cas_blob_reused_delta'', ''catalog_record_committed'', ''catalog_batch_committed'', ''source_bytes_delta'', ''audit_bytes_delta'',
     ''staging_bytes_delta'', ''finding'', ''gc_blob_hashed'', ''gc_action'', ''gc_catalog_committed'', ''tree_entry_planned'', ''tree_link_applied'']"

lemma dashboard_step_other:
  assumes "te_event e \<notin> set adding" "te_event e \<notin> set resetting"
  shows "counter_of k (dashboard_step e d) = counter_of k d"
proof -
  have i: "counter_of k (if b then x else y) = v" if "b \<Longrightarrow> counter_of k x = v" "counter_of k y = v" for b x y v using that by simp
  show ?thesis
    unfolding dashboard_step_def Let_def
    by (intro i; (use assms in \<open>simp add: adding_def resetting_def\<close>)?; cases k; simp)
qed

lemma dashboard_steps:
  "te_event e = ''file_discovered'' \<Longrightarrow> dashboard_step e d = d\<lparr>d_files := d_files d + 1\<rparr>"
  "te_event e = ''blob_discovered'' \<Longrightarrow> dashboard_step e d = d\<lparr>d_files := d_files d + 1\<rparr>"
  "te_event e = ''file_discovered_delta'' \<Longrightarrow> dashboard_step e d = d\<lparr>d_files := d_files d + count_field e ''count''\<rparr>"
  "te_event e = ''file_skipped'' \<Longrightarrow> dashboard_step e d = d\<lparr>d_skipped := d_skipped d + 1, d_completed := d_completed d + 1\<rparr>"
  "te_event e = ''file_skipped_delta'' \<Longrightarrow>
     dashboard_step e d = d\<lparr>d_skipped := d_skipped d + count_field e ''count'', d_completed := d_completed d + count_field e ''count''\<rparr>"
  "te_event e = ''file_hashed'' \<Longrightarrow> dashboard_step e d = d\<lparr>d_completed := d_completed d + 1,
     d_read := d_read d + count_field e ''bytes_read'', d_written := d_written d + count_field e ''staging_bytes''\<rparr>"
  "te_event e = ''blob_hashed'' \<Longrightarrow> dashboard_step e d = d\<lparr>d_completed := d_completed d + 1,
     d_read := d_read d + count_field e ''bytes_read'', d_written := d_written d + count_field e ''staging_bytes''\<rparr>"
  "te_event e = ''file_hashed_delta'' \<Longrightarrow> dashboard_step e d = d\<lparr>d_completed := d_completed d + count_field e ''count''\<rparr>"
  "te_event e = ''blob_hashed_delta'' \<Longrightarrow> dashboard_step e d = d\<lparr>d_completed := d_completed d + count_field e ''count''\<rparr>"
  "te_event e = ''cas_blob_created'' \<Longrightarrow> dashboard_step e d = d\<lparr>d_created := d_created d + 1\<rparr>"
  "te_event e = ''cas_blob_created_delta'' \<Longrightarrow> dashboard_step e d = d\<lparr>d_created := d_created d + count_field e ''count''\<rparr>"
  "te_event e = ''cas_blob_reused'' \<Longrightarrow> dashboard_step e d = d\<lparr>d_reused := d_reused d + 1\<rparr>"
  "te_event e = ''cas_blob_reused_delta'' \<Longrightarrow> dashboard_step e d = d\<lparr>d_reused := d_reused d + count_field e ''count''\<rparr>"
  "te_event e = ''catalog_record_committed'' \<Longrightarrow> dashboard_step e d = d\<lparr>d_committed := d_committed d + 1\<rparr>"
  "te_event e = ''catalog_batch_committed'' \<Longrightarrow> dashboard_step e d = d\<lparr>d_batches := d_batches d + 1\<rparr>"
  "te_event e = ''source_bytes_delta'' \<Longrightarrow> dashboard_step e d = d\<lparr>d_read := d_read d + count_field e ''bytes''\<rparr>"
  "te_event e = ''audit_bytes_delta'' \<Longrightarrow> dashboard_step e d = d\<lparr>d_read := d_read d + count_field e ''bytes''\<rparr>"
  "te_event e = ''staging_bytes_delta'' \<Longrightarrow> dashboard_step e d = d\<lparr>d_written := d_written d + count_field e ''bytes''\<rparr>"
  "te_event e = ''finding'' \<Longrightarrow> dashboard_step e d = d\<lparr>d_skipped := d_skipped d + 1\<rparr>"
  "te_event e = ''gc_blob_hashed'' \<Longrightarrow> dashboard_step e d = d\<lparr>d_read := d_read d + count_field e ''bytes_read'', d_created := d_created d + 1\<rparr>"
  "te_event e = ''gc_action'' \<Longrightarrow> dashboard_step e d = d\<lparr>d_completed := d_completed d + 1\<rparr>"
  "te_event e = ''gc_catalog_committed'' \<Longrightarrow> dashboard_step e d = d\<lparr>d_batches := d_batches d + 1, d_unlinked := d_unlinked d + count_field e ''bytes_unlinked''\<rparr>"
  "te_event e = ''tree_entry_planned'' \<Longrightarrow> dashboard_step e d = d\<lparr>d_files := d_files d + 1\<rparr>"
  "te_event e = ''tree_link_applied'' \<Longrightarrow> dashboard_step e d = d\<lparr>d_completed := d_completed d + 1\<rparr>"
  unfolding dashboard_step_def Let_def by simp_all

lemma new_counters: "counter_of k (dashboard_new ''import'') = 0"
  by (cases k) (simp_all add: dashboard_new_def)

lemma step_adds: "(\<And>d. dashboard_step e d = u d) \<Longrightarrow> adds k e = counter_of k (u (dashboard_new ''import''))"
  by (simp add: adds_def)

lemma step_shift:
  assumes "\<And>d. dashboard_step e d = u d" "counter_of k (u d) = counter_of k d + counter_of k (u (dashboard_new ''import''))"
  shows "counter_of k (dashboard_step e d) = counter_of k d + adds k e"
  using assms by (simp add: adds_def)

lemma adding_step: "te_event e \<in> set adding \<Longrightarrow> counter_of k (dashboard_step e d) = counter_of k d + adds k e"
  unfolding adding_def list.set insert_iff empty_iff
  by (elim disjE FalseE; (rule step_shift, erule dashboard_steps); cases k; simp add: dashboard_new_def)

lemma dashboard_step_adds:
  assumes "te_event e \<notin> set resetting"
  shows "counter_of k (dashboard_step e d) = counter_of k d + adds k e"
proof (cases "te_event e \<in> set adding")
  case True
  then show ?thesis by (rule adding_step)
next
  case False
  then show ?thesis using dashboard_step_other[OF False assms] by (simp add: adds_def new_counters)
qed

lemma adds_other: "te_event e \<notin> set adding \<Longrightarrow> te_event e \<notin> set resetting \<Longrightarrow> adds k e = 0"
  using dashboard_step_other[of e k "dashboard_new ''import''"] by (simp add: adds_def new_counters)

text \<open>The events that add to counters by a field of their own.\<close>

definition delta_adds :: "counter \<Rightarrow> string \<Rightarrow> string option" where
  "delta_adds k n =
     (if n = ''file_discovered_delta'' then (if k = Files then Some ''count'' else None)
      else if n = ''file_skipped_delta'' then (if k \<in> {Skipped, Completed} then Some ''count'' else None)
      else if n = ''file_hashed_delta'' \<or> n = ''blob_hashed_delta'' then (if k = Completed then Some ''count'' else None)
      else if n = ''cas_blob_created_delta'' then (if k = CreatedBlobs then Some ''count'' else None)
      else if n = ''cas_blob_reused_delta'' then (if k = ReusedBlobs then Some ''count'' else None)
      else if n = ''source_bytes_delta'' \<or> n = ''audit_bytes_delta'' then (if k = ReadBytes then Some ''bytes'' else None)
      else if n = ''staging_bytes_delta'' then (if k = WrittenBytes then Some ''bytes'' else None)
      else None)"

lemma adds_known_delta:
  "te_event e \<in> {''file_discovered_delta'', ''file_skipped_delta'', ''file_hashed_delta'', ''blob_hashed_delta'', ''cas_blob_created_delta'',
    ''cas_blob_reused_delta'', ''source_bytes_delta'', ''audit_bytes_delta'', ''staging_bytes_delta''} \<Longrightarrow>
    adds k e = (case delta_adds k (te_event e) of None \<Rightarrow> 0 | Some f \<Rightarrow> count_field e f)"
  unfolding insert_iff empty_iff
  by (elim disjE FalseE; (subst step_adds, erule dashboard_steps); cases k; simp add: dashboard_new_def delta_adds_def)

lemma adds_delta:
  assumes "suffix ''_delta'' (te_event e)"
  shows "adds k e = (case delta_adds k (te_event e) of None \<Rightarrow> 0 | Some f \<Rightarrow> count_field e f)"
proof (cases "te_event e \<in> {''file_discovered_delta'', ''file_skipped_delta'', ''file_hashed_delta'', ''blob_hashed_delta'', ''cas_blob_created_delta'',
    ''cas_blob_reused_delta'', ''source_bytes_delta'', ''audit_bytes_delta'', ''staging_bytes_delta''}")
  case True
  then show ?thesis by (rule adds_known_delta)
next
  case False
  moreover have "te_event e \<notin> set adding" "te_event e \<notin> set resetting"
    using assms False by (auto simp: adding_def resetting_def suffix_def)
  ultimately show ?thesis by (simp add: adds_other delta_adds_def)
qed

interpretation dash: metric "adds k" tidy_fields for k
proof
  fix e :: telemetry_event assume g: "te_event e \<in> set gauge_events"
  then consider "te_event e = ''active_content_workers''" | "te_event e = ''queue_occupancy''" | "te_event e = ''queue_backpressure''"
    by (auto simp: gauge_events_def)
  then show "adds k e = 0" by (cases; intro adds_other; simp add: adding_def resetting_def)
next
  fix key :: delta_key and v w
  assume a: "suffix ''_delta'' (fst (snd key))"
  obtain c n f where key: "key = (c, n, f)" by (cases key)
  show "adds k (delta_event key (v + w)) = adds k (delta_event key v) + adds k (delta_event key w)"
    using a unfolding key by (simp add: adds_delta split: option.splits)
next
  fix e :: telemetry_event assume t: "tidy_fields e" and a: "suffix ''_delta'' (te_event e)"
  show "adds k e = (\<Sum>(f, v)\<leftarrow>te_fields e. case as_u64 v of None \<Rightarrow> 0 | Some n \<Rightarrow> adds k (delta_event (te_command e, te_event e, f) n))"
  proof (cases "delta_adds k (te_event e)")
    case None
    then have "(\<Sum>(f, v)\<leftarrow>fs. case as_u64 v of None \<Rightarrow> 0 | Some n \<Rightarrow> adds k (delta_event (te_command e, te_event e, f) n)) = 0" for fs
      using a by (induction fs) (auto simp: adds_delta split: option.splits)
    then show ?thesis using None adds_delta[OF a] by simp
  next
    case (Some g)
    have "(\<Sum>(f, v)\<leftarrow>fs. case as_u64 v of None \<Rightarrow> 0 | Some n \<Rightarrow> adds k (delta_event (te_command e, te_event e, f) n))
        = (\<Sum>(f, v)\<leftarrow>fs. case as_u64 v of None \<Rightarrow> 0 | Some n \<Rightarrow> if f = g then n else 0)" for fs
      using a Some by (induction fs) (auto simp: adds_delta split: option.splits)
    then show ?thesis using Some adds_delta[OF a] count_field_sum[of e g] t a by (simp add: tidy_fields_def)
  qed
next
  fix e :: telemetry_event assume t: "tidy_fields e" and f: "te_event e \<in> set counted_facts"
  then consider "te_event e = ''file_discovered''" | "te_event e = ''file_skipped''" | "te_event e = ''file_hashed''" | "te_event e = ''cas_blob_created''"
    | "te_event e = ''cas_blob_reused''" by (auto simp: counted_facts_def)
  then show "adds k e = adds k (delta_event (te_command e, te_event e @ ''_delta'', ''count'') 1)"
    using t unfolding adds_def tidy_fields_def by cases (cases k; simp add: dashboard_steps dashboard_new_def)+
next
  fix e :: telemetry_event assume t: "tidy_fields e" and b: "te_event e = ''blob_hashed''"
  show "adds k e = adds k (delta_event (te_command e, ''blob_hashed_delta'', ''count'') 1)
        + adds k (delta_event (te_command e, ''audit_bytes_delta'', ''bytes'') (count_field e ''bytes_read''))"
    using t b unfolding adds_def tidy_fields_def by (cases k) (simp_all add: dashboard_steps dashboard_new_def)
qed

lemma dashboard_after_adds:
  "\<forall>e\<in>set es. te_event e \<notin> set resetting \<Longrightarrow> counter_of k (dashboard_after es d) = counter_of k d + (\<Sum>e\<leftarrow>es. adds k e)"
  by (induction es arbitrary: d) (simp_all add: dashboard_after_def dashboard_step_adds ac_simps)

text \<open>A property of the emitted events that pending ones have holds of the rendered ones.\<close>

lemma trace_closed:
  assumes "\<not> tr_failed (emit_all env es s)" "tr_open s" "pending_ok s" "\<forall>e\<in>set es. P (te_event e)" "\<forall>e\<in>set (trace s). P (te_event e)"
    "\<And>n. pending_name n \<Longrightarrow> P n"
  shows "\<forall>e\<in>set (trace (emit_all env es s)). P (te_event e)"
  using assms(1-5)
proof (induction es arbitrary: s)
  case (Cons e es)
  let ?s' = "emit_event env e s"
  have nf: "\<not> tr_failed ?s'" using Cons.prems(1) emit_all_failed by (metis emit_all_Cons)
  note ok = emit_event_ok[OF nf Cons.prems(2,3)]
  have g: "tr_gone s \<longrightarrow> tr_failed s" using Cons.prems(3) by (simp add: pending_ok_def)
  have m: "\<forall>e\<in>set (trace s1). P (te_event e)" if "moved s s1" for s1
  proof -
    obtain ds fs gs where "tr_deltas s = ds @ tr_deltas s1" "tr_failures s = fs @ tr_failures s1" "tr_gauges s = gs @ tr_gauges s1"
      "trace s1 = trace s @ map pending_delta ds @ fs @ map snd gs" using \<open>moved s s1\<close> by (auto simp: moved_def)
    then have "set (trace s1) \<subseteq> set (trace s) \<union> set (pending s)" by (auto simp: pending_def)
    then show ?thesis using Cons.prems(5) pending_names[OF Cons.prems(3)] assms(6) by blast
  qed
  from nf Cons.prems(2) g have "\<forall>e\<in>set (trace ?s'). P (te_event e)"
  proof (cases rule: emit_event_cases)
    case (passed s1)
    then show ?thesis using m[OF passed(1)] evolves_fields(5)[OF passed(2)] Cons.prems(4) by auto
  next
    case (coalesced s1)
    then show ?thesis using m[OF coalesced(1)] coalesce_same(1)[OF coalesced(2) nf] by simp
  qed
  then show ?case using Cons.IH[of ?s'] ok Cons.prems by (simp add: emit_all_Cons)
qed (simp add: emit_all_def)

lemma new_ok: "tr_open transport_new" "pending_ok transport_new" "trace transport_new = []"
  by (simp_all add: transport_new_def pending_ok_def trace_def)

lemma emit_all_ok:
  "\<not> tr_failed (emit_all env es s) \<Longrightarrow> tr_open s \<Longrightarrow> pending_ok s \<Longrightarrow> pending_ok (emit_all env es s) \<and> tr_open (emit_all env es s)"
proof (induction es arbitrary: s)
  case (Cons e es)
  have "\<not> tr_failed (emit_event env e s)" using Cons.prems(1) emit_all_failed by (metis emit_all_Cons)
  then show ?case using Cons emit_event_ok[of env e s] by (simp add: emit_all_Cons)
qed (simp add: emit_all_def)

lemma closed_ok:
  assumes "\<not> tr_failed (close_transport env (emit_all env es transport_new))"
  shows "\<not> tr_failed (emit_all env es transport_new)" "pending_ok (emit_all env es transport_new)" "tr_open (emit_all env es transport_new)"
proof -
  show f: "\<not> tr_failed (emit_all env es transport_new)" using close_failed assms by blast
  then show "pending_ok (emit_all env es transport_new)" "tr_open (emit_all env es transport_new)" using emit_all_ok new_ok by blast+
qed

lemma rendered_closed:
  assumes "\<not> tr_failed (close_transport env (emit_all env es transport_new))" "\<forall>e\<in>set es. P (te_event e)"
    "\<And>n. pending_name n \<Longrightarrow> P n"
  shows "\<forall>e\<in>set (tr_rendered (close_transport env (emit_all env es transport_new))). P (te_event e)"
proof -
  note ok = closed_ok[OF assms(1)]
  have "tr_gone (emit_all env es transport_new) \<longrightarrow> tr_failed (emit_all env es transport_new)" using ok(2) by (simp add: pending_ok_def)
  note R = close_renders(1)[OF assms(1) ok(3) this]
  have "\<forall>e\<in>set (trace (emit_all env es transport_new)). P (te_event e)"
    by (rule trace_closed[OF ok(1) new_ok(1,2) assms(2) _ assms(3)]) (simp add: new_ok)
  then show ?thesis unfolding R pending_def[symmetric] using pending_names[OF ok(2)] assms(3) by auto
qed

lemma resetting_apart: "pending_name n \<Longrightarrow> n \<notin> set resetting"
  by (auto simp: pending_name_def resetting_def gauge_events_def suffix_def)

text \<open>A dashboard behind the transport counts what one without it counts.\<close>

lemma dashboard_behind_transport:
  assumes "\<not> tr_failed (close_transport env (emit_all env es transport_new))" "\<forall>e\<in>set es. tidy_fields e \<and> te_event e \<notin> set resetting"
  shows "counter_of k (dashboard_after (tr_rendered (close_transport env (emit_all env es transport_new))) d) = counter_of k d + (\<Sum>e\<leftarrow>es. adds k e)"
proof -
  have "\<forall>e\<in>set (tr_rendered (close_transport env (emit_all env es transport_new))). te_event e \<notin> set resetting"
    by (rule rendered_closed[OF assms(1)]) (use assms(2) resetting_apart in blast)+
  from dashboard_after_adds[OF this] show ?thesis using dash.rendered_total[OF assms(1), of k] assms(2) by simp
qed

end
