(* ===== verification/Dashboard.thy ===== *)
theory Dashboard
  imports TelemetryRuns
begin

text \<open>
  What the renderer is given at the end of a command: every fact that has no counter, in its order,
  every failure, the terminal event last, and counters that add up to what happened, however slow
  the renderer was.
\<close>

section \<open>Facts are lossless\<close>


definition plain_fact :: "telemetry_event \<Rightarrow> bool" where
  "plain_fact e \<longleftrightarrow> \<not> pending_name (te_event e) \<and> te_event e \<notin> set counted_facts \<and> te_event e \<noteq> ''blob_hashed''"

definition failure_event :: "telemetry_event \<Rightarrow> bool" where
  "failure_event e \<longleftrightarrow> te_event e = ''operational_failure''"

interpretation failure: metric "\<lambda>e. if failure_event e then {#e#} else {#}" "\<lambda>_. True"
proof
  have d: "\<not> failure_event e" if "suffix ''_delta'' (te_event e)" for e using that by (auto simp: failure_event_def suffix_def)
  fix e :: telemetry_event
  show "te_event e \<in> set gauge_events \<Longrightarrow> (if failure_event e then {#e#} else {#}) = {#}" by (auto simp: failure_event_def gauge_events_def)
  have z: "(if failure_event (delta_event k v) then {#delta_event k v#} else {#}) = {#}" if "suffix ''_delta'' (fst (snd k))" for k v
    using d[of "delta_event k v"] that by (cases k) simp
  show "(if failure_event (delta_event k (v + w)) then {#delta_event k (v + w)#} else {#}) =
      (if failure_event (delta_event k v) then {#delta_event k v#} else {#}) + (if failure_event (delta_event k w) then {#delta_event k w#} else {#})"
    if "suffix ''_delta'' (fst (snd k))" for k v w using z[OF that] by simp
  show "(if failure_event e then {#e#} else {#}) = (\<Sum>(f, v)\<leftarrow>te_fields e. case as_u64 v of None \<Rightarrow> {#}
      | Some n \<Rightarrow> if failure_event (delta_event (te_command e, te_event e, f) n) then {#delta_event (te_command e, te_event e, f) n#} else {#})"
    if "suffix ''_delta'' (te_event e)"
  proof -
    have "(\<Sum>(f, v)\<leftarrow>fs. case as_u64 v of None \<Rightarrow> {#}
      | Some n \<Rightarrow> if failure_event (delta_event (te_command e, te_event e, f) n) then {#delta_event (te_command e, te_event e, f) n#} else {#}) = {#}" for fs
      using z that by (induction fs) (auto split: option.splits)
    then show ?thesis using d[OF that] by simp
  qed
  show "(if failure_event e then {#e#} else {#}) = (if failure_event (delta_event (te_command e, te_event e @ ''_delta'', ''count'') 1)
      then {#delta_event (te_command e, te_event e @ ''_delta'', ''count'') 1#} else {#})" if "te_event e \<in> set counted_facts"
    using z[of "(te_command e, te_event e @ ''_delta'', ''count'')" 1] that by (auto simp: failure_event_def counted_facts_def suffix_def)
  show "(if failure_event e then {#e#} else {#}) =
      (if failure_event (delta_event (te_command e, ''blob_hashed_delta'', ''count'') 1) then {#delta_event (te_command e, ''blob_hashed_delta'', ''count'') 1#} else {#})
      + (if failure_event (delta_event (te_command e, ''audit_bytes_delta'', ''bytes'') (count_field e ''bytes_read''))
         then {#delta_event (te_command e, ''audit_bytes_delta'', ''bytes'') (count_field e ''bytes_read'')#} else {#})" if "te_event e = ''blob_hashed''"
    using z delta_names(2,3) that by (simp add: failure_event_def)
qed

lemma sum_singletons: "(\<Sum>e\<leftarrow>es. if P e then {#e#} else {#}) = mset (filter P es)"
  by (induction es) auto

lemma pending_not_plain: "pending_ok s \<Longrightarrow> filter plain_fact (pending s) = []"
  by (auto simp: filter_empty_conv plain_fact_def dest: pending_names)

lemma moved_plain:
  assumes "pending_ok s" "moved s s'"
  shows "filter plain_fact (trace s') = filter plain_fact (trace s)"
proof -
  obtain ds fs gs where "tr_deltas s = ds @ tr_deltas s'" "tr_failures s = fs @ tr_failures s'" "tr_gauges s = gs @ tr_gauges s'"
    "trace s' = trace s @ map pending_delta ds @ fs @ map snd gs" using assms(2) by (auto simp: moved_def)
  then show ?thesis using pending_not_plain[OF assms(1)] by (auto simp: pending_def)
qed

lemma coalesce_not_plain:
  assumes "coalesce e s = (s', True)" "\<not> tr_failed s'"
  shows "\<not> plain_fact e"
  using assms
  by (cases rule: coalesce_cases) (auto simp: plain_fact_def pending_name_def coalesce_delta_def split: if_splits)

lemma emit_all_plain:
  assumes "\<not> tr_failed (emit_all env es s)" "tr_open s" "pending_ok s"
  shows "filter plain_fact (trace (emit_all env es s)) = filter plain_fact (trace s) @ filter plain_fact es"
  using assms
proof (induction es arbitrary: s)
  case (Cons e es)
  let ?s' = "emit_event env e s"
  have nf: "\<not> tr_failed ?s'" using Cons.prems(1) emit_all_failed by (metis emit_all_Cons)
  note ok = emit_event_ok[OF nf Cons.prems(2,3)]
  have g: "tr_gone s \<longrightarrow> tr_failed s" using Cons.prems(3) by (simp add: pending_ok_def)
  from nf Cons.prems(2) g have "filter plain_fact (trace ?s') = filter plain_fact (trace s) @ filter plain_fact [e]"
  proof (cases rule: emit_event_cases)
    case (passed s1)
    then show ?thesis using moved_plain[OF Cons.prems(3) passed(1)] evolves_fields(5)[OF passed(2)] by simp
  next
    case (coalesced s1)
    then show ?thesis using moved_plain[OF Cons.prems(3) coalesced(1)] coalesce_same(1)[OF coalesced(2) nf] coalesce_not_plain[OF coalesced(2) nf] by simp
  qed
  then show ?case using Cons.IH[of ?s'] ok Cons.prems by (simp add: emit_all_Cons)
qed (simp add: emit_all_def)

lemma rendered_at_close:
  assumes "\<not> tr_failed (close_transport env (emit_all env es transport_new))"
  shows "tr_rendered (close_transport env (emit_all env es transport_new))
    = trace (emit_all env es transport_new) @ pending (emit_all env es transport_new)"
proof -
  note ok = closed_ok[OF assms]
  have "tr_gone (emit_all env es transport_new) \<longrightarrow> tr_failed (emit_all env es transport_new)" using ok(2) by (simp add: pending_ok_def)
  from close_renders(1)[OF assms ok(3) this] show ?thesis by (simp add: pending_def)
qed

abbreviation terminal_event :: "telemetry_event \<Rightarrow> bool" where
  "terminal_event e \<equiv> te_event e \<in> {''command_summary'', ''command_failed''}"

lemma terminal_last:
  assumes "\<not> tr_failed (close_transport env (emit_all env (es @ [e]) transport_new))" "terminal_event e"
  shows "\<exists>before. tr_rendered (close_transport env (emit_all env (es @ [e]) transport_new)) = before @ [e]"
proof -
  let ?s = "emit_all env es transport_new" and ?s' = "emit_all env (es @ [e]) transport_new"
  have s': "?s' = emit_event env e ?s" by (simp add: emit_all_def)
  note ok' = closed_ok[OF assms(1)]
  have nf: "\<not> tr_failed ?s" using ok'(1) s' emit_event_failed by metis
  have ok: "tr_open ?s \<and> pending_ok ?s"
    using emit_all_ok[OF nf new_ok(1,2)] by simp
  have g: "tr_gone ?s \<longrightarrow> tr_failed ?s" using ok by (simp add: pending_ok_def)
  have f: "\<not> tr_failed (emit_event env e ?s)" and o: "tr_open ?s" using ok'(1) s' ok by simp_all
  from f o g show ?thesis
  proof (cases rule: emit_event_cases)
    case (passed s1)
    then have "pending ?s' = []" "trace ?s' = trace s1 @ [e]" using assms(2) evolves_fields[OF passed(2)] by (auto simp: pending_def s')
    then show ?thesis using rendered_at_close[OF assms(1)] by simp
  qed (use assms(2) in blast)
qed


section \<open>Workers never wait\<close>

lemma render_one_waited: "tr_waited (render_one env s) = tr_waited s"
  by (simp add: render_one_def Let_def split: list.splits)

lemma tick_waited: "tr_waited (tick env s) = tr_waited s"
proof -
  have "tr_waited (render_some env n s) = tr_waited s" for n by (induction n arbitrary: s) (simp_all add: render_one_waited)
  then show ?thesis by (simp add: tick_def)
qed

lemma try_send_waited: "try_send env e s = (s', r) \<Longrightarrow> tr_waited s' = tr_waited s"
  by (auto simp: try_send_def Let_def push_def tick_waited split: if_splits)

lemma flush_list_waited: "flush_list env mk xs s = (s', rest) \<Longrightarrow> tr_waited s' = tr_waited s"
  by (induction xs arbitrary: s) (auto dest: try_send_waited split: prod.splits sent.splits)

lemma flush_pending_waited: "tr_waited (flush_pending env s) = tr_waited s"
  unfolding flush_pending_def flush_deltas_def flush_failures_def flush_gauges_def Let_def
  by (auto split: prod.splits dest!: flush_list_waited)

text \<open>The events of a source worker always have a counter or a side buffer to go to.\<close>

definition has_side_route :: "telemetry_event \<Rightarrow> bool" where
  "has_side_route e \<longleftrightarrow> te_event e \<in> set counted_facts \<or> te_event e = ''blob_hashed'' \<or> te_event e \<in> set gauge_events \<or> failure_event e
     \<or> suffix ''_delta'' (te_event e) \<and> (\<exists>(f, v)\<in>set (te_fields e). as_u64 v \<noteq> None)"

lemma side_route_coalesces:
  assumes "has_side_route e" "coalesce e s = (s', r)" "\<not> tr_failed s'"
  shows r
proof (rule ccontr)
  assume r: "\<not> r"
  obtain s1 b where d: "coalesce_delta e s = (s1, b)" by fastforce
  have b: "\<not> b" and w: "coalesce_worker_fact e s1 = (s', False)" using assms(2) d r by (auto simp: coalesce_def split: bool.splits)
  have f1: "\<not> tr_failed s1"
  proof
    assume "tr_failed s1"
    moreover have "tr_failed t" if "add_delta k v u = (t, c)" "tr_failed u" for k v u t c
      using that by (auto simp: add_delta_def split: option.splits)
    ultimately show False using w assms(3) unfolding coalesce_worker_fact_def
      by (auto simp: Let_def coalesce_gauge_def coalesce_worker_failure_def coalesce_delta_def dest: add_fields_fields(3) split: if_splits prod.splits bool.splits)
  qed
  show False
  proof (cases "suffix ''_delta'' (te_event e) \<and> (\<exists>(f, v)\<in>set (te_fields e). as_u64 v \<noteq> None)")
    case True
    then have "add_fields (te_command e) (te_event e) (te_fields e) False s = (s1, False)" using d b by (simp add: coalesce_delta_def)
    from add_fields_fields(2)[OF this] f1 True show False by auto
  next
    case False
    then show False using w assms(1,3) add_delta_False
      by (auto simp: has_side_route_def failure_event_def coalesce_worker_fact_def counted_facts_def gauge_events_def coalesce_gauge_def
          coalesce_worker_failure_def Let_def split: if_splits prod.splits bool.splits)
  qed
qed

lemma side_route_never_waits:
  assumes "has_side_route e" "\<not> tr_failed (emit_event env e s)"
  shows "tr_waited (emit_event env e s) = tr_waited s"
proof (cases "tr_failed s \<or> \<not> tr_open s")
  case False
  have t: "te_event e \<notin> {''command_summary'', ''command_failed''}"
    using assms(1) by (auto simp: has_side_route_def failure_event_def counted_facts_def gauge_events_def suffix_def)
  obtain s1 r where s1: "try_send env e (flush_pending env s) = (s1, r)" by fastforce
  have w: "tr_waited s1 = tr_waited s" using try_send_waited[OF s1] flush_pending_waited by simp
  have e: "emit_event env e s = (case r of Sent \<Rightarrow> s1 | Disconnected \<Rightarrow> s1\<lparr>tr_failed := True\<rparr>
        | Full \<Rightarrow> (case coalesce e s1 of (s3, True) \<Rightarrow> s3 | (s3, False) \<Rightarrow> send env e s3))"
    using False t s1 by (auto simp: emit_event_def coalesce_def split: sent.splits prod.splits bool.splits)
  show ?thesis
  proof (cases r)
    case Full
    obtain s3 b where c: "coalesce e s1 = (s3, b)" by fastforce
    have "\<not> tr_failed s3" using e Full c assms(2) failed_mono(3) by (cases b) auto
    then show ?thesis using e Full c side_route_coalesces[OF assms(1) c] coalesce_same(3)[of e s1 s3] w by simp
  qed (use e w in simp_all)
qed (simp add: emit_event_def)

fun from_source_worker :: "ingest_event \<Rightarrow> bool" where
  "from_source_worker (WorkDequeued _ _ _) = True"
| "from_source_worker (ActiveWorkers _ _) = True"
| "from_source_worker (SourceReadStarted _ _ _) = True"
| "from_source_worker (SourceChunkStaged _ _ _ _) = True"
| "from_source_worker (SourceReadCompleted _ _ _ _) = True"
| "from_source_worker (WorkFailed _ _ _ _) = True"
| "from_source_worker (WorkCancelled _ _ _) = True"
| "from_source_worker (QueueOccupancy _ _ _ _) = True"
| "from_source_worker _ = False"

lemmas event_parts = event_new_def field_def path_field_def

lemma worker_side_route: "from_source_worker ev \<Longrightarrow> e \<in> set (fst (observe dry_run ev mounts)) \<Longrightarrow> has_side_route e"
  by (cases ev) (auto simp: observe_def event_parts has_side_route_def counted_facts_def gauge_events_def failure_event_def as_u64_def suffix_def Let_def split: if_splits)


section \<open>The totals of an import\<close>

text \<open>What an event of the executor contributes to a counter of the dashboard.\<close>

fun event_units :: "bool \<Rightarrow> counter \<Rightarrow> ingest_event \<Rightarrow> u64" where
  "event_units dry_run k (CandidateDiscovered _ _ _) = (if k = Files then 1 else 0)"
| "event_units dry_run k (MetadataSkipped _ _ _) = (if k = Skipped \<or> k = Completed then 1 else 0)"
| "event_units dry_run k (SourceReadCompleted _ _ _ _) = (if k = Completed then 1 else 0)"
| "event_units dry_run k (SourceChunkStaged _ _ _ n) = (if k = ReadBytes \<or> k = WrittenBytes \<and> \<not> dry_run then n else 0)"
| "event_units dry_run k (CasStored _ _ Created _) = (if k = CreatedBlobs then 1 else 0)"
| "event_units dry_run k (CasStored _ _ Reused _) = (if k = ReusedBlobs then 1 else 0)"
| "event_units dry_run k (CatalogCommitted _ _) = (if k = CommittedRecords then 1 else 0)"
| "event_units dry_run k (CatalogBatchCommitted _) = (if k = Batches then 1 else 0)"
| "event_units dry_run k _ = 0"

lemma observed_tidy: "e \<in> set (fst (observe dry_run ev mounts)) \<Longrightarrow> tidy_fields e \<and> te_event e \<notin> set resetting"
  by (cases ev)
    (auto simp: observe_def event_parts tidy_fields_def resetting_def count_field_def suffix_def Let_def split: if_splits store_outcome.splits)

lemma observed_all_tidy: "e \<in> set (observe_all dry_run mounts evs) \<Longrightarrow> tidy_fields e \<and> te_event e \<notin> set resetting"
proof (induction evs arbitrary: mounts)
  case (Cons ev evs)
  obtain es mounts1 where o: "observe dry_run ev mounts = (es, mounts1)" by fastforce
  then show ?case using Cons.IH[of mounts1] Cons.prems observed_tidy[of e dry_run ev mounts] by auto
qed simp

lemma adds_names:
  "te_event e = ''file_discovered'' \<Longrightarrow> adds k e = (if k = Files then 1 else 0)"
  "te_event e = ''file_skipped'' \<Longrightarrow> adds k e = (if k = Skipped \<or> k = Completed then 1 else 0)"
  "te_event e = ''file_hashed'' \<Longrightarrow> tidy_fields e \<Longrightarrow> adds k e = (if k = Completed then 1 else 0)"
  "te_event e = ''cas_blob_created'' \<Longrightarrow> adds k e = (if k = CreatedBlobs then 1 else 0)"
  "te_event e = ''cas_blob_reused'' \<Longrightarrow> adds k e = (if k = ReusedBlobs then 1 else 0)"
  "te_event e = ''catalog_record_committed'' \<Longrightarrow> adds k e = (if k = CommittedRecords then 1 else 0)"
  "te_event e = ''catalog_batch_committed'' \<Longrightarrow> adds k e = (if k = Batches then 1 else 0)"
  "te_event e = ''source_bytes_delta'' \<Longrightarrow> adds k e = (if k = ReadBytes then count_field e ''bytes'' else 0)"
  "te_event e = ''staging_bytes_delta'' \<Longrightarrow> adds k e = (if k = WrittenBytes then count_field e ''bytes'' else 0)"
  unfolding tidy_fields_def by (subst step_adds, erule dashboard_steps, cases k; simp add: dashboard_new_def)+

lemma observed_units: "(\<Sum>e\<leftarrow>fst (observe dry_run ev mounts). adds k e) = event_units dry_run k ev"
proof -
  have z: "adds k e = 0" if "te_event e \<in> {''active_content_workers'', ''queue_occupancy'', ''queue_backpressure'', ''catalog_checkpoint_completed'',
      ''catalog_checkpoint_requested'', ''catalog_final_checkpoint'', ''cancelled'', ''operational_failure''}" for e
    by (rule adds_other) (use that in \<open>auto simp: adding_def resetting_def\<close>)
  have t: "tidy_fields e" if "e \<in> set (fst (observe dry_run ev mounts))" for e using observed_tidy[OF that] by blast
  show ?thesis
  proof (cases ev)
    case (SourceReadCompleted q p m n)
    then show ?thesis using t by (simp add: observe_def event_parts adds_names)
  next
    case (CasStored q p out h)
    then show ?thesis by (cases out) (simp_all add: observe_def event_parts adds_names)
  qed (simp_all add: observe_def event_parts adds_names z count_field_def as_u64_def Let_def)
qed

lemma observed_all_units: "(\<Sum>e\<leftarrow>observe_all dry_run mounts evs. adds k e) = (\<Sum>ev\<leftarrow>evs. event_units dry_run k ev)"
proof (induction evs arbitrary: mounts)
  case (Cons ev evs)
  obtain es mounts1 where o: "observe dry_run ev mounts = (es, mounts1)" by fastforce
  then show ?case using Cons[of mounts1] observed_units[of k dry_run ev mounts] by simp
qed simp

lemma framing_neutral:
  assumes "te_event e \<in> {''command_started'', ''command_finished'', ''command_summary'', ''command_failed''}"
  shows "adds k e = 0" "tidy_fields e" "te_event e \<notin> set resetting"
proof -
  show r: "te_event e \<notin> set resetting" using assms by (auto simp: resetting_def)
  show "adds k e = 0" by (rule adds_other[OF _ r]) (use assms in \<open>auto simp: adding_def\<close>)
  show "tidy_fields e" using assms by (auto simp: tidy_fields_def suffix_def)
qed

lemma neutral_sum: "\<forall>e\<in>set es. te_event e \<in> {''command_started'', ''command_finished'', ''command_summary'', ''command_failed''} \<Longrightarrow> (\<Sum>e\<leftarrow>es. adds k e) = 0"
  by (induction es) (auto simp: framing_neutral)

section \<open>A healthy renderer\<close>

text \<open>A renderer that never fails, and an inbox that cannot fill, never make the transport fail.\<close>

definition healthy :: "render_env \<Rightarrow> bool" where
  "healthy env \<longleftrightarrow> (\<forall>n. \<not> breaks env n) \<and> \<not> finish_breaks env"

definition calm :: "nat \<Rightarrow> transport \<Rightarrow> bool" where
  "calm n s \<longleftrightarrow> tr_open s \<and> \<not> tr_failed s \<and> \<not> tr_gone s \<and> pending s = [] \<and> length (tr_inbox s) \<le> n"

lemma render_some_calm: "\<forall>n. \<not> breaks env n \<Longrightarrow> tr_failed (render_some env m s) = tr_failed s \<and> tr_gone (render_some env m s) = tr_gone s
    \<and> length (tr_inbox (render_some env m s)) \<le> length (tr_inbox s)"
proof (induction m arbitrary: s)
  case (Suc m)
  have "tr_failed (render_one env s) = tr_failed s \<and> tr_gone (render_one env s) = tr_gone s \<and> length (tr_inbox (render_one env s)) \<le> length (tr_inbox s)"
    using Suc.prems by (simp add: render_one_def Let_def split: list.splits)
  then show ?case using Suc.IH[OF Suc.prems, of "render_one env s"] by simp
qed simp

lemma tick_calm: "healthy env \<Longrightarrow> calm n s \<Longrightarrow> calm n (tick env s)"
  using render_some_calm[of env "pace env (tr_clock s)" s] tick_evolves[of s env]
  by (auto simp: healthy_def calm_def tick_def pending_def evolves_def)

lemma pending_Nil: "pending s = [] \<longleftrightarrow> tr_deltas s = [] \<and> tr_failures s = [] \<and> tr_gauges s = []"
  by (auto simp: pending_def)

lemma drain_pending_Nil: "pending s = [] \<Longrightarrow> drain_pending env s = s"
  by (cases s) (simp add: pending_Nil drain_pending_def Let_def)

lemma flush_pending_Nil: "pending s = [] \<Longrightarrow> flush_pending env s = s"
  by (cases s) (simp add: pending_Nil flush_pending_def flush_deltas_def flush_failures_def flush_gauges_def Let_def)

lemma emit_event_calm:
  assumes "healthy env" "calm n s" "n < inbox_capacity"
  shows "calm (Suc n) (emit_event env e s)"
proof -
  have t: "calm n (tick env s)" by (rule tick_calm[OF assms(1,2)])
  have "emit_event env e s = push e (tick env s)"
    using assms(2,3) t by (auto simp: calm_def emit_event_def drain_pending_Nil flush_pending_Nil send_def try_send_def Let_def)
  then show ?thesis using t by (simp add: calm_def push_def pending_def)
qed

lemma healthy_never_fails:
  assumes "healthy env" "length es \<le> inbox_capacity"
  shows "\<not> tr_failed (close_transport env (emit_all env es transport_new))"
proof -
  have "calm n s \<Longrightarrow> n + length es \<le> inbox_capacity \<Longrightarrow> calm (n + length es) (emit_all env es s)" for n s
  proof (induction es arbitrary: n s)
    case (Cons e es)
    then show ?case using Cons.IH[OF emit_event_calm[OF assms(1) Cons.prems(1)]] by (simp add: emit_all_Cons)
  qed (simp add: emit_all_def)
  from this[of 0 transport_new] have "calm (length es) (emit_all env es transport_new)"
    using assms(2) by (simp add: calm_def transport_new_def pending_def)
  then show ?thesis using assms(1) render_some_calm[of env]
    by (simp add: close_transport_def drain_pending_Nil calm_def healthy_def Let_def)
qed

abbreviation steady :: "(nat \<Rightarrow> nat) \<Rightarrow> render_env" where
  "steady p \<equiv> \<lparr>pace = p, breaks = (\<lambda>_. False), finish_breaks = False\<rparr>"

lemma healthy_steady: "healthy (steady p)"
  by (simp add: healthy_def)

text \<open>
  C28. The dashboard of an import is exact under any pace of the renderer: between the events that
  open a command and those that end it, whatever the executor observed, a transport that closes
  without a failure leaves every counter at the sum of what the events contributed, although events
  that met a full inbox reached the renderer only as merged counters.
\<close>

theorem import_dashboard_exact:
  assumes "\<forall>e\<in>set (start @ finish). te_event e \<in> {''command_started'', ''command_finished'', ''command_summary'', ''command_failed''}"
    and "s = close_transport env (emit_all env (start @ observe_all dry_run [] evs @ finish) transport_new)" "\<not> tr_failed s"
  shows "counter_of k (dashboard_after (tr_rendered s) (dashboard_new ''import'')) = (\<Sum>ev\<leftarrow>evs. event_units dry_run k ev)"
proof -
  let ?es = "start @ observe_all dry_run [] evs @ finish"
  have t: "\<forall>e\<in>set ?es. tidy_fields e \<and> te_event e \<notin> set resetting"
    using assms(1) framing_neutral(2,3) observed_all_tidy by (auto simp del: insert_iff)
  have n: "\<not> tr_failed (close_transport env (emit_all env ?es transport_new))" using assms(2,3) by simp
  have "counter_of k (dashboard_new ''import'') = 0" by (cases k) (simp_all add: dashboard_new_def)
  then show ?thesis
    using dashboard_behind_transport[OF n t, of k "dashboard_new ''import''"] assms(1,2) neutral_sum[of start] neutral_sum[of finish] observed_all_units
    by simp
qed

theorem import_dashboard_exact_witness:
  "counter_of ReadBytes (dashboard_after (tr_rendered (close_transport (steady (\<lambda>t. t mod 2))
     (emit_all (steady (\<lambda>t. t mod 2))
       ([event_new ''import'' ''command_started''] @ observe_all False [] [SourceChunkStaged 0 (SourceRelativePath ''a'') (MountId 1) 5, SourceChunkStaged 0 (SourceRelativePath ''a'') (MountId 1) 7]
         @ [event_new ''import'' ''command_summary'']) transport_new))) (dashboard_new ''import'')) = 12"
  (is "counter_of ReadBytes (dashboard_after (tr_rendered ?s) _) = 12")
proof -
  have "\<not> tr_failed ?s" by (rule healthy_never_fails[OF healthy_steady]) (simp add: observe_def inbox_capacity_def)
  then show ?thesis
    using import_dashboard_exact[of "[event_new ''import'' ''command_started'']" "[event_new ''import'' ''command_summary'']" ?s _ False
        "[SourceChunkStaged 0 (SourceRelativePath ''a'') (MountId 1) 5, SourceChunkStaged 0 (SourceRelativePath ''a'') (MountId 1) 7]" ReadBytes]
    by (simp add: event_new_def)
qed

text \<open>
  C29. Facts without a counter are lossless: when a command closes its transport without a failure,
  the renderer was given every such fact exactly once and in the order of emission, every failure of
  a worker, and, if the command ended with its summary or its failure, that event as the last one.
\<close>

theorem telemetry_facts_lossless:
  assumes "s = close_transport env (emit_all env es transport_new)" "\<not> tr_failed s"
  shows "filter plain_fact (tr_rendered s) = filter plain_fact es
    \<and> mset (filter failure_event (tr_rendered s)) = mset (filter failure_event es)
    \<and> (es \<noteq> [] \<and> terminal_event (last es) \<longrightarrow> last (tr_rendered s) = last es)"
proof (intro conjI impI)
  have n: "\<not> tr_failed (close_transport env (emit_all env es transport_new))" using assms by simp
  note ok = closed_ok[OF n]
  show "filter plain_fact (tr_rendered s) = filter plain_fact es"
    using rendered_at_close[OF n] pending_not_plain[OF ok(2)] emit_all_plain[OF ok(1) new_ok(1,2)] assms(1) by (simp add: new_ok)
  show "mset (filter failure_event (tr_rendered s)) = mset (filter failure_event es)"
    using failure.rendered_total[OF n] assms(1) by (simp add: sum_singletons)
  assume l: "es \<noteq> [] \<and> terminal_event (last es)"
  then obtain before where "tr_rendered s = before @ [last es]"
    using terminal_last[of env "butlast es" "last es"] n assms(1) by auto
  then show "last (tr_rendered s) = last es" by simp
qed

theorem telemetry_facts_lossless_witness:
  "filter plain_fact (tr_rendered (close_transport (steady (\<lambda>_. 0))
     (emit_all (steady (\<lambda>_. 0)) [event_new ''gc'' ''finding'', event_new ''gc'' ''command_summary''] transport_new)))
   = filter plain_fact [event_new ''gc'' ''finding'', event_new ''gc'' ''command_summary'']"
  (is "filter plain_fact (tr_rendered ?s) = _")
proof -
  have "\<not> tr_failed ?s" by (rule healthy_never_fails[OF healthy_steady]) (simp add: observe_def inbox_capacity_def)
  from telemetry_facts_lossless[OF refl this] show ?thesis by blast
qed

text \<open>
  C32. A source worker never waits for the renderer: emitting what the observer makes of an event of a
  worker adds no waiting send, in any state of the transport and at any pace, unless the transport
  has failed and the command is being cancelled.
\<close>

theorem source_workers_never_wait:
  assumes "from_source_worker ev" "e \<in> set (fst (observe dry_run ev mounts))" "\<not> tr_failed (emit_event env e s)"
  shows "tr_waited (emit_event env e s) = tr_waited s"
  by (rule side_route_never_waits[OF worker_side_route[OF assms(1,2)] assms(3)])

theorem source_workers_never_wait_witness:
  "tr_waited (emit_event (steady (\<lambda>_. 0))
     (field (field (import_event ''operational_failure'') ''sequence'' (Count 3)) ''context'' (Text ''source_worker_failed''))
     (transport_new\<lparr>tr_inbox := replicate 256 (import_event ''cancelled'')\<rparr>)) = 0"
  (is "tr_waited (emit_event ?env ?e ?s) = 0")
proof -
  have "\<not> tr_failed (emit_event ?env ?e ?s)" by code_simp
  moreover have "?e \<in> set (fst (observe False (WorkFailed 3 (SourceRelativePath ''a'') (MountId 1) ''gone'') []))" by (simp add: observe_def)
  ultimately have "tr_waited (emit_event ?env ?e ?s) = tr_waited ?s"
    using source_workers_never_wait[of "WorkFailed 3 (SourceRelativePath ''a'') (MountId 1) ''gone''"] by simp
  then show ?thesis by (simp add: transport_new_def)
qed


section \<open>A stale gauge\<close>

text \<open>
  Gauges are not exact: when \<open>flush_pending\<close> meets a full inbox and the renderer makes room before the
  next \<open>try_send\<close>, a newer sample enters the channel ahead of an older one that is still pending, and
  the older one is rendered last.
\<close>

definition occupancy_sample :: "nat \<Rightarrow> telemetry_event" where
  "occupancy_sample n = hd (fst (observe False (QueueOccupancy CompletedBlobs None n 8) []))"

definition late_room :: render_env where
  "late_room = steady (\<lambda>t. if t = 258 then 1 else 0)"

abbreviation cancelled :: telemetry_event where
  "cancelled \<equiv> import_event ''cancelled''"

lemma fill_inbox:
  "n \<le> 256 \<Longrightarrow> emit_all late_room (replicate n cancelled) transport_new = transport_new\<lparr>tr_inbox := replicate n cancelled, tr_clock := n\<rparr>"
proof (induction n)
  case (Suc n)
  have "emit_all late_room (replicate (Suc n) cancelled) transport_new = emit_event late_room cancelled (emit_all late_room (replicate n cancelled) transport_new)"
    by (simp add: emit_all_def replicate_append_same[symmetric] del: replicate.simps)
  then show ?case using Suc
    by (simp add: emit_event_def event_new_def flush_pending_Nil pending_def transport_new_def try_send_def tick_def late_room_def push_def
        inbox_capacity_def replicate_append_same Let_def)
qed (simp add: emit_all_def transport_new_def)

lemma stale_gauge_pending:
  "emit_all late_room (replicate 256 cancelled @ [occupancy_sample 5, occupancy_sample 0]) transport_new
    = transport_new\<lparr>tr_inbox := replicate 255 cancelled @ [occupancy_sample 0], tr_rendered := [cancelled], tr_clock := 259,
        tr_gauges := [((''import'', ''queue_occupancy'', ''completed_blobs''), occupancy_sample 5)]\<rparr>"
proof -
  have r: "replicate 256 x = x # replicate 255 x" for x :: telemetry_event by (simp add: numeral_eq_Suc)
  let ?s = "transport_new\<lparr>tr_inbox := replicate 256 cancelled, tr_clock := 257,
        tr_gauges := [((''import'', ''queue_occupancy'', ''completed_blobs''), occupancy_sample 5)]\<rparr>"
  have 1: "emit_event late_room (occupancy_sample 5) (transport_new\<lparr>tr_inbox := replicate 256 cancelled, tr_clock := 256\<rparr>) = ?s"
    by (simp add: emit_event_def flush_pending_Nil pending_def transport_new_def try_send_def tick_def late_room_def inbox_capacity_def
        occupancy_sample_def observe_def event_parts coalesce_delta_def coalesce_worker_fact_def coalesce_gauge_def counted_facts_def
        gauge_events_def map_insert_def suffix_def Let_def)
  have f: "flush_pending late_room ?s = ?s\<lparr>tr_clock := 258\<rparr>"
    by (simp add: flush_pending_def flush_deltas_def flush_failures_def flush_gauges_def transport_new_def try_send_def tick_def late_room_def
        inbox_capacity_def Let_def)
  have 2: "emit_event late_room (occupancy_sample 0) ?s = transport_new\<lparr>tr_inbox := replicate 255 cancelled @ [occupancy_sample 0], tr_rendered := [cancelled],
      tr_clock := 259, tr_gauges := [((''import'', ''queue_occupancy'', ''completed_blobs''), occupancy_sample 5)]\<rparr>"
    unfolding emit_event_def f
    by (simp add: r transport_new_def try_send_def tick_def render_one_def push_def late_room_def inbox_capacity_def occupancy_sample_def observe_def event_parts Let_def)
  have "emit_all late_room (replicate 256 cancelled @ [occupancy_sample 5, occupancy_sample 0]) transport_new
    = emit_event late_room (occupancy_sample 0) (emit_event late_room (occupancy_sample 5) (emit_all late_room (replicate 256 cancelled) transport_new))"
    by (simp add: emit_all_def)
  then show ?thesis using fill_inbox[of 256] 1 2 by simp
qed

lemma stale_gauge_rendered_last:
  "d_queue (dashboard_after (tr_rendered (close_transport late_room
     (emit_all late_room (replicate 256 cancelled @ [occupancy_sample 5, occupancy_sample 0]) transport_new))) (dashboard_new ''import'')) = 5"
  (is "d_queue (dashboard_after (tr_rendered (close_transport _ (emit_all _ ?es _))) _) = 5")
proof -
  let ?s = "emit_all late_room ?es transport_new"
  have b: "\<forall>n. \<not> breaks late_room n" "\<not> finish_breaks late_room" by (simp_all add: late_room_def)
  have s: "\<not> tr_gone ?s" "\<not> tr_failed ?s" "tr_open ?s" "pending ?s = [occupancy_sample 5]" "tr_deltas ?s = []" "tr_failures ?s = []"
    unfolding stale_gauge_pending by (simp_all add: transport_new_def pending_def)
  have t: "\<not> tr_gone (tick late_room ?s) \<and> \<not> tr_failed (tick late_room ?s)" using s render_some_calm[OF b(1)] by (simp add: tick_def)
  have o: "\<not> tr_gone (render_one late_room u) \<and> \<not> tr_failed (render_one late_room u)" if "\<not> tr_gone u \<and> \<not> tr_failed u" for u
    using that b(1) by (simp add: render_one_def Let_def split: list.splits)
  have w: "\<not> tr_gone (send late_room x ?s) \<and> \<not> tr_failed (send late_room x ?s)" for x
    using t o by (simp add: send_def push_def Let_def)
  have g: "tr_gauges ?s = [((''import'', ''queue_occupancy'', ''completed_blobs''), occupancy_sample 5)]" unfolding stale_gauge_pending by simp
  have "\<not> tr_failed (drain_pending late_room ?s)" using w s g by (cases ?s) (simp add: drain_pending_def Let_def)
  then have c: "\<not> tr_failed (close_transport late_room ?s)" using render_some_calm[OF b(1)] b(2) s(3) by (simp add: close_transport_def Let_def)
  have "d_queue (dashboard_step (occupancy_sample 5) d) = 5" for d
    by (simp add: dashboard_step_def occupancy_sample_def observe_def event_parts count_field_def as_u64_def Let_def)
  then show ?thesis unfolding rendered_at_close[OF c] s(4) by (simp add: dashboard_after_def)
qed

end
