(* ===== verification/SharedRead.thy ===== *)
theory SharedRead
  imports Config StagingPurge
begin

text \<open>
  Reading a catalog under a shared lock (\<^verbatim>\<open>catalog.rs\<close>): the database and its write-ahead log are copied
  into a directory of their own, which SQLite opens by a read-only URI and which is removed when the
  connection is dropped. The name of that directory is a fresh one and an argument, as is what SQLite
  makes of a URI.
\<close>

section \<open>Definitions\<close>

definition sidecar_path :: "path \<Rightarrow> string \<Rightarrow> path" where
  "sidecar_path p label = p @ label"

definition sidecar_metadata :: "path \<Rightarrow> fs \<Rightarrow> metadata option result" where
  "sidecar_metadata p f =
     (case symlink_metadata p f of
        Inr m \<Rightarrow> if md_kind m \<noteq> KFile then Inl (ConfigError NotARegularFile) else Inr (Some m)
      | Inl e \<Rightarrow> if e = NotFound then Inr None else Inl (Io e))"

text \<open>
  \<open>fs::copy\<close> to a name that does not exist yet: the content, then the permissions, which is where
  the call can fail with the new file in place.
\<close>

definition fs_copy :: "path \<Rightarrow> path \<Rightarrow> fs \<Rightarrow> fs \<times> unit io" where
  "fs_copy p q f =
     (case io_bind (fault_free OpOpen p f) (\<lambda>_.
           io_bind (locate True p f) (\<lambda>ns.
           case node_at f ns of Some (FFile i) \<Rightarrow> Inr i | None \<Rightarrow> Inl NotFound | Some _ \<Rightarrow> Inl OtherIo)) of
        Inl e \<Rightarrow> (f, Inl e)
      | Inr i \<Rightarrow>
          (case create_new q f of
             Inl e \<Rightarrow> (f, Inl e)
           | Inr (f1, j) \<Rightarrow>
               let f2 = write_inode j (fd_content (inodes f i)) f1
               in (case fault_free OpChmod q f2 of
                     Inl e \<Rightarrow> (f2, Inl e)
                   | Inr _ \<Rightarrow> (f2\<lparr>inodes := (inodes f2)(j := (inodes f2 j)\<lparr>fd_readonly := fd_readonly (inodes f i)\<rparr>)\<rparr>, Inr ()))))"

text \<open>\<open>fs::remove_dir_all\<close> with its result ignored; the fuel is that of the purge of staging.\<close>

definition remove_dir_all :: "path \<Rightarrow> fs \<Rightarrow> fs" where
  "remove_dir_all p f =
     (case purge_directory_entry (purge_directory_entries (Suc (Suc (max_depth f)))) p f of None \<Rightarrow> f | Some (f', _) \<Rightarrow> f')"

definition copy_files :: "path \<Rightarrow> path \<Rightarrow> bool \<Rightarrow> fs \<Rightarrow> fs \<times> (path \<times> path \<times> bool) result" where
  "copy_files temp_dir p copy_wal f =
     (case file_name p of
        None \<Rightarrow> (f, Inl (PathError MissingFileName))
      | Some n \<Rightarrow>
          let copied_db = path_join temp_dir n
          in then_step (apsnd of_io (fs_copy p copied_db f)) (\<lambda>f1.
             then_step (if copy_wal then apsnd of_io (fs_copy (sidecar_path p ''-wal'') (sidecar_path copied_db ''-wal'') f1) else (f1, Inr ())) (\<lambda>f2.
             (f2, Inr (copied_db, temp_dir, \<not> copy_wal)))))"

definition copy_catalog_snapshot :: "path \<Rightarrow> path \<Rightarrow> bool \<Rightarrow> fs \<Rightarrow> fs \<times> (path \<times> path \<times> bool) result" where
  "copy_catalog_snapshot temp_dir p copy_wal f =
     (case create_dir temp_dir f of
        Inl e \<Rightarrow> (f, Inl (Io e))
      | Inr f1 \<Rightarrow>
          (case copy_files temp_dir p copy_wal f1 of
             (f2, Inr snapshot) \<Rightarrow> (f2, Inr snapshot)
           | (f2, Inl e) \<Rightarrow> (remove_dir_all temp_dir f2, Inl e)))"

definition snapshot_catalog_for_shared_read :: "path \<Rightarrow> path \<Rightarrow> fs \<Rightarrow> fs \<times> (path \<times> path \<times> bool) result" where
  "snapshot_catalog_for_shared_read temp_dir p f =
     (if \<not> path_exists p f then (f, Inl (Io NotFound))
      else case symlink_metadata p f of
             Inl e \<Rightarrow> (f, Inl (Io e))
           | Inr m \<Rightarrow>
               if md_kind m \<noteq> KFile then (f, Inl (ConfigError NotARegularFile))
               else (case sidecar_metadata (sidecar_path p ''-wal'') f of
                       Inl e \<Rightarrow> (f, Inl e)
                     | Inr wal \<Rightarrow>
                         copy_catalog_snapshot temp_dir p (case wal of None \<Rightarrow> False | Some m \<Rightarrow> 0 < md_len m) f))"

definition upper_hex :: "nat \<Rightarrow> char" where
  "upper_hex n = (if n < 10 then char_of (48 + n) else char_of (55 + n))"

definition uri_plain :: "char \<Rightarrow> bool" where
  "uri_plain c \<longleftrightarrow> (let n = byte c in 48 \<le> n \<and> n \<le> 57 \<or> 65 \<le> n \<and> n \<le> 90 \<or> 97 \<le> n \<and> n \<le> 122) \<or> c \<in> set ''/-_.~''"

definition uri_byte :: "char \<Rightarrow> string" where
  "uri_byte c = (if uri_plain c then [c] else [CHR ''%'', upper_hex (byte c div 16), upper_hex (byte c mod 16)])"

definition sqlite_read_only_uri :: "path \<Rightarrow> bool \<Rightarrow> fs \<Rightarrow> string result" where
  "sqlite_read_only_uri p immutable f =
     bind_result (canonicalize p f) (\<lambda>absolute.
     Inr (''file:'' @ concat (map uri_byte absolute) @ ''?mode=ro'' @ (if immutable then ''&immutable=1'' else [])))"

text \<open>\<open>open_existing_read_only\<close>; the connection remembers the directory it has to remove.\<close>

definition open_existing_read_only :: "(string \<Rightarrow> fs \<Rightarrow> 'c result) \<Rightarrow> path \<Rightarrow> path \<Rightarrow> fs \<Rightarrow> fs \<times> ('c \<times> path) result" where
  "open_existing_read_only connect temp_dir p f =
     (case snapshot_catalog_for_shared_read temp_dir p f of
        (f1, Inl e) \<Rightarrow> (f1, Inl e)
      | (f1, Inr (open_path, dir, immutable)) \<Rightarrow>
          (f1, bind_result (sqlite_read_only_uri open_path immutable f1) (\<lambda>uri.
               bind_result (connect uri f1) (\<lambda>c. Inr (c, dir)))))"


section \<open>The URI\<close>

text \<open>How SQLite reads the file name of a URI: up to a question mark or a hash, with percent escapes.\<close>

definition hex_value :: "char \<Rightarrow> nat option" where
  "hex_value c = (let n = byte c in if 48 \<le> n \<and> n \<le> 57 then Some (n - 48) else if 65 \<le> n \<and> n \<le> 70 then Some (n - 55)
     else if 97 \<le> n \<and> n \<le> 102 then Some (n - 87) else None)"

fun uri_decode :: "string \<Rightarrow> string option" where
  "uri_decode [] = Some []"
| "uri_decode (c # cs) =
     (if c = CHR ''?'' \<or> c = CHR ''#'' then Some []
      else if c = CHR ''%'' then
        (case cs of
           a # b # rest \<Rightarrow>
             (case (hex_value a, hex_value b) of
                (Some x, Some y) \<Rightarrow> map_option (Cons (char_of (16 * x + y))) (uri_decode rest)
              | _ \<Rightarrow> None)
         | _ \<Rightarrow> None)
      else map_option (Cons c) (uri_decode cs))"

definition uri_filename :: "string \<Rightarrow> string option" where
  "uri_filename uri = (if take 5 uri = ''file:'' then uri_decode (drop 5 uri) else None)"

lemma upper_hex_value: "n < 16 \<Longrightarrow> hex_value (upper_hex n) = Some n"
  by (auto simp: upper_hex_def hex_value_def Let_def)

lemma uri_byte_decode: "uri_decode (uri_byte c @ rest) = map_option (Cons c) (uri_decode rest)"
proof (cases "uri_plain c")
  case True
  then have "c \<noteq> CHR ''?''" "c \<noteq> CHR ''#''" "c \<noteq> CHR ''%''" by (auto simp: uri_plain_def Let_def)
  then show ?thesis using True by (simp add: uri_byte_def)
next
  case False
  have "byte c < 256" by (rule nat_of_char_less_256)
  then have "byte c div 16 < 16" "byte c mod 16 < 16" by linarith+
  then show ?thesis using False by (simp add: uri_byte_def upper_hex_value)
qed

lemma uri_decode_path: "uri_decode (concat (map uri_byte p) @ rest) = map_option (append p) (uri_decode rest)"
  by (induction p) (simp_all add: uri_byte_decode option.map_comp comp_def option.map_ident)


section \<open>What a purge and a copy touch\<close>

lemma remove_dir_all_removes:
  assumes "list_all name_ok ns" "ns \<noteq> []" "real_parents f ns" "names_ok f"
  shows "removed_in {ms. prefix ns ms} f (remove_dir_all (abs_path ns) f)"
proof -
  have "removed_in {ms. prefix ns ms} f g"
    if "purge_directory_entry (purge_directory_entries (Suc (Suc (max_depth f)))) (abs_path ns) f = Some (g, r)" for g r
    by (rule purge_entry_removes[OF that assms(1-3)]) (rule purge_removes[OF _ assms(1,4)])
  then show ?thesis by (auto simp: remove_dir_all_def split: option.splits)
qed


lemma create_new_Inr:
  assumes "list_all name_ok qs" "real_parents f qs" "create_new (abs_path qs) f = Inr (g, j)"
  shows "j = next_inode f" "node_at f qs = None" "qs \<noteq> []" "node_at g ms = (if ms = qs then Some (FFile j) else node_at f ms)"
    "i \<noteq> j \<Longrightarrow> inodes g i = inodes f i" "next_inode g = j + 1" "faults g = faults f" "names_ok f \<Longrightarrow> names_ok g"
proof -
  have g: "g = (set_node qs (FFile (next_inode f)) f)\<lparr>next_inode := next_inode f + 1,
      inodes := (inodes f)(next_inode f := \<lparr>fd_content = [], fd_mtime = None, fd_readonly = False\<rparr>)\<rparr>" "j = next_inode f" "node_at f qs = None"
    using assms(3) new_name_Inr[OF assms(1,2)] by (auto simp: create_new_def io_bind_Inr Let_def)
  then show ne: "j = next_inode f" "node_at f qs = None" "qs \<noteq> []" by auto
  show "node_at g ms = (if ms = qs then Some (FFile j) else node_at f ms)" "i \<noteq> j \<Longrightarrow> inodes g i = inodes f i" "next_inode g = j + 1" "faults g = faults f"
    using ne(3) by (simp_all add: g)
  have "set (nodes g) \<subseteq> insert (qs, FFile j) (set (nodes f))" using set_update_entries[of qs "FFile j" "nodes f"] by (simp add: g set_node_def)
  then show "names_ok f \<Longrightarrow> names_ok g" using assms(1) by (auto simp: names_ok_def)
qed

text \<open>A copy makes one new file and, when it succeeds, with the content of its source.\<close>

definition file_at :: "fs \<Rightarrow> string list \<Rightarrow> string option" where
  "file_at f ns = (case node_at f ns of Some (FFile i) \<Rightarrow> Some (fd_content (inodes f i)) | _ \<Rightarrow> None)"

lemma fs_copy_spec:
  assumes "fs_copy (abs_path ps) (abs_path qs) f = (g, r)" "list_all name_ok ps" "real_parents f ps" "\<forall>t. node_at f ps \<noteq> Some (FSymlink t)"
    "list_all name_ok qs" "real_parents f qs"
  shows "\<And>ms. ms \<noteq> qs \<Longrightarrow> node_at g ms = node_at f ms" "\<And>i. i < next_inode f \<Longrightarrow> inodes g i = inodes f i" "next_inode f \<le> next_inode g"
    "names_ok f \<Longrightarrow> names_ok g" "faults g = faults f" "r = Inr () \<Longrightarrow> file_at f ps \<noteq> None \<and> file_at g qs = file_at f ps \<and> (\<forall>i. node_at g qs = Some (FFile i) \<longrightarrow> i < next_inode g)" "node_at f qs = None \<or> g = f"
proof -
  have "(\<forall>ms. ms \<noteq> qs \<longrightarrow> node_at g ms = node_at f ms) \<and> (\<forall>i<next_inode f. inodes g i = inodes f i) \<and> next_inode f \<le> next_inode g
    \<and> (names_ok f \<longrightarrow> names_ok g) \<and> faults g = faults f \<and> (r = Inr () \<longrightarrow> file_at f ps \<noteq> None \<and> file_at g qs = file_at f ps \<and> (\<forall>i. node_at g qs = Some (FFile i) \<longrightarrow> i < next_inode g)) \<and> (node_at f qs = None \<or> g = f)"
  proof (cases "g = f \<and> (\<exists>e. r = Inl e)")
    case False
    have l: "locate True (abs_path ps) f = Inr ps" using locate_real[OF assms(2,3), of True] assms(4) by simp
    obtain i f1 j where c: "node_at f ps = Some (FFile i)" "create_new (abs_path qs) f = Inr (f1, j)"
      "g = write_inode j (fd_content (inodes f i)) f1 \<or>
       g = (write_inode j (fd_content (inodes f i)) f1)\<lparr>inodes := (inodes (write_inode j (fd_content (inodes f i)) f1))
             (j := (inodes (write_inode j (fd_content (inodes f i)) f1) j)\<lparr>fd_readonly := fd_readonly (inodes f i)\<rparr>)\<rparr>"
      using assms(1) False l
      by (auto simp: fs_copy_def io_bind_def Let_def split: sum.splits option.splits node.splits prod.splits if_splits)
    note n = create_new_Inr[OF assms(5,6) c(2)]
    have "file_at f ps = Some (fd_content (inodes f i))" "file_at g qs = Some (fd_content (inodes f i))"
      using c(1,3) n(4)[of qs] by (auto simp: file_at_def write_inode_def)
    moreover have "names_ok g = names_ok f1" using c(3) by (auto simp: names_ok_def write_inode_def)
    ultimately show ?thesis using c(3) n by (auto simp: write_inode_def)
  qed auto
  then show "\<And>ms. ms \<noteq> qs \<Longrightarrow> node_at g ms = node_at f ms" "\<And>i. i < next_inode f \<Longrightarrow> inodes g i = inodes f i" "next_inode f \<le> next_inode g"
    "names_ok f \<Longrightarrow> names_ok g" "faults g = faults f" "r = Inr () \<Longrightarrow> file_at f ps \<noteq> None \<and> file_at g qs = file_at f ps \<and> (\<forall>i. node_at g qs = Some (FFile i) \<longrightarrow> i < next_inode g)" "node_at f qs = None \<or> g = f"
    by blast+
qed


section \<open>A snapshot\<close>

lemma sidecar_abs: "sidecar_path (abs_path (ns @ [n])) label = abs_path (ns @ [n @ label])"
proof -
  have "join_with c (ns @ [n]) @ label = join_with c (ns @ [n @ label])" for c by (induction ns rule: induct_list012) auto
  then show ?thesis by (simp add: sidecar_path_def abs_path_def)
qed

lemma file_name_abs: "list_all name_ok (ns @ [n]) \<Longrightarrow> file_name (abs_path (ns @ [n])) = Some n"
  by (simp add: file_name_def components_abs_path)

text \<open>
  What holds while a snapshot is taken: names outside its directory and the files that were there
  are as before.
\<close>

definition aside :: "string list \<Rightarrow> fs \<Rightarrow> fs \<Rightarrow> bool" where
  "aside tn f g \<longleftrightarrow> (\<forall>ms. \<not> prefix tn ms \<longrightarrow> node_at g ms = node_at f ms) \<and> (\<forall>i<next_inode f. inodes g i = inodes f i)
     \<and> next_inode f \<le> next_inode g \<and> names_ok g \<and> real_dir g tn"

lemma aside_copy:
  assumes "aside tn f g" "fs_copy (abs_path ps) (abs_path (tn @ [x])) g = (h, r)" "list_all name_ok ps" "real_parents g ps"
    "\<forall>t. node_at g ps \<noteq> Some (FSymlink t)" "list_all name_ok (tn @ [x])"
  shows "aside tn f h" "r = Inr () \<Longrightarrow> file_at g ps \<noteq> None \<and> file_at h (tn @ [x]) = file_at g ps \<and> (\<forall>i. node_at h (tn @ [x]) = Some (FFile i) \<longrightarrow> i < next_inode h)" "\<And>ms. ms \<noteq> tn @ [x] \<Longrightarrow> node_at h ms = node_at g ms"
    "\<And>i. i < next_inode g \<Longrightarrow> inodes h i = inodes g i"
proof -
  have "real_parents g (tn @ [x])" using assms(1) by (simp add: aside_def real_parents_snoc)
  note c = fs_copy_spec[OF assms(2-5) assms(6) this]
  show "r = Inr () \<Longrightarrow> file_at g ps \<noteq> None \<and> file_at h (tn @ [x]) = file_at g ps \<and> (\<forall>i. node_at h (tn @ [x]) = Some (FFile i) \<longrightarrow> i < next_inode h)" using c(6) by blast
  show ch: "\<And>ms. ms \<noteq> tn @ [x] \<Longrightarrow> node_at h ms = node_at g ms" by (rule c(1))
  show "\<And>i. i < next_inode g \<Longrightarrow> inodes h i = inodes g i" by (rule c(2))
  have "take i tn \<noteq> tn @ [x]" for i by (metis append_take_drop_id append_assoc append_self_conv not_Cons_self2 snoc_eq_iff_butlast)
  then have "real_dir h tn" using assms(1) ch by (simp add: aside_def real_dir_def real_parents_def)
  then show "aside tn f h" using assms(1) c(1-4) unfolding aside_def by (metis le_trans order_less_le_trans prefixI)
qed

lemma aside_file: "aside tn f g \<Longrightarrow> fs_ok f \<Longrightarrow> \<not> prefix tn ms \<Longrightarrow> file_at g ms = file_at f ms"
  using fs_ok_inode[of f ms] by (auto simp: aside_def file_at_def split: option.splits node.splits)


lemma created_aside:
  assumes "fs_ok f" "list_all name_ok tn" "real_parents f tn" "create_dir (abs_path tn) f = Inr g"
  shows "aside tn f g" "node_at f tn = None" "\<And>ms. ms \<noteq> tn \<Longrightarrow> node_at g ms = node_at f ms" "inodes g = inodes f"
proof -
  have g: "g = set_node tn FDir f" "node_at f tn = None" using assms(4) new_name_Inr[OF assms(2,3)] by (auto simp: create_dir_def io_bind_Inr)
  then have ne: "tn \<noteq> []" by auto
  show "node_at f tn = None" "inodes g = inodes f" "\<And>ms. ms \<noteq> tn \<Longrightarrow> node_at g ms = node_at f ms" using g ne by simp_all
  have "set (nodes g) \<subseteq> insert (tn, FDir) (set (nodes f))" using set_update_entries[of tn FDir "nodes f"] by (simp add: g set_node_def)
  then have "names_ok g" using assms(2) nodes_name_ok[OF assms(1)] by (auto simp: names_ok_def)
  moreover have "real_dir g tn" using assms(3) ne by (auto simp: real_dir_def g intro!: real_parents_set dest: arg_cong[of _ _ length])
  ultimately show "aside tn f g" using ne by (auto simp: aside_def g)
qed

text \<open>The copies of a snapshot.\<close>

lemma copy_files_spec:
  assumes "copy_files (abs_path tn) (abs_path (dn @ [n])) copy_wal g = (h, r)" "aside tn f g" "list_all name_ok (dn @ [n])" "list_all name_ok tn"
    "real_dir g dn" "\<forall>t. node_at g (dn @ [n]) \<noteq> Some (FSymlink t)" "copy_wal \<longrightarrow> (\<forall>t. node_at g (dn @ [n @ ''-wal'']) \<noteq> Some (FSymlink t))"
    "\<not> prefix tn (dn @ [n])" "\<not> prefix tn dn" "fs_ok f" "copy_wal \<longrightarrow> \<not> prefix tn (dn @ [n @ ''-wal''])"
  shows "aside tn f h" "r = Inr (db, dir, immutable) \<Longrightarrow> dir = abs_path tn \<and> db = abs_path (tn @ [n]) \<and> immutable = (\<not> copy_wal)
    \<and> file_at f (dn @ [n]) \<noteq> None \<and> file_at h (tn @ [n]) = file_at f (dn @ [n]) \<and> (copy_wal \<longrightarrow> file_at h (tn @ [n @ ''-wal'']) = file_at f (dn @ [n @ ''-wal'']))"
proof -
  have nm: "list_all name_ok (tn @ [n])" "list_all name_ok (tn @ [n @ ''-wal''])" "list_all name_ok (dn @ [n @ ''-wal''])" "name_ok n"
    using assms(3,4) by (auto simp: name_ok_def)
  have pj: "path_join (abs_path tn) n = abs_path (tn @ [n])" using path_join_abs_path[OF assms(4) nm(4)] .
  obtain h1 r1 where c1: "fs_copy (abs_path (dn @ [n])) (abs_path (tn @ [n])) g = (h1, r1)" by fastforce
  have "real_parents g (dn @ [n])" using assms(5) by (simp add: real_parents_snoc)
  note k1 = aside_copy[OF assms(2) c1 assms(3) this assms(6) nm(1)]
  have out: "\<not> prefix tn ms \<Longrightarrow> ms \<noteq> tn @ [x]" for ms x by auto
  have dn: "real_dir h1 dn"
  proof -
    have "take i dn \<noteq> tn @ [n]" for i using assms(9) by (metis append_prefixD take_is_prefix prefix_order.trans prefix_order.refl)
    then show ?thesis using assms(5) k1(3) by (metis real_dir_def real_parents_def take_all_iff order_refl)
  qed
  obtain h2 r2 where c2: "fs_copy (abs_path (dn @ [n @ ''-wal''])) (abs_path (tn @ [n @ ''-wal''])) h1 = (h2, r2)" by fastforce
  have "real_parents h1 (dn @ [n @ ''-wal''])" using dn by (simp add: real_parents_snoc)
  note k2 = aside_copy[OF k1(1) c2 nm(3) this _ nm(2)]
  have link2: "copy_wal \<longrightarrow> (\<forall>t. node_at h1 (dn @ [n @ ''-wal'']) \<noteq> Some (FSymlink t))" using assms(7,11) k1(3) out by metis
  have cf: "copy_files (abs_path tn) (abs_path (dn @ [n])) copy_wal g =
      (case r1 of Inl e \<Rightarrow> (h1, Inl (Io e)) | Inr _ \<Rightarrow>
         if copy_wal then (case r2 of Inl e \<Rightarrow> (h2, Inl (Io e)) | Inr _ \<Rightarrow> (h2, Inr (abs_path (tn @ [n]), abs_path tn, False)))
         else (h1, Inr (abs_path (tn @ [n]), abs_path tn, True)))"
    using c1 c2 by (auto simp: copy_files_def file_name_abs[OF assms(3)] pj sidecar_abs Let_def split: sum.splits)
  then show "aside tn f h" using assms(1) k1(1) k2(1) link2 by (auto split: sum.splits if_splits)
  have f1: "file_at h1 (tn @ [n]) = file_at f (dn @ [n]) \<and> file_at f (dn @ [n]) \<noteq> None" if "r1 = Inr ()"
    using k1(2)[OF that] aside_file[OF assms(2,10,8)] by simp
  have f2: "file_at h2 (tn @ [n]) = file_at h1 (tn @ [n])" "file_at h2 (tn @ [n @ ''-wal'']) = file_at f (dn @ [n @ ''-wal''])"
    if "copy_wal" "r1 = Inr ()" "r2 = Inr ()"
  proof -
    note k2' = k2[OF mp[OF link2 that(1)]]
    show "file_at h2 (tn @ [n @ ''-wal'']) = file_at f (dn @ [n @ ''-wal''])"
      using k2'(2)[OF that(3)] aside_file[OF k1(1) assms(10)] assms(11) that(1) by simp
    have j: "i < next_inode h1" if "node_at h1 (tn @ [n]) = Some (FFile i)" for i
      using k1(2) \<open>r1 = Inr ()\<close> that by simp
    show "file_at h2 (tn @ [n]) = file_at h1 (tn @ [n])"
      using k2'(3)[of "tn @ [n]"] k2'(4) j by (auto simp: file_at_def split: option.splits node.splits)
  qed
  show "r = Inr (db, dir, immutable) \<Longrightarrow> dir = abs_path tn \<and> db = abs_path (tn @ [n]) \<and> immutable = (\<not> copy_wal)
    \<and> file_at f (dn @ [n]) \<noteq> None \<and> file_at h (tn @ [n]) = file_at f (dn @ [n]) \<and> (copy_wal \<longrightarrow> file_at h (tn @ [n @ ''-wal'']) = file_at f (dn @ [n @ ''-wal'']))"
    using assms(1) cf f1 f2 by (auto split: sum.splits if_splits)
qed


lemma snapshot_spec:
  assumes "fs_ok f" "list_all name_ok (dn @ [n])" "real_dir f dn" "list_all name_ok tn" "real_parents f tn"
    "\<forall>i. length (fd_content (inodes f i)) < 2 ^ 64"
    "snapshot_catalog_for_shared_read (abs_path tn) (abs_path (dn @ [n])) f = (g, r)"
    "faults f OpLstat (abs_path (dn @ [n @ ''-wal''])) \<noteq> Some NotFound"
  shows "\<not> prefix tn ms \<Longrightarrow> node_at g ms = node_at f ms \<and> file_at g ms = file_at f ms"
    "r = Inr (db, dir, immutable) \<Longrightarrow> dir = abs_path tn \<and> db = abs_path (tn @ [n]) \<and> file_at f (dn @ [n]) \<noteq> None \<and> file_at g (tn @ [n]) = file_at f (dn @ [n])
       \<and> (if immutable then file_at f (dn @ [n @ ''-wal'']) \<in> {None, Some []} else file_at g (tn @ [n @ ''-wal'']) = file_at f (dn @ [n @ ''-wal'']))"
proof -
  let ?p = "abs_path (dn @ [n])" and ?w = "dn @ [n @ ''-wal'']"
  have w: "list_all name_ok ?w" "sidecar_path ?p ''-wal'' = abs_path ?w" using assms(2) by (auto simp: name_ok_def sidecar_abs)
  have rp: "real_parents f (dn @ [n])" "real_parents f ?w" using assms(3) by (simp_all add: real_parents_snoc)
  consider "g = f" "\<exists>e. r = Inl e"
    | (copied) m wal where "symlink_metadata ?p f = Inr m" "md_kind m = KFile" "sidecar_metadata (abs_path ?w) f = Inr wal"
        "copy_catalog_snapshot (abs_path tn) ?p (case wal of None \<Rightarrow> False | Some m \<Rightarrow> 0 < md_len m) f = (g, r)"
    using assms(7) unfolding snapshot_catalog_for_shared_read_def w(2) by (auto split: if_splits sum.splits)
  then have "(\<not> prefix tn ms \<longrightarrow> node_at g ms = node_at f ms \<and> file_at g ms = file_at f ms)
    \<and> (r = Inr (db, dir, immutable) \<longrightarrow> dir = abs_path tn \<and> db = abs_path (tn @ [n]) \<and> file_at f (dn @ [n]) \<noteq> None \<and> file_at g (tn @ [n]) = file_at f (dn @ [n])
       \<and> (if immutable then file_at f ?w \<in> {None, Some []} else file_at g (tn @ [n @ ''-wal'']) = file_at f ?w))"
  proof cases
    case copied
    define cw where "cw = (case wal of None \<Rightarrow> False | Some m \<Rightarrow> 0 < md_len m)"
    obtain i where i: "node_at f (dn @ [n]) = Some (FFile i)" using symlink_metadata_Inr[OF assms(2) rp(1) copied(1)] copied(2) by auto
    have wal: "if cw then \<exists>k. node_at f ?w = Some (FFile k) else file_at f ?w \<in> {None, Some []}"
    proof (cases "symlink_metadata (abs_path ?w) f")
      case (Inl e)
      have "node_at f ?w = None" using copied(3) Inl locate_real[OF w(1) rp(2), of False] assms(8)
        by (auto simp: sidecar_metadata_def symlink_metadata_def io_bind_def fault_free_def split: if_splits sum.splits option.splits)
      then show ?thesis using copied(3) Inl by (auto simp: sidecar_metadata_def cw_def file_at_def split: if_splits)
    next
      case (Inr m')
      then obtain k where "node_at f ?w = Some (FFile k)" "m' = metadata_of f (FFile k)" "wal = Some m'"
        using symlink_metadata_Inr[OF w(1) rp(2) Inr] copied(3) by (auto simp: sidecar_metadata_def split: if_splits)
      moreover have "unat (of_nat (length (fd_content (inodes f k))) :: u64) = length (fd_content (inodes f k))" using assms(6) by (simp add: unat_of_nat_u64)
      ultimately show ?thesis by (auto simp: cw_def file_at_def metadata_of_def word_less_nat_alt)
    qed
    show ?thesis
    proof (cases "create_dir (abs_path tn) f")
      case (Inl e)
      then show ?thesis using copied(4) by (auto simp: copy_catalog_snapshot_def)
    next
      case (Inr f1)
      note c = created_aside[OF assms(1,4,5) Inr]
      have np: "\<not> prefix tn dn" "\<not> prefix tn (dn @ [n])" "cw \<longrightarrow> \<not> prefix tn ?w"
      proof -
        have d: "node_at f ns \<noteq> None" if "prefix ns dn" for ns
          using assms(3) that by (cases "ns = dn") (auto simp: real_dir_def real_parents_def prefix_def dest!: spec[of _ "length ns"])
        show "\<not> prefix tn dn" "\<not> prefix tn (dn @ [n])" "cw \<longrightarrow> \<not> prefix tn ?w" using c(2) i wal d[of tn] by auto
      qed
      have "take k dn \<noteq> tn" for k using np(1) take_is_prefix by metis
      then have d1: "real_dir f1 dn" using assms(3) c(3) np(1) by (metis prefix_order.refl real_dir_def real_parents_def)
      obtain h r1 where h: "copy_files (abs_path tn) ?p cw f1 = (h, r1)" by fastforce
      have l: "\<forall>t. node_at f1 (dn @ [n]) \<noteq> Some (FSymlink t)" "cw \<longrightarrow> (\<forall>t. node_at f1 ?w \<noteq> Some (FSymlink t))"
        using i wal c(3) np by (auto split: if_splits)
      note s = copy_files_spec[OF h c(1) assms(2,4) d1 l np(2,1) assms(1) np(3)]
      have rm: "removed_in {ms. prefix tn ms} h (remove_dir_all (abs_path tn) h)"
        using s(1) c(2) by (intro remove_dir_all_removes[OF assms(4)]) (auto simp: aside_def real_dir_def)
      have "g = h \<and> r = r1 \<or> g = remove_dir_all (abs_path tn) h \<and> (\<exists>e. r = Inl e)"
        using copied(4) Inr h by (auto simp: copy_catalog_snapshot_def cw_def split: sum.splits)
      moreover have "node_at h ms = node_at f ms \<and> file_at h ms = file_at f ms" if "\<not> prefix tn ms"
        using s(1) aside_file[OF s(1) assms(1)] that by (auto simp: aside_def)
      moreover have "node_at (remove_dir_all (abs_path tn) h) ms = node_at h ms \<and> file_at (remove_dir_all (abs_path tn) h) ms = file_at h ms" if "\<not> prefix tn ms"
      proof -
        have "inodes (remove_dir_all (abs_path tn) h) = inodes h" "node_at (remove_dir_all (abs_path tn) h) ms = node_at h ms"
          using rm that by (simp_all add: removed_in_def)
        then show ?thesis by (simp only: file_at_def simp_thms)
      qed
      ultimately show ?thesis using s(2)[of db dir immutable] wal by (auto split: if_splits)
    qed
  qed auto
  then show "\<not> prefix tn ms \<Longrightarrow> node_at g ms = node_at f ms \<and> file_at g ms = file_at f ms"
    "r = Inr (db, dir, immutable) \<Longrightarrow> dir = abs_path tn \<and> db = abs_path (tn @ [n]) \<and> file_at f (dn @ [n]) \<noteq> None \<and> file_at g (tn @ [n]) = file_at f (dn @ [n])
       \<and> (if immutable then file_at f ?w \<in> {None, Some []} else file_at g (tn @ [n @ ''-wal'']) = file_at f ?w)" by blast+
qed



section \<open>Properties\<close>

text \<open>
  C18 (safety). A shared read leaves the store alone: whether the snapshot succeeds or fails at any
  point, cleaning up included, every name outside the temporary directory and the content of every
  file there is as before. A snapshot that succeeds has a copy of the database, and either a copy of
  the write-ahead log, or there is no log with content and the copy may be opened as immutable.
\<close>

theorem shared_read_touches_only_its_copy:
  assumes "fs_ok f" "list_all name_ok (dn @ [n])" "real_dir f dn" "list_all name_ok tn" "real_parents f tn"
    "\<forall>i. length (fd_content (inodes f i)) < 2 ^ 64"
    "snapshot_catalog_for_shared_read (abs_path tn) (abs_path (dn @ [n])) f = (g, r)"
    "faults f OpLstat (abs_path (dn @ [n @ ''-wal''])) \<noteq> Some NotFound"
  shows "(\<forall>ms. \<not> prefix tn ms \<longrightarrow> node_at g ms = node_at f ms \<and> file_at g ms = file_at f ms)
    \<and> (\<forall>db dir immutable. r = Inr (db, dir, immutable) \<longrightarrow>
         dir = abs_path tn \<and> db = abs_path (tn @ [n]) \<and> file_at f (dn @ [n]) \<noteq> None \<and> file_at g (tn @ [n]) = file_at f (dn @ [n])
         \<and> (if immutable then file_at f (dn @ [n @ ''-wal'']) \<in> {None, Some []}
            else file_at g (tn @ [n @ ''-wal'']) = file_at f (dn @ [n @ ''-wal''])))"
  using snapshot_spec[OF assms] by blast

text \<open>
  C19 (roundtrip). The URI by which a copy is opened names exactly its file and nothing else: SQLite
  decodes the canonical path from it, whatever bytes it has, and the query is the program's own, so no
  file name can change the mode a catalog is opened with.
\<close>

theorem read_only_uri_names_its_file:
  assumes "sqlite_read_only_uri p immutable f = Inr uri"
  shows "\<exists>absolute. canonicalize p f = Inr absolute \<and> uri_filename uri = Some absolute
    \<and> dropWhile (\<lambda>c. c \<noteq> CHR ''?'') uri = ''?mode=ro'' @ (if immutable then ''&immutable=1'' else [])"
proof -
  obtain absolute where a: "canonicalize p f = Inr absolute"
    "uri = ''file:'' @ concat (map uri_byte absolute) @ ''?mode=ro'' @ (if immutable then ''&immutable=1'' else [])"
    using assms by (auto simp: sqlite_read_only_uri_def result_simps)
  have "CHR ''?'' \<notin> set (uri_byte c)" for c
  proof -
    have "byte c < 256" by (rule nat_of_char_less_256)
    then have "byte c div 16 < 16" "byte c mod 16 < 16" by linarith+
    moreover have "hex_value CHR ''?'' = None" by (simp add: hex_value_def)
    ultimately have "upper_hex (byte c div 16) \<noteq> CHR ''?''" "upper_hex (byte c mod 16) \<noteq> CHR ''?''"
      using upper_hex_value by (metis option.distinct(1))+
    then show ?thesis by (auto simp: uri_byte_def uri_plain_def Let_def)
  qed
  then have q: "\<forall>c\<in>set (concat (map uri_byte absolute)). c \<noteq> CHR ''?''" by auto
  have "uri_filename uri = Some absolute" using uri_decode_path[of absolute "''?mode=ro'' @ (if immutable then ''&immutable=1'' else [])"]
    by (simp add: uri_filename_def a(2))
  moreover have "dropWhile (\<lambda>c. c \<noteq> CHR ''?'') uri = ''?mode=ro'' @ (if immutable then ''&immutable=1'' else [])"
    unfolding a(2) using dropWhile_append2[of "concat (map uri_byte absolute)" "\<lambda>c. c \<noteq> CHR ''?''"] q by simp
  ultimately show ?thesis using a(1) by blast
qed

text \<open>A copy that cannot be opened stays behind: nothing removes its directory.\<close>

lemma failed_open_leaves_copy:
  assumes "fs_ok f" "list_all name_ok (dn @ [n])" "real_dir f dn" "list_all name_ok tn" "real_parents f tn"
    "\<forall>i. length (fd_content (inodes f i)) < 2 ^ 64" "faults f OpLstat (abs_path (dn @ [n @ ''-wal''])) \<noteq> Some NotFound"
    "snapshot_catalog_for_shared_read (abs_path tn) (abs_path (dn @ [n])) f = (g, Inr snapshot)" "\<And>uri. connect uri g = Inl e"
  shows "\<exists>e'. open_existing_read_only connect (abs_path tn) (abs_path (dn @ [n])) f = (g, Inl e') \<and> file_at g (tn @ [n]) \<noteq> None"
proof -
  obtain db dir im where s: "snapshot = (db, dir, im)" by (cases snapshot)
  have "file_at g (tn @ [n]) \<noteq> None" using snapshot_spec(2)[OF assms(1-6,8,7), of db dir im] s by auto
  moreover have "\<exists>e'. bind_result (sqlite_read_only_uri db im g) (\<lambda>uri. bind_result (connect uri g) (\<lambda>c. Inr (c, dir))) = Inl e'"
    using assms(9) by (cases "sqlite_read_only_uri db im g") simp_all
  ultimately show ?thesis using assms(8) s by (auto simp: open_existing_read_only_def)
qed

text \<open>A store whose database has a write-ahead log, and a file whose name looks like a query.\<close>

definition shared_fs :: fs where
  "shared_fs = \<lparr>nodes = [([''s''], FDir), ([''s'', ''db''], FFile 0), ([''s'', ''db-wal''], FFile 1), ([''t''], FDir), ([''s'', ''a?mode=rw''], FFile 0)],
     inodes = (\<lambda>i. \<lparr>fd_content = (if i = 0 then ''pages'' else ''frames''), fd_mtime = None, fd_readonly = False\<rparr>), next_inode = 2, fs_device = 0,
     faults = (\<lambda>_ _. None)\<rparr>"

lemma shared_fs_ok: "fs_ok shared_fs" "real_dir shared_fs [''s'']" "real_parents shared_fs [''t'', ''x'']" "list_all name_ok [''s'', ''db'']"
  "list_all name_ok [''t'', ''x'']" "\<forall>i. length (fd_content (inodes shared_fs i)) < 2 ^ 64" "faults shared_fs op p \<noteq> Some NotFound"
  by (auto simp: fs_ok_def real_dir_def real_parents_def node_at_def shared_fs_def name_ok_def less_Suc_eq)

lemma shared_snapshot: "snd (snapshot_catalog_for_shared_read ''/t/x'' ''/s/db'' shared_fs) = Inr (''/t/x/db'', ''/t/x'', False)"
  by code_simp

theorem shared_read_touches_only_its_copy_witness:
  "\<exists>g. snapshot_catalog_for_shared_read ''/t/x'' ''/s/db'' shared_fs = (g, Inr (''/t/x/db'', ''/t/x'', False))
     \<and> file_at g [''s'', ''db''] = Some ''pages'' \<and> file_at g [''t'', ''x'', ''db''] = Some ''pages'' \<and> file_at g [''t'', ''x'', ''db-wal''] = Some ''frames''"
proof -
  have p: "abs_path [''t'', ''x''] = ''/t/x''" "abs_path [''s'', ''db''] = ''/s/db''" by (simp_all add: abs_path_def)
  obtain g where g: "snapshot_catalog_for_shared_read (abs_path [''t'', ''x'']) (abs_path ([''s''] @ [''db''])) shared_fs = (g, Inr (''/t/x/db'', ''/t/x'', False))"
    using shared_snapshot p by (metis append_Cons append_Nil prod.collapse)
  have f: "file_at shared_fs [''s'', ''db''] = Some ''pages''" "file_at shared_fs [''s'', ''db-wal''] = Some ''frames''"
    by (simp_all add: file_at_def node_at_def shared_fs_def)
  show ?thesis
    using shared_read_touches_only_its_copy[OF shared_fs_ok(1) _ shared_fs_ok(2,5,3,6) g shared_fs_ok(7)] shared_fs_ok(4) g p f by (auto simp: prefix_def)
qed

theorem read_only_uri_names_its_file_witness:
  "\<exists>uri. sqlite_read_only_uri ''/s/a?mode=rw'' True shared_fs = Inr uri \<and> uri_filename uri = Some ''/s/a?mode=rw''
     \<and> dropWhile (\<lambda>c. c \<noteq> CHR ''?'') uri = ''?mode=ro&immutable=1''"
proof -
  have c: "canonicalize ''/s/a?mode=rw'' shared_fs = Inr ''/s/a?mode=rw''" by code_simp
  then obtain uri where u: "sqlite_read_only_uri ''/s/a?mode=rw'' True shared_fs = Inr uri" by (simp add: sqlite_read_only_uri_def)
  show ?thesis using read_only_uri_names_its_file[OF u] u c by simp
qed

end
