(* ===== verification/Jsonl.thy ===== *)
theory Jsonl
  imports Telemetry
begin

text \<open>
  The JSON Lines renderer of \<^verbatim>\<open>telemetry.rs\<close>. How the \<^verbatim>\<open>serde_json\<close> crate writes an object is a
  parameter; the stream can take a part of a record and then fail.
\<close>

section \<open>Records\<close>

definition schema_version :: u64 where "schema_version = 1"

text \<open>The entries \<open>Serialize\<close> writes, in their order.\<close>

definition event_entries :: "telemetry_event \<Rightarrow> (string \<times> telemetry_value) list" where
  "event_entries e = [(''schema_version'', Count schema_version), (''command'', Text (te_command e)), (''event'', Text (te_event e))] @ te_fields e"

type_synonym json_object = "(string \<times> telemetry_value) list \<Rightarrow> string"

definition newline :: char where "newline = CHR 0x0A"

record jsonl_sink =
  js_output :: string
  js_failed :: bool
  js_count :: nat

definition jsonl_new :: jsonl_sink where
  "jsonl_new = \<lparr>js_output = [], js_failed = False, js_count = 0\<rparr>"

text \<open>
  One record: the object, a newline and a flush. \<open>accepts n\<close> says how the stream treats the n-th record:
  it takes all of it, or only so many bytes before an error.
\<close>

definition jsonl_emit :: "json_object \<Rightarrow> (nat \<Rightarrow> nat option) \<Rightarrow> telemetry_event \<Rightarrow> jsonl_sink \<Rightarrow> jsonl_sink" where
  "jsonl_emit json accepts e s =
     (let line = json (event_entries e) @ [newline]
      in case accepts (js_count s) of
           None \<Rightarrow> s\<lparr>js_output := js_output s @ line, js_count := js_count s + 1\<rparr>
         | Some k \<Rightarrow> s\<lparr>js_output := js_output s @ take k line, js_failed := True, js_count := js_count s + 1\<rparr>)"

definition jsonl_stream :: "json_object \<Rightarrow> (nat \<Rightarrow> nat option) \<Rightarrow> telemetry_event list \<Rightarrow> jsonl_sink" where
  "jsonl_stream json accepts es = fold (jsonl_emit json accepts) es jsonl_new"


section \<open>Reading a stream back\<close>

text \<open>A consumer: records are lines, and an object that a JSON parser accepts is read as an event.\<close>

fun split_lines :: "string \<Rightarrow> string \<Rightarrow> string list" where
  "split_lines acc [] = (if acc = [] then [] else [acc])"
| "split_lines acc (c # cs) = (if c = newline then acc # split_lines [] cs else split_lines (acc @ [c]) cs)"

fun read_event :: "(string \<times> telemetry_value) list \<Rightarrow> telemetry_event option" where
  "read_event ((v, Count n) # (c, Text command) # (k, Text event) # rest) =
     (if v = ''schema_version'' \<and> n = schema_version \<and> c = ''command'' \<and> k = ''event''
      then Some \<lparr>te_command = command, te_event = event, te_fields = rest\<rparr> else None)"
| "read_event _ = None"

fun read_stream :: "(string \<Rightarrow> (string \<times> telemetry_value) list option) \<Rightarrow> string list \<Rightarrow> telemetry_event list option" where
  "read_stream parse [] = Some []"
| "read_stream parse (l # ls) =
     Option.bind (parse l) (\<lambda>entries. Option.bind (read_event entries) (\<lambda>e. map_option (Cons e) (read_stream parse ls)))"

text \<open>What the crate documents: a written object is read back, and control characters are escaped.\<close>

definition json_laws :: "json_object \<Rightarrow> (string \<Rightarrow> (string \<times> telemetry_value) list option) \<Rightarrow> bool" where
  "json_laws json parse \<longleftrightarrow> (\<forall>es. parse (json es) = Some es \<and> newline \<notin> set (json es))"

lemma split_lines_line: "newline \<notin> set l \<Longrightarrow> split_lines acc (l @ newline # rest) = (acc @ l) # split_lines [] rest"
  by (induction l arbitrary: acc) auto

lemma read_event_entries: "read_event (event_entries e) = Some e"
  by (cases e) (simp add: event_entries_def)

lemma jsonl_failed: "js_failed s \<Longrightarrow> js_failed (fold (jsonl_emit json accepts) es s)"
  by (induction es arbitrary: s) (simp_all add: jsonl_emit_def Let_def split: option.splits)

lemma jsonl_output:
  assumes "\<not> js_failed (fold (jsonl_emit json accepts) es s)"
  shows "js_output (fold (jsonl_emit json accepts) es s) = js_output s @ concat (map (\<lambda>e. json (event_entries e) @ [newline]) es)"
  using assms
proof (induction es arbitrary: s)
  case (Cons e es)
  have "\<not> js_failed (jsonl_emit json accepts e s)" using Cons.prems jsonl_failed[of "jsonl_emit json accepts e s"] by auto
  then have "js_output (jsonl_emit json accepts e s) = js_output s @ json (event_entries e) @ [newline]"
    by (auto simp: jsonl_emit_def Let_def split: option.splits)
  then show ?case using Cons by simp
qed simp

lemma read_written:
  assumes "json_laws json parse"
  shows "read_stream parse (split_lines [] (concat (map (\<lambda>e. json (event_entries e) @ [newline]) es))) = Some es"
proof (induction es)
  case (Cons e es)
  have "newline \<notin> set (json (event_entries e))" "parse (json (event_entries e)) = Some (event_entries e)" using assms by (auto simp: json_laws_def)
  then show ?case using Cons by (simp add: split_lines_line read_event_entries)
qed simp

lemma stream_read_back:
  assumes "json_laws json parse" "\<not> js_failed (jsonl_stream json accepts es)"
  shows "read_stream parse (split_lines [] (js_output (jsonl_stream json accepts es))) = Some es"
  using jsonl_output[of json accepts es jsonl_new] assms read_written[OF assms(1)] by (simp add: jsonl_stream_def jsonl_new_def)

end
