(* ===== verification/Cli.thy ===== *)
theory Cli
  imports Jsonl Dashboard StoreAudit Config "HOL-Library.Countable"
begin

text \<open>
  \<^verbatim>\<open>cli.rs\<close> and \<^verbatim>\<open>main.rs\<close>: how arguments become a configuration, the report every command writes, the
  events that frame a command, and its exit status. Parsing the command line itself is left to the
  \<^verbatim>\<open>clap\<close> crate; what a command does, its result and the events it emits meanwhile, is an argument.
\<close>

section \<open>Arguments\<close>

datatype output_mode = OutputAuto | OutputHuman | OutputJsonl

definition uses_jsonl :: "output_mode \<Rightarrow> bool \<Rightarrow> bool" where
  "uses_jsonl mode stdout_is_terminal \<longleftrightarrow> mode = OutputJsonl \<or> mode = OutputAuto \<and> \<not> stdout_is_terminal"

record audit_args =
  aa_store :: path
  aa_db :: "path option"
  aa_chunk_size :: nat

record gc_args =
  gca_store :: path
  gca_db :: "path option"
  gca_dry_run :: bool
  gca_chunk_size :: nat

record import_args =
  ia_store :: path
  ia_source :: path
  ia_db :: "path option"
  ia_dry_run :: bool
  ia_no_metadata_skip :: bool
  ia_chunk_size :: nat
  ia_workers_per_mount :: nat

record build_tree_args =
  ba_store :: path
  ba_browse_tree :: path
  ba_db :: "path option"
  ba_dry_run :: bool
  ba_hash_digits :: nat

datatype command_args = ImportArgs import_args | BuildTreeArgs build_tree_args | AuditArgs audit_args | GcArgs gc_args

record cli =
  cli_output :: output_mode
  cli_args :: command_args

datatype cli_command = CliImport import_config | CliBuildTree "build_tree_config \<times> path" | CliAudit audit_config | CliGc gc_config

definition try_from :: "command_args \<Rightarrow> fs \<Rightarrow> cli_command result" where
  "try_from args f =
     (case args of
        ImportArgs a \<Rightarrow>
          bind_result (import_config_from_options
            \<lparr>io_store = ia_store a, io_source = ia_source a, io_db = ia_db a, io_dry_run = ia_dry_run a,
             io_metadata_skip = (\<not> ia_no_metadata_skip a), io_chunk_size = ia_chunk_size a,
             io_workers_per_mount = ia_workers_per_mount a\<rparr> f) (\<lambda>config. Inr (CliImport config))
      | BuildTreeArgs a \<Rightarrow>
          bind_result (build_tree_config_from_options
            \<lparr>bo_store = ba_store a, bo_browse_tree = ba_browse_tree a, bo_db = ba_db a, bo_dry_run = ba_dry_run a,
             bo_hash_digits = ba_hash_digits a\<rparr> f) (\<lambda>config. Inr (CliBuildTree config))
      | AuditArgs a \<Rightarrow>
          bind_result (audit_config_from_options \<lparr>ao_store = aa_store a, ao_db = aa_db a, ao_chunk_size = aa_chunk_size a\<rparr> f)
            (\<lambda>config. Inr (CliAudit config))
      | GcArgs a \<Rightarrow>
          bind_result (gc_config_from_options
            \<lparr>go_store = gca_store a, go_db = gca_db a, go_dry_run = gca_dry_run a, go_chunk_size = gca_chunk_size a\<rparr> f)
            (\<lambda>config. Inr (CliGc config)))"

definition parse_config :: "cli \<Rightarrow> fs \<Rightarrow> (cli_command \<times> output_mode) result" where
  "parse_config c f = bind_result (try_from (cli_args c) f) (\<lambda>command. Inr (command, cli_output c))"


section \<open>Human reports\<close>

definition text_line :: "string \<Rightarrow> string" where
  "text_line s = s @ [newline]"

definition count_line :: "string \<Rightarrow> u64 \<Rightarrow> string" where
  "count_line label n = text_line (label @ '': '' @ u64_text n)"

definition finding_text :: "integrity_finding \<Rightarrow> string" where
  "finding_text x =
     text_line (if details x = [] then category x @ '' '' @ identity x else category x @ '' '' @ identity x @ '' '' @ details x)"

definition render_findings :: "integrity_finding list \<Rightarrow> string" where
  "render_findings xs = concat (map finding_text xs)"

definition render_gc_action :: "gc_action \<Rightarrow> bool \<Rightarrow> string" where
  "render_gc_action a dry_run =
     (let prefix = (if dry_run then ''WOULD_'' else []); hash = as_str (ga_hash a)
      in text_line (case ga_kind a of
           Mark \<Rightarrow> prefix @ ''MARK '' @ hash @ '' bytes='' @ u64_text (ga_size a)
         | Resurrect \<Rightarrow> prefix @ ''RESURRECT '' @ hash
         | Sweep \<Rightarrow>
             if ga_source a = Some AlreadyAbsent then prefix @ ''SWEEP '' @ hash @ '' bytes='' @ u64_text (ga_size a) @ '' state=already-absent''
             else prefix @ ''SWEEP '' @ hash @ '' bytes='' @ u64_text (ga_size a)))"

text \<open>The order of reports: kinds as they are declared, then hashes.\<close>

fun kind_rank :: "gc_action_kind \<Rightarrow> nat" where
  "kind_rank Mark = 0"
| "kind_rank Resurrect = 1"
| "kind_rank Sweep = 2"

definition sorted_actions :: "gc_action list \<Rightarrow> gc_action list" where
  "sorted_actions as = sort_key (\<lambda>a. (kind_rank (ga_kind a), ga_hash a)) as"

definition u64_len :: "'a list \<Rightarrow> u64" where
  "u64_len xs = of_nat (length xs)"

definition gc_counts :: "string \<Rightarrow> u64 \<Rightarrow> u64 \<Rightarrow> u64 \<Rightarrow> string" where
  "gc_counts label m r s =
     text_line (label @ '': marks='' @ u64_text m @ '' resurrections='' @ u64_text r @ '' sweeps='' @ u64_text s)"

text \<open>The texts written one after the other: findings or actions first, then the buffered rest.\<close>

definition gc_summary_text :: "gc_report \<Rightarrow> bool \<Rightarrow> string" where
  "gc_summary_text r incomplete =
     (if incomplete then
        text_line ''GC incomplete''
        @ gc_counts ''Planned actions'' (planned_marks r) (planned_resurrections r) (planned_sweeps r)
        @ gc_counts ''Completed catalog actions'' (completed_marks r) (completed_resurrections r) (completed_sweeps r)
        @ count_line ''CAS files removed'' (cas_files_removed r)
        @ count_line ''Logical bytes unlinked'' (bytes_unlinked r)
        @ count_line ''Bytes reclaimed'' (bytes_reclaimed r)
      else if gr_findings r \<noteq> [] then
        text_line ''GC blocked''
        @ count_line ''Blobs planned for marking'' (planned_marks r)
        @ count_line ''Blobs planned for resurrection'' (planned_resurrections r)
        @ count_line ''Blobs planned for sweeping'' (planned_sweeps r)
      else if gr_dry_run r then
        text_line ''GC dry run complete''
        @ count_line ''Blobs that would be marked'' (planned_marks r)
        @ count_line ''Blobs that would be resurrected'' (planned_resurrections r)
        @ count_line ''Blobs that would be swept'' (planned_sweeps r)
        @ count_line ''Bytes that would be reclaimed'' (bytes_reclaimable r)
      else
        text_line ''GC complete''
        @ count_line ''Blobs marked'' (completed_marks r)
        @ count_line ''Blobs resurrected'' (completed_resurrections r)
        @ count_line ''Blobs swept'' (completed_sweeps r)
        @ count_line ''CAS files removed'' (cas_files_removed r)
        @ count_line ''Bytes reclaimed'' (bytes_reclaimed r))
     @ count_line ''Catalog blobs'' (catalog_blobs r)
     @ count_line ''Reachable blobs'' (reachable_blobs r)
     @ count_line ''Sweep candidates hashed'' (sweep_candidates_hashed r)
     @ count_line ''Findings'' (u64_len (gr_findings r))"

definition render_gc_report :: "gc_report \<Rightarrow> bool \<Rightarrow> string list" where
  "render_gc_report r incomplete =
     (if gr_findings r \<noteq> [] then [render_findings (gr_findings r), text_line [] @ gc_summary_text r incomplete]
      else map (\<lambda>a. render_gc_action a (gr_dry_run r)) (sorted_actions (gr_actions r))
           @ [(if gr_actions r \<noteq> [] then text_line [] else []) @ gc_summary_text r incomplete])"

definition render_audit_report :: "audit_report \<Rightarrow> string list" where
  "render_audit_report r =
     [(if is_clean r then text_line ''Audit clean'' else render_findings (ar_findings r) @ text_line [] @ text_line ''Audit complete'')
      @ count_line ''Catalog blobs'' (ar_catalog_blobs r)
      @ count_line ''CAS blob files'' (ar_cas_files r)
      @ count_line ''Blobs hashed'' (ar_hashed r)
      @ count_line ''GC candidates'' (ar_gc_candidates r)
      @ count_line ''Findings'' (u64_len (ar_findings r))]"

definition render_import_report :: "import_report \<Rightarrow> string list" where
  "render_import_report r =
     [if ir_dry_run r then
        text_line ''Dry run complete''
        @ count_line ''Files seen'' (files_seen r)
        @ count_line ''Blobs that would be created'' (blobs_created r)
        @ count_line ''Blobs that would be reused'' (blobs_reused r)
        @ count_line ''Source records that would be inserted'' (source_records_inserted r)
        @ count_line ''Source records that would be updated'' (source_records_updated r)
        @ count_line ''Bytes seen'' (bytes_seen r)
        @ count_line ''Bytes that would be written'' (bytes_written r)
        @ count_line ''Files that would skip content reads'' (files_skipped r)
        @ count_line ''Bytes that would skip content reads'' (bytes_skipped r)
        @ count_line ''Files that would be hashed'' (files_hashed r)
        @ count_line ''Bytes that would be hashed'' (bytes_hashed r)
      else
        text_line ''Import complete''
        @ count_line ''Files seen'' (files_seen r)
        @ count_line ''Blobs created'' (blobs_created r)
        @ count_line ''Blobs reused'' (blobs_reused r)
        @ count_line ''Source records inserted'' (source_records_inserted r)
        @ count_line ''Source records updated'' (source_records_updated r)
        @ count_line ''Bytes seen'' (bytes_seen r)
        @ count_line ''Bytes written'' (bytes_written r)
        @ count_line ''Files skipped'' (files_skipped r)
        @ count_line ''Bytes skipped'' (bytes_skipped r)
        @ count_line ''Files hashed'' (files_hashed r)
        @ count_line ''Bytes hashed'' (bytes_hashed r)]"

definition render_build_tree_report :: "build_tree_report \<Rightarrow> string list" where
  "render_build_tree_report r =
     [if bt_dry_run r then
        text_line ''Dry run complete''
        @ count_line ''Desired links'' (desired_links r)
        @ count_line ''Links that would be created'' (links_created r)
        @ count_line ''Links that would be left unchanged'' (links_unchanged r)
        @ count_line ''Links that would be replaced'' (links_replaced r)
        @ count_line ''Stale links that would be removed'' (stale_links_removed r)
        @ count_line ''Directories that would be created'' (directories_created r)
        @ count_line ''Directories that would be pruned'' (directories_pruned r)
      else
        text_line ''Build tree complete''
        @ count_line ''Desired links'' (desired_links r)
        @ count_line ''Links created'' (links_created r)
        @ count_line ''Links unchanged'' (links_unchanged r)
        @ count_line ''Links replaced'' (links_replaced r)
        @ count_line ''Stale links removed'' (stale_links_removed r)
        @ count_line ''Directories created'' (directories_created r)
        @ count_line ''Directories pruned'' (directories_pruned r)]"

text \<open>Writes to standard output: \<open>out n\<close> is the result of the n-th one; what was written before an error stays.\<close>

fun write_texts :: "(nat \<Rightarrow> unit io) \<Rightarrow> string list \<Rightarrow> string list \<Rightarrow> string list \<times> unit result" where
  "write_texts out written [] = (written, Inr ())"
| "write_texts out written (t # ts) =
     (case out (length written) of Inl e \<Rightarrow> (written, Inl (Io e)) | Inr _ \<Rightarrow> write_texts out (written @ [t]) ts)"


section \<open>The events that frame a command\<close>

definition emit_started :: "string \<Rightarrow> bool \<Rightarrow> telemetry_event" where
  "emit_started command dry_run = field (event_new command ''command_started'') ''dry_run'' (Boolean dry_run)"

definition emit_failed :: "string \<Rightarrow> telemetry_event" where
  "emit_failed command = event_new command ''command_failed''"

definition emit_finished :: "string \<Rightarrow> bool \<Rightarrow> telemetry_event" where
  "emit_finished command dry_run = field (event_new command ''command_finished'') ''dry_run'' (Boolean dry_run)"

definition count_fields :: "telemetry_event \<Rightarrow> (string \<times> u64) list \<Rightarrow> telemetry_event" where
  "count_fields e ns = foldl (\<lambda>e (name, n). field e name (Count n)) e ns"

definition import_summary :: "import_report \<Rightarrow> telemetry_event" where
  "import_summary r = count_fields (field (event_new ''import'' ''command_summary'') ''dry_run'' (Boolean (ir_dry_run r)))
     [(''files_seen'', files_seen r), (''files_skipped'', files_skipped r), (''files_hashed'', files_hashed r), (''bytes_seen'', bytes_seen r),
      (''bytes_skipped'', bytes_skipped r), (''bytes_hashed'', bytes_hashed r), (''bytes_written'', bytes_written r),
      (''blobs_created'', blobs_created r), (''blobs_reused'', blobs_reused r), (''source_records_inserted'', source_records_inserted r),
      (''source_records_updated'', source_records_updated r)]"

definition build_tree_summary :: "build_tree_report \<Rightarrow> telemetry_event" where
  "build_tree_summary r = count_fields (field (event_new ''build_tree'' ''command_summary'') ''dry_run'' (Boolean (bt_dry_run r)))
     [(''desired_links'', desired_links r), (''links_created'', links_created r), (''links_unchanged'', links_unchanged r),
      (''links_replaced'', links_replaced r), (''stale_links_removed'', stale_links_removed r), (''directories_created'', directories_created r),
      (''directories_pruned'', directories_pruned r)]"

definition audit_summary :: "audit_report \<Rightarrow> telemetry_event" where
  "audit_summary r = field (count_fields (event_new ''audit'' ''command_summary'')
     [(''catalog_blobs'', ar_catalog_blobs r), (''cas_blob_files'', ar_cas_files r), (''blobs_hashed'', ar_hashed r),
      (''gc_candidates'', ar_gc_candidates r), (''findings'', u64_len (ar_findings r))]) ''clean'' (Boolean (is_clean r))"

definition gc_summary :: "gc_report \<Rightarrow> bool \<Rightarrow> string \<Rightarrow> telemetry_event" where
  "gc_summary r incomplete result = count_fields
     (field (field (field (event_new ''gc'' ''command_summary'') ''dry_run'' (Boolean (gr_dry_run r))) ''incomplete'' (Boolean incomplete))
        ''outcome'' (Text result))
     [(''findings'', u64_len (gr_findings r)), (''planned_marks'', planned_marks r), (''planned_resurrections'', planned_resurrections r),
      (''planned_sweeps'', planned_sweeps r), (''completed_marks'', completed_marks r), (''completed_resurrections'', completed_resurrections r),
      (''completed_sweeps'', completed_sweeps r), (''sweep_candidates_hashed'', sweep_candidates_hashed r), (''catalog_blobs'', catalog_blobs r),
      (''reachable_blobs'', reachable_blobs r), (''cas_files_removed'', cas_files_removed r), (''bytes_reclaimable'', bytes_reclaimable r),
      (''bytes_unlinked'', bytes_unlinked r), (''bytes_reclaimed'', bytes_reclaimed r)]"



section \<open>Commands\<close>

text \<open>What came out of a command.\<close>

datatype command_result = ImportDone "import_report result" | TreeDone "build_tree_report result" | AuditDone "audit_report result"
  | GcDone "gc_outcome result"

text \<open>A finished process: the transport, the texts on standard output and the exit status.\<close>

type_synonym finished = "transport \<times> string list \<times> nat result"

definition ensure_renderer_healthy :: "transport \<Rightarrow> unit result" where
  "ensure_renderer_healthy s = (if tr_failed s then Inl TelemetryFailed else Inr ())"

text \<open>The end of a command that failed.\<close>

definition end_failed :: "render_env \<Rightarrow> bool \<Rightarrow> string \<Rightarrow> error \<Rightarrow> transport \<Rightarrow> finished" where
  "end_failed env jsonl command e s =
     (close_transport env (if jsonl then emit_event env (emit_failed command) s else s), [], Inl e)"

text \<open>
  The end of a command with a report: in JSON Lines mode the summary goes through the transport, in
  human mode the transport is closed first and the report is written after it.
\<close>

definition end_reported ::
    "render_env \<Rightarrow> (nat \<Rightarrow> unit io) \<Rightarrow> bool \<Rightarrow> string \<Rightarrow> bool \<Rightarrow> telemetry_event \<Rightarrow> string list \<Rightarrow> (transport \<Rightarrow> nat result) \<Rightarrow> transport \<Rightarrow> finished" where
  "end_reported env out jsonl command dry_run summary texts status s =
     (let s1 = emit_event env (emit_finished command dry_run) s
      in if jsonl then (let s2 = close_transport env (emit_event env summary s1) in (s2, [], status s2))
         else let s2 = close_transport env s1
              in case write_texts out [] texts of (written, r) \<Rightarrow> (s2, written, bind_result r (\<lambda>_. status s2)))"

definition main_import :: "render_env \<Rightarrow> (nat \<Rightarrow> unit io) \<Rightarrow> bool \<Rightarrow> import_report result \<Rightarrow> transport \<Rightarrow> finished" where
  "main_import env out jsonl r s =
     (case r of
        Inl e \<Rightarrow> end_failed env jsonl ''import'' e s
      | Inr report \<Rightarrow>
          end_reported env out jsonl ''import'' (ir_dry_run report) (import_summary report) (render_import_report report)
            (\<lambda>s. bind_result (ensure_renderer_healthy s) (\<lambda>_. Inr 0)) s)"

definition main_build_tree :: "render_env \<Rightarrow> (nat \<Rightarrow> unit io) \<Rightarrow> bool \<Rightarrow> build_tree_report result \<Rightarrow> transport \<Rightarrow> finished" where
  "main_build_tree env out jsonl r s =
     (case r of
        Inl e \<Rightarrow> end_failed env jsonl ''build_tree'' e s
      | Inr report \<Rightarrow>
          end_reported env out jsonl ''build_tree'' (bt_dry_run report) (build_tree_summary report) (render_build_tree_report report)
            (\<lambda>s. bind_result (ensure_renderer_healthy s) (\<lambda>_. Inr 0)) s)"

definition main_audit :: "render_env \<Rightarrow> (nat \<Rightarrow> unit io) \<Rightarrow> bool \<Rightarrow> audit_report result \<Rightarrow> transport \<Rightarrow> finished" where
  "main_audit env out jsonl r s =
     (case r of
        Inl e \<Rightarrow> end_failed env jsonl ''audit'' e s
      | Inr report \<Rightarrow>
          end_reported env out jsonl ''audit'' False (audit_summary report) (render_audit_report report)
            (\<lambda>s. bind_result (ensure_renderer_healthy s) (\<lambda>_. Inr (if is_clean report then 0 else 2))) s)"

definition main_gc :: "render_env \<Rightarrow> (nat \<Rightarrow> unit io) \<Rightarrow> bool \<Rightarrow> gc_outcome result \<Rightarrow> transport \<Rightarrow> finished" where
  "main_gc env out jsonl r s =
     (case r of
        Inl e \<Rightarrow> end_failed env jsonl ''gc'' e s
      | Inr (Complete report) \<Rightarrow>
          end_reported env out jsonl ''gc'' (gr_dry_run report) (gc_summary report False ''complete'') (render_gc_report report False)
            (\<lambda>s. bind_result (ensure_renderer_healthy s) (\<lambda>_. Inr 0)) s
      | Inr (Blocked report) \<Rightarrow>
          end_reported env out jsonl ''gc'' (gr_dry_run report) (gc_summary report False ''blocked'') (render_gc_report report False)
            (\<lambda>s. bind_result (ensure_renderer_healthy s) (\<lambda>_. Inr 2)) s
      | Inr (Incomplete report e) \<Rightarrow>
          end_reported env out jsonl ''gc'' (gr_dry_run report) (gc_summary report True ''incomplete'') (render_gc_report report True)
            (\<lambda>_. Inl e) s)"

fun command_name :: "command_result \<Rightarrow> string" where
  "command_name (ImportDone _) = ''import''"
| "command_name (TreeDone _) = ''build_tree''"
| "command_name (AuditDone _) = ''audit''"
| "command_name (GcDone _) = ''gc''"

fun main_end :: "render_env \<Rightarrow> (nat \<Rightarrow> unit io) \<Rightarrow> bool \<Rightarrow> command_result \<Rightarrow> transport \<Rightarrow> finished" where
  "main_end env out jsonl (ImportDone r) s = main_import env out jsonl r s"
| "main_end env out jsonl (TreeDone r) s = main_build_tree env out jsonl r s"
| "main_end env out jsonl (AuditDone r) s = main_audit env out jsonl r s"
| "main_end env out jsonl (GcDone r) s = main_gc env out jsonl r s"

text \<open>A whole command: its first event, the events it emits while it runs, its end.\<close>

definition main_command :: "render_env \<Rightarrow> (nat \<Rightarrow> unit io) \<Rightarrow> bool \<Rightarrow> bool \<Rightarrow> telemetry_event list \<Rightarrow> command_result \<Rightarrow> finished" where
  "main_command env out jsonl dry_run events r =
     main_end env out jsonl r (emit_all env (emit_started (command_name r) dry_run # events) transport_new)"

fun command_dry_run :: "cli_command \<Rightarrow> bool" where
  "command_dry_run (CliImport config) = ic_dry_run config"
| "command_dry_run (CliBuildTree config) = bt_dry (fst config)"
| "command_dry_run (CliAudit config) = False"
| "command_dry_run (CliGc config) = gcc_dry_run config"

text \<open>The program: \<open>run\<close> is what the library does for a configuration.\<close>

definition main :: "render_env \<Rightarrow> (nat \<Rightarrow> unit io) \<Rightarrow> bool \<Rightarrow> (cli_command \<Rightarrow> telemetry_event list \<times> command_result) \<Rightarrow> cli \<Rightarrow> fs \<Rightarrow> finished result" where
  "main env out stdout_is_terminal run c f =
     bind_result (parse_config c f) (\<lambda>(command, output).
     case run command of (events, r) \<Rightarrow>
       Inr (main_command env out (uses_jsonl output stdout_is_terminal) (command_dry_run command) events r))"



section \<open>What a process leaves behind\<close>

text \<open>The status a command deserves, whatever happened to its output.\<close>

fun verdict :: "command_result \<Rightarrow> nat result" where
  "verdict (ImportDone r) = bind_result r (\<lambda>_. Inr 0)"
| "verdict (TreeDone r) = bind_result r (\<lambda>_. Inr 0)"
| "verdict (AuditDone r) = bind_result r (\<lambda>report. Inr (if is_clean report then 0 else 2))"
| "verdict (GcDone r) = bind_result r (\<lambda>outcome. case outcome of Complete _ \<Rightarrow> Inr 0 | Blocked _ \<Rightarrow> Inr 2 | Incomplete _ e \<Rightarrow> Inl e)"

fun summary_of :: "command_result \<Rightarrow> (bool \<times> telemetry_event) option" where
  "summary_of (ImportDone (Inr r)) = Some (ir_dry_run r, import_summary r)"
| "summary_of (TreeDone (Inr r)) = Some (bt_dry_run r, build_tree_summary r)"
| "summary_of (AuditDone (Inr r)) = Some (False, audit_summary r)"
| "summary_of (GcDone (Inr (Complete r))) = Some (gr_dry_run r, gc_summary r False ''complete'')"
| "summary_of (GcDone (Inr (Blocked r))) = Some (gr_dry_run r, gc_summary r False ''blocked'')"
| "summary_of (GcDone (Inr (Incomplete r _))) = Some (gr_dry_run r, gc_summary r True ''incomplete'')"
| "summary_of r = None"

definition last_record :: "command_result \<Rightarrow> telemetry_event" where
  "last_record r = (case summary_of r of None \<Rightarrow> emit_failed (command_name r) | Some (_, e) \<Rightarrow> e)"

definition ending :: "bool \<Rightarrow> command_result \<Rightarrow> telemetry_event list" where
  "ending jsonl r = (case summary_of r of None \<Rightarrow> [] | Some (dry_run, _) \<Rightarrow> [emit_finished (command_name r) dry_run])
     @ (if jsonl then [last_record r] else [])"

lemma end_reported_exit:
  assumes "end_reported env out jsonl command dry_run summary texts status s = (s', written, st)"
  shows "st = Inr n \<Longrightarrow> status s' = Inr n" "jsonl \<or> (\<forall>i. out i = Inr ()) \<Longrightarrow> st = status s'"
    "s' = close_transport env (emit_all env (emit_finished command dry_run # (if jsonl then [summary] else [])) s)" "jsonl \<Longrightarrow> written = []"
proof -
  have w: "snd (write_texts out done texts) = Inr ()" if "\<forall>i. out i = Inr ()" for "done" texts
    using that by (induction texts arbitrary: "done") auto
  show "st = Inr n \<Longrightarrow> status s' = Inr n"
    using assms by (auto simp: end_reported_def Let_def bind_result_def split: if_splits prod.splits sum.splits)
  show "jsonl \<or> (\<forall>i. out i = Inr ()) \<Longrightarrow> st = status s'"
    using assms w[of "[]" texts] by (auto simp: end_reported_def Let_def split: if_splits prod.splits)
  show "s' = close_transport env (emit_all env (emit_finished command dry_run # (if jsonl then [summary] else [])) s)"
    using assms by (auto simp: end_reported_def emit_all_def Let_def split: if_splits prod.splits)
  show "jsonl \<Longrightarrow> written = []" using assms by (simp add: end_reported_def Let_def)
qed

text \<open>Every command ends in one of two ways.\<close>

lemma main_end_cases:
  obtains (failed) e where "main_end env out jsonl r s = end_failed env jsonl (command_name r) e s" "verdict r = Inl e" "summary_of r = None"
  | (reported) dry_run texts status where "main_end env out jsonl r s = end_reported env out jsonl (command_name r) dry_run (last_record r) texts status s"
      "summary_of r = Some (dry_run, last_record r)"
      "status = (\<lambda>s. bind_result (ensure_renderer_healthy s) (\<lambda>_. verdict r)) \<or> (\<exists>e. verdict r = Inl e \<and> status = (\<lambda>_. Inl e))"
proof (cases r)
  case (ImportDone q)
  then show thesis using failed reported by (cases q) (simp_all add: main_import_def last_record_def)
next
  case (TreeDone q)
  then show thesis using failed reported by (cases q) (simp_all add: main_build_tree_def last_record_def)
next
  case (AuditDone q)
  then show thesis using failed reported[of False] by (cases q) (auto simp: main_audit_def last_record_def)
next
  case (GcDone q)
  show thesis
  proof (cases q)
    case (Inl e)
    then show thesis using failed GcDone by (simp add: main_gc_def)
  next
    case (Inr outcome)
    then show thesis using reported GcDone by (cases outcome) (simp_all add: main_gc_def last_record_def)
  qed
qed

lemma main_end_status:
  assumes "main_end env out jsonl r s = (s', written, st)"
  shows "st = Inr n \<Longrightarrow> verdict r = Inr n \<and> \<not> tr_failed s'" "\<not> tr_failed s' \<Longrightarrow> jsonl \<or> (\<forall>i. out i = Inr ()) \<Longrightarrow> st = verdict r"
proof -
  show "st = Inr n \<Longrightarrow> verdict r = Inr n \<and> \<not> tr_failed s'"
  proof (cases rule: main_end_cases[of env out jsonl r s])
    case (reported dry_run texts status)
    assume "st = Inr n"
    then have "status s' = Inr n" using end_reported_exit(1)[OF trans[OF reported(1)[symmetric] assms]] by simp
    then show ?thesis using reported(3) by (auto simp: ensure_renderer_healthy_def split: if_splits)
  qed (use assms in \<open>simp add: end_failed_def\<close>)
  show "\<not> tr_failed s' \<Longrightarrow> jsonl \<or> (\<forall>i. out i = Inr ()) \<Longrightarrow> st = verdict r"
  proof (cases rule: main_end_cases[of env out jsonl r s])
    case (reported dry_run texts status)
    assume "\<not> tr_failed s'" "jsonl \<or> (\<forall>i. out i = Inr ())"
    then show ?thesis using end_reported_exit(2)[OF trans[OF reported(1)[symmetric] assms]] reported(3)
      by (auto simp: ensure_renderer_healthy_def)
  qed (use assms in \<open>simp add: end_failed_def\<close>)
qed

lemma main_end_transport:
  assumes "main_end env out jsonl r s = (s', written, st)"
  shows "s' = close_transport env (emit_all env (ending jsonl r) s)" "jsonl \<Longrightarrow> written = []"
proof -
  have "s' = close_transport env (emit_all env (ending jsonl r) s) \<and> (jsonl \<longrightarrow> written = [])"
  proof (cases rule: main_end_cases[of env out jsonl r s])
    case (failed e)
    then show ?thesis using assms by (auto simp: end_failed_def ending_def last_record_def emit_all_def)
  next
    case (reported dry_run texts status)
    then show ?thesis using end_reported_exit(3,4)[OF trans[OF reported(1)[symmetric] assms]] by (auto simp: ending_def)
  qed
  then show "s' = close_transport env (emit_all env (ending jsonl r) s)" "jsonl \<Longrightarrow> written = []" by blast+
qed

definition all_events :: "bool \<Rightarrow> bool \<Rightarrow> telemetry_event list \<Rightarrow> command_result \<Rightarrow> telemetry_event list" where
  "all_events jsonl dry_run events r = emit_started (command_name r) dry_run # events @ ending jsonl r"

lemma main_command_transport:
  assumes "main_command env out jsonl dry_run events r = (s, written, st)"
  shows "s = close_transport env (emit_all env (all_events jsonl dry_run events r) transport_new)" "jsonl \<Longrightarrow> written = []"
  using main_end_transport[OF assms[unfolded main_command_def]] by (simp_all add: all_events_def emit_all_def)

lemma count_fields_event [simp]: "te_event (count_fields e ns) = te_event e"
  by (induction ns arbitrary: e) (auto simp: count_fields_def field_def)

lemma last_record_terminal: "terminal_event (last_record r)"
proof -
  have "te_event e = ''command_summary''" if "summary_of r = Some (d, e)" for d e
    using that by (cases r rule: summary_of.cases)
      (auto simp: import_summary_def build_tree_summary_def audit_summary_def gc_summary_def field_def event_new_def)
  then show ?thesis by (auto simp: last_record_def emit_failed_def event_new_def split: option.splits)
qed



section \<open>Properties\<close>

text \<open>
  C17 (functional). The exit status of a command: a process that exits with a status has closed a
  healthy transport and the status is the one its result deserves (0 for success, 2 for findings);
  conversely, when the transport closed without a failure and, in human mode, standard output took
  the report, the process ends with exactly the verdict, an error of the command included. So no
  failed command and no lost report ever exits with 0 or 2.
\<close>

theorem main_exit_status:
  assumes "main_command env out jsonl dry_run events r = (s, written, status)"
  shows "(\<forall>n. status = Inr n \<longrightarrow> verdict r = Inr n \<and> \<not> tr_failed s)
    \<and> (\<not> tr_failed s \<and> (jsonl \<or> (\<forall>i. out i = Inr ())) \<longrightarrow> status = verdict r)"
  using main_end_status[OF assms[unfolded main_command_def]] by blast

theorem main_exit_status_witness:
  "snd (snd (main_command (steady (\<lambda>_. 0)) (\<lambda>_. Inr ()) False True [] (ImportDone (Inr (empty_import_report True))))) = Inr 0"
proof -
  obtain s written status where m: "main_command (steady (\<lambda>_. 0)) (\<lambda>_. Inr ()) False True [] (ImportDone (Inr (empty_import_report True))) = (s, written, status)"
    by (metis prod_cases3)
  have "\<not> tr_failed s" unfolding main_command_transport(1)[OF m]
    by (rule healthy_never_fails[OF healthy_steady]) (simp add: all_events_def ending_def inbox_capacity_def)
  then show ?thesis using main_exit_status[OF m] m by simp
qed

text \<open>
  C30 (roundtrip). The JSON Lines output of a command: nothing but records is written to standard
  output, a consumer that splits it into lines and parses them gets back what the renderer was given,
  every fact without a counter in the order of emission, and exactly one terminal record, the last:
  the summary if the command has a report and \<open>command_failed\<close> otherwise.
\<close>

theorem jsonl_output_reads_back:
  assumes "main_command env out True dry_run events r = (s, written, status)" "\<not> tr_failed s" "\<forall>e\<in>set events. \<not> terminal_event e"
    and "json_laws json parse" "\<not> js_failed (jsonl_stream json accepts (tr_rendered s))"
  shows "written = [] \<and> (\<exists>records. read_stream parse (split_lines [] (js_output (jsonl_stream json accepts (tr_rendered s)))) = Some records
    \<and> filter plain_fact records = filter plain_fact (all_events True dry_run events r)
    \<and> filter terminal_event records = [last_record r] \<and> last records = last_record r)"
proof -
  let ?es = "all_events True dry_run events r"
  note s = main_command_transport[OF assms(1)]
  have n: "\<not> tr_failed (close_transport env (emit_all env ?es transport_new))" using assms(2) s(1) by simp
  note ok = closed_ok[OF n]
  have p: "filter plain_fact (tr_rendered s) = filter plain_fact ?es"
    using rendered_at_close[OF n] pending_not_plain[OF ok(2)] emit_all_plain[OF ok(1) new_ok(1,2)] s(1) by (simp add: new_ok)
  have tp: "plain_fact e" if "terminal_event e" for e :: telemetry_event
    using that by (auto simp: plain_fact_def pending_name_def counted_facts_def gauge_events_def suffix_def)
  have t: "filter terminal_event es = filter terminal_event (filter plain_fact es)" for es :: "telemetry_event list"
    using tp by (induction es) auto
  have "filter terminal_event (tr_rendered s) = filter terminal_event ?es" using t[of "tr_rendered s"] t[of ?es] p by simp
  also have "\<dots> = [last_record r]"
    using assms(3) last_record_terminal[of r]
    by (auto simp: all_events_def ending_def emit_started_def emit_finished_def field_def event_new_def filter_empty_conv split: option.splits)
  finally have f: "filter terminal_event (tr_rendered s) = [last_record r]" .
  obtain pre where "?es = pre @ [last_record r]" by (simp add: all_events_def ending_def)
  then obtain before where "tr_rendered s = before @ [last_record r]"
    using terminal_last[of env pre "last_record r"] n last_record_terminal[of r] s(1) by auto
  then show ?thesis using stream_read_back[OF assms(4,5)] s(2) p f by simp
qed

text \<open>An injective writer without control characters.\<close>

instance telemetry_value :: countable
  by countable_datatype

definition unary_json :: json_object where
  "unary_json es = replicate (to_nat es) CHR ''x''"

lemma unary_json_laws: "json_laws unary_json (\<lambda>l. Some (from_nat (length l)))"
  by (simp add: json_laws_def unary_json_def newline_def)

theorem jsonl_output_reads_back_witness:
  "\<exists>s status records. main_command (steady (\<lambda>_. 0)) (\<lambda>_. Inr ()) True False [] (GcDone (Inl TelemetryFailed)) = (s, [], status)
     \<and> read_stream (\<lambda>l. Some (from_nat (length l))) (split_lines [] (js_output (jsonl_stream unary_json (\<lambda>_. None) (tr_rendered s)))) = Some records
     \<and> last records = emit_failed ''gc''"
proof -
  obtain s written status where m: "main_command (steady (\<lambda>_. 0)) (\<lambda>_. Inr ()) True False [] (GcDone (Inl TelemetryFailed)) = (s, written, status)"
    by (metis prod_cases3)
  have "\<not> tr_failed s" unfolding main_command_transport(1)[OF m]
    by (rule healthy_never_fails[OF healthy_steady]) (simp add: all_events_def ending_def inbox_capacity_def)
  moreover have "\<not> js_failed (jsonl_stream unary_json (\<lambda>_. None) es)" for es
  proof -
    have "\<not> js_failed t \<Longrightarrow> \<not> js_failed (fold (jsonl_emit unary_json (\<lambda>_. None)) es t)" for t
      by (induction es arbitrary: t) (simp_all add: jsonl_emit_def Let_def)
    then show ?thesis by (simp add: jsonl_stream_def jsonl_new_def)
  qed
  ultimately show ?thesis using jsonl_output_reads_back[OF m _ _ unary_json_laws, of "\<lambda>_. None"] m by (auto simp: last_record_def)
qed

text \<open>
  C13 (equivalence). What the exit status of an audit says about the store: 0 means that catalog, blob
  tree and contents agree, even if calls failed on the way; and on a file system without faults, with
  a healthy renderer and output, the status is 0 if they agree and 2 if they do not.
\<close>

theorem audit_exit_status_certifies:
  assumes "store_ok root f" "real_dir f (store_names root @ [''blobs''])" "reads_contents io chunk" "blake3_laws b"
    "permits obs" "\<forall>p. \<not> failed p" "acquire lock root LockShared f = Inr ()" "require_current_schema db = Inr ()"
    "db_ok db" "sizes_fit db" "length (blobs db) < 2 ^ 64" "\<forall>i. length (fd_content (inodes f i)) < 2 ^ 64"
    "inspect_cas root f = Some ins" "length (ci_valid ins) < 2 ^ 64"
    and "audit_store b io obs failed lock root chunk db f = Some r" "main_command env out jsonl False events (AuditDone r) = (s, written, status)"
  defines "sound \<equiv> catalog_consistent db \<and> ci_findings ins = [] \<and> store_matches_catalog b root db f"
  shows "(status = Inr 0 \<longrightarrow> sound)
    \<and> (no_faults f \<and> \<not> tr_failed s \<and> (jsonl \<or> (\<forall>i. out i = Inr ())) \<longrightarrow> status = Inr (if sound then 0 else 2))"
proof -
  obtain rep where rep: "r = Inr rep" "is_clean rep \<longrightarrow> sound" "no_faults f \<and> sound \<longrightarrow> is_clean rep"
    using audit_report_spec[OF assms(1-14)] assms(15) unfolding sound_def by auto
  note st = main_end_status[OF assms(16)[unfolded main_command_def]]
  have "status = Inr 0 \<longrightarrow> sound" using st(1)[of 0] rep by (auto split: if_splits)
  moreover have "status = Inr (if sound then 0 else 2)" if "no_faults f" "\<not> tr_failed s" "jsonl \<or> (\<forall>i. out i = Inr ())"
    using st(2)[OF that(2,3)] rep that(1) by auto
  ultimately show ?thesis by blast
qed

theorem audit_exit_status_certifies_witness:
  "\<exists>r. audit_store toy_blake3 plain_io silent (\<lambda>_. False) (\<lambda>_ _. Inr ()) sample_root 4096 sample_gc_db sample_fs2 = Some r
     \<and> snd (snd (main_command (steady (\<lambda>_. 0)) (\<lambda>_. Inr ()) True False [] (AuditDone r))) = Inr 2"
proof -
  note hyps = sample_gc_ok(3-5) toy_blake3_laws permits_silent
  have w: "\<forall>p. \<not> (\<lambda>_. False) p" "length (blobs sample_gc_db) < 2 ^ 64" "no_faults sample_fs2"
    using sample_audit(5) by (auto simp: no_faults_def sample_fs2_def sample_fs_def)
  obtain rep where r: "audit_store toy_blake3 plain_io silent (\<lambda>_. False) (\<lambda>_ _. Inr ()) sample_root 4096 sample_gc_db sample_fs2 = Some (Inr rep)"
    using audit_report_spec[OF hyps w(1) sample_audit(1-4) w(2) sample_audit(7) sample_cas_empty] by auto
  obtain s written status where m: "main_command (steady (\<lambda>_. 0)) (\<lambda>_. Inr ()) True False [] (AuditDone (Inr rep)) = (s, written, status)"
    by (metis prod_cases3)
  have "\<not> tr_failed s" unfolding main_command_transport(1)[OF m]
    by (rule healthy_never_fails[OF healthy_steady]) (simp add: all_events_def ending_def inbox_capacity_def)
  then have "status = Inr 2"
    using audit_exit_status_certifies[OF hyps w(1) sample_audit(1-4) w(2) sample_audit(7) sample_cas_empty _ r m] w(3) sample_audit(6) by auto
  then show ?thesis using r m by auto
qed

end
