(* ===== verification/GcTelemetry.thy ===== *)
theory GcTelemetry
  imports Cli
begin

text \<open>
  What \<^verbatim>\<open>gc.rs\<close> tells the renderer: the events of the preflight, of the committed actions, of the
  findings and of the catalog writer, and what the dashboard shows at the end of a collection.
\<close>

section \<open>Events\<close>

definition gc_event :: "string \<Rightarrow> telemetry_event" where
  "gc_event n = event_new ''gc'' n"

text \<open>The events of \<open>run_preflight\<close>: the start, and one for every candidate that was hashed.\<close>

definition preflight_started :: "gc_plan \<Rightarrow> bool \<Rightarrow> telemetry_event" where
  "preflight_started plan dry_run =
     field (count_fields (gc_event ''gc_preflight_started'')
       [(''sweep_candidates'', u64_len (sweeps plan)),
        (''planned_actions'', of_nat (length (marks plan) + length (resurrections plan) + length (sweeps plan)))])
       ''dry_run'' (Boolean dry_run)"

definition gc_blob_hashed :: "bool \<Rightarrow> blob_hash \<times> u64 \<Rightarrow> telemetry_event" where
  "gc_blob_hashed dry_run h =
     field (field (field (gc_event ''gc_blob_hashed'') ''hash'' (Text (as_str (fst h)))) ''bytes_read'' (Count (snd h))) ''dry_run'' (Boolean dry_run)"

definition emit_gc_preflight_complete :: "gc_report \<Rightarrow> telemetry_event list" where
  "emit_gc_preflight_complete r =
     [field (field (gc_event ''gc_preflight_hashed'') ''blobs_hashed'' (Count (sweep_candidates_hashed r))) ''dry_run'' (Boolean (gr_dry_run r)),
      field (count_fields (gc_event ''gc_preflight_complete'')
        [(''catalog_blobs'', catalog_blobs r), (''reachable_blobs'', reachable_blobs r),
         (''planned_actions'', planned_marks r + planned_resurrections r + planned_sweeps r), (''findings'', u64_len (gr_findings r)),
         (''bytes_reclaimable'', bytes_reclaimable r)]) ''dry_run'' (Boolean (gr_dry_run r))]"

fun kind_name :: "gc_action_kind \<Rightarrow> string" where
  "kind_name Mark = ''mark''"
| "kind_name Resurrect = ''resurrect''"
| "kind_name Sweep = ''sweep''"

definition source_name :: "sweep_source_state option \<Rightarrow> string" where
  "source_name s = (case s of None \<Rightarrow> ''none'' | Some SourcePresent \<Rightarrow> ''present'' | Some AlreadyAbsent \<Rightarrow> ''already_absent'')"

definition gc_action_event :: "bool \<Rightarrow> gc_action \<Rightarrow> telemetry_event" where
  "gc_action_event dry_run a =
     field (field (field (field (field (gc_event ''gc_action'') ''kind'' (Text (kind_name (ga_kind a)))) ''hash'' (Text (as_str (ga_hash a))))
       ''size_bytes'' (Count (ga_size a))) ''dry_run'' (Boolean dry_run)) ''sweep_source_state'' (Text (source_name (ga_source a)))"

definition emit_gc_actions_after_commit :: "gc_report \<Rightarrow> telemetry_event list" where
  "emit_gc_actions_after_commit r =
     (if gr_dry_run r then []
      else [count_fields (gc_event ''gc_catalog_committed'')
              [(''marks'', completed_marks r), (''resurrections'', completed_resurrections r), (''sweeps'', completed_sweeps r),
               (''cas_files_removed'', cas_files_removed r), (''bytes_unlinked'', bytes_unlinked r), (''bytes_reclaimed'', bytes_reclaimed r)]])
     @ map (gc_action_event (gr_dry_run r)) (sorted_actions (gr_actions r))"

definition emit_gc_findings :: "gc_report \<Rightarrow> telemetry_event list" where
  "emit_gc_findings r = map (\<lambda>x. field (field (gc_event ''finding'') ''category'' (Text (category x))) ''identity'' (Text (identity x))) (gr_findings r)"

fun drain_gc_catalog_events :: "catalog_writer_event list \<Rightarrow> telemetry_event list" where
  "drain_gc_catalog_events [] = []"
| "drain_gc_catalog_events (CheckpointCompleted busy log checkpointed # es) =
     count_fields (gc_event ''catalog_checkpoint_completed'')
       [(''busy'', of_int busy), (''log'', of_int log), (''checkpointed'', of_int checkpointed)] # drain_gc_catalog_events es"
| "drain_gc_catalog_events (GcCommitted # es) =
     field (gc_event ''gc_catalog_transaction_committed'') ''partial'' (Boolean False) # drain_gc_catalog_events es"
| "drain_gc_catalog_events (GcPartiallyCommitted # es) =
     field (gc_event ''gc_catalog_transaction_committed'') ''partial'' (Boolean True) # drain_gc_catalog_events es"
| "drain_gc_catalog_events (_ # es) = drain_gc_catalog_events es"

text \<open>
  The events of a run that completes, in the order of \<open>collect_real\<close> and \<open>collect_dry_run\<close>; \<open>hashed\<close> are the candidates the
  preflight hashed, with their sizes.
\<close>

definition complete_run_events :: "preflight \<Rightarrow> (blob_hash \<times> u64) list \<Rightarrow> gc_report \<Rightarrow> catalog_writer_event list \<Rightarrow> telemetry_event list" where
  "complete_run_events pf hashed rep writer_events =
     preflight_started (pf_plan pf) (gr_dry_run rep) # map (gc_blob_hashed (gr_dry_run rep)) hashed
     @ emit_gc_preflight_complete (pf_report pf) @ emit_gc_actions_after_commit rep @ drain_gc_catalog_events writer_events"


section \<open>Plain events reach the renderer unchanged\<close>

lemma plain_emit:
  assumes "\<not> tr_failed (emit_all env es s)" "tr_open s" "pending_ok s" "pending s = []" "\<forall>e\<in>set es. plain_fact e"
  shows "trace (emit_all env es s) = trace s @ es \<and> pending (emit_all env es s) = []"
  using assms
proof (induction es arbitrary: s)
  case (Cons e es)
  let ?s' = "emit_event env e s"
  have nf: "\<not> tr_failed ?s'" using Cons.prems(1) emit_all_failed by (metis emit_all_Cons)
  note ok = emit_event_ok[OF nf Cons.prems(2,3)]
  have g: "tr_gone s \<longrightarrow> tr_failed s" using Cons.prems(3) by (simp add: pending_ok_def)
  from nf Cons.prems(2) g have "trace ?s' = trace s @ [e] \<and> pending ?s' = []"
  proof (cases rule: emit_event_cases)
    case (passed s1)
    have "trace s1 = trace s \<and> pending s1 = []" using passed(1) Cons.prems(4) by (auto simp: moved_def pending_Nil)
    then show ?thesis using evolves_fields[OF passed(2)] by (simp add: pending_def)
  next
    case (coalesced s1)
    then show ?thesis using coalesce_not_plain[OF coalesced(2) nf] Cons.prems(5) by simp
  qed
  then show ?case using Cons.IH[of ?s'] ok Cons.prems by (simp add: emit_all_Cons)
qed (simp add: emit_all_def)

lemma plain_rendered:
  assumes "\<not> tr_failed (close_transport env (emit_all env es transport_new))" "\<forall>e\<in>set es. plain_fact e"
  shows "tr_rendered (close_transport env (emit_all env es transport_new)) = es"
proof -
  have "pending transport_new = []" by (simp add: pending_def transport_new_def)
  then show ?thesis using plain_emit[OF closed_ok(1)[OF assms(1)] new_ok(1,2) _ assms(2)] rendered_at_close[OF assms(1)] by (simp add: new_ok)
qed

lemma field_event [simp]: "te_event (field e n v) = te_event e" "te_event (gc_event n) = n"
  by (simp_all add: field_def gc_event_def event_new_def)

lemma plain_names:
  "te_event e \<in> {''gc_preflight_started'', ''gc_blob_hashed'', ''gc_preflight_hashed'', ''gc_preflight_complete'', ''gc_catalog_committed'', ''gc_action'',
     ''catalog_checkpoint_completed'', ''gc_catalog_transaction_committed'', ''command_started'', ''command_finished''} \<Longrightarrow> plain_fact e"
  by (auto simp: plain_fact_def pending_name_def counted_facts_def gauge_events_def suffix_def)

lemma drained_names:
  "e \<in> set (drain_gc_catalog_events es) \<Longrightarrow> te_event e \<in> {''catalog_checkpoint_completed'', ''gc_catalog_transaction_committed''}"
  by (induction es rule: drain_gc_catalog_events.induct) auto

lemma complete_run_plain: "\<forall>e\<in>set (complete_run_events pf hashed rep ws). plain_fact e"
proof
  fix e assume "e \<in> set (complete_run_events pf hashed rep ws)"
  then have "te_event e \<in> {''gc_preflight_started'', ''gc_blob_hashed'', ''gc_preflight_hashed'', ''gc_preflight_complete'', ''gc_catalog_committed'',
     ''gc_action'', ''catalog_checkpoint_completed'', ''gc_catalog_transaction_committed'', ''command_started'', ''command_finished''}"
    using drained_names[of e ws]
    by (auto simp: complete_run_events_def preflight_started_def gc_blob_hashed_def emit_gc_preflight_complete_def emit_gc_actions_after_commit_def
        gc_action_event_def split: if_splits)
  then show "plain_fact e" by (rule plain_names)
qed



section \<open>The dashboard of a collection\<close>

lemma gc_steps:
  "te_event e = ''gc_preflight_started'' \<Longrightarrow> dashboard_step e d = d\<lparr>d_files := count_field e ''sweep_candidates'',
     d_gc_candidates := count_field e ''sweep_candidates'', d_completed := 0\<rparr>"
  "te_event e = ''gc_preflight_hashed'' \<Longrightarrow> dashboard_step e d = d"
  "te_event e = ''gc_preflight_complete'' \<Longrightarrow> dashboard_step e d = d\<lparr>d_files := count_field e ''planned_actions'', d_skipped := count_field e ''findings'',
     d_committed := count_field e ''catalog_blobs'', d_completed := 0, d_reclaimable := count_field e ''bytes_reclaimable''\<rparr>"
  "te_event e = ''catalog_checkpoint_completed'' \<Longrightarrow> dashboard_step e d = d\<lparr>d_checkpoints := d_checkpoints d + 1\<rparr>"
  "te_event e = ''gc_catalog_transaction_committed'' \<Longrightarrow> dashboard_step e d = d"
  "te_event e = ''command_started'' \<Longrightarrow> dashboard_step e d = d\<lparr>d_command := te_command e\<rparr>"
  "te_event e = ''command_finished'' \<Longrightarrow> dashboard_step e d = d"
  unfolding dashboard_step_def Let_def by simp_all

text \<open>The part of the dashboard that the theorem speaks of.\<close>

definition gc_view :: "dashboard \<Rightarrow> u64 \<times> u64 \<times> u64 \<times> u64 \<times> u64 \<times> u64" where
  "gc_view d = (d_files d, d_completed d, d_skipped d, d_read d, d_batches d, d_unlinked d)"

lemma after_append: "dashboard_after (xs @ ys) d = dashboard_after ys (dashboard_after xs d)" "dashboard_after (x # xs) d = dashboard_after xs (dashboard_step x d)"
  "dashboard_after [] d = d"
  by (simp_all add: dashboard_after_def)

lemma hashed_view:
  "dashboard_after (map (gc_blob_hashed dry) hs) d
    = d\<lparr>d_read := d_read d + (\<Sum>h\<leftarrow>hs. snd h), d_created := d_created d + of_nat (length hs)\<rparr>"
proof (induction hs arbitrary: d)
  case (Cons h hs)
  have "te_event (gc_blob_hashed dry h) = ''gc_blob_hashed''" "count_field (gc_blob_hashed dry h) ''bytes_read'' = snd h"
    by (simp_all add: gc_blob_hashed_def gc_event_def event_new_def field_def count_field_def as_u64_def)
  then show ?case using Cons dashboard_steps(20)[of "gc_blob_hashed dry h"] by (simp add: after_append ac_simps)
qed (simp add: after_append)

lemma actions_view: "dashboard_after (map (gc_action_event dry) as) d = d\<lparr>d_completed := d_completed d + of_nat (length as)\<rparr>"
proof (induction as arbitrary: d)
  case (Cons a as)
  then show ?case using dashboard_steps(21)[of "gc_action_event dry a"] by (simp add: after_append gc_action_event_def ac_simps)
qed (simp add: after_append)

lemma drained_view: "gc_view (dashboard_after (drain_gc_catalog_events ws) d) = gc_view d"
  by (induction ws arbitrary: d rule: drain_gc_catalog_events.induct) (auto simp: after_append gc_steps gc_view_def)

lemma counted: "as_u64 (Count n) = Some n"
  by (simp add: as_u64_def)

lemma complete_run_view:
  assumes "\<not> gr_dry_run rep"
  shows "gc_view (dashboard_after (complete_run_events pf hashed rep ws) d) =
    (planned_marks (pf_report pf) + planned_resurrections (pf_report pf) + planned_sweeps (pf_report pf), of_nat (length (gr_actions rep)),
     u64_len (gr_findings (pf_report pf)), d_read d + (\<Sum>h\<leftarrow>hashed. snd h), d_batches d + 1, d_unlinked d + bytes_unlinked rep)"
proof -
  let ?p = "pf_report pf"
  let ?d1 = "dashboard_after (map (gc_blob_hashed False) hashed) (dashboard_step (preflight_started (pf_plan pf) False) d)"
  have d1: "d_read ?d1 = d_read d + (\<Sum>h\<leftarrow>hashed. snd h)" "d_batches ?d1 = d_batches d" "d_unlinked ?d1 = d_unlinked d"
    using gc_steps(1)[of "preflight_started (pf_plan pf) False" d] by (simp_all add: hashed_view preflight_started_def)
  let ?d2 = "dashboard_after (emit_gc_preflight_complete ?p) ?d1"
  have d2: "gc_view ?d2 = (planned_marks ?p + planned_resurrections ?p + planned_sweeps ?p, 0, u64_len (gr_findings ?p), d_read ?d1, d_batches ?d1, d_unlinked ?d1)"
    by (simp add: emit_gc_preflight_complete_def after_append gc_steps gc_view_def)
      (simp add: count_fields_def field_def gc_event_def event_new_def count_field_def counted)
  let ?c = "count_fields (gc_event ''gc_catalog_committed'')
              [(''marks'', completed_marks rep), (''resurrections'', completed_resurrections rep), (''sweeps'', completed_sweeps rep),
               (''cas_files_removed'', cas_files_removed rep), (''bytes_unlinked'', bytes_unlinked rep), (''bytes_reclaimed'', bytes_reclaimed rep)]"
  have "count_field ?c ''bytes_unlinked'' = bytes_unlinked rep"
    by (simp add: count_fields_def field_def gc_event_def event_new_def count_field_def counted)
  then have c: "dashboard_step ?c ?d2 = ?d2\<lparr>d_batches := d_batches ?d2 + 1, d_unlinked := d_unlinked ?d2 + bytes_unlinked rep\<rparr>"
    using dashboard_steps(22)[of ?c ?d2] by simp
  have "gc_view (dashboard_after (emit_gc_actions_after_commit rep) ?d2) = (planned_marks ?p + planned_resurrections ?p + planned_sweeps ?p,
      of_nat (length (gr_actions rep)), u64_len (gr_findings ?p), d_read ?d1, d_batches ?d1 + 1, d_unlinked ?d1 + bytes_unlinked rep)"
    using assms d2 c by (simp add: emit_gc_actions_after_commit_def after_append actions_view sorted_actions_def gc_view_def)
  then show ?thesis using assms d1 by (simp add: complete_run_events_def after_append drained_view)
qed

text \<open>
  C31 (functional). The dashboard at the end of a collection that completed, at any pace of the
  renderer: it shows as many completed actions as planned ones, which is the number of actions of the
  report, no finding, one committed transaction, the bytes that were unlinked and the bytes read for
  hashing; and if standard output takes the report the process exits with 0.
\<close>

theorem gc_dashboard_shows_the_run:
  assumes "db_inv db" "length (blobs db) < 2 ^ 64" "store_ok root f" "real_dir f (store_names root @ [''blobs''])"
    "reads_contents io chunk" "blake3_laws b" "inspect_catalog_connection db = Inr snap"
    "run_preflight b io obs genv root chunk False snap f = Some (Inr pf)" "gr_findings (pf_report pf) = []"
    "apply_plan genv (catalog_gc_session (stage_call genv)) (filesystem_gc_mutator root) pf db f = (db', f', Inr (Complete rep))"
    and "main_command env out False False (complete_run_events pf hashed rep writer_events) (GcDone (Inr (Complete rep))) = (s, written, status)"
    and "\<not> tr_failed s" "d = dashboard_after (tr_rendered s) (dashboard_new ''gc'')"
  shows "d_completed d = d_files d \<and> d_completed d = of_nat (length (gr_actions rep))
    \<and> d_files d = completed_marks rep + completed_resurrections rep + completed_sweeps rep
    \<and> d_skipped d = 0 \<and> d_batches d = 1 \<and> d_unlinked d = bytes_unlinked rep \<and> d_read d = (\<Sum>h\<leftarrow>hashed. snd h)
    \<and> ((\<forall>i. out i = Inr ()) \<longrightarrow> status = Inr 0)"
proof -
  note K = preflight_counters[OF assms(8)] and Q = apply_plan_planned[OF assms(10)] and P = plan_applicable[OF assms(1-9)]
  note A = rungc.apply_plan_complete[OF assms(1,3) P(1) _ K(1,2) assms(10)]
  note A = A[OF conjunct2[OF P(2)]]
  let ?es = "all_events False False (complete_run_events pf hashed rep writer_events) (GcDone (Inr (Complete rep)))"
  let ?started = "emit_started ''gc'' False" and ?finished = "emit_finished ''gc'' (gr_dry_run rep)"
  have es: "?es = ?started # complete_run_events pf hashed rep writer_events @ [?finished]" by (simp add: all_events_def ending_def)
  have fr: "te_event ?started = ''command_started''" "te_event ?finished = ''command_finished''"
    by (simp_all add: emit_started_def emit_finished_def event_new_def)
  have "\<forall>e\<in>set ?es. plain_fact e" unfolding es using complete_run_plain plain_names[of ?started] plain_names[of ?finished] fr by auto
  then have "tr_rendered s = ?es" using plain_rendered assms(12) main_command_transport(1)[OF assms(11)] by metis
  then have d: "gc_view d = gc_view (dashboard_after (complete_run_events pf hashed rep writer_events) (dashboard_step ?started (dashboard_new ''gc'')))"
    unfolding assms(13) es using gc_steps(7)[OF fr(2)] by (simp add: after_append)
  have dry: "\<not> gr_dry_run rep" using Q(4) K(6) by simp
  have v: "gc_view d = (planned_marks rep + planned_resurrections rep + planned_sweeps rep, of_nat (length (gr_actions rep)), 0,
      (\<Sum>h\<leftarrow>hashed. snd h), 1, bytes_unlinked rep)"
    unfolding d complete_run_view[OF dry] gc_steps(6)[OF fr(1)] using Q(1-3) assms(9) by (simp add: dashboard_new_def u64_len_def)
  have len: "length (pf_candidates pf) = length (sweeps (pf_plan pf))" using P(4) length_map by metis
  have fin: "completed_marks rep = planned_marks rep" "completed_resurrections rep = planned_resurrections rep" "completed_sweeps rep = planned_sweeps rep"
    using A K(3-5) Q(1-3) len by (auto simp: word_unat_eq_iff)
  have n: "unat (planned_marks rep) + unat (planned_resurrections rep) + unat (planned_sweeps rep) = length (gr_actions rep)"
    using A K(3-5) Q(1-3) len by (simp add: dry_actions_def)
  have "of_nat (length (gr_actions rep)) = planned_marks rep + planned_resurrections rep + planned_sweeps rep"
    unfolding n[symmetric] by simp
  moreover have "(\<forall>i. out i = Inr ()) \<longrightarrow> status = Inr 0"
    using main_end_status(2)[OF assms(11)[unfolded main_command_def] assms(12)] by simp
  ultimately show ?thesis using v fin by (simp add: gc_view_def)
qed

theorem gc_dashboard_shows_the_run_witness:
  "\<exists>pf rep s written status. run_preflight toy_blake3 plain_io silent quiet sample_root 4096 False
       \<lparr>blob_rows_seen = 1, gc_candidates = 1, valid_blobs = [(sample_hash CHR ''a'', sample_gc_blob)], snap_findings = []\<rparr> sample_fs2 = Some (Inr pf)
     \<and> main_command (steady (\<lambda>_. 1)) (\<lambda>_. Inr ()) False False (complete_run_events pf [] rep [GcCommitted]) (GcDone (Inr (Complete rep))) = (s, written, status)
     \<and> status = Inr 0 \<and> d_batches (dashboard_after (tr_rendered s) (dashboard_new ''gc'')) = 1"
proof -
  obtain db' rep where r: "collect_real toy_blake3 plain_io silent quiet sample_root 4096 sample_gc_db sample_fs2 = Some (db', sample_fs2, Inr (Complete rep))"
    using sample_gc_run by blast
  obtain snap pf where c: "inspect_catalog_connection sample_gc_db = Inr snap"
    "run_preflight toy_blake3 plain_io silent quiet sample_root 4096 False snap sample_fs2 = Some (Inr pf)" "gr_findings (pf_report pf) = []"
    "apply_plan quiet (catalog_gc_session (stage_call quiet)) (filesystem_gc_mutator sample_root) pf sample_gc_db sample_fs2 = (db', sample_fs2, Inr (Complete rep))"
    using collect_real_complete[OF sample_gc_ok toy_blake3_laws r] .
  obtain s written status where m: "main_command (steady (\<lambda>_. 1)) (\<lambda>_. Inr ()) False False (complete_run_events pf [] rep [GcCommitted])
      (GcDone (Inr (Complete rep))) = (s, written, status)"
    by (metis prod_cases3)
  have a: "gr_actions rep = dry_actions pf"
    using rungc.apply_plan_complete[OF sample_gc_ok(1,3) _ _ preflight_counters(1,2)[OF c(2)] c(4)] plan_applicable[OF sample_gc_ok toy_blake3_laws c(1-3)] by blast
  have sn: "snap = \<lparr>blob_rows_seen = 1, gc_candidates = 1, valid_blobs = [(sample_hash CHR ''a'', sample_gc_blob)], snap_findings = []\<rparr>"
    using c(1) sample_gc_inspect by simp
  have "length (gr_actions rep) \<le> 100" using a c(2) sn sample_preflight[of False] by (auto simp: dry_actions_def)
  then have "\<not> tr_failed s" unfolding main_command_transport(1)[OF m]
    by (intro healthy_never_fails[OF healthy_steady])
      (simp add: all_events_def ending_def inbox_capacity_def complete_run_events_def emit_gc_preflight_complete_def emit_gc_actions_after_commit_def sorted_actions_def)
  then show ?thesis using gc_dashboard_shows_the_run[OF sample_gc_ok toy_blake3_laws c m _ refl] c(2) m unfolding sn by blast
qed

end
