(* ===== verification/ImportRuns.thy ===== *)
theory ImportRuns
  imports IngestRuns WriterRuns Cli
begin

text \<open>
  An import from end to end: the handle of the catalog writer (\<^verbatim>\<open>catalog.rs\<close>), the ends of
  \<open>execute_import\<close>, \<open>real_import\<close> and \<open>import_source_with_clock_and_observer\<close> (\<^verbatim>\<open>ingest.rs\<close>), and the
  catalog events the coordinator passes on. The runs of \<open>IngestRuns\<close> and \<open>WriterRuns\<close>
  meet here: the writer receives what the coordinator submits, and its responses are the answers
  the coordinator reads.
\<close>

section \<open>The handle of the writer\<close>

text \<open>
  \<open>spawn_inner\<close> for an import: the thread opens the catalog and reads the checkpoint setting, and
  reports that it is ready, or the handle returns the thread's error.
\<close>

definition spawn_inner :: "(schema \<Rightarrow> schema option) \<Rightarrow> unit result \<Rightarrow> database \<Rightarrow> writer_state result" where
  "spawn_inner schema_v1 wal_autocheckpoint db =
     bind_result (open_writable_catalog schema_v1 db) (\<lambda>connection.
     bind_result wal_autocheckpoint (\<lambda>_. Inr (writer_start connection)))"

text \<open>\<open>submit\<close>: each request takes a response channel of its own, and channels are numbered as they are made.\<close>

definition submit :: "nat \<Rightarrow> pending_ticket \<Rightarrow> catalog_write_request" where
  "submit response t =
     (case pt_request t of
        PendingImported blob obs \<Rightarrow> ImportedRequest (pt_sequence t) blob obs response
      | PendingKnown obs expected \<Rightarrow> KnownRequest (pt_sequence t) obs expected response)"

definition submit_all :: "pending_ticket list \<Rightarrow> catalog_write_request list" where
  "submit_all ts = map2 submit [0..<length ts] ts"

definition received_requests :: "turn list \<Rightarrow> catalog_write_request list" where
  "received_requests ts = List.map_filter (\<lambda>t. case t_received t of Received request \<Rightarrow> Some request | _ \<Rightarrow> None) ts"

text \<open>
  \<open>finish\<close> drops the sender, which the loop sees as its last receive, and joins the thread. Before
  that the channel is connected; a run has fewer turns than a 64-bit counter counts.
\<close>

definition writer_turns :: "turn list \<Rightarrow> bool" where
  "writer_turns ts \<longleftrightarrow> list_all (\<lambda>t. t_received t \<noteq> received.Disconnected) ts \<and> length ts + 1 < 2 ^ 64"

definition writer_finish :: "writer_env \<Rightarrow> turn list \<Rightarrow> nat \<Rightarrow> writer_state \<Rightarrow> writer_state \<times> catalog_writer_report result" where
  "writer_finish env ts now s =
     (case writer_loop env default_writer_config (ts @ [\<lparr>t_before = now, t_received = received.Disconnected, t_after = now\<rparr>]) s of
        (w, Inl e) \<Rightarrow> (w, Inl e)
      | (w, Inr _) \<Rightarrow> (w, Inr (w_report w)))"


section \<open>The ends of an import\<close>

definition executor_context :: "import_config \<Rightarrow> string \<Rightarrow> ingest_config" where
  "executor_context config source_root_text =
     \<lparr>ig_store = ic_store config, ig_source_text = source_root_text, ig_metadata_skip = ic_metadata_skip config,
      ig_limit = effective_workers_per_mount (ic_workers_per_mount config), ig_outstanding = max_batch_records default_writer_config\<rparr>"

text \<open>\<open>SourceWorkers::finish\<close>: one result per joined thread; a thread that panicked is an error.\<close>

definition workers_finish :: "bool list \<Rightarrow> unit result" where
  "workers_finish panicked = (if list_ex id panicked then Inl (IngestError WorkerFailed) else Inr ())"

text \<open>The result of the loop, and the two tables that join it with the workers' and the writer's. A wrapped error keeps its cause.\<close>

definition coordinator_result :: "ingest_state \<Rightarrow> import_report result option" where
  "coordinator_result s = (case in_phase s of Finished \<Rightarrow> Some (Inr (in_report s)) | Failed e \<Rightarrow> Some (Inl e) | _ \<Rightarrow> None)"

definition execute_result :: "import_report result \<Rightarrow> unit result \<Rightarrow> import_report result" where
  "execute_result run joined = (case run of Inl e \<Rightarrow> Inl e | Inr report \<Rightarrow> (case joined of Inl e \<Rightarrow> Inl e | Inr _ \<Rightarrow> Inr report))"

definition import_result :: "import_report result \<Rightarrow> catalog_writer_report result \<Rightarrow> import_report result" where
  "import_result operation finish =
     (case finish of Inl writer \<Rightarrow> Inl writer | Inr _ \<Rightarrow> operation)"

definition writer_finished :: "catalog_writer_report result \<Rightarrow> ingest_event list" where
  "writer_finished finish = (case finish of Inl _ \<Rightarrow> [] | Inr report \<Rightarrow> [CatalogWriterFinished (checkpoints report)])"

text \<open>What the surroundings of an import decide.\<close>

record import_world =
  iw_ingest :: ingest_env
  iw_writer :: writer_env
  iw_items :: "source_file_candidate result list"
  iw_schema :: "schema \<Rightarrow> schema option"
  iw_new :: database
  iw_wal :: "unit result"
  iw_start :: "unit result"
  iw_panicked :: "bool list"
  iw_lock :: "lock_mode \<Rightarrow> path \<Rightarrow> unit io"
  iw_hash :: "source_file_candidate \<Rightarrow> stored_blob result option"
  iw_cancelled :: "u64 \<Rightarrow> bool \<Rightarrow> bool"

abbreviation request_observation :: "pending_import_request \<Rightarrow> source_observation" where
  "request_observation r \<equiv> (case r of PendingImported _ obs \<Rightarrow> obs | PendingKnown obs _ \<Rightarrow> obs)"

text \<open>
  \<open>execute_import\<close>: its tickets and its result. A blob hash of the program is always one that
  \<open>BlobHash::new\<close> has accepted.
\<close>

inductive execute_import :: "import_world \<Rightarrow> import_config \<Rightarrow> pending_ticket list \<Rightarrow> import_report result \<Rightarrow> bool" for W config where
  source_text: "path_to_utf8 (ic_source config) = Inl e \<Longrightarrow> execute_import W config [] (Inl e)"
| no_workers: "path_to_utf8 (ic_source config) = Inr text \<Longrightarrow> iw_start W = Inl e \<Longrightarrow> execute_import W config [] (Inl e)"
| ran: "path_to_utf8 (ic_source config) = Inr text \<Longrightarrow> iw_start W = Inr u
    \<Longrightarrow> ingest_reachable (iw_ingest W) (executor_context config text) (iw_items W) s \<Longrightarrow> coordinator_result s = Some r
    \<Longrightarrow> \<forall>t\<in>set (in_submitted s). hash_ok (so_hash (request_observation (pt_request t)))
    \<Longrightarrow> execute_import W config (in_submitted s) (execute_result r (workers_finish (iw_panicked W)))"

text \<open>
  \<open>real_import\<close>: its result and the committed catalog, \<open>None\<close> when no writer was started. The channel
  delivers requests in order, and a writer that stops because the channel is closed has received
  all of them; every ticket is answered on its own channel.
\<close>

inductive real_import :: "import_world \<Rightarrow> import_config \<Rightarrow> fs \<Rightarrow> database option \<Rightarrow> import_report result \<Rightarrow> database option \<Rightarrow> bool"
  for W config f db0 where
  staging_fails: "prepare_staging_for_import (ic_store config) f = Some (f1, Inl e) \<Longrightarrow> real_import W config f db0 (Inl e) None"
| open_fails: "prepare_staging_for_import (ic_store config) f = Some (f1, Inr u) \<Longrightarrow> open_if_exists db0 = Inl e
    \<Longrightarrow> real_import W config f db0 (Inl e) None"
| spawn_fails: "prepare_staging_for_import (ic_store config) f = Some (f1, Inr u) \<Longrightarrow> open_if_exists db0 = Inr catalog
    \<Longrightarrow> spawn_inner (iw_schema W) (iw_wal W) (case db0 of None \<Rightarrow> iw_new W | Some db \<Rightarrow> db) = Inl e
    \<Longrightarrow> real_import W config f db0 (Inl e) None"
| ran: "prepare_staging_for_import (ic_store config) f = Some (f1, Inr u) \<Longrightarrow> open_if_exists db0 = Inr catalog
    \<Longrightarrow> spawn_inner (iw_schema W) (iw_wal W) (case db0 of None \<Rightarrow> iw_new W | Some db \<Rightarrow> db) = Inr w0
    \<Longrightarrow> execute_import W config submitted r
    \<Longrightarrow> writer_turns ts \<Longrightarrow> prefix (received_requests ts) (submit_all submitted) \<Longrightarrow> writer_finish (iw_writer W) ts now w0 = (w, finish)
    \<Longrightarrow> (\<forall>report. finish = Inr report \<longrightarrow> received_requests ts = submit_all submitted)
    \<Longrightarrow> (\<forall>i<length submitted. ie_answer (iw_ingest W) (pt_sequence (submitted ! i)) = resolve_detailed (pt_sequence (submitted ! i)) i w)
    \<Longrightarrow> real_import W config f db0 (import_result r finish) (Some (w_durable w))"

definition make_store_directory :: "store_root \<Rightarrow> fs \<Rightarrow> fs io" where
  "make_store_directory root f =
     (case create_dir (store_path root) f of Inr f1 \<Rightarrow> Inr f1 | Inl e \<Rightarrow> if e = AlreadyExists then Inr f else Inl e)"

text \<open>\<open>import_source_with_clock_and_observer\<close>: a dry run changes nothing; a real one makes the store directory and locks it.\<close>

inductive import_source :: "import_world \<Rightarrow> import_config \<Rightarrow> fs \<Rightarrow> database option \<Rightarrow> import_report result \<Rightarrow> database option \<Rightarrow> bool"
  for W config f db0 where
  dry_lock_fails: "ic_dry_run config \<Longrightarrow> path_exists (store_path (ic_store config)) f
    \<Longrightarrow> acquire (iw_lock W) (ic_store config) LockShared f = Inl e \<Longrightarrow> import_source W config f db0 (Inl e) None"
| dry_run: "ic_dry_run config
    \<Longrightarrow> path_exists (store_path (ic_store config)) f \<Longrightarrow> acquire (iw_lock W) (ic_store config) LockShared f = Inr u
    \<Longrightarrow> dry_run_import (iw_hash W) config db0 f (iw_cancelled W) (iw_items W) = Some r \<Longrightarrow> import_source W config f db0 r None"
| dry_no_store: "ic_dry_run config \<Longrightarrow> \<not> path_exists (store_path (ic_store config)) f
    \<Longrightarrow> dry_run_import (iw_hash W) config db0 f (iw_cancelled W) (iw_items W) = Some r \<Longrightarrow> import_source W config f db0 r None"
| create_fails: "\<not> ic_dry_run config \<Longrightarrow> make_store_directory (ic_store config) f = Inl e \<Longrightarrow> import_source W config f db0 (Inl (Io e)) None"
| lock_fails: "\<not> ic_dry_run config \<Longrightarrow> make_store_directory (ic_store config) f = Inr f1
    \<Longrightarrow> acquire (iw_lock W) (ic_store config) LockExclusive f1 = Inl e \<Longrightarrow> import_source W config f db0 (Inl e) None"
| locked: "\<not> ic_dry_run config \<Longrightarrow> make_store_directory (ic_store config) f = Inr f1
    \<Longrightarrow> acquire (iw_lock W) (ic_store config) LockExclusive f1 = Inr u \<Longrightarrow> real_import W config f1 db0 r db
    \<Longrightarrow> import_source W config f db0 r db"

inductive_cases execute_importE: "execute_import W config submitted (Inr report)"
inductive_cases real_importE: "real_import W config f db0 r db"
inductive_cases import_sourceE: "import_source W config f db0 r db"


section \<open>What the coordinator passes on\<close>

text \<open>\<open>drain_catalog_events\<close>: what the coordinator passes on of the writer's events.\<close>

fun drain_catalog_events :: "catalog_writer_event list \<Rightarrow> ingest_event list" where
  "drain_catalog_events [] = []"
| "drain_catalog_events (BatchCommitted n _ # es) = CatalogBatchCommitted n # drain_catalog_events es"
| "drain_catalog_events (CheckpointCompleted busy log checkpointed # es) =
     CatalogCheckpointCompleted busy log checkpointed # drain_catalog_events es"
| "drain_catalog_events (CheckpointRequested _ False # es) = CatalogCheckpointRequested # drain_catalog_events es"
| "drain_catalog_events (_ # es) = drain_catalog_events es"


section \<open>The catalog after a batch\<close>

text \<open>What the two tables hold of an observation that was recorded last for its path.\<close>

definition recorded :: "database \<Rightarrow> source_observation \<Rightarrow> bool" where
  "recorded db obs \<longleftrightarrow>
     (\<exists>s b. lookup_source db (so_root obs) (rel_str (so_rel obs)) = Some s \<and> s_hash s = SText (as_str (so_hash obs))
        \<and> s_size s = SInteger (uint (so_size obs)) \<and> s_modified s = sql_opt (so_modified obs)
        \<and> lookup_blob db (as_str (so_hash obs)) = Some b \<and> b_size b = SInteger (uint (so_size obs)) \<and> b_deleted b = SNull)"

definition known_from :: "source_observation \<Rightarrow> known_source" where
  "known_from obs = \<lparr>ks_hash = so_hash obs, ks_source_size = so_size obs, ks_modified = so_modified obs, ks_blob_size = so_size obs, ks_deleted = None\<rparr>"

abbreviation source_key :: "source_observation \<Rightarrow> string \<times> string" where
  "source_key obs \<equiv> (so_root obs, rel_str (so_rel obs))"

lemma recorded_known:
  assumes "db_ok db" "recorded db obs" "hash_ok (so_hash obs)"
  shows "known_source_file db (so_root obs) (so_rel obs) = Inr (Some (known_from obs))"
proof -
  obtain s b where s: "lookup_source db (so_root obs) (rel_str (so_rel obs)) = Some s" "s_hash s = SText (as_str (so_hash obs))"
    "s_size s = SInteger (uint (so_size obs))" "s_modified s = sql_opt (so_modified obs)"
    "lookup_blob db (as_str (so_hash obs)) = Some b" "b_size b = SInteger (uint (so_size obs))" "b_deleted b = SNull"
    using assms(2) unfolding recorded_def by blast
  have "select_known_source_file_sql (so_root obs) (rel_str (so_rel obs)) db = Some (s, b)" using select_known_lookup[OF assms(1) s(1,2,5)] .
  then show ?thesis using s assms(3) by (simp add: known_source_file_def known_from_def)
qed

text \<open>A record keeps what the catalog holds of other paths: it may touch a shared blob only to clear its mark.\<close>

lemma recorded_elsewhere:
  assumes "recorded db obs'" "source_key obs' \<noteq> (root, rel)"
    "\<And>a b. (a, b) \<noteq> (root, rel) \<Longrightarrow> lookup_source db' a b = lookup_source db a b"
    "\<And>h'. h' \<noteq> h \<Longrightarrow> lookup_blob db' h' = lookup_blob db h'"
    "\<And>b. lookup_blob db h = Some b \<Longrightarrow> lookup_blob db' h = Some (b\<lparr>b_deleted := SNull\<rparr>)"
  shows "recorded db' obs'"
proof -
  have "\<exists>b. lookup_blob db' (as_str (so_hash obs')) = Some b \<and> b_size b = SInteger (uint (so_size obs')) \<and> b_deleted b = SNull"
    using assms(1) assms(4)[of "as_str (so_hash obs')"] assms(5) by (cases "as_str (so_hash obs') = h") (auto simp: recorded_def)
  then show ?thesis using assms(1) assms(3)[OF assms(2)] by (auto simp: recorded_def)
qed

definition same_kind :: "pending_import_request \<Rightarrow> import_write_outcome \<Rightarrow> bool" where
  "same_kind r out = ((case r of PendingImported _ _ \<Rightarrow> True | PendingKnown _ _ \<Rightarrow> False) = (case out of Imported _ _ \<Rightarrow> True | ObservedKnown \<Rightarrow> False))"

lemma apply_pending_records:
  assumes "apply_pending p db = Inr (db', out)" "db_ok db" "hash_ok (so_hash (request_observation (pi_request p)))"
  shows "db_ok db'" "recorded db' (request_observation (pi_request p))"
    "\<And>obs'. recorded db obs' \<Longrightarrow> source_key obs' \<noteq> source_key (request_observation (pi_request p)) \<Longrightarrow> recorded db' obs'"
    "same_kind (pi_request p) out"
proof -
  have "db_ok db' \<and> recorded db' (request_observation (pi_request p))
    \<and> (\<forall>obs'. recorded db obs' \<longrightarrow> source_key obs' \<noteq> source_key (request_observation (pi_request p)) \<longrightarrow> recorded db' obs')
    \<and> same_kind (pi_request p) out"
  proof (cases "pi_request p")
    case (PendingImported blob obs)
    then obtain bo so where r: "record_imported_file_in_transaction db blob obs = Inr (db', bo, so)" and out: "out = Imported bo so"
      using assms(1) by (auto simp: apply_pending_def result_simps)
    have "br_hash blob = so_hash obs"
      using r by (auto simp: record_imported_file_in_transaction_def validate_imported_record_def result_simps split: if_splits)
    then have h: "hash_ok (br_hash blob)" using assms(3) PendingImported by simp
    note l = record_imported_lookups[OF assms(2) h r]
    have "recorded db' obs" using l(4-7) by (auto simp: recorded_def upsert_row_def split: option.splits)
    moreover have "recorded db' obs'" if "recorded db obs'" "source_key obs' \<noteq> source_key obs" for obs'
      using recorded_elsewhere[OF that, of db' "as_str (br_hash blob)"] l(2,3,4) by (auto split: option.splits)
    ultimately show ?thesis using l(1) PendingImported out by (simp add: same_kind_def)
  next
    case (PendingKnown obs sz)
    then have r: "observe_known_source_file_in_transaction db obs sz = Inr db'" and out: "out = ObservedKnown"
      using assms(1) by (auto simp: apply_pending_def result_simps)
    note l = observe_known_lookups[OF assms(2) r]
    have "recorded db' obs" using l(4,5) by (auto simp: recorded_def observe_row_def)
    moreover have "recorded db' obs'" if "recorded db obs'" "source_key obs' \<noteq> source_key obs" for obs'
      using recorded_elsewhere[OF that, of db' "as_str (so_hash obs)"] l(2,3,4) by auto
    ultimately show ?thesis using l(1) PendingKnown out by (simp add: same_kind_def)
  qed
  then show "db_ok db'" "recorded db' (request_observation (pi_request p))"
    "\<And>obs'. recorded db obs' \<Longrightarrow> source_key obs' \<noteq> source_key (request_observation (pi_request p)) \<Longrightarrow> recorded db' obs'"
    "same_kind (pi_request p) out"
    by blast+
qed

text \<open>After a batch the catalog holds, for every path of the batch, the last record of that path.\<close>

abbreviation observed_by :: "pending_import \<Rightarrow> source_observation" where
  "observed_by p \<equiv> request_observation (pi_request p)"

lemma apply_batch_records:
  assumes "apply_batch ps db = Inr (db', outs)" "db_ok db" "\<forall>p\<in>set ps. hash_ok (so_hash (observed_by p))"
  shows "db_ok db' \<and> (\<forall>p\<in>set ps. \<exists>q\<in>set ps. source_key (observed_by q) = source_key (observed_by p) \<and> recorded db' (observed_by q))
    \<and> (\<forall>obs. recorded db obs \<longrightarrow> (\<forall>p\<in>set ps. source_key (observed_by p) \<noteq> source_key obs) \<longrightarrow> recorded db' obs)
    \<and> list_all2 (\<lambda>p. same_kind (pi_request p)) ps outs"
  using assms
proof (induction ps arbitrary: db outs)
  case (Cons p ps)
  obtain db1 out outs1 where a: "apply_pending p db = Inr (db1, out)" "apply_batch ps db1 = Inr (db', outs1)" "outs = out # outs1"
    using Cons.prems(1) by (auto split: sum.splits)
  have "hash_ok (so_hash (observed_by p))" using Cons.prems(3) by simp
  note r = apply_pending_records[OF a(1) Cons.prems(2) this]
  have ih: "db_ok db'" "\<forall>p\<in>set ps. \<exists>q\<in>set ps. source_key (observed_by q) = source_key (observed_by p) \<and> recorded db' (observed_by q)"
    "\<forall>obs. recorded db1 obs \<longrightarrow> (\<forall>p\<in>set ps. source_key (observed_by p) \<noteq> source_key obs) \<longrightarrow> recorded db' obs"
    "list_all2 (\<lambda>p. same_kind (pi_request p)) ps outs1"
    using Cons.IH[OF a(2) r(1)] Cons.prems(3) by auto
  have "\<exists>q\<in>set (p # ps). source_key (observed_by q) = source_key (observed_by p) \<and> recorded db' (observed_by q)"
  proof (cases "\<exists>q\<in>set ps. source_key (observed_by q) = source_key (observed_by p)")
    case True
    then show ?thesis using ih(2) by (metis list.set_intros(2))
  next
    case False
    then show ?thesis using ih(3) r(2) by auto
  qed
  moreover have "recorded db' obs" if "recorded db obs" "\<forall>p'\<in>set (p # ps). source_key (observed_by p') \<noteq> source_key obs" for obs
    using ih(3) r(3)[OF that(1)] that(2) by auto
  ultimately show ?case using ih(1,2,4) r(4) a(3) by auto
qed auto


section \<open>What the writer makes of the tickets\<close>

definition ticket_imports :: "pending_ticket list \<Rightarrow> pending_import list" where
  "ticket_imports ts = map2 (\<lambda>i t. \<lparr>pi_sequence = pt_sequence t, pi_request = pt_request t, pi_response = i\<rparr>) [0..<length ts] ts"

lemma pending_from_submit [simp]:
  "pending_from (submit i t) = Some \<lparr>pi_sequence = pt_sequence t, pi_request = pt_request t, pi_response = i\<rparr>"
  by (simp add: pending_from_def submit_def split: pending_import_request.splits)

lemma map_filter_submit: "List.map_filter pending_from (map2 submit is ts) = map2 (\<lambda>i t. \<lparr>pi_sequence = pt_sequence t, pi_request = pt_request t, pi_response = i\<rparr>) is ts"
  by (induction "is" ts rule: list_induct2') (auto simp: List.map_filter_simps)

lemma import_requests_received: "import_requests ts = List.map_filter pending_from (received_requests ts)"
  by (induction ts) (auto simp: import_requests_def received_requests_def List.map_filter_simps split: received.splits option.splits)

lemma received_mem: "t \<in> set ts \<Longrightarrow> t_received t = Received request \<Longrightarrow> request \<in> set (received_requests ts)"
  by (induction ts) (auto simp: received_requests_def List.map_filter_simps split: option.splits)

lemma ticket_imports_simps:
  "length (ticket_imports ts) = length ts" "map pi_response (ticket_imports ts) = [0..<length ts]"
  "pi_request ` set (ticket_imports ts) = pt_request ` set ts" "i < length ts \<Longrightarrow> pi_request (ticket_imports ts ! i) = pt_request (ts ! i)"
proof -
  show l: "length (ticket_imports ts) = length ts" "i < length ts \<Longrightarrow> pi_request (ticket_imports ts ! i) = pt_request (ts ! i)" for i
    by (simp_all add: ticket_imports_def)
  show "map pi_response (ticket_imports ts) = [0..<length ts]" by (rule nth_equalityI) (simp_all add: ticket_imports_def)
  have "map pi_request (ticket_imports ts) = map pt_request ts" by (rule nth_equalityI) (simp_all add: ticket_imports_def)
  then show "pi_request ` set (ticket_imports ts) = pt_request ` set ts" by (metis set_map)
qed

lemma all_ok_responses:
  assumes "all_ok w"
  shows "w_responses w = map (\<lambda>(ch, out). (ch, ImportResponse (Inr out))) (ok_responses w)"
proof -
  have "rs = map (\<lambda>(ch, out). (ch, ImportResponse (Inr out))) (List.map_filter ok_of rs)" if "list_all (\<lambda>(ch, r). \<exists>out. r = ImportResponse (Inr out)) rs" for rs
    using that by (induction rs) (auto simp: List.map_filter_simps)
  then show ?thesis using assms by (simp add: all_ok_def ok_responses_def)
qed

lemma writer_loop_returns:
  assumes "writer_loop_inner env config i (ts @ [t]) s = ((s', Inr b), rest)" "t_received t = received.Disconnected"
  shows "b"
  using assms(1)
proof (induction ts arbitrary: i s)
  case Nil
  have "c" if "writer_step env config i t s = (s1, Inr c)" for s1 c
    using that assms(2) by (auto simp: writer_step_def then_step_Inr)
  then show ?case using Nil by (auto split: prod.splits sum.splits bool.splits)
next
  case (Cons u ts)
  then show ?case by (auto split: prod.splits sum.splits bool.splits)
qed

text \<open>A writer that finishes has recorded the tickets one after the other, and answers each with its outcome.\<close>

lemma finished_writer:
  assumes "writer_finish env ts now (writer_start db) = (w, Inr report)" "writer_turns ts" "received_requests ts = submit_all tks"
  obtains outs where "apply_batch (ticket_imports tks) db = Inr (w_durable w, outs)" "length outs = length tks"
    "\<And>i q. i < length tks \<Longrightarrow> resolve_detailed q i w = Inr (outs ! i)"
proof -
  let ?ts = "ts @ [\<lparr>t_before = now, t_received = received.Disconnected, t_after = now\<rparr>]"
  obtain b where b: "writer_loop env default_writer_config ?ts (writer_start db) = (w, Inr b)"
    using assms(1) by (auto simp: writer_finish_def split: prod.splits sum.splits)
  have "b" using b by (auto simp: writer_loop_def split: prod.splits sum.splits dest: writer_loop_returns)
  have p: "\<forall>t\<in>set ?ts. \<forall>request. t_received t = Received request \<longrightarrow> pending_from request \<noteq> None"
    using received_mem[of _ ts] unfolding assms(3) by (fastforce simp: submit_all_def set_zip)
  have r: "import_requests ?ts = ticket_imports tks"
    using assms(3) map_filter_submit[of "[0..<length tks]" tks]
    by (simp add: import_requests_received received_requests_def submit_all_def ticket_imports_def List.map_filter_def)
  obtain outs where o: "apply_batch (ticket_imports tks) db = Inr (w_durable w, outs)" "ok_responses w = zip [0..<length tks] outs" "all_ok w"
    using import_run_serial[of env default_writer_config ?ts db w] b \<open>b\<close> p assms(2) unfolding r ticket_imports_simps
    by (auto simp: default_writer_config_def writer_turns_def list_all_iff)
  have l: "length outs = length tks" using apply_batch_length[OF o(1)] by (simp add: ticket_imports_simps)
  have "map_of (w_responses w) i = Some (ImportResponse (Inr (outs ! i)))" if "i < length tks" for i
    unfolding all_ok_responses[OF o(3)] o(2) using that l
    by (intro map_of_is_SomeI) (auto simp: map_fst_zip split_def comp_def in_set_zip intro!: image_eqI[of _ _ "(i, outs ! i)"] exI[of _ i])
  then have "resolve_detailed q i w = Inr (outs ! i)" if "i < length tks" for i q using that by (simp add: resolve_detailed_def)
  then show ?thesis using that o(1) l by blast
qed


section \<open>A successful import\<close>

lemma spawned:
  assumes "spawn_inner schema_v1 wal db = Inr w0" "db_ok db"
  obtains db1 where "w0 = writer_start db1" "db_ok db1"
proof -
  obtain db1 where w: "w0 = writer_start db1" "open_writable_catalog schema_v1 db = Inr db1"
    using assms(1) by (auto simp: spawn_inner_def result_simps)
  then have "db_ok db1" using assms(2)
    by (auto simp: open_writable_catalog_def migrate_def result_simps db_ok_def key_hashes_def split: if_splits option.splits)
  then show thesis using that w(1) by blast
qed

text \<open>The answers of a writer that finished are those its tickets ask for.\<close>

lemma answers_fit:
  assumes "list_all2 (\<lambda>p. same_kind (pi_request p)) (ticket_imports tks) outs" "\<forall>i<length tks. answer (pt_sequence (tks ! i)) = Inr (outs ! i)"
  shows "\<forall>t\<in>set tks. answer_fits t (answer (pt_sequence t))"
proof
  fix t assume "t \<in> set tks"
  then obtain i where i: "i < length tks" "t = tks ! i" by (auto simp: in_set_conv_nth)
  then have "same_kind (pt_request t) (outs ! i)" using list_all2_nthD[OF assms(1), of i] by (simp add: ticket_imports_simps)
  then show "answer_fits t (answer (pt_sequence t))" using assms(2) i by (simp add: answer_fits_def is_import_def same_kind_def)
qed

lemma import_succeeded:
  assumes "import_source W config f db0 (Inr report) db" "\<not> ic_dry_run config"
  obtains w0 s root ts now w where "spawn_inner (iw_schema W) (iw_wal W) (case db0 of None \<Rightarrow> iw_new W | Some d \<Rightarrow> d) = Inr w0"
    "path_to_utf8 (ic_source config) = Inr root" "ingest_reachable (iw_ingest W) (executor_context config root) (iw_items W) s" "in_phase s = Finished"
    "report = in_report s" "\<forall>t\<in>set (in_submitted s). hash_ok (so_hash (request_observation (pt_request t)))"
    "writer_turns ts" "received_requests ts = submit_all (in_submitted s)" "writer_finish (iw_writer W) ts now w0 = (w, Inr (w_report w))"
    "\<forall>i<length (in_submitted s). ie_answer (iw_ingest W) (pt_sequence (in_submitted s ! i)) = resolve_detailed (pt_sequence (in_submitted s ! i)) i w"
    "db = Some (w_durable w)"
proof -
  obtain f1 where "real_import W config f1 db0 (Inr report) db" using assms by (auto elim: import_sourceE)
  then obtain w0 submitted ts now w finish where r: "spawn_inner (iw_schema W) (iw_wal W) (case db0 of None \<Rightarrow> iw_new W | Some d \<Rightarrow> d) = Inr w0"
    "execute_import W config submitted (Inr report)" "writer_turns ts" "writer_finish (iw_writer W) ts now w0 = (w, Inr finish)"
    "received_requests ts = submit_all submitted"
    "\<forall>i<length submitted. ie_answer (iw_ingest W) (pt_sequence (submitted ! i)) = resolve_detailed (pt_sequence (submitted ! i)) i w"
    "db = Some (w_durable w)"
    by (auto elim!: real_importE simp: import_result_def split: sum.splits)
  have fin: "finish = w_report w" using r(4) by (auto simp: writer_finish_def split: prod.splits sum.splits)
  from r(2) obtain root s where "path_to_utf8 (ic_source config) = Inr root" "submitted = in_submitted s"
    "ingest_reachable (iw_ingest W) (executor_context config root) (iw_items W) s" "in_phase s = Finished" "report = in_report s"
    "\<forall>t\<in>set (in_submitted s). hash_ok (so_hash (request_observation (pt_request t)))"
    by (auto elim!: execute_importE simp: execute_result_def coordinator_result_def split: sum.splits ingest_phase.splits)
  then show thesis using that r fin by blast
qed

text \<open>What a finished import leaves in the catalog for each candidate.\<close>

definition catalogued :: "database \<Rightarrow> string \<Rightarrow> source_file_candidate list \<Rightarrow> source_file_candidate \<Rightarrow> bool" where
  "catalogued db source_root cs c \<longleftrightarrow>
     (\<exists>c'\<in>set cs. \<exists>h. sc_relative c' = sc_relative c \<and> hash_ok h
        \<and> known_source_file db source_root (sc_relative c) =
            Inr (Some \<lparr>ks_hash = h, ks_source_size = sc_size c', ks_modified = sc_modified c', ks_blob_size = sc_size c', ks_deleted = None\<rparr>))"

lemma successful_import:
  assumes "import_source W config f db0 (Inr report) db" "\<not> ic_dry_run config" "0 < ic_workers_per_mount config"
    "db_ok (case db0 of None \<Rightarrow> iw_new W | Some d \<Rightarrow> d)"
  obtains adm root d where "iw_items W = map Inr adm" "path_to_utf8 (ic_source config) = Inr root" "db = Some d" "db_ok d"
    "files_seen report = of_nat (length adm)" "source_records_inserted report + source_records_updated report = of_nat (length adm)"
    "\<forall>c\<in>set adm. catalogued d root adm c"
proof -
  obtain w0 s root ts now w where r: "spawn_inner (iw_schema W) (iw_wal W) (case db0 of None \<Rightarrow> iw_new W | Some d \<Rightarrow> d) = Inr w0"
    "path_to_utf8 (ic_source config) = Inr root" "ingest_reachable (iw_ingest W) (executor_context config root) (iw_items W) s" "in_phase s = Finished"
    "report = in_report s" "\<forall>t\<in>set (in_submitted s). hash_ok (so_hash (request_observation (pt_request t)))"
    "writer_turns ts" "received_requests ts = submit_all (in_submitted s)" "writer_finish (iw_writer W) ts now w0 = (w, Inr (w_report w))"
    "\<forall>i<length (in_submitted s). ie_answer (iw_ingest W) (pt_sequence (in_submitted s ! i)) = resolve_detailed (pt_sequence (in_submitted s ! i)) i w"
    "db = Some (w_durable w)"
    by (rule import_succeeded[OF assms(1,2)])
  obtain db1 where w0: "w0 = writer_start db1" "db_ok db1" by (rule spawned[OF r(1) assms(4)])
  obtain outs where o: "apply_batch (ticket_imports (in_submitted s)) db1 = Inr (w_durable w, outs)"
    "\<And>i q. i < length (in_submitted s) \<Longrightarrow> resolve_detailed q i w = Inr (outs ! i)"
    using finished_writer[OF r(9)[unfolded w0(1)] r(7,8)] by metis
  have "\<forall>p\<in>set (ticket_imports (in_submitted s)). hash_ok (so_hash (observed_by p))"
    using r(6) imageI[of _ "set (ticket_imports (in_submitted s))" pi_request] unfolding ticket_imports_simps(3) by fastforce
  note b = apply_batch_records[OF o(1) w0(2) this]
  have fits: "\<forall>t\<in>set (in_submitted s). answer_fits t (ie_answer (iw_ingest W) (pt_sequence t))"
    using answers_fit[of "in_submitted s" outs] b r(10) o(2) by simp
  have "0 < ig_limit (executor_context config root)"
    using assms(3) by (simp add: executor_context_def effective_workers_per_mount_def capacities)
  from finished_accounts[OF r(3) this r(4) fits] obtain adm where adm: "iw_items W = map Inr adm"
    "mset (map pt_source (in_submitted s)) = mset (map sc_relative adm)" "files_seen (in_report s) = of_nat (length adm)"
    "source_records_inserted (in_report s) + source_records_updated (in_report s) = of_nat (length adm)" by blast
  have "catalogued (w_durable w) root adm c" if "c \<in> set adm" for c
  proof -
    have src: "\<exists>c. c \<in> set adm \<and> pt_source t = sc_relative c \<and> skip_is_sound (iw_ingest W) (executor_context config root) t c" if "t \<in> set (in_submitted s)" for t
      using reachable_sourced[OF r(3)] that adm(1) unfolding sourced_def by auto
    have obs: "so_root (request_observation (pt_request t)) = root \<and> so_rel (request_observation (pt_request t)) = sc_relative c
        \<and> so_size (request_observation (pt_request t)) = sc_size c \<and> so_modified (request_observation (pt_request t)) = sc_modified c"
      if "skip_is_sound (iw_ingest W) (executor_context config root) t c" for t c
      using that by (auto simp: skip_is_sound_def executor_context_def split: pending_import_request.splits)
    have "sc_relative c \<in> pt_source ` set (in_submitted s)" using mset_eq_setD[OF adm(2)] that by simp
    then obtain t where t: "t \<in> set (in_submitted s)" "pt_source t = sc_relative c" by fastforce
    obtain p where p: "p \<in> set (ticket_imports (in_submitted s))" "pi_request p = pt_request t"
      using imageI[OF t(1), of pt_request] unfolding ticket_imports_simps(3)[symmetric] by fastforce
    then obtain q where q: "q \<in> set (ticket_imports (in_submitted s))" "source_key (observed_by q) = source_key (observed_by p)"
      "recorded (w_durable w) (observed_by q)" using b by blast
    obtain t' where t': "t' \<in> set (in_submitted s)" "pi_request q = pt_request t'"
      using imageI[OF q(1), of pi_request] unfolding ticket_imports_simps(3) by fastforce
    obtain c0 c' where c: "pt_source t = sc_relative c0" "skip_is_sound (iw_ingest W) (executor_context config root) t c0"
      "c' \<in> set adm" "skip_is_sound (iw_ingest W) (executor_context config root) t' c'"
      using src[OF t(1)] src[OF t'(1)] by blast
    have h: "hash_ok (so_hash (observed_by q))" using r(6) t' by simp
    have "rel_str (sc_relative c') = rel_str (sc_relative c)" using q(2) obs[OF c(2)] obs[OF c(4)] p(2) t'(2) t(2) c(1) by simp
    then have rel: "sc_relative c' = sc_relative c" by (cases "sc_relative c'"; cases "sc_relative c") simp
    have "db_ok (w_durable w)" using b by simp
    from recorded_known[OF this q(3) h] show ?thesis
      using c(3) rel h obs[OF c(4)] t'(2) unfolding catalogued_def known_from_def by (intro bexI[of _ c'] exI[of _ "so_hash (observed_by q)"]) auto
  qed
  then show thesis using that adm r(2,5,11) b by blast
qed


section \<open>Queues\<close>

lemma drained_below: "drain_outcomes_to_limit answer mx ts report = Inr (ts', report') \<Longrightarrow> length ts' < mx"
  by (induction answer mx ts report rule: drain_outcomes_to_limit.induct) (auto split: if_splits sum.splits)

text \<open>Between two turns of the loop fewer tickets are awaited than the limit.\<close>

lemma tickets_below_limit:
  assumes "ingest_reachable env config items s" "0 < ig_outstanding config" "\<forall>e. in_phase s \<noteq> Failed e"
  shows "length (in_tickets s) < ig_outstanding config"
  using assms
proof (induction rule: ingest_reachable.induct)
  case start
  then show ?case by (simp add: ingest_start_def)
next
  case (step s s')
  show ?case using step.hyps(2) step.IH step.prems
  proof (cases rule: ingest_step.cases)
    case dispatch
    then show ?thesis using step.IH step.prems by (simp add: dispatch_one_def Let_def split: option.splits)
  next
    case admit
    have "length (in_tickets (admit_candidate env config c s0)) < ig_outstanding config"
      if "\<forall>e. in_phase (admit_candidate env config c s0) \<noteq> Failed e" "length (in_tickets s0) < ig_outstanding config" for c s0
    proof (cases "bind_result (ie_known env (in_sequence s0) c) (\<lambda>known.
        validated_disposition (ig_store config) (ie_fs env (in_sequence s0)) (classify_import (ig_metadata_skip config) c known))")
      case (Inr d)
      then show ?thesis using that
        by (cases d) (auto simp: admit_candidate_def fail_def Let_def intro: drained_below split: sum.splits)
    qed (use that in \<open>simp add: admit_candidate_def fail_def Let_def\<close>)
    then show ?thesis using admit step.IH step.prems by (auto simp: admit_def fail_def split: if_splits list.splits sum.splits)
  next
    case (receive c cs)
    then show ?thesis using step.IH step.prems
      by (auto simp: complete_work_def fail_def Let_def intro: drained_below split: option.splits nat.splits sum.splits)
  next
    case drain
    then show ?thesis using step.IH step.prems by (auto simp: drain_one_def fail_def split: list.splits sum.splits)
  qed (simp_all add: fail_def)
qed


section \<open>Properties\<close>

text \<open>
  C3 (functional). What exit status 0 of an import means: the scanner gave no error, the report
  counts every scanned file once, and the committed catalog has, for the path of every scanned file,
  the size and modification time it was scanned with (of the last one, if the scanner gave a path
  twice) and a valid blob hash whose blob is in the catalog with that size and is not marked for
  deletion. Coordinator, workers, writer, locks and renderer may fail or interleave in any way on the
  way there.
\<close>

theorem import_exit_zero_catalogues_every_file:
  assumes "import_source W config f db0 r db" "\<not> ic_dry_run config" "0 < ic_workers_per_mount config"
    "db_ok (case db0 of None \<Rightarrow> iw_new W | Some d \<Rightarrow> d)" "main_command env out jsonl False events (ImportDone r) = (s, written, Inr 0)"
  shows "\<exists>report adm root d. r = Inr report \<and> iw_items W = map Inr adm \<and> path_to_utf8 (ic_source config) = Inr root \<and> db = Some d \<and> db_ok d
    \<and> files_seen report = of_nat (length adm) \<and> source_records_inserted report + source_records_updated report = of_nat (length adm)
    \<and> (\<forall>c\<in>set adm. catalogued d root adm c)"
proof -
  have "verdict (ImportDone r) = Inr 0" using main_end_status(1)[OF assms(5)[unfolded main_command_def] refl] by simp
  then obtain report where "r = Inr report" by (auto simp: result_simps)
  then show ?thesis using successful_import[of W config f db0 report db] assms(1-4) by metis
qed

text \<open>
  C16 (roundtrip). What one import records the next one recognises: after an import with exit status
  0, a scanned file whose path was scanned once and that has a modification time is classified as
  unchanged against the new catalog, with its size and nothing to resurrect.
\<close>

theorem imported_files_are_skipped_next_time:
  assumes "import_source W config f db0 r (Some d)" "\<not> ic_dry_run config" "0 < ic_workers_per_mount config"
    "db_ok (case db0 of None \<Rightarrow> iw_new W | Some d \<Rightarrow> d)" "main_command env out jsonl False events (ImportDone r) = (s, written, Inr 0)"
    "path_to_utf8 (ic_source config) = Inr root" "Inr c \<in> set (iw_items W)" "sc_modified c \<noteq> None"
    "\<forall>c'. Inr c' \<in> set (iw_items W) \<longrightarrow> sc_relative c' = sc_relative c \<longrightarrow> c' = c"
  shows "\<exists>k. known_source_file d root (sc_relative c) = Inr (Some k) \<and> classify_import True c (Some k) = Skip (ks_hash k) (sc_size c) False"
proof -
  have "verdict (ImportDone r) = Inr 0" using main_end_status(1)[OF assms(5)[unfolded main_command_def] refl] by simp
  then obtain report where "r = Inr report" by (auto simp: result_simps)
  then obtain adm where adm: "iw_items W = map Inr adm" "\<forall>c\<in>set adm. catalogued d root adm c"
    using successful_import[of W config f db0 report "Some d"] assms(1-4,6) by (metis Inr_inject option.inject)
  then obtain c' h where c': "c' \<in> set adm" "sc_relative c' = sc_relative c"
    "known_source_file d root (sc_relative c) =
       Inr (Some \<lparr>ks_hash = h, ks_source_size = sc_size c', ks_modified = sc_modified c', ks_blob_size = sc_size c', ks_deleted = None\<rparr>)"
    using assms(7) unfolding catalogued_def by auto
  moreover have "c' = c" using assms(9) c'(1,2) adm(1) by auto
  ultimately show ?thesis using assms(8) by (auto simp: classify_import_def)
qed


section \<open>A sample import\<close>

definition import_config1 :: import_config where
  "import_config1 = \<lparr>ic_store = sample_root, ic_db = ''/s/catalog.db'', ic_source = ''/src'', ic_dry_run = False, ic_metadata_skip = False,
     ic_chunk_size = 4096, ic_workers_per_mount = 2\<rparr>"

definition import_world1 :: import_world where
  "import_world1 = \<lparr>iw_ingest = sample_env, iw_writer = writer_env1, iw_items = [Inr sample_candidate], iw_schema = (\<lambda>_. None), iw_new = sample_db,
     iw_wal = Inr (), iw_start = Inr (), iw_panicked = replicate 8 False, iw_lock = (\<lambda>_ _. Inr ()), iw_hash = (\<lambda>_. None), iw_cancelled = (\<lambda>_ _. False)\<rparr>"

lemma sample_context: "executor_context import_config1 ''/src'' = sample_config False"
  by (simp add: executor_context_def import_config1_def sample_config_def effective_workers_per_mount_def capacities default_writer_config_def)

lemma sample_dirs:
  "locate b (abs_path [''s'']) sample_fs2 = Inr [''s'']" "locate b (abs_path [''s'', ''staging'']) sample_fs2 = Inr [''s'', ''staging'']"
  "locate b (abs_path [''s'', ''blobs'']) sample_fs2 = Inr [''s'', ''blobs'']"
  "node_at sample_fs2 [''s''] = Some FDir" "node_at sample_fs2 [''s'', ''staging''] = Some FDir" "node_at sample_fs2 [''s'', ''blobs''] = Some FDir"
  "fault_free op p sample_fs2 = Inr ()" "children [''s'', ''staging''] sample_fs2 = []"
proof -
  have ok: "list_all name_ok [''s'']" "list_all name_ok [''s'', ''staging'']" "list_all name_ok [''s'', ''blobs'']" by (simp_all add: name_ok_def)
  show n: "node_at sample_fs2 [''s''] = Some FDir" "node_at sample_fs2 [''s'', ''staging''] = Some FDir" "node_at sample_fs2 [''s'', ''blobs''] = Some FDir"
    by (simp_all add: node_at_def sample_fs2_def sample_fs_def)
  have r: "real_parents sample_fs2 [''s'']" "real_parents sample_fs2 [''s'', ''staging'']" "real_parents sample_fs2 [''s'', ''blobs'']"
    by (auto simp: real_parents_def node_at_def sample_fs2_def sample_fs_def less_Suc_eq)
  show "locate b (abs_path [''s'']) sample_fs2 = Inr [''s'']" "locate b (abs_path [''s'', ''staging'']) sample_fs2 = Inr [''s'', ''staging'']"
    "locate b (abs_path [''s'', ''blobs'']) sample_fs2 = Inr [''s'', ''blobs'']"
    using locate_real[OF ok(1) r(1), of b] locate_real[OF ok(2) r(2), of b] locate_real[OF ok(3) r(3), of b] n by auto
  show "fault_free op p sample_fs2 = Inr ()" "children [''s'', ''staging''] sample_fs2 = []"
    by (simp_all add: fault_free_def children_def sample_fs2_def sample_fs_def)
qed

lemma sample_prepared:
  "make_store_directory sample_root sample_fs2 = Inr sample_fs2" "acquire (\<lambda>_ _. Inr ()) sample_root LockExclusive sample_fs2 = Inr ()"
  "prepare_staging_for_import sample_root sample_fs2 = Some (sample_fs2, Inr ())"
proof -
  have p: "staging_dir sample_root = abs_path [''s'', ''staging'']" "path_join (abs_path [''s'']) ''blobs'' = abs_path [''s'', ''blobs'']"
    by (simp_all add: staging_dir_def sample_root_def path_join_def abs_path_def)
  show "make_store_directory sample_root sample_fs2 = Inr sample_fs2"
    by (simp add: make_store_directory_def create_dir_def new_name_def sample_root_abs sample_dirs)
  show "acquire (\<lambda>_ _. Inr ()) sample_root LockExclusive sample_fs2 = Inr ()"
    by (simp add: acquire_def open_store_directory_def open_no_follow_def handle_metadata_def metadata_of_def of_io_def sample_root_abs sample_dirs)
  have o: "open_validated_staging_directory sample_root c sample_fs2 = (sample_fs2, Inr True)" for c
    by (simp add: open_validated_staging_directory_def symlink_metadata_def open_directory_no_follow_def open_no_follow_def metadata_of_def of_io_def p sample_dirs)
  show "prepare_staging_for_import sample_root sample_fs2 = Some (sample_fs2, Inr ())"
    by (simp add: prepare_staging_for_import_def purge_existing_staging_def o read_dir_def p sample_dirs ensure_blob_parent_def sample_root_abs
        ensure_directory_def symlink_metadata_def open_directory_no_follow_def open_no_follow_def metadata_of_def of_io_def)
qed

lemma sample_import: "\<exists>report d. import_source import_world1 import_config1 sample_fs2 (Some sample_db) (Inr report) (Some d)"
proof -
  let ?b = "\<lparr>br_hash = kept_hash, br_size = 2, br_created = 0\<rparr> :: blob_record" and ?o = "source_observation_of ''/src'' sample_candidate kept_hash 0"
  obtain s t where s: "ingest_reachable sample_env (sample_config False) [Inr sample_candidate] s" "in_phase s = Finished" "in_submitted s = [t]"
    "pt_request t = PendingImported ?b ?o" using sample_waiting(2) by blast
  have h: "hash_ok kept_hash" by (simp add: kept_hash_def hash_ok_def is_lower_hex_def list_all_iff)
  have l: "lookup_blob sample_db (as_str kept_hash) = None" "lookup_source sample_db ''/src'' ''a'' = None"
    by (simp_all add: lookup_blob_def lookup_source_def sample_db_def blob_matches_def kept_hash_def sample_hash_def)
  then have "recordable sample_db ?b ?o"
    by (simp add: recordable_def source_observation_of_def sample_candidate_def source_checks_def sql_length_def is_cont_def i64_max_def)
  then obtain db' bo so where rec: "record_imported_file_in_transaction sample_db ?b ?o = Inr (db', bo, so)"
    using record_imported_succeeds[OF sample_db_ok, of ?b ?o] h by auto
  have out: "bo = BlobInserted" "so = SourceInserted"
    using record_imported_lookups(4,5)[OF sample_db_ok _ rec] h l by (simp_all add: source_observation_of_def sample_candidate_def)
  let ?ts = "[\<lparr>t_before = 0, t_received = Received (submit 0 t), t_after = 0\<rparr>]"
  obtain w r where w': "writer_finish writer_env1 ?ts 1 (writer_start sample_db) = (w, r)" by fastforce
  have "r = Inr (w_report w) \<and> map_of (w_responses w) 0 = Some (ImportResponse (Inr (Imported BlobInserted SourceInserted)))"
    using rec s(4) w'
    by (auto simp: writer_finish_def writer_loop_def writer_step_def expired_def writer_start_def accept_import_def Let_def
        default_writer_config_def shutdown_def flush_imports_def writer_env1_def apply_pending_def after_commit_def checked_add_def
        acknowledge_def emit_def checkpoint_def out)
  then have w: "writer_finish writer_env1 ?ts 1 (writer_start sample_db) = (w, Inr (w_report w))"
    "map_of (w_responses w) 0 = Some (ImportResponse (Inr (Imported BlobInserted SourceInserted)))" using w' by auto
  have "execute_import import_world1 import_config1 (in_submitted s) (execute_result (Inr (in_report s)) (workers_finish (iw_panicked import_world1)))"
  proof (rule execute_import.ran[where u = "()"])
    show "path_to_utf8 (ic_source import_config1) = Inr ''/src''" by (simp add: import_config1_def path_to_utf8_def)
    show "ingest_reachable (iw_ingest import_world1) (executor_context import_config1 ''/src'') (iw_items import_world1) s"
      using s(1) by (simp add: sample_context import_world1_def)
  qed (use s h in \<open>simp_all add: import_world1_def coordinator_result_def source_observation_of_def\<close>)
  then have ex: "execute_import import_world1 import_config1 (in_submitted s) (Inr (in_report s))"
    by (simp add: execute_result_def workers_finish_def import_world1_def list_ex_iff)
  have "real_import import_world1 import_config1 sample_fs2 (Some sample_db) (import_result (Inr (in_report s)) (Inr (w_report w))) (Some (w_durable w))"
  proof (rule real_import.ran[where ts = ?ts and now = 1 and submitted = "in_submitted s" and u = "()"])
    show "prepare_staging_for_import (ic_store import_config1) sample_fs2 = Some (sample_fs2, Inr ())" by (simp add: import_config1_def sample_prepared)
    show "open_if_exists (Some sample_db) = Inr (Some sample_db)" by (simp add: open_if_exists_def sample_db_def current_schema_version_def)
    show "spawn_inner (iw_schema import_world1) (iw_wal import_world1) (case Some sample_db of None \<Rightarrow> iw_new import_world1 | Some db \<Rightarrow> db) = Inr (writer_start sample_db)"
      by (simp add: spawn_inner_def open_writable_catalog_def migrate_def require_current_schema_def import_world1_def sample_db_def current_schema_version_def)
    show "execute_import import_world1 import_config1 (in_submitted s) (Inr (in_report s))"
      by (rule ex)
    show "writer_turns ?ts" by (simp add: writer_turns_def)
    show "prefix (received_requests ?ts) (submit_all (in_submitted s))" "\<forall>report. Inr (w_report w) = Inr report \<longrightarrow> received_requests ?ts = submit_all (in_submitted s)"
      using s(3) by (simp_all add: received_requests_def submit_all_def List.map_filter_simps)
    show "writer_finish (iw_writer import_world1) ?ts 1 (writer_start sample_db) = (w, Inr (w_report w))" using w(1) by (simp add: import_world1_def)
    show "\<forall>i<length (in_submitted s). ie_answer (iw_ingest import_world1) (pt_sequence (in_submitted s ! i)) = resolve_detailed (pt_sequence (in_submitted s ! i)) i w"
      using s(3) w(2) by (simp add: import_world1_def sample_env_def resolve_detailed_def)
  qed
  then have "import_source import_world1 import_config1 sample_fs2 (Some sample_db) (Inr (in_report s)) (Some (w_durable w))"
    using sample_prepared by (intro import_source.locked[where ?f1.0 = sample_fs2 and u = "()"]) (simp_all add: import_config1_def import_world1_def import_result_def)
  then show ?thesis by blast
qed

lemma sample_import_main:
  "\<exists>s. main_command (steady (\<lambda>_. 0)) (\<lambda>_. Inr ()) False False [] (ImportDone (Inr report)) = (s, render_import_report report, Inr 0)"
proof -
  obtain s written status where m: "main_command (steady (\<lambda>_. 0)) (\<lambda>_. Inr ()) False False [] (ImportDone (Inr report)) = (s, written, status)" by (metis prod_cases3)
  have n: "\<not> tr_failed s" unfolding main_command_transport(1)[OF m]
    by (rule healthy_never_fails[OF healthy_steady]) (simp add: all_events_def ending_def inbox_capacity_def)
  then have "status = Inr 0" using main_end_status(2)[OF m[unfolded main_command_def]] by simp
  moreover have "written = render_import_report report"
    using m by (auto simp: main_command_def main_import_def end_reported_def render_import_report_def Let_def)
  ultimately show ?thesis using m by blast
qed

theorem import_exit_zero_catalogues_every_file_witness:
  "\<exists>report d. import_source import_world1 import_config1 sample_fs2 (Some sample_db) (Inr report) (Some d) \<and> files_seen report = 1
     \<and> catalogued d ''/src'' [sample_candidate] sample_candidate"
proof -
  obtain report d where i: "import_source import_world1 import_config1 sample_fs2 (Some sample_db) (Inr report) (Some d)" using sample_import by blast
  obtain s where m: "main_command (steady (\<lambda>_. 0)) (\<lambda>_. Inr ()) False False [] (ImportDone (Inr report)) = (s, render_import_report report, Inr 0)"
    using sample_import_main by blast
  have c: "\<not> ic_dry_run import_config1" "0 < ic_workers_per_mount import_config1" "iw_items import_world1 = map Inr [sample_candidate]"
    "path_to_utf8 (ic_source import_config1) = Inr ''/src''" "db_ok (case Some sample_db of None \<Rightarrow> iw_new import_world1 | Some d \<Rightarrow> d)"
    using sample_db_ok by (simp_all add: import_config1_def import_world1_def path_to_utf8_def)
  obtain adm where "iw_items import_world1 = map Inr adm" "files_seen report = of_nat (length adm)" "\<forall>c\<in>set adm. catalogued d ''/src'' adm c"
    using import_exit_zero_catalogues_every_file[OF i c(1,2,5) m] c(4) by auto
  moreover then have "adm = [sample_candidate]" using c(3) by (cases adm) auto
  ultimately show ?thesis using i by auto
qed

theorem imported_files_are_skipped_next_time_witness:
  "\<exists>report d k. import_source import_world1 import_config1 sample_fs2 (Some sample_db) (Inr report) (Some d)
     \<and> known_source_file d ''/src'' (SourceRelativePath ''a'') = Inr (Some k) \<and> classify_import True sample_candidate (Some k) = Skip (ks_hash k) 2 False"
proof -
  obtain report d where i: "import_source import_world1 import_config1 sample_fs2 (Some sample_db) (Inr report) (Some d)" using sample_import by blast
  obtain s where m: "main_command (steady (\<lambda>_. 0)) (\<lambda>_. Inr ()) False False [] (ImportDone (Inr report)) = (s, render_import_report report, Inr 0)"
    using sample_import_main by blast
  have c: "\<not> ic_dry_run import_config1" "0 < ic_workers_per_mount import_config1" "Inr sample_candidate \<in> set (iw_items import_world1)"
    "path_to_utf8 (ic_source import_config1) = Inr ''/src''" "db_ok (case Some sample_db of None \<Rightarrow> iw_new import_world1 | Some d \<Rightarrow> d)"
    "sc_modified sample_candidate \<noteq> None" "\<forall>c'. Inr c' \<in> set (iw_items import_world1) \<longrightarrow> sc_relative c' = sc_relative sample_candidate \<longrightarrow> c' = sample_candidate"
    using sample_db_ok by (simp_all add: import_config1_def import_world1_def path_to_utf8_def sample_candidate_def)
  show ?thesis using imported_files_are_skipped_next_time[OF i c(1,2,5) m c(4,3,6,7)] i by (auto simp: sample_candidate_def)
qed

end
