(* ===== verification/QueueGauges.thy ===== *)
theory QueueGauges
  imports ImportRuns
begin

text \<open>
  The occupancies an import reports (\<^verbatim>\<open>ingest.rs\<close>): the coordinator and its workers with the two
  counters behind the gauges, the length of the request channel of the catalog writer and the
  atomic counter of completed results. Steps are labelled, so that a run can be computed from a
  schedule, and every step yields the gauges it reports. Between taking a result from the
  completion channel and counting it the coordinator can be interrupted by its workers. Every run
  is a run of \<open>IngestRuns\<close>.
\<close>

section \<open>What the coordinator reports\<close>

text \<open>\<open>observe_work_occupancy\<close>: one gauge for the scheduler and one for each mount, in the order of the mounts.\<close>

definition mount_key :: "mount_id \<Rightarrow> nat" where
  "mount_key m = (case m of MountId n \<Rightarrow> unat n)"

definition observe_work_occupancy :: "work list \<Rightarrow> (mount_id \<times> nat) list \<Rightarrow> nat \<Rightarrow> ingest_event list" where
  "observe_work_occupancy waiting_work active workers_per_mount =
     QueueOccupancy ScannerToScheduler None (length waiting_work) scheduler_queue_capacity
     # map (\<lambda>m. QueueOccupancy PerMountWork (Some m) (length (filter (\<lambda>w. work_mount w = m) waiting_work) + active_count m active)
              (scheduler_queue_capacity + min workers_per_mount max_live_source_workers))
         (sort_key mount_key (remdups (map work_mount waiting_work @ map fst active)))"

definition observe_catalog_occupancy :: "nat \<Rightarrow> nat \<Rightarrow> nat \<Rightarrow> ingest_event list" where
  "observe_catalog_occupancy requests pending_outcomes pending_outcomes_capacity =
     [QueueOccupancy CatalogRequests None requests (channel_capacity default_writer_config),
      QueueOccupancy CatalogOutcomes None pending_outcomes pending_outcomes_capacity]"

definition completed_work_retained_capacity :: nat where
  "completed_work_retained_capacity = completion_queue_capacity + max_live_source_workers"

definition observe_completed :: "nat \<Rightarrow> ingest_event list" where
  "observe_completed retained = [QueueOccupancy CompletedBlobs None retained completed_work_retained_capacity]"


section \<open>Labelled steps\<close>

text \<open>
  What a worker or the writer's thread does to the shared state, by the position of the file in
  the list of files being read or held: the steps of \<open>ingest_step\<close> that are not the coordinator's.
\<close>

datatype worker_label = TakeJob | ReadDone nat stored_blob | SendHeld nat | ReadFails nat error | WriterFails error | CancelJob | CancelHeld nat

definition failed_phase :: "ingest_state \<Rightarrow> bool" where
  "failed_phase s = (case in_phase s of Failed _ \<Rightarrow> True | _ \<Rightarrow> False)"

definition remove_nth :: "nat \<Rightarrow> 'a list \<Rightarrow> 'a list" where
  "remove_nth i xs = take i xs @ drop (Suc i) xs"

definition stopping :: "ingest_state \<Rightarrow> bool" where
  "stopping s \<longleftrightarrow> in_failure s \<noteq> None \<or> failed_phase s"

fun worker_step :: "worker_label \<Rightarrow> ingest_state \<Rightarrow> ingest_state option" where
  "worker_step TakeJob s =
     (case in_jobs s of
        [] \<Rightarrow> None
      | w # ws \<Rightarrow> if length (in_readers s) + length (in_held s) < max_live_source_workers
                  then Some (s\<lparr>in_jobs := ws, in_readers := in_readers s @ [w]\<rparr>) else None)"
| "worker_step (ReadDone i blob) s =
     (if i < length (in_readers s)
      then Some (s\<lparr>in_readers := remove_nth i (in_readers s), in_held := in_held s @ [\<lparr>cw_work = in_readers s ! i, cw_result = Inr blob\<rparr>]\<rparr>)
      else None)"
| "worker_step (SendHeld i) s =
     (if i < length (in_held s) \<and> length (in_channel s) < completion_queue_capacity
      then Some (s\<lparr>in_held := remove_nth i (in_held s), in_channel := in_channel s @ [in_held s ! i]\<rparr>) else None)"
| "worker_step (ReadFails i e) s =
     (if i < length (in_readers s)
      then Some (s\<lparr>in_readers := remove_nth i (in_readers s), in_failure := (case in_failure s of None \<Rightarrow> Some e | Some e' \<Rightarrow> Some e')\<rparr>)
      else None)"
| "worker_step (WriterFails e) s = (if in_failure s = None then Some (s\<lparr>in_failure := Some e\<rparr>) else None)"
| "worker_step CancelJob s = (case in_jobs s of [] \<Rightarrow> None | _ # ws \<Rightarrow> if stopping s then Some (s\<lparr>in_jobs := ws\<rparr>) else None)"
| "worker_step (CancelHeld i) s = (if i < length (in_held s) \<and> stopping s then Some (s\<lparr>in_held := remove_nth i (in_held s)\<rparr>) else None)"

text \<open>The counter of completed results and its gauge: a finished read adds one, a cancelled result takes one back.\<close>

fun retained_after :: "worker_label \<Rightarrow> nat \<Rightarrow> nat" where
  "retained_after (ReadDone _ _) n = n + 1"
| "retained_after (CancelHeld _) n = n - 1"
| "retained_after _ n = n"

fun worker_gauges :: "worker_label \<Rightarrow> nat \<Rightarrow> ingest_event list" where
  "worker_gauges (ReadDone _ _) n = observe_completed (n + 1)"
| "worker_gauges _ n = []"

text \<open>
  The whole pipeline: the state of \<open>ingest_step\<close>, a result the coordinator has taken from the
  channel and not yet counted, the counter, and the sequences in the writer's request channel.
\<close>

record gauged =
  g_ingest :: ingest_state
  g_received :: "completed_work option"
  g_retained :: nat
  g_requests :: "u64 list"

text \<open>
  A label of the coordinator that submits a request says how many requests the writer takes from
  the channel before its length is read, and how many until the coordinator has its answers.
\<close>

datatype pipeline_label = Dispatch | Admit nat nat | Receive | Complete nat nat | DrainOne | Poll | Disconnect | WriterTakes | Worker worker_label

text \<open>An answer comes from the writer, which has taken the request before; only a failure ends the wait without one.\<close>

definition answered :: "ingest_state \<Rightarrow> pending_ticket list \<Rightarrow> u64 list \<Rightarrow> bool" where
  "answered s' awaited requests \<longleftrightarrow> failed_phase s' \<or> (\<forall>t\<in>set awaited. pt_sequence t \<in> set requests \<longrightarrow> t \<in> set (in_tickets s'))"

text \<open>
  The request that led from \<open>s\<close> to \<open>s'\<close>, if any, is sent; with its ticket kept, the lengths of the
  channel and of the tickets are reported, and then tickets are awaited.
\<close>

definition submit_gauges :: "ingest_config \<Rightarrow> nat \<Rightarrow> nat \<Rightarrow> bool \<Rightarrow> ingest_state \<Rightarrow> ingest_state \<Rightarrow> u64 list \<Rightarrow> (u64 list \<times> ingest_event list) option" where
  "submit_gauges config i j kept s s' requests =
     (case drop (length (in_submitted s)) (in_submitted s') of
        [] \<Rightarrow> Some (requests, [])
      | t # _ \<Rightarrow>
          let sampled = drop i (requests @ [pt_sequence t]); awaited = insert_ticket t (in_tickets s); rest = drop j sampled
          in if \<not> kept then Some (rest, [])
             else if answered s' awaited rest
             then Some (rest, observe_catalog_occupancy (length sampled) (length awaited) (ig_outstanding config))
             else None)"

fun gauge_step :: "ingest_env \<Rightarrow> ingest_config \<Rightarrow> pipeline_label \<Rightarrow> gauged \<Rightarrow> (gauged \<times> ingest_event list) option" where
  "gauge_step env config Dispatch S =
     (let s = g_ingest S; s' = dispatch_one (ig_limit config) s
      in if in_phase s = Dispatching \<and> g_received S = None
         then Some (S\<lparr>g_ingest := s'\<rparr>, if in_phase s' = Admitting then [] else observe_work_occupancy (in_pending s') (in_active s') (ig_limit config))
         else None)"
| "gauge_step env config (Admit i j) S =
     (let s = g_ingest S; s' = admit env config s
      in if in_phase s = Admitting \<and> g_received S = None
         then map_option (\<lambda>(requests, es). (S\<lparr>g_ingest := s', g_requests := requests\<rparr>,
                (if length (in_pending s) < length (in_pending s') then observe_work_occupancy (in_pending s') (in_active s') (ig_limit config) else []) @ es))
              (submit_gauges config i j (in_sequence s' \<noteq> in_sequence s) s s' (g_requests S))
         else None)"
| "gauge_step env config Receive S =
     (let s = g_ingest S
      in case in_channel s of
           [] \<Rightarrow> None
         | c # cs \<Rightarrow> if in_phase s = Waiting \<and> g_received S = None then Some (S\<lparr>g_ingest := s\<lparr>in_channel := cs\<rparr>, g_received := Some c\<rparr>, []) else None)"
| "gauge_step env config (Complete i j) S =
     (case g_received S of
        None \<Rightarrow> None
      | Some c \<Rightarrow>
          let s = g_ingest S; s' = complete_work env config c s; m = work_mount (cw_work c)
          in map_option (\<lambda>(requests, es). (S\<lparr>g_ingest := s', g_received := None, g_retained := g_retained S - 1, g_requests := requests\<rparr>,
                observe_completed (g_retained S - 1)
                @ (case map_of (in_active s) m of
                     Some (Suc n) \<Rightarrow> observe_work_occupancy (in_pending s) (AList.update m n (in_active s)) (ig_limit config)
                   | _ \<Rightarrow> []) @ es))
               (submit_gauges config i j True s s' (g_requests S)))"
| "gauge_step env config DrainOne S =
     (let s = g_ingest S; s' = drain_one env s
      in if in_phase s = Draining \<and> g_received S = None \<and> answered s' (in_tickets s) (g_requests S) then Some (S\<lparr>g_ingest := s'\<rparr>, []) else None)"
| "gauge_step env config Poll S =
     (let s = g_ingest S
      in case in_failure s of
           None \<Rightarrow> None
         | Some e \<Rightarrow> if in_phase s \<in> {Dispatching, Admitting, Waiting} \<and> g_received S = None then Some (S\<lparr>g_ingest := fail e s\<rparr>, []) else None)"
| "gauge_step env config Disconnect S =
     (let s = g_ingest S
      in if in_phase s \<in> {Dispatching, Waiting} \<and> in_failure s \<noteq> None \<and> g_received S = None
         then Some (S\<lparr>g_ingest := fail (IngestError QueueClosed) s\<rparr>, []) else None)"
| "gauge_step env config WriterTakes S = (case g_requests S of [] \<Rightarrow> None | _ # rest \<Rightarrow> Some (S\<lparr>g_requests := rest\<rparr>, []))"
| "gauge_step env config (Worker l) S =
     map_option (\<lambda>s'. (S\<lparr>g_ingest := s', g_retained := retained_after l (g_retained S)\<rparr>, worker_gauges l (g_retained S)))
       (worker_step l (g_ingest S))"

definition gauge_start :: "source_file_candidate result list \<Rightarrow> gauged" where
  "gauge_start items = \<lparr>g_ingest = ingest_start items, g_received = None, g_retained = 0, g_requests = []\<rparr>"

inductive gauge_reachable :: "ingest_env \<Rightarrow> ingest_config \<Rightarrow> source_file_candidate result list \<Rightarrow> gauged \<Rightarrow> bool" for env config items where
  start: "gauge_reachable env config items (gauge_start items)"
| step: "gauge_reachable env config items S \<Longrightarrow> gauge_step env config l S = Some (S', es) \<Longrightarrow> gauge_reachable env config items S'"

text \<open>A schedule computes a run and all it reports.\<close>

fun gauge_run :: "ingest_env \<Rightarrow> ingest_config \<Rightarrow> pipeline_label list \<Rightarrow> gauged \<Rightarrow> (gauged \<times> ingest_event list) option" where
  "gauge_run env config [] S = Some (S, [])"
| "gauge_run env config (l # ls) S =
     (case gauge_step env config l S of
        None \<Rightarrow> None
      | Some (S1, es) \<Rightarrow> map_option (\<lambda>(S2, fs). (S2, es @ fs)) (gauge_run env config ls S1))"


section \<open>Every run is a run of the pipeline\<close>

lemma complete_commutes [simp]:
  "complete_work env config c (s\<lparr>in_jobs := xs\<rparr>) = (complete_work env config c s)\<lparr>in_jobs := xs\<rparr>"
  "complete_work env config c (s\<lparr>in_readers := ys\<rparr>) = (complete_work env config c s)\<lparr>in_readers := ys\<rparr>"
  "complete_work env config c (s\<lparr>in_held := hs\<rparr>) = (complete_work env config c s)\<lparr>in_held := hs\<rparr>"
  "complete_work env config c (s\<lparr>in_channel := cs\<rparr>) = (complete_work env config c s)\<lparr>in_channel := cs\<rparr>"
  "complete_work env config c (s\<lparr>in_failure := x\<rparr>) = (complete_work env config c s)\<lparr>in_failure := x\<rparr>"
  by (simp_all add: complete_work_def fail_def Let_def split: option.split nat.split sum.split prod.split)

lemma complete_keeps [simp]:
  "in_jobs (complete_work env config c s) = in_jobs s" "in_readers (complete_work env config c s) = in_readers s"
  "in_held (complete_work env config c s) = in_held s" "in_channel (complete_work env config c s) = in_channel s"
  "in_failure (complete_work env config c s) = in_failure s" "in_pending (complete_work env config c s) = in_pending s"
  "in_sequence (complete_work env config c s) = in_sequence s"
  by (simp_all add: complete_work_def fail_def Let_def split: option.split nat.split sum.split prod.split)

lemma nth_split: "i < length xs \<Longrightarrow> xs = take i xs @ xs ! i # drop (Suc i) xs"
  by (rule id_take_nth_drop)

lemma stopping_iff: "stopping s \<longleftrightarrow> (\<exists>e. in_failure s \<noteq> None \<or> in_phase s = Failed e)"
  by (auto simp: stopping_def failed_phase_def split: ingest_phase.splits)

lemma worker_step_ingest:
  assumes "worker_step l s = Some s'"
  shows "ingest_step env config s s'"
proof (cases l)
  case TakeJob
  then show ?thesis using assms by (auto split: list.splits if_splits intro: ingest_step.take_job)
next
  case (ReadDone i blob)
  then show ?thesis using assms ingest_step.read_done[OF nth_split[of i "in_readers s"]] by (auto simp: remove_nth_def split: if_splits)
next
  case (SendHeld i)
  then show ?thesis using assms ingest_step.send[OF nth_split[of i "in_held s"]] by (auto simp: remove_nth_def split: if_splits)
next
  case (ReadFails i e)
  then show ?thesis using assms ingest_step.read_fails[OF nth_split[of i "in_readers s"], of env config e] by (auto simp: remove_nth_def split: if_splits)
next
  case (WriterFails e)
  then show ?thesis using assms by (auto split: if_splits intro: ingest_step.writer_fails)
next
  case CancelJob
  then show ?thesis using assms by (auto simp: stopping_iff split: list.splits if_splits intro: ingest_step.cancel_job)
next
  case (CancelHeld i)
  then show ?thesis using assms ingest_step.cancel_held[OF nth_split[of i "in_held s"]] by (auto simp: remove_nth_def stopping_iff split: if_splits)
qed

lemma worker_step_keeps:
  assumes "worker_step l s = Some s'"
  shows "in_phase s' = in_phase s" "in_tickets s' = in_tickets s"
  using assms by (cases l; auto split: list.splits if_splits)+

lemma worker_commutes:
  assumes "worker_step l s = Some s'" "in_phase s = Waiting"
  shows "worker_step l (complete_work env config c s) = Some (complete_work env config c s')"
  using assms by (cases l) (auto simp: stopping_def failed_phase_def split: list.splits if_splits)

text \<open>The state of the pipeline with the received result already handled: what the workers do meanwhile commutes with that.\<close>

definition settled :: "ingest_env \<Rightarrow> ingest_config \<Rightarrow> gauged \<Rightarrow> ingest_state" where
  "settled env config S = (case g_received S of None \<Rightarrow> g_ingest S | Some c \<Rightarrow> complete_work env config c (g_ingest S))"

definition waits_received :: "gauged \<Rightarrow> bool" where
  "waits_received S \<longleftrightarrow> (g_received S \<noteq> None \<longrightarrow> in_phase (g_ingest S) = Waiting)"

lemma gauge_simulates:
  assumes "gauge_step env config l S = Some (S', es)" "waits_received S"
  shows "(ingest_step env config (settled env config S) (settled env config S') \<or> settled env config S' = settled env config S) \<and> waits_received S'"
proof (cases l)
  case Dispatch
  then show ?thesis using assms by (auto simp: Let_def settled_def waits_received_def split: if_splits intro: ingest_step.dispatch)
next
  case (Admit i j)
  then show ?thesis using assms by (auto simp: Let_def settled_def waits_received_def split: if_splits intro: ingest_step.admit)
next
  case Receive
  then show ?thesis using assms ingest_step.receive[of "g_ingest S" _ _ env config]
    by (auto simp: Let_def settled_def waits_received_def split: if_splits list.splits)
next
  case (Complete i j)
  then show ?thesis using assms by (auto simp: Let_def settled_def waits_received_def split: option.splits)
next
  case DrainOne
  then show ?thesis using assms by (auto simp: Let_def settled_def waits_received_def split: if_splits intro: ingest_step.drain)
next
  case Poll
  then show ?thesis using assms by (auto simp: Let_def settled_def waits_received_def split: if_splits option.splits intro: ingest_step.poll)
next
  case Disconnect
  then show ?thesis using assms ingest_step.disconnected[of "g_ingest S" env config]
    by (auto simp: Let_def settled_def waits_received_def split: if_splits)
next
  case WriterTakes
  then show ?thesis using assms by (cases "g_received S") (auto simp: settled_def waits_received_def split: list.splits)
next
  case (Worker w)
  then obtain s' where s': "worker_step w (g_ingest S) = Some s'" "S' = S\<lparr>g_ingest := s', g_retained := retained_after w (g_retained S)\<rparr>"
    using assms(1) by auto
  show ?thesis
  proof (cases "g_received S")
    case None
    then show ?thesis using s' worker_step_ingest by (simp add: settled_def waits_received_def)
  next
    case (Some c)
    then have "in_phase (g_ingest S) = Waiting" using assms(2) by (simp add: waits_received_def)
    then show ?thesis using Some s' worker_step_ingest[OF worker_commutes[OF s'(1)]] worker_step_keeps[OF s'(1)]
      by (simp add: settled_def waits_received_def)
  qed
qed

lemma gauge_reachable_settled:
  assumes "gauge_reachable env config items S"
  shows "ingest_reachable env config items (settled env config S)" "waits_received S"
proof -
  have "ingest_reachable env config items (settled env config S) \<and> waits_received S"
    using assms
  proof (induction rule: gauge_reachable.induct)
    case start
    then show ?case by (simp add: settled_def gauge_start_def waits_received_def ingest_reachable.start)
  next
    case (step S l S' es)
    then show ?case using gauge_simulates[OF step.hyps(2)] by (metis ingest_reachable.step)
  qed
  then show "ingest_reachable env config items (settled env config S)" "waits_received S" by auto
qed


section \<open>Sequences are never used twice\<close>

abbreviation fresh_sequences :: "ingest_state \<Rightarrow> bool" where
  "fresh_sequences \<equiv> IngestRuns.fresh"

lemma drained_suffix: "drain_outcomes_to_limit answer mx ts report = Inr (ts', report') \<Longrightarrow> \<exists>xs. ts = xs @ ts'"
  by (induction answer mx ts report rule: drain_outcomes_to_limit.induct) (fastforce split: if_splits sum.splits)+

lemma drained_sequences:
  assumes "drain_outcomes_to_limit answer mx (insert_ticket t ts) report = Inr (ts', report')"
  shows "mset (map pt_sequence ts') \<subseteq># add_mset (pt_sequence t) (mset (map pt_sequence ts))"
proof -
  obtain xs where "insert_ticket t ts = xs @ ts'" using drained_suffix[OF assms] by blast
  then have "mset ts' \<subseteq># mset (insert_ticket t ts)" by simp
  also have "\<dots> \<subseteq># add_mset t (mset ts)" by (simp add: insert_ticket_def multiset_filter_subset)
  finally show ?thesis using image_mset_subseteq_mono[of "mset ts'" "add_mset t (mset ts)" pt_sequence] by (simp add: mset_map)
qed

lemma dispatch_sequences: "sequences (dispatch_one limit s) = sequences s"
proof (cases "dispatch_index limit (in_active s) (in_last s) (in_pending s)")
  case (Some i)
  have "i < length (in_pending s)" using dispatch_index_Some(1)[OF Some] .
  then have "mset (map wk_sequence (in_pending s)) = add_mset (wk_sequence (in_pending s ! i)) (mset (map wk_sequence (take i (in_pending s) @ drop (i + 1) (in_pending s))))"
    by (subst id_take_nth_drop[of i "in_pending s"]) auto
  then show ?thesis using Some by (simp add: dispatch_one_def Let_def sequences_def pipeline_def)
qed (simp add: dispatch_one_def sequences_def)

lemma fresh_add:
  assumes "fresh_sequences s" "sequences s' \<subseteq># add_mset (in_sequence s) (sequences s)" "unat (in_sequence s') = Suc (unat (in_sequence s))"
  shows "fresh_sequences s'"
  unfolding IngestRuns.fresh_def
proof (intro conjI allI ballI)
  have new: "in_sequence s \<notin># sequences s" using assms(1) by (auto simp: IngestRuns.fresh_def)
  fix q
  have "count (add_mset (in_sequence s) (sequences s)) q \<le> 1" using assms(1) new by (auto simp: IngestRuns.fresh_def not_in_iff)
  then show "count (sequences s') q \<le> 1" using mset_subset_eq_count[OF assms(2), of q] by (rule le_trans[rotated])
next
  fix q assume "q \<in># sequences s'"
  then have "q = in_sequence s \<or> q \<in># sequences s" using mset_subset_eqD[OF assms(2)] by auto
  then show "unat q < unat (in_sequence s')" using assms(1,3) by (auto simp: IngestRuns.fresh_def less_Suc_eq)
qed

lemma fresh_admit_candidate:
  assumes "fresh_sequences s" "\<not> failed_phase (admit_candidate env config c s)"
  shows "fresh_sequences (admit_candidate env config c s)"
proof (cases rule: admit_candidate_cases[of env config c s])
  case (failed e)
  then show ?thesis using assms(2) by (simp add: failed_phase_def)
next
  case (skipped h sz t ts report q)
  have q: "unat q = Suc (unat (in_sequence s))" using skipped(1) by (auto simp: add_or_fail_def ok_or_eq_Inr checked_add_Some_iff unat_word_ariths)
  have "pt_sequence t = in_sequence s" using skipped(2) by simp
  then have "mset (map pt_sequence ts) \<subseteq># add_mset (in_sequence s) (mset (map pt_sequence (in_tickets s)))" using drained_sequences[OF skipped(3)] by simp
  then show ?thesis unfolding skipped(4) by (intro fresh_add[OF assms(1)]) (use q in \<open>simp_all add: sequences_def pipeline_def\<close>)
next
  case (queued q)
  have q: "unat q = Suc (unat (in_sequence s))" using queued(1) by (auto simp: add_or_fail_def ok_or_eq_Inr checked_add_Some_iff unat_word_ariths)
  then show ?thesis unfolding queued(2) by (intro fresh_add[OF assms(1)]) (simp_all add: sequences_def pipeline_def)
qed

lemma received_sequence_new:
  assumes "fresh_sequences s" "in_channel s = c # cs"
  shows "wk_sequence (cw_work c) \<notin> pt_sequence ` set (in_tickets s)"
proof
  assume "wk_sequence (cw_work c) \<in> pt_sequence ` set (in_tickets s)"
  then have "wk_sequence (cw_work c) \<in># mset (map pt_sequence (in_tickets s))" by simp
  then have "count (sequences s) (wk_sequence (cw_work c)) \<ge> 2" using assms(2) by (simp add: sequences_def pipeline_def Suc_le_eq)
  then show False using assms(1) unfolding IngestRuns.fresh_def by (metis Suc_1 not_less_eq_eq)
qed

lemma fresh_receive:
  assumes "fresh_sequences s" "in_channel s = c # cs" "\<not> failed_phase (complete_work env config c (s\<lparr>in_channel := cs\<rparr>))"
  shows "fresh_sequences (complete_work env config c (s\<lparr>in_channel := cs\<rparr>))" (is "fresh_sequences ?s'")
proof (cases rule: complete_work_cases[of env config c "s\<lparr>in_channel := cs\<rparr>"])
  case (failed e)
  then show ?thesis using assms(3) by (simp add: failed_phase_def)
next
  case (finished n blob t ts report)
  let ?rest = "mset (map wk_sequence (in_pending s)) + mset (map wk_sequence (pipeline (s\<lparr>in_channel := cs\<rparr>)))"
  have "pt_sequence t = wk_sequence (cw_work c)" using finished(3) by simp
  then have "mset (map pt_sequence ts) \<subseteq># add_mset (wk_sequence (cw_work c)) (mset (map pt_sequence (in_tickets s)))"
    using drained_sequences[OF finished(4)] by simp
  from subset_mset.add_right_mono[OF this, of ?rest] have "mset (map pt_sequence ts) + ?rest \<subseteq># sequences s"
    using assms(2) by (simp add: sequences_def pipeline_def)
  moreover have "sequences ?s' = mset (map pt_sequence ts) + ?rest" unfolding finished(5) by (simp add: sequences_def pipeline_def)
  ultimately have "sequences ?s' \<subseteq># sequences s" by simp
  then show ?thesis by (rule fresh_mono[OF assms(1)]) (simp add: finished(5))
qed

lemma fresh_same:
  assumes "fresh_sequences s" "in_tickets s' = in_tickets s" "in_pending s' = in_pending s" "in_sequence s' = in_sequence s" "mset (pipeline s') \<subseteq># mset (pipeline s)"
  shows "fresh_sequences s'"
  using image_pipeline_mono[OF assms(5), of wk_sequence] by (intro fresh_mono[OF assms(1) _ assms(4)]) (simp add: sequences_def assms(2,3))

lemma fresh_step:
  assumes "ingest_step env config s s'" "fresh_sequences s" "\<not> failed_phase s'"
  shows "fresh_sequences s'"
  using assms
proof (induction rule: ingest_step.induct)
  case (dispatch s)
  have "in_sequence (dispatch_one (ig_limit config) s) = in_sequence s" by (simp add: dispatch_one_def Let_def split: option.split)
  then show ?case using fresh_mono[OF dispatch(2)] dispatch_sequences by simp
next
  case (admit s)
  have "fresh_sequences (s\<lparr>in_scanner := rest\<rparr>)" "fresh_sequences (s\<lparr>in_done := True, in_phase := p\<rparr>)" "fresh_sequences (s\<lparr>in_phase := p\<rparr>)" for rest p
    by (rule fresh_same[OF admit(2)]; simp)+
  then show ?case using admit(3) fresh_admit_candidate by (auto simp: admit_def fail_def failed_phase_def split: list.splits sum.splits if_splits)
next
  case (receive s c cs)
  then show ?case by (intro fresh_receive)
next
  case (drain s)
  have "sequences (drain_one env s) \<subseteq># sequences s" "in_sequence (drain_one env s) = in_sequence s"
    by (auto simp: drain_one_def fail_def sequences_def pipeline_def split: list.splits sum.splits)
  then show ?case by (rule fresh_mono[OF drain(2)])
next
  case (take_job s w ws)
  then show ?case by (intro fresh_same[OF take_job(3)]) (auto simp: pipeline_def)
next
  case (read_done s xs w ys blob)
  then show ?case by (intro fresh_same[OF read_done(2)]) (auto simp: pipeline_def)
next
  case (send s xs c ys)
  then show ?case by (intro fresh_same[OF send(3)]) (auto simp: pipeline_def)
next
  case (read_fails s xs w ys e)
  then show ?case by (intro fresh_same[OF read_fails(2)]) (auto simp: pipeline_def)
next
  case (writer_fails s e)
  then show ?case by (intro fresh_same[OF writer_fails(2)]) (auto simp: pipeline_def)
next
  case (cancel_job s w ws e)
  then show ?case by (intro fresh_same[OF cancel_job(3)]) (auto simp: pipeline_def)
next
  case (cancel_held s xs c ys e)
  then show ?case by (intro fresh_same[OF cancel_held(3)]) (auto simp: pipeline_def)
qed (simp_all add: fail_def failed_phase_def)

text \<open>A run that has failed stays failed.\<close>

lemma failed_stays: "ingest_step env config s s' \<Longrightarrow> failed_phase s \<Longrightarrow> failed_phase s'"
  by (induction rule: ingest_step.induct) (auto simp: failed_phase_def fail_def)

lemma reachable_fresh:
  assumes "ingest_reachable env config items s"
  shows "failed_phase s \<or> fresh_sequences s"
  using assms
proof (induction rule: ingest_reachable.induct)
  case start
  then show ?case by (simp add: IngestRuns.fresh_def sequences_def ingest_start_def pipeline_def)
next
  case (step s s')
  then show ?case using fresh_step failed_stays by blast
qed


section \<open>What the counters count\<close>

text \<open>The counter of results is the number of results on their way; the channel holds requests of tickets that are still awaited, each once.\<close>

definition retained_exact :: "gauged \<Rightarrow> bool" where
  "retained_exact S \<longleftrightarrow> g_retained S = length (in_held (g_ingest S)) + length (in_channel (g_ingest S)) + (case g_received S of None \<Rightarrow> 0 | Some _ \<Rightarrow> 1)"

definition requests_awaited :: "gauged \<Rightarrow> bool" where
  "requests_awaited S \<longleftrightarrow> distinct (g_requests S) \<and> set (g_requests S) \<subseteq> pt_sequence ` set (in_tickets (g_ingest S))"

definition gauge_inv :: "ingest_config \<Rightarrow> gauged \<Rightarrow> bool" where
  "gauge_inv config S \<longleftrightarrow>
     (\<not> failed_phase (g_ingest S) \<longrightarrow> length (in_tickets (g_ingest S)) < ig_outstanding config \<and> requests_awaited S)
     \<and> (\<forall>c. g_received S = Some c \<longrightarrow> wk_sequence (cw_work c) \<notin> pt_sequence ` set (in_tickets (g_ingest S)))"

lemma remove_nth_length: "i < length xs \<Longrightarrow> length (remove_nth i xs) = length xs - 1"
  by (simp add: remove_nth_def)

lemma retained_exact_step:
  assumes "gauge_step env config l S = Some (S', es)" "retained_exact S" "waits_received S"
  shows "retained_exact S'"
proof (cases l)
  case (Worker w)
  then show ?thesis using assms(1,2)
    by (cases w) (auto simp: retained_exact_def remove_nth_length split: if_splits list.splits)
next
  case Dispatch
  then show ?thesis using assms(1,2) by (auto simp: retained_exact_def Let_def dispatch_one_def split: if_splits option.splits)
next
  case (Admit i j)
  then show ?thesis using assms(1,2) by (auto simp: retained_exact_def Let_def admit_fields split: if_splits)
next
  case DrainOne
  then show ?thesis using assms(1,2) by (auto simp: retained_exact_def Let_def drain_one_fields split: if_splits)
qed (use assms(1,2) in \<open>auto simp: retained_exact_def Let_def fail_def split: if_splits option.splits list.splits\<close>)

lemma admit_outcome:
  assumes "\<not> failed_phase (admit env config s)"
  shows "in_submitted (admit env config s) = in_submitted s \<and> in_tickets (admit env config s) = in_tickets s
    \<or> (\<exists>t. in_submitted (admit env config s) = in_submitted s @ [t] \<and> pt_sequence t = in_sequence s \<and> in_sequence (admit env config s) \<noteq> in_sequence s)"
proof -
  have "in_submitted (admit_candidate env config c u) = in_submitted u \<and> in_tickets (admit_candidate env config c u) = in_tickets u
    \<or> (\<exists>t. in_submitted (admit_candidate env config c u) = in_submitted u @ [t] \<and> pt_sequence t = in_sequence u
          \<and> in_sequence (admit_candidate env config c u) \<noteq> in_sequence u)"
    if "\<not> failed_phase (admit_candidate env config c u)" for c u
  proof (cases rule: admit_candidate_cases[of env config c u])
    case (failed e)
    then show ?thesis using that by (simp add: failed_phase_def)
  next
    case (skipped h sz t ts report q)
    have "unat q = Suc (unat (in_sequence u))" using skipped(1) by (auto simp: add_or_fail_def ok_or_eq_Inr checked_add_Some_iff unat_word_ariths)
    then have "q \<noteq> in_sequence u" by auto
    then show ?thesis using skipped(2) unfolding skipped(4) by simp
  qed simp
  from this[of _ "s\<lparr>in_scanner := _\<rparr>"] show ?thesis using assms
    by (auto simp: admit_def fail_def failed_phase_def split: list.splits sum.splits if_splits)
qed

lemma complete_outcome:
  assumes "\<not> failed_phase (complete_work env config c s)"
  shows "\<exists>t. in_submitted (complete_work env config c s) = in_submitted s @ [t] \<and> pt_sequence t = wk_sequence (cw_work c)"
proof (cases rule: complete_work_cases[of env config c s])
  case (finished n blob t ts report)
  then show ?thesis by (intro exI[of _ t]) (simp add: finished(3,5))
qed (use assms in \<open>simp add: failed_phase_def\<close>)

lemma submit_gauges_requests:
  assumes "submit_gauges config i j kept s s' rs = Some (rs', es)" "in_submitted s' = in_submitted s @ [t]" "kept" "\<not> failed_phase s'"
    "pt_sequence t \<notin> pt_sequence ` set (in_tickets s)" "distinct rs" "set rs \<subseteq> pt_sequence ` set (in_tickets s)"
  shows "distinct rs' \<and> set rs' \<subseteq> pt_sequence ` set (in_tickets s')"
proof -
  have new: "\<forall>t'\<in>set (in_tickets s). pt_sequence t' \<noteq> pt_sequence t" using assms(5) by (metis imageI)
  have aw: "set (insert_ticket t (in_tickets s)) = insert t (set (in_tickets s))" using insert_fresh[OF new] by (metis set_mset_add_mset_insert set_mset_mset)
  have rs': "rs' = drop j (drop i (rs @ [pt_sequence t]))" "answered s' (insert_ticket t (in_tickets s)) rs'"
    using assms(1-3) by (auto simp: submit_gauges_def Let_def split: if_splits)
  have "distinct (rs @ [pt_sequence t])" using assms(5-7) by auto
  then have "distinct rs'" unfolding rs'(1) by (intro distinct_drop)
  moreover have "x \<in> pt_sequence ` set (in_tickets s')" if "x \<in> set rs'" for x
  proof -
    have "x \<in> insert (pt_sequence t) (set rs)" using that rs'(1) by (auto dest!: in_set_dropD)
    then obtain t' where "t' \<in> set (insert_ticket t (in_tickets s))" "x = pt_sequence t'" using assms(7) aw by auto
    then show ?thesis using rs'(2) that assms(4) by (auto simp: answered_def)
  qed
  ultimately show ?thesis by blast
qed

lemma submit_gauges_bounded:
  assumes "submit_gauges config i j kept s s' rs = Some (rs', es)" "length rs \<le> length (in_tickets s)" "length (in_tickets s) < ig_outstanding config"
    "ig_outstanding config \<le> channel_capacity default_writer_config" "QueueOccupancy stage m n cap \<in> set es"
  shows "n \<le> cap \<and> (stage = CatalogRequests \<longrightarrow> n \<le> ig_outstanding config)"
proof -
  obtain t where "es = observe_catalog_occupancy (length (drop i (rs @ [pt_sequence t]))) (length (insert_ticket t (in_tickets s))) (ig_outstanding config)"
    using assms(1,5) by (auto simp: submit_gauges_def Let_def split: list.splits if_splits)
  moreover have "length (drop i (rs @ [q])) \<le> ig_outstanding config" for q using assms(2,3) by simp
  moreover have "length (insert_ticket t (in_tickets s)) \<le> ig_outstanding config" using insert_ticket_length[of t "in_tickets s"] assms(3) by linarith
  ultimately show ?thesis using assms(4,5) by (auto simp: observe_catalog_occupancy_def intro: le_trans)
qed

lemma gauge_step_requests:
  assumes "gauge_step env config l S = Some (S', es)" "gauge_inv config S" "waits_received S" "\<not> failed_phase (g_ingest S')"
    "g_received S = None \<Longrightarrow> failed_phase (g_ingest S) \<or> fresh_sequences (g_ingest S)"
  shows "requests_awaited S'"
proof (cases l)
  case (Admit i j)
  let ?s = "g_ingest S" and ?s' = "admit env config (g_ingest S)"
  obtain rs es' where rs: "submit_gauges config i j (in_sequence ?s' \<noteq> in_sequence ?s) ?s ?s' (g_requests S) = Some (rs, es')"
    "S' = S\<lparr>g_ingest := ?s', g_requests := rs\<rparr>" "in_phase ?s = Admitting" "g_received S = None"
    using assms(1) Admit by (auto simp: Let_def split: if_splits)
  have nf: "\<not> failed_phase ?s" using rs(3) by (simp add: failed_phase_def)
  then have inv: "distinct (g_requests S)" "set (g_requests S) \<subseteq> pt_sequence ` set (in_tickets ?s)" "fresh_sequences ?s"
    using assms(2,5) rs(4) by (auto simp: gauge_inv_def requests_awaited_def)
  have "\<not> failed_phase ?s'" using assms(4) rs(2) by simp
  from admit_outcome[OF this] show ?thesis
  proof
    assume "in_submitted ?s' = in_submitted ?s \<and> in_tickets ?s' = in_tickets ?s"
    then show ?thesis using rs inv by (auto simp: submit_gauges_def requests_awaited_def)
  next
    assume "\<exists>t. in_submitted ?s' = in_submitted ?s @ [t] \<and> pt_sequence t = in_sequence ?s \<and> in_sequence ?s' \<noteq> in_sequence ?s"
    then obtain t where t: "in_submitted ?s' = in_submitted ?s @ [t]" "pt_sequence t = in_sequence ?s" "in_sequence ?s' \<noteq> in_sequence ?s" by blast
    have "pt_sequence t \<notin> pt_sequence ` set (in_tickets ?s)" using fresh_ticket[OF inv(3)] t(2) by (metis image_iff less_irrefl)
    then show ?thesis using submit_gauges_requests[OF rs(1) t(1) t(3) \<open>\<not> failed_phase ?s'\<close> _ inv(1,2)] rs(2) by (simp add: requests_awaited_def)
  qed
next
  case (Complete i j)
  then obtain c where c: "g_received S = Some c" using assms(1) by (auto split: option.splits)
  let ?s = "g_ingest S" and ?s' = "complete_work env config c (g_ingest S)"
  obtain rs es' where rs: "submit_gauges config i j True ?s ?s' (g_requests S) = Some (rs, es')"
    "g_ingest S' = ?s'" "g_requests S' = rs" using assms(1) Complete c by (auto simp: Let_def)
  have "in_phase ?s = Waiting" using assms(3) c by (simp add: waits_received_def)
  then have inv: "distinct (g_requests S)" "set (g_requests S) \<subseteq> pt_sequence ` set (in_tickets ?s)" "wk_sequence (cw_work c) \<notin> pt_sequence ` set (in_tickets ?s)"
    using assms(2) c by (auto simp: gauge_inv_def requests_awaited_def failed_phase_def)
  have nf: "\<not> failed_phase ?s'" using assms(4) rs(2) by simp
  obtain t where t: "in_submitted ?s' = in_submitted ?s @ [t]" "pt_sequence t = wk_sequence (cw_work c)" using complete_outcome[OF nf] by blast
  show ?thesis using submit_gauges_requests[OF rs(1) t(1) TrueI nf _ inv(1,2)] inv(3) t(2) rs(2,3) by (simp add: requests_awaited_def)
next
  case DrainOne
  then have "S' = S\<lparr>g_ingest := drain_one env (g_ingest S)\<rparr>" "answered (g_ingest S') (in_tickets (g_ingest S)) (g_requests S)" "in_phase (g_ingest S) = Draining"
    using assms(1) by (auto simp: Let_def split: if_splits)
  then show ?thesis using assms(2,4) by (fastforce simp: gauge_inv_def requests_awaited_def answered_def failed_phase_def)
next
  case (Worker w)
  then obtain s' where s': "worker_step w (g_ingest S) = Some s'" "g_ingest S' = s'" "g_requests S' = g_requests S" using assms(1) by auto
  then show ?thesis using worker_step_keeps[OF s'(1)] assms(2,4) by (simp add: gauge_inv_def requests_awaited_def failed_phase_def)
next
  case Dispatch
  then show ?thesis using assms(1,2) by (auto simp: gauge_inv_def requests_awaited_def failed_phase_def Let_def dispatch_one_def split: if_splits option.splits)
next
  case WriterTakes
  then show ?thesis using assms(1,2,4) by (auto simp: gauge_inv_def requests_awaited_def split: list.splits)
qed (use assms(1,2,4) in \<open>auto simp: gauge_inv_def requests_awaited_def Let_def fail_def failed_phase_def split: if_splits option.splits list.splits\<close>)


lemma gauge_inv_reachable:
  assumes "gauge_reachable env config items S" "0 < ig_outstanding config"
  shows "gauge_inv config S \<and> retained_exact S"
  using assms
proof (induction rule: gauge_reachable.induct)
  case start
  then show ?case by (simp add: gauge_inv_def requests_awaited_def retained_exact_def gauge_start_def ingest_start_def)
next
  case (step S l S' es)
  note R = gauge_reachable_settled[OF step.hyps(1)] and R' = gauge_reachable_settled[OF gauge_reachable.step[OF step.hyps]]
  have inv: "gauge_inv config S" "retained_exact S" using step.IH step.prems by auto
  have free: "failed_phase (g_ingest S) \<or> fresh_sequences (g_ingest S)" if "g_received S = None"
    using reachable_fresh[OF R(1)] that by (simp add: settled_def)
  have "requests_awaited S'" if "\<not> failed_phase (g_ingest S')" by (rule gauge_step_requests[OF step.hyps(2) inv(1) R(2) that free])
  moreover have "length (in_tickets (g_ingest S')) < ig_outstanding config" if nf: "\<not> failed_phase (g_ingest S')"
  proof (cases "g_received S'")
    case None
    then show ?thesis using tickets_below_limit[OF R'(1) step.prems] nf by (auto simp: settled_def failed_phase_def split: ingest_phase.splits)
  next
    case (Some c)
    then have "in_tickets (g_ingest S') = in_tickets (g_ingest S)" "\<not> failed_phase (g_ingest S)"
      using step.hyps(2) nf worker_step_keeps R'(2)
      by (cases l; auto simp: Let_def waits_received_def failed_phase_def split: if_splits option.splits list.splits)+
    then show ?thesis using inv(1) by (simp add: gauge_inv_def)
  qed
  moreover have "wk_sequence (cw_work c) \<notin> pt_sequence ` set (in_tickets (g_ingest S'))" if c: "g_received S' = Some c" for c
  proof (cases "l = Receive")
    case True
    then obtain cs where "in_channel (g_ingest S) = c # cs" "g_received S = None" "in_phase (g_ingest S) = Waiting" "in_tickets (g_ingest S') = in_tickets (g_ingest S)"
      using step.hyps(2) c by (auto simp: Let_def split: if_splits list.splits)
    then show ?thesis using free received_sequence_new by (auto simp: failed_phase_def)
  next
    case False
    then have "g_received S = Some c" "in_tickets (g_ingest S') = in_tickets (g_ingest S)"
      using step.hyps(2) c worker_step_keeps by (cases l; auto simp: Let_def split: if_splits option.splits list.splits)+
    then show ?thesis using inv(1) by (simp add: gauge_inv_def)
  qed
  ultimately show ?case using retained_exact_step[OF step.hyps(2) inv(2) R(2)] by (simp add: gauge_inv_def)
qed

lemma requests_length:
  assumes "requests_awaited S"
  shows "length (g_requests S) \<le> length (in_tickets (g_ingest S))"
proof -
  have "length (g_requests S) = card (set (g_requests S))" using assms by (simp add: requests_awaited_def distinct_card)
  also have "\<dots> \<le> card (pt_sequence ` set (in_tickets (g_ingest S)))" using assms by (intro card_mono) (auto simp: requests_awaited_def)
  also have "\<dots> \<le> length (in_tickets (g_ingest S))" using card_image_le card_length le_trans by blast
  finally show ?thesis .
qed

lemma work_gauges_bounded:
  assumes "length ws \<le> scheduler_queue_capacity" "\<forall>m. active_count m active \<le> limit" "limit \<le> max_live_source_workers"
    "QueueOccupancy stage m n cap \<in> set (observe_work_occupancy ws active limit)"
  shows "n \<le> cap \<and> stage \<noteq> CatalogRequests"
proof -
  have "length (filter P ws) \<le> scheduler_queue_capacity" for P using assms(1) length_filter_le le_trans by blast
  moreover have "active_count x active \<le> min limit max_live_source_workers" for x using assms(2,3) by simp
  ultimately show ?thesis using assms(1,4) by (auto simp: observe_work_occupancy_def intro!: add_mono)
qed

lemma complete_active:
  assumes "map_of (in_active s) (work_mount (cw_work c)) = Some (Suc n)"
  shows "active_count m (in_active (complete_work env config c s)) = active_count m (AList.update (work_mount (cw_work c)) n (in_active s))"
  using assms by (simp add: complete_work_def fail_def Let_def split: sum.split prod.split)

lemma submitting_bounded:
  assumes "gauge_inv config S" "\<not> failed_phase (g_ingest S)" "ig_outstanding config \<le> channel_capacity default_writer_config"
    "submit_gauges config i j kept (g_ingest S) s' (g_requests S) = Some (rs, es)" "QueueOccupancy stage m n cap \<in> set es"
  shows "n \<le> cap \<and> (stage = CatalogRequests \<longrightarrow> n \<le> ig_outstanding config)"
  by (rule submit_gauges_bounded[OF assms(4) requests_length _ assms(3,5)]) (use assms(1,2) in \<open>auto simp: gauge_inv_def\<close>)


section \<open>Properties\<close>

text \<open>
  C25 (bounds). No gauge an import reports exceeds the capacity reported with it, in any run of the
  coordinator, its workers and the writer, except for one: the scheduler's queue, the work of a
  mount, the requests to the catalog and the answers awaited stay within their capacities, and so
  do the completed results when the coordinator reports them; a worker that finishes a read while
  the coordinator has taken a result from the channel and not yet counted it may report one
  completed result more than the capacity. The request channel never holds more than the batch
  size of the writer, half its capacity, so that a submission never waits for room.
\<close>

theorem reported_occupancy_within_capacity:
  assumes "gauge_reachable env (executor_context config root) items S" "0 < ic_workers_per_mount config"
    "gauge_step env (executor_context config root) l S = Some (S', es)" "QueueOccupancy stage m n cap \<in> set es"
  shows "(n \<le> cap \<or> stage = CompletedBlobs \<and> n = cap + 1 \<and> g_received S \<noteq> None \<and> (\<exists>i blob. l = Worker (ReadDone i blob)))
    \<and> (stage = CatalogRequests \<longrightarrow> n \<le> max_batch_records default_writer_config)"
proof -
  let ?c = "executor_context config root" and ?s = "g_ingest S" and ?s' = "g_ingest S'"
  have cfg: "0 < ig_limit ?c" "ig_limit ?c \<le> max_live_source_workers" "0 < ig_outstanding ?c" "ig_outstanding ?c \<le> channel_capacity default_writer_config"
    "ig_outstanding ?c = max_batch_records default_writer_config"
    using assms(2) by (simp_all add: executor_context_def effective_workers_per_mount_def capacities default_writer_config_def)
  have I: "gauge_inv ?c S" "retained_exact S" using gauge_inv_reachable[OF assms(1) cfg(3)] by auto
  note R = gauge_reachable_settled[OF assms(1)] and R' = gauge_reachable_settled[OF gauge_reachable.step[OF assms(1,3)]]
  note B = reachable_bounded(1)[OF R(1) cfg(1)] and B' = reachable_bounded(1)[OF R'(1) cfg(1)]
  have q: "length (in_held ?s) + length (in_readers ?s) \<le> max_live_source_workers" "length (in_channel ?s) \<le> completion_queue_capacity"
    using B by (auto simp: in_bounds_def settled_def split: option.splits)
  have work: "x \<le> y \<and> st \<noteq> CatalogRequests"
    if "QueueOccupancy st k x y \<in> set (observe_work_occupancy ws active (ig_limit ?c))" "length ws \<le> length (in_pending (settled env ?c S'))"
      "\<forall>m. active_count m active = active_count m (in_active (settled env ?c S'))" for st k x y ws active
    by (rule work_gauges_bounded[OF _ _ cfg(2) that(1)]) (use B' that(2,3) in \<open>auto simp: in_bounds_def\<close>)
  note sub = submitting_bounded[OF I(1) _ cfg(4)]
  show ?thesis
  proof (cases l)
    case Dispatch
    then have "g_received S' = None" "es = [] \<or> es = observe_work_occupancy (in_pending ?s') (in_active ?s') (ig_limit ?c)"
      using assms(3) by (auto simp: Let_def split: if_splits)
    then show ?thesis using assms(4) work[of stage m n cap "in_pending ?s'" "in_active ?s'"] by (auto simp: settled_def)
  next
    case (Admit i j)
    then obtain rs es1 es2 where a: "submit_gauges ?c i j (in_sequence ?s' \<noteq> in_sequence ?s) ?s ?s' (g_requests S) = Some (rs, es2)" "es = es1 @ es2"
      "es1 = [] \<or> es1 = observe_work_occupancy (in_pending ?s') (in_active ?s') (ig_limit ?c)" "g_received S' = None" "in_phase ?s = Admitting"
      using assms(3) by (auto simp: Let_def split: if_splits)
    have "\<not> failed_phase ?s" using a(5) by (simp add: failed_phase_def)
    then show ?thesis using sub[OF _ a(1)] work assms(4) a(2-4) cfg(5) by (fastforce simp: settled_def)
  next
    case (Complete i j)
    then obtain c where c: "g_received S = Some c" using assms(3) by (auto split: option.splits)
    obtain rs es1 es2 where a: "submit_gauges ?c i j True ?s ?s' (g_requests S) = Some (rs, es2)" "es = observe_completed (g_retained S - 1) @ es1 @ es2"
      "es1 = (case map_of (in_active ?s) (work_mount (cw_work c)) of
         Some (Suc n) \<Rightarrow> observe_work_occupancy (in_pending ?s) (AList.update (work_mount (cw_work c)) n (in_active ?s)) (ig_limit ?c) | _ \<Rightarrow> [])"
      "?s' = complete_work env ?c c ?s" "g_received S' = None" using assms(3) Complete c by (auto simp: Let_def)
    have "\<not> failed_phase ?s" using R(2) c by (simp add: waits_received_def failed_phase_def)
    note S = sub[OF this a(1)]
    have "QueueOccupancy st k x y \<in> set es1 \<Longrightarrow> x \<le> y \<and> st \<noteq> CatalogRequests" for st k x y
      using work[of st k x y "in_pending ?s"] complete_active[of ?s c _ _ env ?c] a(3-5) by (auto simp: settled_def split: option.splits nat.splits)
    moreover have "g_retained S - 1 \<le> completed_work_retained_capacity" using I(2) q c by (simp add: retained_exact_def completed_work_retained_capacity_def)
    ultimately show ?thesis using S assms(4) a(2) cfg(5) by (auto simp: observe_completed_def)
  next
    case (Worker w)
    then obtain i blob where r: "w = ReadDone i blob" "i < length (in_readers ?s)" "stage = CompletedBlobs" "n = g_retained S + 1" "cap = completed_work_retained_capacity"
      using assms(3,4) by (cases w) (auto simp: observe_completed_def split: if_splits)
    have "n \<le> cap + (case g_received S of None \<Rightarrow> 0 | Some _ \<Rightarrow> 1)"
      using I(2) q r by (auto simp: retained_exact_def completed_work_retained_capacity_def split: option.splits)
    then show ?thesis using r Worker by (auto split: option.splits)
  qed (use assms(3,4) in \<open>auto simp: Let_def split: if_splits option.splits list.splits\<close>)
qed



section \<open>A crowded pipeline\<close>

text \<open>
  Seventeen files on three mounts. The workers read the first eight and fill the completion channel,
  read eight more and hold them; the coordinator takes one result, a worker sends what it held and
  reads the last file.
\<close>

lemma checked_add_code [code]: "checked_add a b = (if uint a + uint b < 2 ^ 64 then Some (a + b) else None)"
proof -
  have "unat a + unat b < 2 ^ 64 \<longleftrightarrow> int (unat a + unat b) < int (2 ^ 64)" by (simp only: of_nat_less_iff)
  then show ?thesis by (simp add: checked_add_def)
qed

definition wide_config :: import_config where
  "wide_config = import_config1\<lparr>ic_workers_per_mount := 8\<rparr>"

definition crowd_candidate :: "nat \<Rightarrow> source_file_candidate" where
  "crowd_candidate n = sample_candidate\<lparr>sc_mount := MountId (of_nat (n div 8))\<rparr>"

definition crowd :: "source_file_candidate result list" where
  "crowd = map (Inr \<circ> crowd_candidate) [0..<17]"

definition crowd_blob :: stored_blob where
  "crowd_blob = \<lparr>sb_hash = kept_hash, sb_size = 2, sb_outcome = Created\<rparr>"

definition crowd_result :: "nat \<Rightarrow> completed_work" where
  "crowd_result n = \<lparr>cw_work = \<lparr>wk_sequence = of_nat n, wk_candidate = crowd_candidate n\<rparr>, cw_result = Inr crowd_blob\<rparr>"

definition crowd_round :: "nat \<Rightarrow> pipeline_label list" where
  "crowd_round n = [Dispatch, Admit 0 0, Dispatch, Worker TakeJob, Worker (ReadDone 0 crowd_blob)] @ (if n < 8 then [Worker (SendHeld 0)] else [])"

text \<open>The state after \<open>n\<close> rounds, up to sixteen.\<close>

definition crowd_state :: "nat \<Rightarrow> gauged" where
  "crowd_state n =
     \<lparr>g_ingest = (ingest_start (drop n crowd))
        \<lparr>in_active := (if n = 0 then [] else if n \<le> 8 then [(MountId 0, n)] else [(MountId 0, 8), (MountId 1, n - 8)]),
         in_last := (if n = 0 then None else Some (MountId (of_nat ((n - 1) div 8)))), in_sequence := of_nat n,
         in_report := (empty_import_report False)\<lparr>files_seen := of_nat n, bytes_seen := of_nat (2 * n)\<rparr>,
         in_held := map crowd_result [8..<n], in_channel := map crowd_result [0..<min n 8]\<rparr>,
      g_received = None, g_retained = n, g_requests = []\<rparr>"

definition crowd_last :: "pipeline_label list" where
  "crowd_last = [Dispatch, Admit 0 0, Dispatch, Dispatch, Admit 0 0, Dispatch, Admit 0 0, Receive, Worker (SendHeld 0), Worker TakeJob]"

abbreviation crowd_config :: ingest_config where
  "crowd_config \<equiv> executor_context wide_config ''/src''"

definition crowd_step_ok :: "nat \<Rightarrow> bool" where
  "crowd_step_ok n \<longleftrightarrow> map_option fst (gauge_run sample_env crowd_config (crowd_round n) (crowd_state n)) = Some (crowd_state (Suc n))"

lemma crowd_steps1: "list_all crowd_step_ok [0..<6]"
  by code_simp

lemma crowd_steps2: "list_all crowd_step_ok [6..<11]"
  by code_simp

lemma crowd_steps3: "list_all crowd_step_ok [11..<16]"
  by code_simp

lemmas crowd_steps = crowd_steps1 crowd_steps2 crowd_steps3

lemma gauge_run_reachable:
  "gauge_reachable env config items S \<Longrightarrow> gauge_run env config ls S = Some (S', es) \<Longrightarrow> gauge_reachable env config items S'"
  by (induction ls arbitrary: S es) (auto split: option.splits prod.splits intro: gauge_reachable.step)

lemma crowd_reachable: "n \<le> 16 \<Longrightarrow> gauge_reachable sample_env crowd_config crowd (crowd_state n)"
proof (induction n)
  case 0
  have "crowd_state 0 = gauge_start crowd" by code_simp
  then show ?case by (simp add: gauge_reachable.start)
next
  case (Suc n)
  then have "n < 6 \<or> 6 \<le> n \<and> n < 11 \<or> 11 \<le> n \<and> n < 16" by linarith
  then have "crowd_step_ok n" using crowd_steps unfolding list_all_iff set_upt by (metis atLeastLessThan_iff le0)
  then show ?case using Suc gauge_run_reachable[of sample_env crowd_config crowd "crowd_state n" "crowd_round n"] by (auto simp: crowd_step_ok_def)
qed

lemma crowd_end:
  "case gauge_run sample_env crowd_config crowd_last (crowd_state 16) of
     Some (S, es) \<Rightarrow> map_option snd (gauge_step sample_env crowd_config (Worker (ReadDone 0 crowd_blob)) S) = Some (observe_completed 17)
   | None \<Rightarrow> False"
  by code_simp

text \<open>The exception occurs: a run in which a worker reports 17 completed results for a capacity of 16.\<close>

lemma completed_gauge_exceeds_capacity:
  "\<exists>S S' l. gauge_reachable sample_env crowd_config crowd S \<and> gauge_step sample_env crowd_config l S = Some (S', [QueueOccupancy CompletedBlobs None 17 16])"
proof -
  obtain S es where S: "gauge_run sample_env crowd_config crowd_last (crowd_state 16) = Some (S, es)"
    "map_option snd (gauge_step sample_env crowd_config (Worker (ReadDone 0 crowd_blob)) S) = Some (observe_completed 17)"
    using crowd_end by (auto split: option.splits)
  have "gauge_reachable sample_env crowd_config crowd S" by (rule gauge_run_reachable[OF crowd_reachable S(1)]) simp
  moreover obtain S' where "gauge_step sample_env crowd_config (Worker (ReadDone 0 crowd_blob)) S = Some (S', observe_completed 17)" using S(2) by auto
  moreover have "observe_completed 17 = [QueueOccupancy CompletedBlobs None 17 16]"
    by (simp add: observe_completed_def completed_work_retained_capacity_def capacities)
  ultimately show ?thesis by metis
qed

theorem reported_occupancy_within_capacity_witness:
  "\<exists>S S' l. gauge_reachable sample_env crowd_config crowd S \<and> gauge_step sample_env crowd_config l S = Some (S', [QueueOccupancy CompletedBlobs None 17 16])
     \<and> g_received S \<noteq> None"
proof -
  obtain S S' l where S: "gauge_reachable sample_env crowd_config crowd S" "gauge_step sample_env crowd_config l S = Some (S', [QueueOccupancy CompletedBlobs None 17 16])"
    using completed_gauge_exceeds_capacity by blast
  have "0 < ic_workers_per_mount wide_config" by (simp add: wide_config_def)
  then show ?thesis using S reported_occupancy_within_capacity[OF S(1) _ S(2), of CompletedBlobs None 17 16] by auto
qed

end
