(* ===== verification/Spec2Isabelle.thy ===== *)
theory Spec2Isabelle
  imports Utf8 Hashing GcRuns Config WriterRuns IngestRuns StoreAudit Dashboard SharedRead GcTelemetry QueueGauges
begin

text \<open>
  A verification library for \<^verbatim>\<open>media-importer\<close>, a command that imports media files into a
  content-addressed store with an SQLite catalog, builds browse trees of symbolic links, audits the
  store and collects garbage. The sources are those of \<^verbatim>\<open>src/crates/media-importer/src\<close>; file and
  function names below are relative to it, and definitions keep the names of the functions they
  translate.

  \<^bold>\<open>The program and its parts.\<close> A command resolves its options into a validated configuration
  (\<^verbatim>\<open>config.rs\<close>, \<^verbatim>\<open>paths.rs\<close>), takes a lock on the store directory (\<^verbatim>\<open>run_lock.rs\<close>) and works on two
  pieces of durable state: the blob tree of the store (\<^verbatim>\<open>store.rs\<close>), where the file of a blob is named
  by the BLAKE3 hash of its content (\<^verbatim>\<open>hashing.rs\<close>), and the catalog (\<^verbatim>\<open>catalog.rs\<close> and its SQL files),
  with a row for every blob and every source file seen. An import (\<^verbatim>\<open>ingest.rs\<close>, \<^verbatim>\<open>scanner.rs\<close>) scans a
  directory, skips what the catalog already knows, lets worker threads copy the rest into the store,
  and sends records to the writer thread of the catalog, which commits them in batches. Garbage
  collection (\<^verbatim>\<open>gc.rs\<close>) marks, resurrects and sweeps blobs; the audit (\<^verbatim>\<open>audit.rs\<close>) compares catalog,
  tree and contents; \<^verbatim>\<open>build-tree\<close> (\<^verbatim>\<open>materialize.rs\<close>) materialises the catalog as symbolic links. All
  of them report through a bounded transport to a renderer thread (\<^verbatim>\<open>telemetry.rs\<close>). \<^verbatim>\<open>cli.rs\<close> and \<^verbatim>\<open>main.rs\<close>
  turn arguments into a configuration, run one command and end with its report and an exit status.

  \<^bold>\<open>Common vocabulary.\<close> \<open>Prelude\<close> has Rust's \<open>Result\<close> as a sum whose left side is an error of the
  program, \<open>?\<close> as \<open>bind_result\<close>, loops that stop at the first error as \<open>fold_result\<close>, and checked
  arithmetic on \<open>u64\<close>, a 64 bit word. \<open>Utf8\<close> has validation and decoding of byte strings. Strings are
  lists of bytes, as \<open>OsStr\<close> is on the platforms the program supports.

  \<^bold>\<open>Theories and sources.\<close>
  \<^item> \<open>Paths\<close>: \<^verbatim>\<open>paths.rs\<close> and what it uses of \<open>std::path\<close>: hashes, catalog-relative paths, the layout
    of the store, names and targets of links, overlap of directories. Shown: the layout is injective,
    link targets resolve back, accepted directories are disjoint.
  \<^item> \<open>Hashing\<close>: \<^verbatim>\<open>hashing.rs\<close>. The two loops over a reader are option valued; for a reader of finite
    content they are shown to return, with the digest of that content and, when copying, with the
    content written.
  \<^item> \<open>Integrity\<close>: \<^verbatim>\<open>integrity.rs\<close>: order, deduplication and one-line rendering of findings.
  \<^item> \<open>Database\<close>, \<open>Catalog\<close>, \<open>Inspect\<close>: the tables with SQLite's storage classes, the statements of
    \<^verbatim>\<open>catalog/sql\<close>, and the transactions, lookups and inspection of \<^verbatim>\<open>catalog.rs\<close>. Shown: every
    statement keeps the constraints of the schema; recording an import refines an abstract update of
    two keyed tables; an inspection is clean exactly for consistent catalogs, and recording an import
    keeps a catalog consistent exactly if the observation has a path that can be read back and a time
    not before the first one, which the code does not check.
  \<^item> \<open>Writer\<close>, \<open>WriterRuns\<close>: the writer thread of \<^verbatim>\<open>catalog.rs\<close> as a state with its working and durable
    tables and its queue of commands. Shown: the durable catalog is that of a serial history of whole
    transactions, every ticket is answered once, a failing batch blames its record.
  \<^item> \<open>Filesystem\<close>, \<open>Store\<close>: \<open>std::fs\<close> on a finite tree with symbolic links, inodes and injected faults,
    and \<^verbatim>\<open>store.rs\<close> on it. Shown: a file ingested under a free name is installed with its content,
    read-only and without leftovers; a file of the same length that is already there is kept unread,
    and a store whose blobs have the digests they are named by stays one; the inspection of the tree
    lists exactly the blobs. \<open>StagingPurge\<close>: what purging the staging directory removes and keeps.
  \<^item> \<open>RunLock\<close>: \<^verbatim>\<open>run_lock.rs\<close>: opening and checking the store directory; the system call is a parameter.
  \<^item> \<open>Gc\<close>, \<open>GcSafety\<close>, \<open>GcRuns\<close>: \<^verbatim>\<open>gc.rs\<close>. The two traits that the application of a plan relies on are
    the locales \<open>gc_catalog\<close> and \<open>gc_store\<close>, joined in \<open>gc_run\<close>; they are interpreted on the catalog
    session and the file system. Shown: whatever fails, referenced blobs keep row and file; a completed
    run did exactly its plan; a dry run predicts the real one.
  \<^item> \<open>Materialize\<close>, \<open>BrowseTree\<close>: \<^verbatim>\<open>materialize.rs\<close>, with the lock and the purge of the staging
    directory. Shown: entries the program does not own stay, except directories left without anything
    but stale links, and a successful run leaves exactly the links the catalog asks for.
  \<^item> \<open>Config\<close>: \<^verbatim>\<open>config.rs\<close> and the validated roots of \<^verbatim>\<open>paths.rs\<close>. Shown: what an accepted
    configuration guarantees.
  \<^item> \<open>Ingest\<close>, \<open>IngestRuns\<close>: \<^verbatim>\<open>scanner.rs\<close> and \<^verbatim>\<open>ingest.rs\<close>. Decisions, dry run and report are functions;
    the coordinator, the source workers and the outcomes of the writer are the step relation
    \<open>ingest_step\<close>, so a run is any interleaving. Shown: queues stay within their capacities, a waiting
    coordinator always has a worker to wait for, every run ends, and a finished run has accounted for
    every file once.
  \<^item> \<open>StoreAudit\<close>: \<^verbatim>\<open>audit.rs\<close>. Shown: an audit is clean exactly when catalog, tree and
    contents agree.
  \<^item> \<open>Telemetry\<close>, \<open>TelemetryRuns\<close>, \<open>Dashboard\<close>: \<^verbatim>\<open>telemetry.rs\<close> and the observer of \<^verbatim>\<open>ingest.rs\<close>. The
    locale \<open>metric\<close> states what a quantity must satisfy to survive coalescing; it is interpreted for
    every counter of the dashboard and for the collection of failures. Shown: counters are exact and
    plain facts complete and ordered at any pace of the renderer, and source workers never wait.
  \<^item> \<open>SharedRead\<close>: the copy of a catalog that audits and dry runs read (\<^verbatim>\<open>catalog.rs\<close>). Shown: it touches
    only its own directory, is faithful, and is opened by a URI that names exactly its file.
  \<^item> \<open>Jsonl\<close>: the JSON Lines sink of \<^verbatim>\<open>telemetry.rs\<close>. Shown: a stream of records reads back.
  \<^item> \<open>Cli\<close>: \<^verbatim>\<open>cli.rs\<close> and \<^verbatim>\<open>main.rs\<close>: configurations, reports, framing events, exit status. Shown: the exit
    status is the verdict of the command, what that says of the store after an audit, and that the
    output in JSON Lines mode reads back with exactly one terminal record.
  \<^item> \<open>GcTelemetry\<close>: the events of \<^verbatim>\<open>gc.rs\<close>. Shown: the dashboard after a completed collection shows the
    numbers of its report.
  \<^item> \<open>ImportRuns\<close>: the handle of the writer and the outer functions of \<^verbatim>\<open>ingest.rs\<close>, where the coordinator of
    \<open>IngestRuns\<close> and the writer of \<open>WriterRuns\<close> meet: requests go through a channel in order and the
    writer's responses are the answers the coordinator reads. Shown: what exit status 0 of an import
    means for the catalog, and that the next import recognises the files.
  \<^item> \<open>QueueGauges\<close>: the occupancies that the coordinator and its workers report. The machine of labelled
    steps \<open>gauge_step\<close> adds to \<open>ingest_step\<close> the length of the writer's request channel, the counter of
    completed results and the moment between taking a result and counting it; every run of it is
    a run of \<open>ingest_step\<close>. Shown: every gauge is within the capacity it is reported with, except that
    a worker that finishes in that moment may report one completed result too many; a schedule of
    seventeen files that does so is computed.

  \<^bold>\<open>Parameters.\<close> Code outside the sources is an argument of the definitions that use it: the BLAKE3
  crate (its laws are stated where they are used, as that hashing chunks is hashing their
  concatenation), readers and writers, which calls of SQLite and of the file system fail, the clock,
  the order of the \<^verbatim>\<open>walkdir\<close> crate, the verdicts of telemetry, the system call that takes the advisory
  lock, the pace and failures of a renderer, the object writer of the \<^verbatim>\<open>serde_json\<close> crate with a parser
  that reads its objects back, the results of writes to standard output, the name of
  a temporary directory, and, in \<open>ImportRuns\<close>, what
  lookups in the open catalog answer while an import runs.

  \<^bold>\<open>Bounds and fuel.\<close> Following symbolic links is bounded by the 40 traversals of the platform. The
  two recursive walks of \<^verbatim>\<open>store.rs\<close> have fuel of two more than the longest path of the tree, which
  the theorems about them show to be enough. Queue capacities, the eight source workers, the 256
  events of the renderer's inbox and the eight pending failures are the constants of the code. Counters
  are words; where the code checks an addition the model does, and the counters of the dashboard wrap
  as unchecked addition does in a release build.

  \<^bold>\<open>Not modelled.\<close> The parsing of argument strings, which is the work of the \<^verbatim>\<open>clap\<close> crate, and the texts
  of errors; the drawing of the terminal and its rates in \<^verbatim>\<open>telemetry.rs\<close>; the pragmas of a
  connection; the accounting of readers per mount, poisoned locks and failing allocations; the pause
  points of \<^verbatim>\<open>test_probe.rs\<close>, which production builds disable. A statement of a transaction fails
  in the model when its checks fail; that SQLite itself fails is modelled for the begin, commit,
  rollback and checkpoint of a transaction, not for the statements inside it, which the program rolls
  back in the same way. Faults of the file system are fixed for each operation and path during a run.
  In \<open>Telemetry\<close>, producers call the transport one after the other. In \<open>IngestRuns\<close> the blob that a
  finished read yields is arbitrary, so that its theorems hold for whatever \<open>Store\<close> returns.
\<close>

end
